(* ===== verification/Prelude.thy ===== *)
theory Prelude
  imports Main "HOL-Library.Word"
begin

text \<open>
  Shared vocabulary of the development: outcomes of C code that runs inside a PHP extension
  (a result, a thrown exception, undefined behaviour), the character classes and numeric
  scanners of the C library that the sources call, and the word lemmas that the component
  theories use. Nothing here is specific to one source file.
\<close>

named_theorems num_simps \<open>unfolding rules of the numeric classes\<close>

section \<open>Outcomes\<close>

text \<open>
  The exception classes of \<^verbatim>\<open>ext/src/Exception\<close> that the modelled code throws. A C function
  that throws and returns is \<open>Throw e\<close>; an operation whose behaviour the C standard leaves
  undefined (signed overflow, a null or out-of-bounds access) is \<open>UB\<close>.
\<close>

datatype exn =
    InvalidArgumentException
  | RangeException
  | DivideByZeroException
  | RuntimeException
  | TimeoutException
  | BadFunctionCallException \<comment> \<open>of PHP itself\<close>
  | CassException nat \<comment> \<open>of the class that \<^verbatim>\<open>exception_class\<close> gives for the error code\<close>

datatype 'a outcome = Ok 'a | Throw exn | UB

fun bind_outcome :: "'a outcome \<Rightarrow> ('a \<Rightarrow> 'b outcome) \<Rightarrow> 'b outcome" where
  "bind_outcome (Ok x) f = f x"
| "bind_outcome (Throw e) f = Throw e"
| "bind_outcome UB f = UB"

lemma bind_outcome_Ok_iff:
  "bind_outcome m f = Ok y \<longleftrightarrow> (\<exists>x. m = Ok x \<and> f x = Ok y)"
  by (cases m) auto

lemma bind_outcome_UB_iff:
  "bind_outcome m f = UB \<longleftrightarrow> m = UB \<or> (\<exists>x. m = Ok x \<and> f x = UB)"
  by (cases m) auto

text \<open>Two outcomes that return the same results and throw at most \<open>e\<close> are equal.\<close>

lemma outcome_eqI:
  assumes "\<And>z. m = Ok z \<longleftrightarrow> m' = Ok z"
    and "(\<exists>z. m = Ok z) \<or> m = Throw e" and "(\<exists>z. m' = Ok z) \<or> m' = Throw e"
  shows "m = m'"
proof (cases "\<exists>z. m = Ok z")
  case True
  then show ?thesis using assms(1) by metis
next
  case False
  then have "m = Throw e" "m' = Throw e" using assms by blast+
  then show ?thesis by simp
qed

section \<open>Characters of the C locale\<close>

abbreviation NUL :: char where "NUL \<equiv> CHR 0x00"

definition isdigit :: "char \<Rightarrow> bool" where
  "isdigit c \<longleftrightarrow> 48 \<le> (of_char c :: nat) \<and> (of_char c :: nat) \<le> 57"

definition isupper :: "char \<Rightarrow> bool" where
  "isupper c \<longleftrightarrow> 65 \<le> (of_char c :: nat) \<and> (of_char c :: nat) \<le> 90"

definition islower :: "char \<Rightarrow> bool" where
  "islower c \<longleftrightarrow> 97 \<le> (of_char c :: nat) \<and> (of_char c :: nat) \<le> 122"

definition isalnum :: "char \<Rightarrow> bool" where
  "isalnum c \<longleftrightarrow> isdigit c \<or> isupper c \<or> islower c"

definition isxdigit :: "char \<Rightarrow> bool" where
  "isxdigit c \<longleftrightarrow> isdigit c \<or> (65 \<le> (of_char c :: nat) \<and> (of_char c :: nat) \<le> 70)
     \<or> (97 \<le> (of_char c :: nat) \<and> (of_char c :: nat) \<le> 102)"

definition isspace :: "char \<Rightarrow> bool" where
  "isspace c \<longleftrightarrow> (of_char c :: nat) = 32 \<or> (9 \<le> (of_char c :: nat) \<and> (of_char c :: nat) \<le> 13)"

definition tolower :: "char \<Rightarrow> char" where
  "tolower c = (if isupper c then char_of ((of_char c :: nat) + 32) else c)"

lemmas ctype_defs = isdigit_def isupper_def islower_def isalnum_def isxdigit_def isspace_def

text \<open>
  A PHP string is a buffer with a length and one terminating NUL after it; \<open>cget s i\<close> is the
  character a C expression \<^verbatim>\<open>s[i]\<close> reads for \<open>i \<le> length s\<close>.
\<close>

definition cget :: "string \<Rightarrow> nat \<Rightarrow> char" where
  "cget s i = (if i < length s then s ! i else NUL)"

definition strlen :: "string \<Rightarrow> nat" where
  "strlen s = length (takeWhile (\<lambda>c. c \<noteq> NUL) s)"

definition cstr :: "string \<Rightarrow> string" where
  "cstr s = takeWhile (\<lambda>c. c \<noteq> NUL) s"

lemma cget_0 [simp]: "cget (c # cs) 0 = c"
  by (simp add: cget_def)

lemma cget_Nil [simp]: "cget [] i = NUL"
  by (simp add: cget_def)

lemma cget_Cons_Suc [simp]: "cget (c # cs) (Suc i) = cget cs i"
  by (simp add: cget_def)

lemma cget_1 [simp]: "cget (c # cs) 1 = cget cs 0"
  by (simp add: cget_def)

lemma cget_drop: "cget (drop i s) j = cget s (i + j)"
  by (auto simp: cget_def)

lemma cstr_id: "NUL \<notin> set s \<Longrightarrow> cstr s = s"
  unfolding cstr_def by (rule takeWhile_eq_all_conv [THEN iffD2]) auto

lemma strlen_cstr: "strlen s = length (cstr s)"
  by (simp add: strlen_def cstr_def)

section \<open>Digits in a base\<close>

definition digit_char :: "nat \<Rightarrow> char" where
  "digit_char d = char_of (if d < 10 then 48 + d else 87 + d)"

definition digit_val :: "char \<Rightarrow> nat option" where
  "digit_val c =
     (if isdigit c then Some (of_char c - 48)
      else if islower c then Some (of_char c - 87)
      else if isupper c then Some (of_char c - 55)
      else None)"

text \<open>\<open>show_nat b n\<close> is the output of the printf conversions \<^verbatim>\<open>%d\<close> (\<open>b = 10\<close>) and \<^verbatim>\<open>%x\<close> (\<open>b = 16\<close>).\<close>

fun show_nat :: "nat \<Rightarrow> nat \<Rightarrow> string" where
  "show_nat b n =
     (if n < b \<or> b < 2 then [digit_char n] else show_nat b (n div b) @ [digit_char (n mod b)])"

declare show_nat.simps [simp del]

definition show_int :: "int \<Rightarrow> string" where
  "show_int k = (if k < 0 then CHR ''-'' # show_nat 10 (nat (- k)) else show_nat 10 (nat k))"

text \<open>\<open>scan_digits b acc s\<close> reads the longest run of base-\<open>b\<close> digits, as \<^verbatim>\<open>strtoul\<close> and \<^verbatim>\<open>sscanf\<close> do.\<close>

fun scan_digits :: "nat \<Rightarrow> nat \<Rightarrow> string \<Rightarrow> nat \<times> string" where
  "scan_digits b acc [] = (acc, [])"
| "scan_digits b acc (c # cs) =
     (case digit_val c of
        Some d \<Rightarrow> if d < b then scan_digits b (acc * b + d) cs else (acc, c # cs)
      | None \<Rightarrow> (acc, c # cs))"

definition digit_in :: "nat \<Rightarrow> char \<Rightarrow> bool" where
  "digit_in b c = (case digit_val c of Some d \<Rightarrow> d < b | None \<Rightarrow> False)"

definition num_end :: "nat \<Rightarrow> string \<Rightarrow> bool" where
  "num_end b s \<longleftrightarrow> (case s of [] \<Rightarrow> True | c # _ \<Rightarrow> \<not> digit_in b c)"

lemma of_char_digit_char:
  "d < 36 \<Longrightarrow> (of_char (digit_char d) :: nat) = (if d < 10 then 48 + d else 87 + d)"
  by (simp add: digit_char_def)

lemma digit_val_digit_char [simp]: "d < 36 \<Longrightarrow> digit_val (digit_char d) = Some d"
  by (simp add: digit_val_def ctype_defs of_char_digit_char)

lemma digit_in_digit_char [simp]: "d < b \<Longrightarrow> b \<le> 36 \<Longrightarrow> digit_in b (digit_char d)"
  by (simp add: digit_in_def)

lemma isxdigit_digit_char [simp]: "d < 16 \<Longrightarrow> isxdigit (digit_char d)"
  by (simp add: ctype_defs of_char_digit_char)

lemma isdigit_digit_char [simp]: "d < 10 \<Longrightarrow> isdigit (digit_char d)"
  by (simp add: ctype_defs of_char_digit_char)

lemma show_nat_small: "n < b \<Longrightarrow> show_nat b n = [digit_char n]"
  by (subst show_nat.simps) simp

lemma show_nat_big:
  "b \<le> n \<Longrightarrow> 2 \<le> b \<Longrightarrow> show_nat b n = show_nat b (n div b) @ [digit_char (n mod b)]"
  by (subst show_nat.simps) simp

lemma show_nat_induct [consumes 1, case_names small big]:
  assumes b: "2 \<le> b"
    and small: "\<And>n. n < b \<Longrightarrow> P n"
    and big: "\<And>n. b \<le> n \<Longrightarrow> P (n div b) \<Longrightarrow> P n"
  shows "P (n::nat)"
proof (induction n rule: less_induct)
  case (less n)
  show ?case
  proof (cases "n < b")
    case True
    then show ?thesis by (rule small)
  next
    case False
    with b have "n div b < n" by simp
    then have "P (n div b)" by (rule less)
    with False show ?thesis by (simp add: big)
  qed
qed

lemma show_nat_nonempty [simp]: "show_nat b n \<noteq> []"
  by (subst show_nat.simps) simp

lemma show_nat_digits:
  assumes "2 \<le> b" and "b \<le> 36"
  shows "\<forall>c \<in> set (show_nat b n). digit_in b c"
  using assms(1)
proof (induction n rule: show_nat_induct)
  case (small n)
  with assms show ?case by (simp add: show_nat_small)
next
  case (big n)
  with assms show ?case by (simp add: show_nat_big)
qed

lemma scan_digits_append:
  assumes "\<forall>c \<in> set s. digit_in b c"
  shows "scan_digits b acc (s @ t) = scan_digits b (fst (scan_digits b acc s)) t"
  using assms
  by (induction s arbitrary: acc) (auto simp: digit_in_def split: option.splits)

lemma scan_digits_all:
  assumes "\<forall>c \<in> set s. digit_in b c"
  shows "snd (scan_digits b acc s) = []"
  using assms
  by (induction s arbitrary: acc) (auto simp: digit_in_def split: option.splits)

lemma scan_digits_stop: "num_end b t \<Longrightarrow> scan_digits b acc t = (acc, t)"
  by (cases t) (auto simp: num_end_def digit_in_def split: option.splits)

lemma scan_digits_acc:
  assumes "\<forall>c \<in> set s. digit_in b c"
  shows "fst (scan_digits b acc s) = acc * b ^ length s + fst (scan_digits b 0 s)"
  using assms
proof (induction s arbitrary: acc)
  case Nil
  then show ?case by simp
next
  case (Cons c s)
  then obtain d where d: "digit_val c = Some d" "d < b"
    by (auto simp: digit_in_def split: option.splits)
  from Cons.prems have s: "\<forall>c \<in> set s. digit_in b c" by simp
  have "fst (scan_digits b (acc * b + d) s) = (acc * b + d) * b ^ length s + fst (scan_digits b 0 s)"
    by (rule Cons.IH [OF s])
  moreover have "fst (scan_digits b d s) = d * b ^ length s + fst (scan_digits b 0 s)"
    by (rule Cons.IH [OF s])
  ultimately show ?case using d by (simp add: algebra_simps)
qed

lemma scan_show_nat:
  assumes "2 \<le> b" and "b \<le> 36"
  shows "fst (scan_digits b 0 (show_nat b n)) = n"
  using assms(1)
proof (induction n rule: show_nat_induct)
  case (small n)
  with assms show ?case by (simp add: show_nat_small)
next
  case (big n)
  have "n mod b < b" using assms by simp
  then have "digit_val (digit_char (n mod b)) = Some (n mod b)"
    using assms by (intro digit_val_digit_char) linarith
  with assms big have "fst (scan_digits b 0 (show_nat b (n div b) @ [digit_char (n mod b)])) = n"
    by (simp add: scan_digits_append show_nat_digits)
  with big assms show ?case by (simp add: show_nat_big)
qed

text \<open>Reading back what \<^verbatim>\<open>printf\<close> wrote, with anything but a digit after it.\<close>

lemma scan_digits_show_nat:
  assumes "2 \<le> b" and "b \<le> 36" and "num_end b t"
  shows "scan_digits b 0 (show_nat b n @ t) = (n, t)"
  using assms by (simp add: scan_digits_append show_nat_digits scan_digits_stop scan_show_nat)

lemma show_nat_length:
  assumes "2 \<le> b"
  shows "n < b ^ k \<Longrightarrow> 0 < k \<Longrightarrow> length (show_nat b n) \<le> k"
proof (induction k arbitrary: n)
  case 0
  then show ?case by simp
next
  case (Suc k)
  show ?case
  proof (cases "n < b")
    case True
    then show ?thesis by (simp add: show_nat_small)
  next
    case False
    then have k: "0 < k" using Suc.prems by (cases k) auto
    have "n div b < b ^ k" using Suc.prems assms
      by (simp add: less_mult_imp_div_less mult.commute)
    with Suc.IH k have "length (show_nat b (n div b)) \<le> k" by simp
    with False assms show ?thesis by (simp add: show_nat_big)
  qed
qed

lemma digit_in_no_nul: "digit_in b c \<Longrightarrow> c \<noteq> NUL"
  by (auto simp: digit_in_def digit_val_def ctype_defs)

lemma show_nat_no_nul: "2 \<le> b \<Longrightarrow> b \<le> 36 \<Longrightarrow> NUL \<notin> set (show_nat b n)"
  using show_nat_digits digit_in_no_nul by blast

section \<open>Signed machine integers\<close>

definition in_int :: "nat \<Rightarrow> int \<Rightarrow> bool" where
  "in_int w k \<longleftrightarrow> - (2 ^ (w - 1)) \<le> k \<and> k < 2 ^ (w - 1)"

text \<open>C's \<^verbatim>\<open>/\<close> and \<^verbatim>\<open>%\<close> on signed integers truncate towards zero.\<close>

definition cdiv :: "int \<Rightarrow> int \<Rightarrow> int" where
  "cdiv a b = sgn a * sgn b * (\<bar>a\<bar> div \<bar>b\<bar>)"

definition cmod :: "int \<Rightarrow> int \<Rightarrow> int" where
  "cmod a b = a - b * cdiv a b"

lemma sint_in_int: "in_int LENGTH('a) (sint (w :: 'a::len word))"
  using sint_ge [of w] sint_lt [of w] by (simp add: in_int_def)

lemma sint_of_int_in:
  "in_int LENGTH('a) k \<Longrightarrow> sint (word_of_int k :: 'a::len word) = k"
  by (simp add: in_int_def signed_take_bit_int_eq_self sint_sbintrunc')

lemma sint_of_int_iff:
  "sint (word_of_int k :: 'a::len word) = k \<longleftrightarrow> in_int LENGTH('a) k"
  using sint_of_int_in sint_in_int by metis

lemma cdiv_zero_left [simp]: "cdiv 0 b = 0"
  by (simp add: cdiv_def)

lemma abs_cdiv: "b \<noteq> 0 \<Longrightarrow> \<bar>cdiv a b\<bar> = \<bar>a\<bar> div \<bar>b\<bar>"
  by (auto simp: cdiv_def abs_mult abs_sgn_eq pos_imp_zdiv_nonneg_iff)

lemma abs_div_le: "\<bar>a\<bar> div \<bar>b :: int\<bar> \<le> \<bar>a\<bar>"
proof (cases "b = 0")
  case False
  then have "\<bar>a\<bar> div \<bar>b\<bar> \<le> \<bar>a\<bar> div 1" by (intro zdiv_mono2) auto
  then show ?thesis by simp
qed simp

lemma sint_ucast_int: "in_int 32 (sint (l :: 64 word)) \<Longrightarrow> sint (ucast l :: 32 word) = sint l"
proof -
  assume l: "in_int 32 (sint l)"
  have w: "l = word_of_int (sint l)" by simp
  have "(ucast l :: 32 word) = word_of_int (sint l)"
    by (subst w) (simp add: unsigned_of_int word_of_int_eq_iff take_bit_take_bit del: of_int_sint)
  then show ?thesis using l sint_of_int_in [of "sint l", where 'a = 32] by (simp del: of_int_sint)
qed

end
