(* ===== verification/Uthash.thy ===== *)
theory Uthash
  imports Prelude
begin

text \<open>
  \<^verbatim>\<open>ext/util/uthash.h\<close>, instantiated in \<^verbatim>\<open>ext/util/hash.h\<close>: the hash table behind the classes \<^verbatim>\<open>Set\<close> and
  \<^verbatim>\<open>Map\<close>. An element is its address; a table keeps the elements in insertion order (the
  \<^verbatim>\<open>hh.next\<close> list from the head to \<^verbatim>\<open>tail\<close>), the bucket chains (\<^verbatim>\<open>hh_next\<close> lists), and for each element the
  key and the stored hash. A null head is \<open>None\<close>. The hash function and the key comparison are
  arguments, as they are macros in the source. Counters are natural numbers: a table whose counters
  overflow 32 bits does not fit in memory.
\<close>

unbundle bit_operations_syntax

type_synonym addr = nat

record ut_bucket =
  hh_head :: "addr list"
  bkt_count :: nat
  expand_mult :: nat

record 'k ut_table =
  num_buckets :: nat
  log2_num_buckets :: nat
  num_items :: nat
  order :: "addr list"
  buckets :: "ut_bucket list"
  ideal_chain_maxlen :: nat
  nonideal_items :: nat
  ineff_expands :: nat
  noexpand :: bool
  handles :: "addr \<Rightarrow> ('k \<times> 32 word) option"

section \<open>Operations\<close>

text \<open>\<^verbatim>\<open>HASH_TO_BKT\<close>.\<close>

definition hash_to_bkt :: "32 word \<Rightarrow> nat \<Rightarrow> nat" where
  "hash_to_bkt hashv num_bkts = unat (hashv AND (word_of_nat num_bkts - 1))"

text \<open>\<^verbatim>\<open>HASH_FIND_IN_BKT\<close>. Every element of a chain has a handle.\<close>

fun hash_find_in_bkt :: "('k \<Rightarrow> 'k \<Rightarrow> int) \<Rightarrow> 'k ut_table \<Rightarrow> addr list \<Rightarrow> 'k \<Rightarrow> addr option" where
  "hash_find_in_bkt cmp t [] keyptr = None"
| "hash_find_in_bkt cmp t (out # chain) keyptr =
     (case handles t out of
        Some (key, _) \<Rightarrow> if cmp key keyptr = 0 then Some out else hash_find_in_bkt cmp t chain keyptr
      | None \<Rightarrow> hash_find_in_bkt cmp t chain keyptr)"

definition hash_find ::
  "('k \<Rightarrow> 32 word) \<Rightarrow> ('k \<Rightarrow> 'k \<Rightarrow> int) \<Rightarrow> 'k ut_table option \<Rightarrow> 'k \<Rightarrow> addr option" where
  "hash_find hash cmp head keyptr =
     (case head of
        None \<Rightarrow> None
      | Some t \<Rightarrow>
          hash_find_in_bkt cmp t (hh_head (buckets t ! hash_to_bkt (hash keyptr) (num_buckets t))) keyptr)"

text \<open>\<^verbatim>\<open>HASH_MAKE_TABLE\<close>, with the element that becomes the head and the tail.\<close>

definition empty_bucket :: ut_bucket where
  "empty_bucket = \<lparr>hh_head = [], bkt_count = 0, expand_mult = 0\<rparr>"

definition hash_make_table :: "addr \<Rightarrow> 'k ut_table" where
  "hash_make_table add =
     \<lparr>num_buckets = 32, log2_num_buckets = 5, num_items = 0, order = [add],
      buckets = replicate 32 empty_bucket, ideal_chain_maxlen = 0, nonideal_items = 0,
      ineff_expands = 0, noexpand = False, handles = (\<lambda>_. None)\<rparr>"

text \<open>The body of the inner loop of \<^verbatim>\<open>HASH_EXPAND_BUCKETS\<close>: one element moves to the head of its new chain.\<close>

definition move_to_bkt ::
  "'k ut_table \<Rightarrow> nat \<Rightarrow> addr \<Rightarrow> ut_bucket list \<times> nat \<Rightarrow> ut_bucket list \<times> nat" where
  "move_to_bkt t ideal thh st =
     (let (new_buckets, nonideal) = st;
          hashv = (case handles t thh of Some (_, h) \<Rightarrow> h | None \<Rightarrow> 0);
          bkt = hash_to_bkt hashv (num_buckets t * 2);
          newbkt = new_buckets ! bkt;
          count = bkt_count newbkt + 1;
          over = count > ideal
      in (new_buckets[bkt := \<lparr>hh_head = thh # hh_head newbkt, bkt_count = count,
            expand_mult = (if over then count div ideal else expand_mult newbkt)\<rparr>],
          (if over then nonideal + 1 else nonideal)))"

definition hash_expand_buckets :: "'k ut_table \<Rightarrow> 'k ut_table" where
  "hash_expand_buckets t =
     (let ideal = drop_bit (log2_num_buckets t + 1) (num_items t) +
            (if num_items t AND (num_buckets t * 2 - 1) \<noteq> 0 then 1 else 0);
          (new_buckets, nonideal) =
            fold (move_to_bkt t ideal) (concat (map hh_head (buckets t)))
              (replicate (2 * num_buckets t) empty_bucket, 0);
          ineff = (if nonideal > drop_bit 1 (num_items t) then ineff_expands t + 1 else 0)
      in t\<lparr>ideal_chain_maxlen := ideal, nonideal_items := nonideal, num_buckets := num_buckets t * 2,
           log2_num_buckets := log2_num_buckets t + 1, buckets := new_buckets,
           ineff_expands := ineff, noexpand := (noexpand t \<or> ineff > 1)\<rparr>)"

text \<open>\<^verbatim>\<open>HASH_ADD_TO_BKT\<close>: to the head of the chain, which may trigger an expansion.\<close>

definition hash_add_to_bkt :: "'k ut_table \<Rightarrow> nat \<Rightarrow> addr \<Rightarrow> 'k ut_table" where
  "hash_add_to_bkt t bkt addhh =
     (let b = buckets t ! bkt;
          b' = b\<lparr>hh_head := addhh # hh_head b, bkt_count := bkt_count b + 1\<rparr>;
          t' = t\<lparr>buckets := (buckets t)[bkt := b']\<rparr>
      in if bkt_count b' \<ge> (expand_mult b' + 1) * 10 \<and> \<not> noexpand t'
         then hash_expand_buckets t' else t')"

text \<open>\<^verbatim>\<open>HASH_ADD_KEYPTR\<close> of the element at address \<open>add\<close>.\<close>

definition hash_add :: "('k \<Rightarrow> 32 word) \<Rightarrow> 'k ut_table option \<Rightarrow> 'k \<Rightarrow> addr \<Rightarrow> 'k ut_table option" where
  "hash_add hash head keyptr add =
     (let t = (case head of
                 None \<Rightarrow> hash_make_table add
               | Some t \<Rightarrow> t\<lparr>order := order t @ [add]\<rparr>);
          t = t\<lparr>num_items := num_items t + 1, handles := (handles t)(add \<mapsto> (keyptr, hash keyptr))\<rparr>
      in Some (hash_add_to_bkt t (hash_to_bkt (hash keyptr) (num_buckets t)) add))"

text \<open>
  \<^verbatim>\<open>HASH_DELETE\<close> of a linked element: it is the only one when it has neither a previous nor a next one,
  and then the table is freed. The caller frees the element, whose handle is gone.
\<close>

definition hash_delete :: "'k ut_table \<Rightarrow> addr \<Rightarrow> 'k ut_table option" where
  "hash_delete t delptr =
     (if order t = [delptr] then None
      else
        (let hashv = (case handles t delptr of Some (_, h) \<Rightarrow> h | None \<Rightarrow> 0);
             bkt = hash_to_bkt hashv (num_buckets t);
             b = buckets t ! bkt;
             b' = b\<lparr>hh_head := remove1 delptr (hh_head b), bkt_count := bkt_count b - 1\<rparr>
         in Some (t\<lparr>order := remove1 delptr (order t), buckets := (buckets t)[bkt := b'],
                    num_items := num_items t - 1, handles := (handles t)(delptr := None)\<rparr>)))"

text \<open>\<^verbatim>\<open>HASH_COUNT\<close>, the elements \<^verbatim>\<open>HASH_ITER\<close> visits, and the \<^verbatim>\<open>hh.next\<close> pointer of an element.\<close>

definition hash_count :: "'k ut_table option \<Rightarrow> nat" where
  "hash_count head = (case head of None \<Rightarrow> 0 | Some t \<Rightarrow> num_items t)"

definition hash_iter :: "'k ut_table option \<Rightarrow> addr list" where
  "hash_iter head = (case head of None \<Rightarrow> [] | Some t \<Rightarrow> order t)"

fun next_in :: "addr list \<Rightarrow> addr \<Rightarrow> addr option" where
  "next_in [] a = None"
| "next_in [x] a = None"
| "next_in (x # y # xs) a = (if x = a then Some y else next_in (y # xs) a)"

definition key_at :: "'k ut_table option \<Rightarrow> addr \<Rightarrow> 'k option" where
  "key_at head a = (case head of None \<Rightarrow> None | Some t \<Rightarrow> map_option fst (handles t a))"

section \<open>The invariant\<close>

text \<open>The keys in insertion order.\<close>

definition ut_keys :: "'k ut_table option \<Rightarrow> 'k list" where
  "ut_keys head =
     (case head of None \<Rightarrow> [] | Some t \<Rightarrow> map (\<lambda>a. fst (the (handles t a))) (order t))"

definition bkt_ok :: "'k ut_table \<Rightarrow> nat \<Rightarrow> bool" where
  "bkt_ok t i \<longleftrightarrow>
     distinct (hh_head (buckets t ! i)) \<and> bkt_count (buckets t ! i) = length (hh_head (buckets t ! i)) \<and>
     set (hh_head (buckets t ! i)) =
       {a \<in> set (order t). hash_to_bkt (snd (the (handles t a))) (num_buckets t) = i}"

definition ut_inv :: "('k \<Rightarrow> 32 word) \<Rightarrow> 'k ut_table \<Rightarrow> bool" where
  "ut_inv hash t \<longleftrightarrow>
     num_buckets t = 2 ^ log2_num_buckets t \<and> length (buckets t) = num_buckets t \<and>
     order t \<noteq> [] \<and> distinct (order t) \<and> num_items t = length (order t) \<and>
     (\<forall>a. handles t a \<noteq> None \<longleftrightarrow> a \<in> set (order t)) \<and>
     (\<forall>a k h. handles t a = Some (k, h) \<longrightarrow> h = hash k) \<and>
     (\<forall>i < num_buckets t. bkt_ok t i)"

definition head_inv :: "('k \<Rightarrow> 32 word) \<Rightarrow> 'k ut_table option \<Rightarrow> bool" where
  "head_inv hash head \<longleftrightarrow> (case head of None \<Rightarrow> True | Some t \<Rightarrow> ut_inv hash t)"

lemma hash_to_bkt_less: "hash_to_bkt h (2 ^ l) < 2 ^ l"
proof (cases "l < 32")
  case True
  have "(word_of_nat (2 ^ l) :: 32 word) - 1 = mask l" by (simp add: mask_eq_exp_minus_1)
  then have "hash_to_bkt h (2 ^ l) = take_bit l (unat h)"
    by (simp add: hash_to_bkt_def unsigned_and_eq unsigned_take_bit_eq flip: take_bit_eq_mask)
  then show ?thesis by (simp add: take_bit_eq_mod)
next
  case False
  have "unat (h AND x) < 2 ^ 32" for x :: "32 word" using unsigned_less [of "h AND x", where ?'a = nat] by simp
  moreover have "(2::nat) ^ 32 \<le> 2 ^ l" using False by (intro power_increasing) auto
  ultimately show ?thesis unfolding hash_to_bkt_def by (meson less_le_trans)
qed

section \<open>Expansion\<close>

text \<open>The loop that fills the new buckets, on any list of distinct elements.\<close>

definition new_bkt_ok :: "'k ut_table \<Rightarrow> addr set \<Rightarrow> ut_bucket list \<Rightarrow> nat \<Rightarrow> bool" where
  "new_bkt_ok t A bs i \<longleftrightarrow>
     distinct (hh_head (bs ! i)) \<and> bkt_count (bs ! i) = length (hh_head (bs ! i)) \<and>
     set (hh_head (bs ! i)) = {a \<in> A. hash_to_bkt (snd (the (handles t a))) (num_buckets t * 2) = i}"

lemma move_to_bkt_step:
  assumes len: "length bs = n" and n: "n = num_buckets t * 2" "n = 2 ^ l"
    and ok: "\<forall>i < n. new_bkt_ok t A bs i" and a: "a \<notin> A" "handles t a \<noteq> None"
    and st: "move_to_bkt t ideal a (bs, non) = (bs', non')"
  shows "length bs' = n \<and> (\<forall>i < n. new_bkt_ok t (insert a A) bs' i)"
proof -
  define b where "b = hash_to_bkt (snd (the (handles t a))) n"
  have b: "b < n" unfolding b_def n(2) by (rule hash_to_bkt_less)
  have h: "(case handles t a of None \<Rightarrow> 0 | Some (_, h) \<Rightarrow> h) = snd (the (handles t a))"
    using a by (auto split: option.splits)
  have bs': "bs' = bs[b := \<lparr>hh_head = a # hh_head (bs ! b), bkt_count = bkt_count (bs ! b) + 1,
      expand_mult = (if bkt_count (bs ! b) + 1 > ideal then (bkt_count (bs ! b) + 1) div ideal
        else expand_mult (bs ! b))\<rparr>]"
    using st unfolding move_to_bkt_def h by (auto simp: Let_def b_def n)
  have "new_bkt_ok t (insert a A) bs' i" if i: "i < n" for i
  proof (cases "i = b")
    case True
    have "a \<notin> set (hh_head (bs ! b))" using ok b a by (auto simp: new_bkt_ok_def)
    then show ?thesis using True ok b len
      by (auto simp: new_bkt_ok_def bs' b_def n)
  next
    case False
    then show ?thesis using ok i by (auto simp: new_bkt_ok_def bs' b_def n)
  qed
  then show ?thesis using len by (simp add: bs')
qed

lemma move_all:
  assumes n: "n = num_buckets t * 2" "n = 2 ^ l"
    and "length bs = n" and "\<forall>i < n. new_bkt_ok t A bs i"
    and "distinct xs" and "set xs \<inter> A = {}" and "\<forall>a \<in> set xs. handles t a \<noteq> None"
    and "fold (move_to_bkt t ideal) xs (bs, non) = (bs', non')"
  shows "length bs' = n \<and> (\<forall>i < n. new_bkt_ok t (A \<union> set xs) bs' i)"
  using assms(3-)
proof (induction xs arbitrary: bs non A)
  case Nil
  then show ?case by simp
next
  case (Cons a xs)
  obtain bs1 non1 where st: "move_to_bkt t ideal a (bs, non) = (bs1, non1)" by fastforce
  have "length bs1 = n \<and> (\<forall>i < n. new_bkt_ok t (insert a A) bs1 i)"
    using Cons.prems by (intro move_to_bkt_step [OF _ n _ _ _ st]) auto
  then have "length bs' = n \<and> (\<forall>i < n. new_bkt_ok t (insert a A \<union> set xs) bs' i)"
    using Cons.prems st by (intro Cons.IH [of bs1 "insert a A" non1]) auto
  then show ?case by simp
qed

lemma distinct_concat_map:
  assumes "distinct is" and "\<And>i. i \<in> set is \<Longrightarrow> distinct (f i)"
    and "\<And>i j. i \<in> set is \<Longrightarrow> j \<in> set is \<Longrightarrow> i \<noteq> j \<Longrightarrow> set (f i) \<inter> set (f j) = {}"
  shows "distinct (concat (map f is))"
  using assms by (induction "is") auto

text \<open>All chains together hold each element once.\<close>

lemma chains_all:
  assumes "ut_inv hash t"
  shows "distinct (concat (map hh_head (buckets t)))"
    and "set (concat (map hh_head (buckets t))) = set (order t)"
proof -
  have len: "length (buckets t) = num_buckets t" and ok: "\<And>i. i < num_buckets t \<Longrightarrow> bkt_ok t i"
    and nb: "num_buckets t = 2 ^ log2_num_buckets t"
    using assms by (auto simp: ut_inv_def)
  have s: "set (hh_head (buckets t ! i)) =
      {a \<in> set (order t). hash_to_bkt (snd (the (handles t a))) (num_buckets t) = i}"
    and d: "distinct (hh_head (buckets t ! i))" if "i < num_buckets t" for i
    using ok [OF that] by (auto simp: bkt_ok_def)
  show "set (concat (map hh_head (buckets t))) = set (order t)"
  proof (intro equalityI subsetI)
    fix a assume "a \<in> set (order t)"
    moreover define i where "i = hash_to_bkt (snd (the (handles t a))) (num_buckets t)"
    moreover have "i < num_buckets t" using hash_to_bkt_less nb by (simp add: i_def)
    ultimately have "a \<in> set (hh_head (buckets t ! i))" "buckets t ! i \<in> set (buckets t)"
      using s [of i] len by auto
    then show "a \<in> set (concat (map hh_head (buckets t)))" by auto
  next
    fix a assume "a \<in> set (concat (map hh_head (buckets t)))"
    then obtain b where "b \<in> set (buckets t)" "a \<in> set (hh_head b)" by auto
    then obtain i where "i < num_buckets t" "a \<in> set (hh_head (buckets t ! i))"
      by (metis in_set_conv_nth len)
    then show "a \<in> set (order t)" using s by blast
  qed
  show "distinct (concat (map hh_head (buckets t)))"
  proof -
    have "distinct (concat (map (\<lambda>i. hh_head (buckets t ! i)) [0..<num_buckets t]))"
      using s d by (intro distinct_concat_map) auto
    moreover have "map (\<lambda>i. hh_head (buckets t ! i)) [0..<num_buckets t] = map hh_head (buckets t)"
      by (rule nth_equalityI) (simp_all add: len)
    ultimately show ?thesis by (simp only:)
  qed
qed

lemma hash_expand_inv:
  assumes inv: "ut_inv hash t"
  shows "ut_inv hash (hash_expand_buckets t)"
proof -
  obtain ideal where ideal: "ideal = drop_bit (log2_num_buckets t + 1) (num_items t) +
      (if num_items t AND (num_buckets t * 2 - 1) \<noteq> 0 then 1 else 0 :: nat)" by simp
  let ?xs = "concat (map hh_head (buckets t))" and ?n = "num_buckets t * 2"
  obtain bs non where f: "fold (move_to_bkt t ideal) ?xs (replicate (2 * num_buckets t) empty_bucket, 0) = (bs, non)"
    by fastforce
  have hs: "\<forall>a \<in> set ?xs. handles t a \<noteq> None"
    using inv chains_all(2) [OF inv] by (auto simp: ut_inv_def)
  have n: "?n = 2 ^ Suc (log2_num_buckets t)" using inv by (simp add: ut_inv_def)
  have "length bs = ?n \<and> (\<forall>i < ?n. new_bkt_ok t ({} \<union> set ?xs) bs i)"
    by (rule move_all [OF refl n _ _ chains_all(1) [OF inv] _ hs f])
      (auto simp: new_bkt_ok_def empty_bucket_def)
  then have "length bs = ?n" "\<forall>i < ?n. new_bkt_ok t (set (order t)) bs i"
    using chains_all(2) [OF inv] by auto
  moreover have "hash_expand_buckets t = t\<lparr>ideal_chain_maxlen := ideal, nonideal_items := non,
      num_buckets := ?n, log2_num_buckets := log2_num_buckets t + 1, buckets := bs,
      ineff_expands := (if non > drop_bit 1 (num_items t) then ineff_expands t + 1 else 0),
      noexpand := (noexpand t \<or> (if non > drop_bit 1 (num_items t) then ineff_expands t + 1 else 0) > 1)\<rparr>"
    unfolding hash_expand_buckets_def Let_def ideal [symmetric] f by simp
  ultimately show ?thesis using inv n
    by (auto simp: ut_inv_def bkt_ok_def new_bkt_ok_def)
qed

lemma hash_expand_same [simp]:
  "order (hash_expand_buckets t) = order t" "handles (hash_expand_buckets t) = handles t"
  by (simp_all add: hash_expand_buckets_def Let_def split: prod.splits)

lemma hash_add_to_bkt_same [simp]:
  "order (hash_add_to_bkt t b a) = order t" "handles (hash_add_to_bkt t b a) = handles t"
  by (simp_all add: hash_add_to_bkt_def Let_def)

section \<open>Operations preserve the invariant\<close>

text \<open>A table in which the new element is linked and counted but not yet in its chain.\<close>

lemma hash_add_to_bkt_inv:
  assumes "num_buckets t = 2 ^ log2_num_buckets t" and len: "length (buckets t) = num_buckets t"
    and "distinct (order t)" and "num_items t = length (order t)"
    and "\<forall>a. handles t a \<noteq> None \<longleftrightarrow> a \<in> set (order t)"
    and "\<forall>a k h. handles t a = Some (k, h) \<longrightarrow> h = hash k"
    and x: "x \<in> set (order t)" and b: "b = hash_to_bkt (snd (the (handles t x))) (num_buckets t)"
    and ok: "\<forall>i < num_buckets t. distinct (hh_head (buckets t ! i)) \<and>
      bkt_count (buckets t ! i) = length (hh_head (buckets t ! i)) \<and>
      set (hh_head (buckets t ! i)) =
        {a \<in> set (order t) - {x}. hash_to_bkt (snd (the (handles t a))) (num_buckets t) = i}"
  shows "ut_inv hash (hash_add_to_bkt t b x)"
proof -
  define b' where "b' = (buckets t ! b)\<lparr>hh_head := x # hh_head (buckets t ! b),
    bkt_count := bkt_count (buckets t ! b) + 1\<rparr>"
  define t' where "t' = t\<lparr>buckets := (buckets t)[b := b']\<rparr>"
  have bl: "b < num_buckets t" unfolding b assms(1) by (rule hash_to_bkt_less)
  have "bkt_ok t' i" if i: "i < num_buckets t" for i
  proof (cases "i = b")
    case True
    have "x \<notin> set (hh_head (buckets t ! b))" using ok bl by blast
    then show ?thesis using True ok bl len x by (auto simp: bkt_ok_def t'_def b'_def b)
  next
    case False
    then show ?thesis using ok i b by (auto simp: bkt_ok_def t'_def)
  qed
  then have inv: "ut_inv hash t'" using assms by (auto simp: ut_inv_def t'_def)
  have "hash_add_to_bkt t b x = (if bkt_count b' \<ge> (expand_mult b' + 1) * 10 \<and> \<not> noexpand t'
      then hash_expand_buckets t' else t')"
    unfolding hash_add_to_bkt_def Let_def b'_def [symmetric] t'_def [symmetric] ..
  then show ?thesis using inv hash_expand_inv [OF inv] by simp
qed

lemma hash_add_inv:
  assumes "head_inv hash head" and new: "a \<notin> set (hash_iter head)"
  shows "head_inv hash (hash_add hash head k a)"
proof -
  define t0 where "t0 = (case head of None \<Rightarrow> hash_make_table a | Some t \<Rightarrow> t\<lparr>order := order t @ [a]\<rparr>)"
  define t where "t = t0\<lparr>num_items := num_items t0 + 1, handles := (handles t0)(a \<mapsto> (k, hash k))\<rparr>"
  have add: "hash_add hash head k a = Some (hash_add_to_bkt t (hash_to_bkt (hash k) (num_buckets t)) a)"
    by (simp add: hash_add_def Let_def t_def t0_def)
  have "ut_inv hash (hash_add_to_bkt t (hash_to_bkt (hash k) (num_buckets t)) a)"
  proof (cases head)
    case None
    then show ?thesis
      by (intro hash_add_to_bkt_inv) (auto simp: t_def t0_def hash_make_table_def empty_bucket_def)
  next
    case (Some u)
    then have inv: "ut_inv hash u" and a: "a \<notin> set (order u)"
      using assms by (auto simp: head_inv_def hash_iter_def)
    have t: "t = u\<lparr>order := order u @ [a], num_items := num_items u + 1,
        handles := (handles u)(a \<mapsto> (k, hash k))\<rparr>"
      by (simp add: t_def t0_def Some)
    have "\<forall>i < num_buckets u. bkt_ok u i" using inv by (simp add: ut_inv_def)
    then have "\<forall>i < num_buckets t. distinct (hh_head (buckets t ! i)) \<and>
      bkt_count (buckets t ! i) = length (hh_head (buckets t ! i)) \<and>
      set (hh_head (buckets t ! i)) =
        {x \<in> set (order t) - {a}. hash_to_bkt (snd (the (handles t x))) (num_buckets t) = i}"
      using a by (auto simp: t bkt_ok_def)
    then show ?thesis using inv a
      by (intro hash_add_to_bkt_inv) (auto simp: t ut_inv_def split: if_splits)
  qed
  then show ?thesis by (simp add: add head_inv_def)
qed

lemma hash_delete_inv:
  assumes inv: "ut_inv hash t" and x: "x \<in> set (order t)"
  shows "head_inv hash (hash_delete t x)"
proof (cases "order t = [x]")
  case True
  then show ?thesis by (simp add: hash_delete_def head_inv_def)
next
  case False
  define b where "b = hash_to_bkt (snd (the (handles t x))) (num_buckets t)"
  define t' where "t' = t\<lparr>order := remove1 x (order t),
    buckets := (buckets t)[b := (buckets t ! b)\<lparr>hh_head := remove1 x (hh_head (buckets t ! b)),
      bkt_count := bkt_count (buckets t ! b) - 1\<rparr>],
    num_items := num_items t - 1, handles := (handles t)(x := None)\<rparr>"
  have i: "num_buckets t = 2 ^ log2_num_buckets t" "length (buckets t) = num_buckets t"
    "distinct (order t)" "num_items t = length (order t)" "handles t x \<noteq> None"
    and ok: "\<And>i. i < num_buckets t \<Longrightarrow> bkt_ok t i"
    using inv x by (auto simp: ut_inv_def)
  have "hash_delete t x = Some t'"
    using False i(5) by (auto simp: hash_delete_def Let_def t'_def b_def split: option.splits)
  moreover have bl: "b < num_buckets t" unfolding b_def i(1) by (rule hash_to_bkt_less)
  have "bkt_ok t' j" if j: "j < num_buckets t" for j
  proof (cases "j = b")
    case True
    have "x \<in> set (hh_head (buckets t ! b))" using ok [OF bl] x by (auto simp: bkt_ok_def b_def)
    then show ?thesis using ok [OF bl] True bl i
      by (auto simp: bkt_ok_def t'_def length_remove1)
  next
    case False
    then show ?thesis using ok [OF j] i by (auto simp: bkt_ok_def t'_def b_def)
  qed
  moreover have "remove1 x (order t) \<noteq> []" using False x by (cases "order t") auto
  ultimately show ?thesis using inv x
    by (auto simp: head_inv_def ut_inv_def t'_def length_remove1)
qed

section \<open>Keys\<close>

text \<open>
  What the table relies on: on the keys it is used with, comparison is an equivalence and equal keys
  have equal hashes. The lemmas of the locale describe the operations on the keys in insertion
  order, with no mention of buckets.
\<close>

fun keys_ok :: "('k \<Rightarrow> bool) \<Rightarrow> ('k \<Rightarrow> 'k \<Rightarrow> int) \<Rightarrow> 'k list \<Rightarrow> bool" where
  "keys_ok ok cmp [] = True"
| "keys_ok ok cmp (k # ks) =
     (ok k \<and> (\<forall>k' \<in> set ks. cmp k k' \<noteq> 0 \<and> cmp k' k \<noteq> 0) \<and> keys_ok ok cmp ks)"

definition ut_good :: "('k \<Rightarrow> bool) \<Rightarrow> ('k \<Rightarrow> 32 word) \<Rightarrow> ('k \<Rightarrow> 'k \<Rightarrow> int) \<Rightarrow> 'k ut_table option \<Rightarrow> bool" where
  "ut_good ok hash cmp head \<longleftrightarrow> head_inv hash head \<and> keys_ok ok cmp (ut_keys head)"

lemma keys_ok_all: "keys_ok ok cmp ks \<Longrightarrow> k \<in> set ks \<Longrightarrow> ok k"
  by (induction ks) auto

lemma keys_ok_snoc:
  "keys_ok ok cmp (ks @ [k]) \<longleftrightarrow> keys_ok ok cmp ks \<and> ok k \<and> (\<forall>k' \<in> set ks. cmp k k' \<noteq> 0 \<and> cmp k' k \<noteq> 0)"
  by (induction ks) auto

lemma keys_ok_filter: "keys_ok ok cmp ks \<Longrightarrow> keys_ok ok cmp (filter P ks)"
  by (induction ks) auto

lemma keys_ok_unique:
  "keys_ok ok cmp (map f xs) \<Longrightarrow> x \<in> set xs \<Longrightarrow> y \<in> set xs \<Longrightarrow> x \<noteq> y \<Longrightarrow> cmp (f x) (f y) \<noteq> 0"
  by (induction xs) auto

lemma key_at_iter: "head_inv hash head \<Longrightarrow> a \<in> set (hash_iter head) \<longleftrightarrow> (\<exists>k. key_at head a = Some k)"
  by (cases head) (auto simp: key_at_def hash_iter_def head_inv_def ut_inv_def)

lemma ut_keys_at:
  assumes "head_inv hash head"
  shows "ut_keys head = map (\<lambda>a. the (key_at head a)) (hash_iter head)"
proof (cases head)
  case (Some t)
  have "fst (the (handles t a)) = the (map_option fst (handles t a))" if "a \<in> set (order t)" for a
    using key_at_iter [OF assms, of a] that by (auto simp: Some key_at_def hash_iter_def)
  then show ?thesis by (simp add: Some ut_keys_def key_at_def hash_iter_def)
qed (simp add: ut_keys_def hash_iter_def)

lemma in_ut_keys:
  assumes "head_inv hash head"
  shows "k \<in> set (ut_keys head) \<longleftrightarrow> (\<exists>a. key_at head a = Some k)"
  using key_at_iter [OF assms] unfolding ut_keys_at [OF assms] by (auto simp: image_iff) (metis option.sel)+

lemma hash_count_eq: "head_inv hash head \<Longrightarrow> hash_count head = length (ut_keys head)"
  by (auto simp: hash_count_def ut_keys_def head_inv_def ut_inv_def split: option.splits)

lemma hash_iter_add:
  "hash_iter (hash_add hash head k a) = hash_iter head @ [a]"
  "key_at (hash_add hash head k a) b = (if b = a then Some k else key_at head b)"
  by (auto simp: hash_add_def Let_def hash_iter_def key_at_def hash_make_table_def split: option.splits)

lemma ut_keys_add:
  assumes "head_inv hash head" and "a \<notin> set (hash_iter head)"
  shows "ut_keys (hash_add hash head k a) = ut_keys head @ [k]"
proof -
  have "map (\<lambda>b. the (if b = a then Some k else key_at head b)) (hash_iter head) =
      map (\<lambda>b. the (key_at head b)) (hash_iter head)"
    using assms(2) by (intro map_cong) auto
  then show ?thesis
    unfolding ut_keys_at [OF hash_add_inv [OF assms, of k]] ut_keys_at [OF assms(1)] by (simp add: hash_iter_add)
qed

lemma key_at_add: "key_at (hash_add hash head k a) x = (if x = a then Some k else key_at head x)"
  by (cases head) (auto simp: key_at_def hash_add_def Let_def hash_make_table_def)

lemma key_at_delete:
  "head_inv hash (Some t) \<Longrightarrow> key_at (hash_delete t a) x = (if x = a then None else key_at (Some t) x)"
  by (cases "handles t x") (auto simp: key_at_def hash_delete_def Let_def head_inv_def ut_inv_def)

lemma hash_iter_delete: "hash_iter (hash_delete t a) = remove1 a (order t)"
  by (simp add: hash_delete_def hash_iter_def Let_def)

lemma next_in_mem: "next_in xs a = Some b \<Longrightarrow> b \<in> set xs \<and> (distinct xs \<longrightarrow> b \<noteq> a)"
proof (induction xs a rule: next_in.induct)
  case (3 x y xs a)
  then show ?case by (cases "x = a") auto
qed auto

definition opt_hd :: "'a list \<Rightarrow> 'a option" where
  "opt_hd xs = (case xs of [] \<Rightarrow> None | x # _ \<Rightarrow> Some x)"

lemma opt_hd_simps [simp]: "opt_hd [] = None" "opt_hd (x # xs) = Some x"
  by (simp_all add: opt_hd_def)

lemma next_in_split: "distinct (pre @ a # suf) \<Longrightarrow> next_in (pre @ a # suf) a = opt_hd suf"
proof (induction pre)
  case Nil
  then show ?case by (cases suf) auto
next
  case (Cons x pre)
  then show ?case by (cases pre) auto
qed

lemma distinct_iter: "head_inv hash head \<Longrightarrow> distinct (hash_iter head)"
  by (auto simp: head_inv_def hash_iter_def ut_inv_def split: option.splits)

locale ut_hash =
  fixes ok :: "'k \<Rightarrow> bool" and hash :: "'k \<Rightarrow> 32 word" and cmp :: "'k \<Rightarrow> 'k \<Rightarrow> int"
  assumes cmp_refl: "ok a \<Longrightarrow> cmp a a = 0"
    and cmp_sym: "ok a \<Longrightarrow> ok b \<Longrightarrow> cmp a b = 0 \<Longrightarrow> cmp b a = 0"
    and cmp_trans: "ok a \<Longrightarrow> ok b \<Longrightarrow> ok c \<Longrightarrow> cmp a b = 0 \<Longrightarrow> cmp b c = 0 \<Longrightarrow> cmp a c = 0"
    and cmp_hash: "ok a \<Longrightarrow> ok b \<Longrightarrow> cmp a b = 0 \<Longrightarrow> hash a = hash b"
begin

lemma find_in_bkt_Some:
  "hash_find_in_bkt cmp t chain k = Some a \<Longrightarrow> a \<in> set chain \<and> (\<exists>k' h. handles t a = Some (k', h) \<and> cmp k' k = 0)"
  by (induction chain) (auto split: option.splits if_splits prod.splits)

lemma find_in_bkt_None:
  "hash_find_in_bkt cmp t chain k = None \<Longrightarrow> a \<in> set chain \<Longrightarrow> handles t a = Some (k', h) \<Longrightarrow> cmp k' k \<noteq> 0"
  by (induction chain) (auto split: option.splits if_splits prod.splits)

lemma chain_order:
  assumes "ut_inv hash t"
  shows "set (hh_head (buckets t ! hash_to_bkt (hash k) (num_buckets t))) =
    {a \<in> set (order t). hash_to_bkt (snd (the (handles t a))) (num_buckets t) = hash_to_bkt (hash k) (num_buckets t)}"
proof -
  have "hash_to_bkt (hash k) (num_buckets t) < num_buckets t"
    using assms hash_to_bkt_less [of "hash k" "log2_num_buckets t"] by (simp add: ut_inv_def)
  then show ?thesis using assms by (simp add: ut_inv_def bkt_ok_def)
qed

lemma find_Some:
  assumes "head_inv hash head" and "hash_find hash cmp head k = Some a"
  shows "a \<in> set (hash_iter head) \<and> (\<exists>k'. key_at head a = Some k' \<and> cmp k' k = 0)"
proof -
  obtain t where t: "head = Some t" "ut_inv hash t"
    using assms by (auto simp: hash_find_def head_inv_def split: option.splits)
  have "hash_find_in_bkt cmp t (hh_head (buckets t ! hash_to_bkt (hash k) (num_buckets t))) k = Some a"
    using assms(2) t by (simp add: hash_find_def)
  from find_in_bkt_Some [OF this] show ?thesis
    using chain_order [OF t(2), of k] t by (auto simp: hash_iter_def key_at_def)
qed

lemma find_None:
  assumes "head_inv hash head" and "hash_find hash cmp head k = None"
    and "key_at head a = Some k'" and "ok k" and "ok k'"
  shows "cmp k' k \<noteq> 0"
proof
  assume c: "cmp k' k = 0"
  then have eq: "hash k' = hash k" using assms cmp_hash by blast
  obtain t h where t: "head = Some t" "handles t a = Some (k', h)" "ut_inv hash t"
    using assms by (auto simp: key_at_def head_inv_def split: option.splits)
  then have "h = hash k'" "a \<in> set (order t)" by (auto simp: ut_inv_def)
  then have "a \<in> set (hh_head (buckets t ! hash_to_bkt (hash k) (num_buckets t)))"
    using chain_order [OF t(3), of k] t eq by auto
  then show False using find_in_bkt_None [of t _ k a k' h] assms(2) t c by (auto simp: hash_find_def)
qed

lemma find_cases:
  assumes g: "ut_good ok hash cmp head" and k: "ok k"
  shows "(\<exists>a. hash_find hash cmp head k = Some a) \<longleftrightarrow> (\<exists>k' \<in> set (ut_keys head). cmp k' k = 0)"
proof -
  have inv: "head_inv hash head" and ks: "keys_ok ok cmp (ut_keys head)" using g by (auto simp: ut_good_def)
  note at = in_ut_keys [OF inv]
  show ?thesis
  proof
    assume "\<exists>a. hash_find hash cmp head k = Some a"
    then show "\<exists>k' \<in> set (ut_keys head). cmp k' k = 0" using find_Some [OF inv] at by blast
  next
    assume "\<exists>k' \<in> set (ut_keys head). cmp k' k = 0"
    then obtain k' a where "k' \<in> set (ut_keys head)" "key_at head a = Some k'" "cmp k' k = 0" using at by blast
    then show "\<exists>a. hash_find hash cmp head k = Some a"
      using find_None [OF inv, of k a k'] k keys_ok_all [OF ks] by (cases "hash_find hash cmp head k") auto
  qed
qed

text \<open>The element found is the only one whose key equals the key searched for.\<close>

lemma find_unique:
  assumes g: "ut_good ok hash cmp head" and k: "ok k" and f: "hash_find hash cmp head k = Some a"
    and x: "x \<in> set (hash_iter head)"
  shows "cmp (the (key_at head x)) k = 0 \<longleftrightarrow> x = a"
proof -
  have inv: "head_inv hash head" and ks: "keys_ok ok cmp (ut_keys head)" using g by (auto simp: ut_good_def)
  let ?key = "\<lambda>a. the (key_at head a)"
  have a: "a \<in> set (hash_iter head)" "cmp (?key a) k = 0" using find_Some [OF inv f] by auto
  have ks': "keys_ok ok cmp (map ?key (hash_iter head))" using ks ut_keys_at [OF inv] by simp
  have o: "ok (?key x)" "ok (?key a)" using keys_ok_all [OF ks'] x a by auto
  show ?thesis
  proof
    assume "cmp (?key x) k = 0"
    then have "cmp (?key x) (?key a) = 0" using cmp_trans [OF o(1) k o(2)] cmp_sym [OF o(2) k] a by blast
    then show "x = a" using keys_ok_unique [OF ks' x a(1)] by blast
  qed (use a in simp)
qed

text \<open>Adding a key that is not there appends it.\<close>

lemma add_good:
  assumes "ut_good ok hash cmp head" and "ok k" and "hash_find hash cmp head k = None"
    and "a \<notin> set (hash_iter head)"
  shows "ut_good ok hash cmp (hash_add hash head k a)"
    and "ut_keys (hash_add hash head k a) = ut_keys head @ [k]"
proof -
  have inv: "head_inv hash head" and ks: "keys_ok ok cmp (ut_keys head)" using assms by (auto simp: ut_good_def)
  show eq: "ut_keys (hash_add hash head k a) = ut_keys head @ [k]" using inv assms by (simp add: ut_keys_add)
  have "\<forall>k' \<in> set (ut_keys head). cmp k' k \<noteq> 0" using find_cases [OF assms(1,2)] assms(3) by auto
  then have "\<forall>k' \<in> set (ut_keys head). cmp k k' \<noteq> 0 \<and> cmp k' k \<noteq> 0"
    using cmp_sym assms(2) keys_ok_all [OF ks] by blast
  then show "ut_good ok hash cmp (hash_add hash head k a)"
    using hash_add_inv [OF inv assms(4), of k] ks assms(2) by (simp add: ut_good_def eq keys_ok_snoc)
qed

text \<open>Deleting the element found for a key removes just the key equal to it.\<close>

lemma delete_good:
  assumes g: "ut_good ok hash cmp (Some t)" and k: "ok k" and f: "hash_find hash cmp (Some t) k = Some a"
  shows "ut_good ok hash cmp (hash_delete t a)"
    and "ut_keys (hash_delete t a) = filter (\<lambda>k'. cmp k' k \<noteq> 0) (ut_keys (Some t))"
proof -
  have inv: "head_inv hash (Some t)" "ut_inv hash t" and ks: "keys_ok ok cmp (ut_keys (Some t))"
    using g by (auto simp: ut_good_def head_inv_def)
  obtain ka where a: "a \<in> set (order t)" "key_at (Some t) a = Some ka" "cmp ka k = 0"
    using find_Some [OF inv(1) f] by (auto simp: hash_iter_def)
  have inv': "head_inv hash (hash_delete t a)" using hash_delete_inv [OF inv(2) a(1)] .
  let ?key = "\<lambda>x. fst (the (handles t x))"
  have ko: "keys_ok ok cmp (map ?key (order t))" using ks by (simp add: ut_keys_def)
  have ka: "ka = ?key a" using a(2) by (auto simp: key_at_def)
  have iff: "x = a \<longleftrightarrow> cmp (?key x) k = 0" if x: "x \<in> set (order t)" for x
  proof
    assume c: "cmp (?key x) k = 0"
    have o: "ok (?key x)" "ok (?key a)" using keys_ok_all [OF ko] x a(1) by auto
    then have "cmp (?key x) (?key a) = 0"
      using c a(3) ka k cmp_sym [of "?key a" k] cmp_trans [of "?key x" k "?key a"] by auto
    then show "x = a" using keys_ok_unique [OF ko x a(1)] by blast
  qed (use a ka in simp)
  have d: "distinct (order t)" using inv(2) by (simp add: ut_inv_def)
  have "ut_keys (hash_delete t a) = map ?key (remove1 a (order t))"
  proof (cases "order t = [a]")
    case True
    then show ?thesis by (simp add: hash_delete_def ut_keys_def)
  next
    case False
    then show ?thesis using d by (auto simp: hash_delete_def Let_def ut_keys_def split: option.splits)
  qed
  also have "\<dots> = map ?key (filter (\<lambda>x. cmp (?key x) k \<noteq> 0) (order t))"
  proof -
    have "remove1 a (order t) = filter (\<lambda>x. x \<noteq> a) (order t)"
      using d by (simp add: distinct_remove1_removeAll removeAll_filter_not_eq eq_commute)
    also have "\<dots> = filter (\<lambda>x. cmp (?key x) k \<noteq> 0) (order t)" using iff by (intro filter_cong) auto
    finally show ?thesis by (simp only:)
  qed
  finally show eq: "ut_keys (hash_delete t a) = filter (\<lambda>k'. cmp k' k \<noteq> 0) (ut_keys (Some t))"
    by (simp add: ut_keys_def filter_map comp_def)
  show "ut_good ok hash cmp (hash_delete t a)"
    using inv' keys_ok_filter [OF ks] by (simp add: ut_good_def eq)
qed

text \<open>
  A list of keys whose elements all occur in another one, up to equality, is as long as it exactly
  when the inclusion also holds in the other direction.
\<close>

lemma keys_ok_distinct: "keys_ok ok cmp ks \<Longrightarrow> distinct ks"
  using cmp_refl by (induction ks) auto

lemma keys_ok_eq: "keys_ok ok cmp ks \<Longrightarrow> x \<in> set ks \<Longrightarrow> y \<in> set ks \<Longrightarrow> cmp x y = 0 \<Longrightarrow> x = y"
  using keys_ok_unique [of ok cmp "\<lambda>x. x" ks x y] by auto

lemma partner:
  assumes ks: "keys_ok ok cmp ks1" "keys_ok ok cmp ks2"
    and sub: "\<forall>v \<in> set ks1. \<exists>w \<in> set ks2. cmp w v = 0"
  obtains f where "\<And>v. v \<in> set ks1 \<Longrightarrow> f v \<in> set ks2 \<and> cmp (f v) v = 0" and "inj_on f (set ks1)"
proof -
  obtain f where f: "\<forall>v \<in> set ks1. f v \<in> set ks2 \<and> cmp (f v) v = 0" using sub by metis
  have "inj_on f (set ks1)"
  proof (rule inj_onI)
    fix x y assume x: "x \<in> set ks1" and y: "y \<in> set ks1" and eq: "f x = f y"
    have o: "ok x" "ok y" "ok (f x)" using keys_ok_all [OF ks(1)] keys_ok_all [OF ks(2)] x y f by auto
    have "cmp x (f x) = 0" using cmp_sym [OF o(3,1)] f x by blast
    moreover have "cmp (f x) y = 0" using f y eq by auto
    ultimately have "cmp x y = 0" using cmp_trans [OF o(1,3,2)] by blast
    then show "x = y" using keys_ok_eq [OF ks(1) x y] by blast
  qed
  then show ?thesis using f that by blast
qed

lemma same_length:
  assumes ks: "keys_ok ok cmp ks1" "keys_ok ok cmp ks2"
    and sub: "\<forall>v \<in> set ks1. \<exists>w \<in> set ks2. cmp w v = 0"
  shows "length ks1 = length ks2 \<longleftrightarrow> (\<forall>w \<in> set ks2. \<exists>v \<in> set ks1. cmp v w = 0)"
proof -
  have len: "length ks1 = card (set ks1)" "length ks2 = card (set ks2)"
    using keys_ok_distinct ks by (simp_all add: distinct_card)
  obtain f where f: "\<And>v. v \<in> set ks1 \<Longrightarrow> f v \<in> set ks2 \<and> cmp (f v) v = 0" and inj: "inj_on f (set ks1)"
    using partner [OF ks sub] by blast
  have im: "f ` set ks1 \<subseteq> set ks2" using f by blast
  show ?thesis
  proof
    assume "length ks1 = length ks2"
    then have "card (f ` set ks1) = card (set ks2)" using card_image [OF inj] len by simp
    then have im': "set ks2 = f ` set ks1" using card_subset_eq [OF finite_set im] by (simp only:)
    have "cmp v (f v) = 0" if "v \<in> set ks1" for v
      using cmp_sym [of "f v" v] f [OF that] keys_ok_all [OF ks(1) that] keys_ok_all [OF ks(2), of "f v"] by simp
    then show "\<forall>w \<in> set ks2. \<exists>v \<in> set ks1. cmp v w = 0" unfolding im' by blast
  next
    assume "\<forall>w \<in> set ks2. \<exists>v \<in> set ks1. cmp v w = 0"
    from partner [OF ks(2,1) this] obtain g
      where g: "\<And>w. w \<in> set ks2 \<Longrightarrow> g w \<in> set ks1 \<and> cmp (g w) w = 0" and inj': "inj_on g (set ks2)" by blast
    have "card (set ks2) \<le> card (set ks1)"
      using card_inj_on_le [OF inj', of "set ks1"] g by (simp add: image_subset_iff)
    moreover have "card (set ks1) \<le> card (set ks2)" using card_inj_on_le [OF inj im] by simp
    ultimately show "length ks1 = length ks2" using len by simp
  qed
qed

end

end
