(* ===== verification/Dbl.thy ===== *)
theory Dbl
  imports Prelude
begin

text \<open>
  C doubles as their raw 64 bits, with the operations on them that the sources use: truncation to
  an integer, conversion from an integer (round to nearest, ties to even), comparison, and the
  library function \<^verbatim>\<open>sqrt\<close> applied to an integer and truncated. A cast that the C standard leaves
  undefined, of a NaN, an infinity or a value out of range, is \<open>UB\<close>.
\<close>

section \<open>Decoding\<close>

type_synonym dbl = "64 word"

definition dbl_neg :: "dbl \<Rightarrow> bool" where
  "dbl_neg d \<longleftrightarrow> 2 ^ 63 \<le> uint d"

definition dbl_exp :: "dbl \<Rightarrow> int" where
  "dbl_exp d = (uint d div 2 ^ 52) mod 2 ^ 11"

definition dbl_man :: "dbl \<Rightarrow> int" where
  "dbl_man d = uint d mod 2 ^ 52"

definition dbl_isnan :: "dbl \<Rightarrow> bool" where
  "dbl_isnan d \<longleftrightarrow> dbl_exp d = 2047 \<and> dbl_man d \<noteq> 0"

definition dbl_isinf :: "dbl \<Rightarrow> bool" where
  "dbl_isinf d \<longleftrightarrow> dbl_exp d = 2047 \<and> dbl_man d = 0"

text \<open>A finite double is \<open>dbl_sig d * 2 ^ dbl_pow d\<close>, up to its sign.\<close>

definition dbl_sig :: "dbl \<Rightarrow> int" where
  "dbl_sig d = (if dbl_exp d = 0 then dbl_man d else dbl_man d + 2 ^ 52)"

definition dbl_pow :: "dbl \<Rightarrow> int" where
  "dbl_pow d = (if dbl_exp d = 0 then - 1074 else dbl_exp d - 1075)"

definition dbl_trunc :: "dbl \<Rightarrow> int option" where
  "dbl_trunc d =
     (if dbl_exp d = 2047 then None
      else Some ((if dbl_neg d then - 1 else 1) *
        (if dbl_pow d \<ge> 0 then dbl_sig d * 2 ^ nat (dbl_pow d)
         else dbl_sig d div 2 ^ nat (- dbl_pow d))))"

text \<open>The cast to a signed integer type of \<open>w\<close> bits.\<close>

definition dbl_to_int :: "nat \<Rightarrow> dbl \<Rightarrow> int outcome" where
  "dbl_to_int w d =
     (case dbl_trunc d of
        Some k \<Rightarrow> if in_int w k then Ok k else UB
      | None \<Rightarrow> UB)"

text \<open>Comparison: doubles other than NaNs are ordered by sign and magnitude bits.\<close>

definition dbl_key :: "dbl \<Rightarrow> int" where
  "dbl_key d = (if dbl_neg d then 2 ^ 63 - uint d else uint d)"

definition dbl_lt :: "dbl \<Rightarrow> dbl \<Rightarrow> bool" where
  "dbl_lt a b \<longleftrightarrow> \<not> dbl_isnan a \<and> \<not> dbl_isnan b \<and> dbl_key a < dbl_key b"

definition dbl_eq :: "dbl \<Rightarrow> dbl \<Rightarrow> bool" where
  "dbl_eq a b \<longleftrightarrow> \<not> dbl_isnan a \<and> \<not> dbl_isnan b \<and> dbl_key a = dbl_key b"

section \<open>Conversion from an integer\<close>

fun nbits :: "nat \<Rightarrow> nat" where
  "nbits n = (if n = 0 then 0 else Suc (nbits (n div 2)))"

declare nbits.simps [simp del]

text \<open>The 53 leading bits of a positive number, rounded to nearest, ties to even.\<close>

definition round53 :: "nat \<Rightarrow> nat" where
  "round53 n =
     (let b = nbits n in
      if b \<le> 53 then n * 2 ^ (53 - b)
      else (let q = n div 2 ^ (b - 53); r = n mod 2 ^ (b - 53); h = 2 ^ (b - 54)
            in if r > h \<or> (r = h \<and> odd q) then q + 1 else q))"

definition int_to_dbl :: "int \<Rightarrow> dbl" where
  "int_to_dbl k =
     (if k = 0 then 0
      else word_of_int ((if k < 0 then 2 ^ 63 else 0) +
        (1021 + int (nbits (nat \<bar>k\<bar>))) * 2 ^ 52 + int (round53 (nat \<bar>k\<bar>))))"

lemma nbits_bounds: "0 < n \<Longrightarrow> 2 ^ (nbits n - 1) \<le> n \<and> n < 2 ^ nbits n \<and> 0 < nbits n"
proof (induction n rule: nbits.induct)
  case (1 n)
  have e: "nbits n = Suc (nbits (n div 2))" using 1 by (subst nbits.simps) simp
  show ?case
  proof (cases "n div 2 = 0")
    case True
    then have "n = 1" using 1 by linarith
    then show ?thesis by (simp add: nbits.simps)
  next
    case False
    then have ih: "2 ^ (nbits (n div 2) - 1) \<le> n div 2" "n div 2 < 2 ^ nbits (n div 2)" "0 < nbits (n div 2)"
      using 1 by auto
    have "(2::nat) ^ nbits (n div 2) = 2 * 2 ^ (nbits (n div 2) - 1)"
      using ih by (cases "nbits (n div 2)") auto
    then show ?thesis using ih unfolding e by (simp, linarith)
  qed
qed

lemma nbits_le: "n < 2 ^ k \<Longrightarrow> nbits n \<le> k"
proof (cases "n = 0")
  case False
  assume n: "n < 2 ^ k"
  have "2 ^ (nbits n - 1) < (2::nat) ^ k" using nbits_bounds [of n] False n by (meson le_less_trans not_gr_zero)
  then have "nbits n - 1 < k" by (rule power_less_imp_less_exp [rotated]) simp
  then show ?thesis by simp
qed (simp add: nbits.simps)

text \<open>Integers of at most 53 bits survive the conversion to a double and back.\<close>

lemma dbl_trunc_int_to_dbl:
  assumes "\<bar>k\<bar> < 2 ^ 53"
  shows "dbl_trunc (int_to_dbl k) = Some k"
proof (cases "k = 0")
  case True
  then show ?thesis
    by (simp add: int_to_dbl_def dbl_trunc_def dbl_exp_def dbl_man_def dbl_sig_def dbl_pow_def)
next
  case False
  define n where "n = nat \<bar>k\<bar>"
  define b where "b = nbits n"
  define s where "s = (if k < 0 then 1 else 0 :: int)"
  have n: "0 < n" "n < 2 ^ 53" using assms False by (auto simp: n_def zless_nat_eq_int_zless)
  have b: "2 ^ (b - 1) \<le> n" "n < 2 ^ b" "0 < b" "b \<le> 53"
    using nbits_bounds [OF n(1)] nbits_le [OF n(2)] by (auto simp: b_def)
  define m where "m = int n * 2 ^ (53 - b)"
  have "2 ^ (b - 1) * 2 ^ (53 - b) \<le> m"
    unfolding m_def using b(1) by (intro mult_right_mono) (auto simp flip: of_nat_power)
  moreover have "(2::int) ^ (b - 1) * 2 ^ (53 - b) = 2 ^ 52" using b by (simp flip: power_add)
  moreover have "m < 2 ^ b * 2 ^ (53 - b)"
    unfolding m_def using b(2) by (intro mult_strict_right_mono) (auto simp flip: of_nat_power)
  moreover have "(2::int) ^ b * 2 ^ (53 - b) = 2 ^ 53" using b by (simp flip: power_add)
  ultimately have m: "2 ^ 52 \<le> m" "m < 2 ^ 53" by simp_all
  define x where "x = s * 2 ^ 63 + (1022 + int b) * 2 ^ 52 + (m - 2 ^ 52)"
  have bb: "1 \<le> int b" "int b \<le> 53" using b by auto
  have x: "0 \<le> x" "x < 2 ^ 64" using m bb by (auto simp: x_def s_def)
  have u: "uint (int_to_dbl k) = x"
  proof -
    have "int_to_dbl k = word_of_int x"
      using False b by (simp add: int_to_dbl_def x_def s_def m_def round53_def n_def b_def algebra_simps)
    then show ?thesis using x by (simp add: uint_word_of_int)
  qed
  have neg: "dbl_neg (int_to_dbl k) \<longleftrightarrow> k < 0"
    using m bb by (auto simp: dbl_neg_def u x_def s_def)
  have div: "x div 2 ^ 52 = s * 2 ^ 11 + (1022 + int b)"
    using m by (intro div_pos_pos_trivial [THEN [2] trans] int_div_pos_eq [where r = "m - 2 ^ 52"])
      (auto simp: x_def)
  have exp: "dbl_exp (int_to_dbl k) = 1022 + int b"
    unfolding dbl_exp_def u div using bb by (auto simp: s_def)
  have man: "dbl_man (int_to_dbl k) = m - 2 ^ 52"
  proof -
    have "x = x div 2 ^ 52 * 2 ^ 52 + x mod 2 ^ 52" by simp
    then show ?thesis unfolding dbl_man_def u div by (simp add: x_def algebra_simps)
  qed
  have "dbl_sig (int_to_dbl k) = m" "dbl_pow (int_to_dbl k) = int b - 53"
    using exp man bb by (auto simp: dbl_sig_def dbl_pow_def)
  moreover have "m div 2 ^ (53 - b) = int n" by (simp add: m_def)
  ultimately show ?thesis
    using exp neg bb by (auto simp: dbl_trunc_def nat_diff_distrib m_def n_def)
qed

section \<open>Square roots\<close>

text \<open>The integer square root, one bit at a time.\<close>

fun isqrt :: "nat \<Rightarrow> nat" where
  "isqrt n =
     (if n = 0 then 0
      else (let r = 2 * isqrt (n div 4) in if (r + 1) * (r + 1) \<le> n then r + 1 else r))"

declare isqrt.simps [simp del]

text \<open>
  \<^verbatim>\<open>(intN_t) sqrt((long double) x)\<close> for an integer \<open>x \<ge> 0\<close> below \<open>2 ^ 63\<close>: \<open>x\<close> is rounded to a
  double, the correctly rounded square root has 53 bits, of which \<open>k\<close> are after the binary point.
\<close>

definition dbl_of_nat :: "nat \<Rightarrow> nat" where
  "dbl_of_nat x = (let b = nbits x in if b \<le> 53 then x else round53 x * 2 ^ (b - 53))"

definition sqrt_trunc :: "nat \<Rightarrow> nat" where
  "sqrt_trunc x =
     (let y = dbl_of_nat x;
          k = 53 - nbits (isqrt y);
          r = isqrt (y * 4 ^ k);
          r' = (if r * r + r < y * 4 ^ k then r + 1 else r)
      in r' div 2 ^ k)"

lemma isqrt_bounds: "isqrt n * isqrt n \<le> n \<and> n < (isqrt n + 1) * (isqrt n + 1)"
proof (induction n rule: isqrt.induct)
  case (1 n)
  show ?case
  proof (cases "n = 0")
    case True
    then show ?thesis by (simp add: isqrt.simps)
  next
    case False
    define q where "q = isqrt (n div 4)"
    have ih: "q * q \<le> n div 4" "n div 4 < (q + 1) * (q + 1)" using 1 False by (auto simp: q_def)
    have "4 * (q * q) \<le> n" "n < 4 * ((q + 1) * (q + 1))" using ih by linarith+
    moreover have "isqrt n = (if (2 * q + 1) * (2 * q + 1) \<le> n then 2 * q + 1 else 2 * q)"
      using False by (subst isqrt.simps) (simp add: q_def Let_def)
    ultimately show ?thesis by (auto simp: algebra_simps)
  qed
qed

lemma square_mono_iff: "a * a \<le> b * b \<longleftrightarrow> a \<le> (b::nat)"
  by (metis le_cases mult_le_mono nat_less_le not_less mult_strict_mono' zero_le)

lemma isqrt_unique: "r * r \<le> n \<Longrightarrow> n < (r + 1) * (r + 1) \<Longrightarrow> isqrt n = r"
proof -
  assume a: "r * r \<le> n" "n < (r + 1) * (r + 1)"
  have "r * r < (isqrt n + 1) * (isqrt n + 1)" "isqrt n * isqrt n < (r + 1) * (r + 1)"
    using a isqrt_bounds [of n] by linarith+
  then have "r < isqrt n + 1" "isqrt n < r + 1" using square_mono_iff by (metis not_le)+
  then show ?thesis by simp
qed

lemma isqrt_scale: "isqrt y * 2 ^ k \<le> isqrt (y * 4 ^ k)"
proof -
  have "isqrt y * 2 ^ k * (isqrt y * 2 ^ k) = isqrt y * isqrt y * 4 ^ k"
    by (simp add: algebra_simps flip: power_mult_distrib)
  also have "\<dots> \<le> y * 4 ^ k" using isqrt_bounds [of y] by simp
  also have "\<dots> < (isqrt (y * 4 ^ k) + 1) * (isqrt (y * 4 ^ k) + 1)"
    using isqrt_bounds [of "y * 4 ^ k"] by simp
  finally show ?thesis by (metis Suc_eq_plus1 less_Suc_eq_le not_le square_mono_iff)
qed

text \<open>Up to \<open>2 ^ 52\<close> the rounding never reaches the next integer: the result is the integer square root.\<close>

lemma sqrt_trunc_exact:
  assumes "x < 2 ^ 52"
  shows "sqrt_trunc x = isqrt x"
proof -
  define n where "n = isqrt x"
  define k where "k = 53 - nbits n"
  define r where "r = isqrt (x * 4 ^ k)"
  define r' where "r' = (if r * r + r < x * 4 ^ k then r + 1 else r)"
  have d: "dbl_of_nat x = x" using nbits_le [of x 53] assms by (simp add: dbl_of_nat_def Let_def)
  have nb: "n * n \<le> x" "x < (n + 1) * (n + 1)" using isqrt_bounds [of x] by (auto simp: n_def)
  have "n * n < 2 ^ 26 * 2 ^ 26" using nb assms by simp
  then have n26: "n < 2 ^ 26" using square_mono_iff [of "2 ^ 26" n] by linarith
  then have "27 \<le> k" using nbits_le [of n 26] by (simp add: k_def)
  then have "(2::nat) ^ 27 \<le> 2 ^ k" by (intro power_increasing) auto
  then have nk: "n + 1 < 2 ^ k" using n26 by simp
  have low: "n * 2 ^ k \<le> r'"
    using isqrt_scale [of x k] by (simp add: r'_def r_def n_def)
  have high: "r' < (n + 1) * 2 ^ k"
  proof (rule ccontr)
    assume "\<not> r' < (n + 1) * 2 ^ k"
    then have big: "(n + 1) * 2 ^ k \<le> r + (if r * r + r < x * 4 ^ k then 1 else 0)"
      by (simp add: r'_def split: if_splits)
    define B where "B = (n + 1) * 2 ^ k"
    have B2: "B * B = (n + 1) * (n + 1) * 4 ^ k"
      by (simp add: B_def algebra_simps flip: power_mult_distrib)
    have "x * 4 ^ k + 4 ^ k \<le> (n + 1) * (n + 1) * 4 ^ k"
      using nb(2) mult_right_mono [of "x + 1" "(n + 1) * (n + 1)" "4 ^ k"] by simp
    then have xB: "x * 4 ^ k + 4 ^ k \<le> B * B" using B2 by simp
    have rx: "r * r \<le> x * 4 ^ k" using isqrt_bounds by (simp add: r_def)
    have "B < 4 ^ k"
    proof -
      have "B < 2 ^ k * 2 ^ k" unfolding B_def using nk by (intro mult_strict_right_mono) auto
      then show ?thesis by (simp flip: power_mult_distrib)
    qed
    show False
    proof (cases "r * r + r < x * 4 ^ k")
      case True
      with big have "B \<le> r + 1" by (simp add: B_def)
      moreover have "0 < B" by (simp add: B_def)
      ultimately have "(B - 1) * B \<le> r * (r + 1)" by (intro mult_mono) auto
      then have "B * B - B \<le> r * r + r" by (simp add: diff_mult_distrib algebra_simps)
      with True xB \<open>B < 4 ^ k\<close> show False by linarith
    next
      case False
      with big have "B \<le> r" by (simp add: B_def)
      then have "B * B \<le> r * r" by (simp add: square_mono_iff)
      with rx xB show False by (metis add_leD1 add_le_same_cancel1 le_trans not_le zero_less_numeral zero_less_power)
    qed
  qed
  have "r' div 2 ^ k = n"
    using low high by (intro div_nat_eqI) (auto simp: mult.commute)
  then show ?thesis
    unfolding sqrt_trunc_def Let_def d n_def [symmetric] k_def [symmetric] r_def [symmetric]
      r'_def [symmetric] .
qed

section \<open>Multiplication and rounding up\<close>

text \<open>\<open>m * 2 ^ e\<close> rounded to the nearest double, ties to even, with gradual underflow and overflow to infinity.\<close>

definition dbl_of_dyadic :: "bool \<Rightarrow> nat \<Rightarrow> int \<Rightarrow> dbl" where
  "dbl_of_dyadic neg m e =
     (let q = max (- 1074) (e + int (nbits m) - 53);
          sig = (if q \<le> e then m * 2 ^ nat (e - q)
                 else let d = 2 ^ nat (q - e); n = m div d; r = m mod d
                      in if 2 * r > d \<or> (2 * r = d \<and> odd n) then n + 1 else n);
          bits = (if m = 0 then 0 else min ((q + 1074) * 2 ^ 52 + int sig) (2047 * 2 ^ 52))
      in word_of_int ((if neg then 2 ^ 63 else 0) + bits))"

definition dbl_mul :: "dbl \<Rightarrow> dbl \<Rightarrow> dbl" where
  "dbl_mul a b =
     (let neg = (dbl_neg a \<noteq> dbl_neg b); inf = word_of_int ((if neg then 2 ^ 63 else 0) + 2047 * 2 ^ 52)
      in if dbl_isnan a \<or> dbl_isnan b then 0x7ff8000000000000
         else if dbl_isinf a \<or> dbl_isinf b
         then (if dbl_sig a = 0 \<and> dbl_exp a = 0 \<or> dbl_sig b = 0 \<and> dbl_exp b = 0 then 0x7ff8000000000000 else inf)
         else dbl_of_dyadic neg (nat (dbl_sig a * dbl_sig b)) (dbl_pow a + dbl_pow b))"

text \<open>The value of \<^verbatim>\<open>ceil\<close> as an integer; \<open>None\<close> for NaNs and infinities.\<close>

definition dbl_ceil :: "dbl \<Rightarrow> int option" where
  "dbl_ceil d =
     (if dbl_exp d = 2047 then None
      else if dbl_pow d \<ge> 0 then Some ((if dbl_neg d then - 1 else 1) * dbl_sig d * 2 ^ nat (dbl_pow d))
      else Some (- ((if dbl_neg d then dbl_sig d else - dbl_sig d) div 2 ^ nat (- dbl_pow d))))"

text \<open>The cast of \<^verbatim>\<open>ceil(d)\<close> to an unsigned integer type of \<open>w\<close> bits.\<close>

definition dbl_ceil_to_uint :: "nat \<Rightarrow> dbl \<Rightarrow> int outcome" where
  "dbl_ceil_to_uint w d =
     (case dbl_ceil d of
        Some k \<Rightarrow> if 0 \<le> k \<and> k < 2 ^ w then Ok k else UB
      | None \<Rightarrow> UB)"

end
