(* ===== verification/Gmp.thy ===== *)
theory Gmp
  imports Dbl
begin

text \<open>
  The GNU multiple precision library is not part of the repository. Its functions are the fields
  of a record \<open>gmp\<close>, an argument of every definition that calls them; the locale \<open>gmp_lib\<close> states
  what the GMP manual promises of the calls the driver makes. An \<^verbatim>\<open>mpz_t\<close> is an integer.
  \<open>gmp_ref\<close> is a concrete, executable instance, on which the locale is interpreted and on which
  concrete inputs are evaluated.
\<close>

type_synonym byte = "8 word"

text \<open>The unsigned value of bytes, most significant first.\<close>

fun be_val_acc :: "int \<Rightarrow> byte list \<Rightarrow> int" where
  "be_val_acc a [] = a"
| "be_val_acc a (b # bs) = be_val_acc (a * 256 + uint b) bs"

definition be_val :: "byte list \<Rightarrow> int" where
  "be_val bs = be_val_acc 0 bs"

record gmp =
  mpz_set_str :: "string \<Rightarrow> nat \<Rightarrow> int option" \<comment> \<open>\<open>None\<close> for the error return -1\<close>
  mpz_get_str :: "int \<Rightarrow> string" \<comment> \<open>in base 10\<close>
  mpz_sizeinbase2 :: "int \<Rightarrow> nat"
  mpz_scan1 :: "int \<Rightarrow> nat" \<comment> \<open>from bit 0\<close>
  mpz_export :: "int \<Rightarrow> byte list" \<comment> \<open>order 1, size 1, endian 1, nails 0\<close>
  mpz_import :: "byte list \<Rightarrow> int" \<comment> \<open>same layout\<close>
  mpz_sgn :: "int \<Rightarrow> int"
  mpz_add :: "int \<Rightarrow> int \<Rightarrow> int"
  mpz_sub :: "int \<Rightarrow> int \<Rightarrow> int"
  mpz_mul :: "int \<Rightarrow> int \<Rightarrow> int"
  mpz_div :: "int \<Rightarrow> int \<Rightarrow> int"
  mpz_mod :: "int \<Rightarrow> int \<Rightarrow> int"
  mpz_neg :: "int \<Rightarrow> int"
  mpz_abs :: "int \<Rightarrow> int"
  mpz_sqrt :: "int \<Rightarrow> int"
  mpz_mul_2exp :: "int \<Rightarrow> nat \<Rightarrow> int"
  mpz_ui_pow_ui :: "nat \<Rightarrow> nat \<Rightarrow> int"
  mpz_cmp :: "int \<Rightarrow> int \<Rightarrow> int" \<comment> \<open>also \<^verbatim>\<open>mpz_cmp_si\<close>\<close>
  mpz_set_d :: "dbl \<Rightarrow> int"
  mpz_get_d :: "int \<Rightarrow> dbl"
  mpz_cmp_d :: "int \<Rightarrow> dbl \<Rightarrow> int"
  mpz_limbs :: "int \<Rightarrow> 64 word list" \<comment> \<open>\<^verbatim>\<open>mpz_getlimbn(n, 0 .. mpz_size(n) - 1)\<close>\<close>

locale gmp_lib =
  fixes g :: gmp
  assumes set_str_10: "ds \<noteq> [] \<Longrightarrow> list_all (digit_in 10) ds \<Longrightarrow>
      mpz_set_str g ds 10 = Some (int (fst (scan_digits 10 0 ds)))"
    and set_str_10_neg: "ds \<noteq> [] \<Longrightarrow> list_all (digit_in 10) ds \<Longrightarrow>
      mpz_set_str g (CHR ''-'' # ds) 10 = Some (- int (fst (scan_digits 10 0 ds)))"
    and set_str_0: "ds \<noteq> [] \<Longrightarrow> list_all (digit_in 10) ds \<Longrightarrow> hd ds \<noteq> CHR ''0'' \<or> tl ds = [] \<Longrightarrow>
      mpz_set_str g ds 0 = Some (int (fst (scan_digits 10 0 ds)))"
    and set_str_bad: "c \<in> set s \<Longrightarrow> \<not> isspace c \<Longrightarrow> c \<noteq> CHR ''-'' \<Longrightarrow> \<not> digit_in 10 c \<Longrightarrow>
      mpz_set_str g s 10 = None"
    and set_str_2: "ds \<noteq> [] \<Longrightarrow> list_all (digit_in 2) ds \<Longrightarrow>
      mpz_set_str g ds 2 = Some (int (fst (scan_digits 2 0 ds)))"
    and get_str: "mpz_get_str g n = show_int n"
    and sizeinbase2: "n \<noteq> 0 \<Longrightarrow>
      0 < mpz_sizeinbase2 g n \<and> 2 ^ (mpz_sizeinbase2 g n - 1) \<le> \<bar>n\<bar> \<and> \<bar>n\<bar> < 2 ^ mpz_sizeinbase2 g n"
    and scan1: "n \<noteq> 0 \<Longrightarrow> 2 ^ mpz_scan1 g n dvd n \<and> \<not> 2 ^ Suc (mpz_scan1 g n) dvd n"
    and export_val: "be_val (mpz_export g n) = \<bar>n\<bar>"
    and export_len: "n \<noteq> 0 \<Longrightarrow> length (mpz_export g n) = (mpz_sizeinbase2 g n + 7) div 8"
    and import_val: "mpz_import g bs = be_val bs"
    and sgn: "mpz_sgn g n = sgn n"
    and add: "mpz_add g a b = a + b"
    and sub: "mpz_sub g a b = a - b"
    and mul: "mpz_mul g a b = a * b"
    and div_floor: "b \<noteq> 0 \<Longrightarrow> mpz_div g a b = a div b"
    and mod_nonneg: "b \<noteq> 0 \<Longrightarrow> mpz_mod g a b = a mod \<bar>b\<bar>"
    and neg: "mpz_neg g a = - a"
    and abs: "mpz_abs g a = \<bar>a\<bar>"
    and sqrt: "0 \<le> a \<Longrightarrow> 0 \<le> mpz_sqrt g a \<and> (mpz_sqrt g a)\<^sup>2 \<le> a \<and> a < (mpz_sqrt g a + 1)\<^sup>2"
    and mul_2exp: "mpz_mul_2exp g a k = a * 2 ^ k"
    and ui_pow_ui: "mpz_ui_pow_ui g m k = int m ^ k"
    and cmp: "sgn (mpz_cmp g a b) = sgn (a - b)"
    and set_d: "dbl_trunc d = Some a \<Longrightarrow> mpz_set_d g d = a"
    and get_d: "\<bar>a\<bar> < 2 ^ 53 \<Longrightarrow> mpz_get_d g a = int_to_dbl a"
    and cmp_d: "0 \<le> dbl_pow d \<Longrightarrow> dbl_trunc d = Some b \<Longrightarrow> sgn (mpz_cmp_d g a d) = sgn (a - b)"

section \<open>A concrete instance\<close>

definition sizeinbase2_ref :: "int \<Rightarrow> nat" where
  "sizeinbase2_ref n = (if n = 0 then 1 else nbits (nat \<bar>n\<bar>))"

fun low_bit :: "nat \<Rightarrow> nat" where
  "low_bit n = (if n = 0 \<or> odd n then 0 else Suc (low_bit (n div 2)))"

declare low_bit.simps [simp del]

fun to_bytes :: "nat \<Rightarrow> byte list" where
  "to_bytes n = (if n = 0 then [] else to_bytes (n div 256) @ [word_of_nat (n mod 256)])"

declare to_bytes.simps [simp del]

fun limbs_ref :: "nat \<Rightarrow> 64 word list" where
  "limbs_ref n = (if n = 0 then [] else word_of_nat (n mod 2 ^ 64) # limbs_ref (n div 2 ^ 64))"

declare limbs_ref.simps [simp del]

text \<open>White space is skipped, a leading minus sign is taken, and base 0 looks at the prefix.\<close>

definition set_str_ref :: "string \<Rightarrow> nat \<Rightarrow> int option" where
  "set_str_ref s0 base =
     (let s1 = filter (\<lambda>c. \<not> isspace c) s0;
          neg = (case s1 of c # _ \<Rightarrow> c = CHR ''-'' | [] \<Rightarrow> False);
          s2 = (if neg then tl s1 else s1);
          (b, ds) =
            (if base = 0 then
               (if cget s2 0 = CHR ''0'' \<and> tolower (cget s2 1) = CHR ''x'' then (16, drop 2 s2)
                else if cget s2 0 = CHR ''0'' \<and> tolower (cget s2 1) = CHR ''b'' then (2, drop 2 s2)
                else if cget s2 0 = CHR ''0'' \<and> tl s2 \<noteq> [] then (8, s2)
                else (10, s2))
             else (base, s2))
      in if ds = [] \<or> \<not> list_all (digit_in b) ds then None
         else Some ((if neg then -1 else 1) * int (fst (scan_digits b 0 ds))))"

text \<open>The double with the 53 leading bits of a number, the others cut off.\<close>

definition get_d_ref :: "int \<Rightarrow> dbl" where
  "get_d_ref a =
     (let e = nbits (nat \<bar>a\<bar>) - 53 in int_to_dbl (sgn a * (\<bar>a\<bar> div 2 ^ e * 2 ^ e)))"

definition gmp_ref :: gmp where
  "gmp_ref = \<lparr>
     mpz_set_str = set_str_ref,
     mpz_get_str = show_int,
     mpz_sizeinbase2 = sizeinbase2_ref,
     mpz_scan1 = (\<lambda>n. low_bit (nat \<bar>n\<bar>)),
     mpz_export = (\<lambda>n. to_bytes (nat \<bar>n\<bar>)),
     mpz_import = be_val,
     mpz_sgn = sgn,
     mpz_add = (+), mpz_sub = (-), mpz_mul = (*),
     mpz_div = (div), mpz_mod = (\<lambda>a b. a mod \<bar>b\<bar>),
     mpz_neg = uminus, mpz_abs = abs,
     mpz_sqrt = (\<lambda>a. int (isqrt (nat a))),
     mpz_mul_2exp = (\<lambda>a k. a * 2 ^ k),
     mpz_ui_pow_ui = (\<lambda>a k. int a ^ k),
     mpz_cmp = (\<lambda>a b. if a < b then -1 else if a > b then 1 else 0),
     mpz_set_d = (\<lambda>d. case dbl_trunc d of Some k \<Rightarrow> k | None \<Rightarrow> 0),
     mpz_get_d = get_d_ref,
     mpz_cmp_d = (\<lambda>a d. case dbl_trunc d of Some b \<Rightarrow> a - b | None \<Rightarrow> 0),
     mpz_limbs = (\<lambda>n. limbs_ref (nat \<bar>n\<bar>))\<rparr>"

lemma be_val_acc_append: "be_val_acc a (xs @ ys) = be_val_acc (be_val_acc a xs) ys"
  by (induction xs arbitrary: a) auto

lemma be_val_acc_eq: "be_val_acc a bs = a * 256 ^ length bs + be_val bs"
proof (induction bs arbitrary: a)
  case Nil
  then show ?case by (simp add: be_val_def)
next
  case (Cons b bs)
  have "be_val_acc a (b # bs) = (a * 256 + uint b) * 256 ^ length bs + be_val bs"
    using Cons [of "a * 256 + uint b"] by simp
  moreover have "be_val (b # bs) = uint b * 256 ^ length bs + be_val bs"
    using Cons [of "uint b"] by (simp add: be_val_def)
  ultimately show ?case by (simp add: distrib_right)
qed

lemma be_val_Nil [simp]: "be_val [] = 0"
  by (simp add: be_val_def)

lemma be_val_Cons: "be_val (b # bs) = uint b * 256 ^ length bs + be_val bs"
  by (simp add: be_val_def be_val_acc_eq [of "uint b"])

lemma be_val_snoc: "be_val (bs @ [b]) = be_val bs * 256 + uint b"
  by (simp add: be_val_def be_val_acc_append)

lemma be_val_nonneg: "0 \<le> be_val bs"
  by (induction bs) (auto simp: be_val_Cons)

lemma uint_byte: "uint (b :: byte) < 256" "0 \<le> uint (b :: byte)"
  using uint_lt2p [of b] by simp_all

lemma be_val_less: "be_val bs < 256 ^ length bs"
proof (induction bs)
  case (Cons b bs)
  have "uint b + 1 \<le> 256" using uint_byte [of b] by simp
  then have "(uint b + 1) * 256 ^ length bs \<le> 256 * 256 ^ length bs"
    by (intro mult_right_mono) auto
  then have "uint b * 256 ^ length bs + 256 ^ length bs \<le> 256 * 256 ^ length bs"
    by (simp only: distrib_right mult_1)
  with Cons have "uint b * 256 ^ length bs + be_val bs < 256 * 256 ^ length bs"
    by linarith
  then show ?case by (simp add: be_val_Cons)
qed simp

lemma be_val_to_bytes: "be_val (to_bytes n) = int n"
proof (induction n rule: to_bytes.induct)
  case (1 n)
  have byte: "uint (word_of_nat (n mod 256) :: byte) = int n mod 256"
    by (simp add: unsigned_of_nat take_bit_eq_mod of_nat_mod)
  show ?case
  proof (cases "n = 0")
    case True
    then show ?thesis by (simp add: to_bytes.simps)
  next
    case False
    then have "be_val (to_bytes (n div 256)) = int n div 256" using 1 by (simp add: zdiv_int)
    moreover have "to_bytes n = to_bytes (n div 256) @ [word_of_nat (n mod 256)]"
      using False by (simp add: to_bytes.simps [of n])
    ultimately show ?thesis using byte by (simp add: be_val_snoc)
  qed
qed

lemma nbits_div: "2 ^ k \<le> m \<Longrightarrow> nbits m = k + nbits (m div 2 ^ k)"
proof (induction k)
  case (Suc k)
  then have "2 ^ k \<le> m" and "2 \<le> m div 2 ^ k"
    by (auto simp: less_eq_div_iff_mult_less_eq mult.commute)
  with Suc.IH have "nbits m = k + nbits (m div 2 ^ k)" by simp
  also have "nbits (m div 2 ^ k) = Suc (nbits (m div 2 ^ k div 2))"
    using \<open>2 \<le> m div 2 ^ k\<close> by (subst nbits.simps) simp
  also have "m div 2 ^ k div 2 = m div 2 ^ Suc k"
    by (simp add: mult.commute flip: div_mult2_eq)
  finally show ?case by simp
qed simp

lemma length_to_bytes: "length (to_bytes n) = (nbits n + 7) div 8"
proof (induction n rule: to_bytes.induct)
  case (1 n)
  show ?case
  proof (cases "n < 256")
    case True
    have small: "length (to_bytes n) = (if n = 0 then 0 else 1)"
      using True by (subst to_bytes.simps) (simp add: to_bytes.simps [of 0])
    have "nbits n = 0" if "n = 0" using that by (simp add: nbits.simps)
    moreover have "0 < nbits n \<and> nbits n \<le> 8" if "n \<noteq> 0"
    proof -
      from that have b: "0 < nbits n" "2 ^ (nbits n - 1) \<le> n" using nbits_bounds [of n] by auto
      then have "(2::nat) ^ (nbits n - 1) < 2 ^ 8" using True by simp
      then have "nbits n - 1 < 8" by (rule power_less_imp_less_exp [rotated]) simp
      with b show ?thesis by simp
    qed
    ultimately show ?thesis using small by (cases "n = 0") (auto simp: div_eq_dividend_iff)
  next
    case False
    then have "length (to_bytes n) = Suc (length (to_bytes (n div 256)))"
      by (subst to_bytes.simps) simp
    moreover have "(8 + k + 7) div 8 = Suc ((k + 7) div 8)" for k :: nat by simp
    ultimately show ?thesis using False 1 nbits_div [of 8 n] by simp
  qed
qed

lemma low_bit_dvd: "0 < n \<Longrightarrow> 2 ^ low_bit n dvd n \<and> \<not> 2 ^ Suc (low_bit n) dvd n"
proof (induction n rule: low_bit.induct)
  case (1 n)
  show ?case
  proof (cases "odd n")
    case True
    then show ?thesis by (simp add: low_bit.simps [of n])
  next
    case False
    then obtain m where m: "n = 2 * m" by auto
    with 1 have "2 ^ low_bit m dvd m \<and> \<not> 2 ^ Suc (low_bit m) dvd m" by auto
    moreover have "low_bit n = Suc (low_bit m)" using m 1 by (subst low_bit.simps) simp
    ultimately show ?thesis using m by simp
  qed
qed

lemma digit_in_not_space: "digit_in b c \<Longrightarrow> \<not> isspace c \<and> c \<noteq> CHR ''-''"
  by (auto simp: digit_in_def digit_val_def ctype_defs split: if_splits)

lemma filter_space_digits: "list_all (digit_in b) ds \<Longrightarrow> filter (\<lambda>c. \<not> isspace c) ds = ds"
  by (induction ds) (auto dest: digit_in_not_space)

lemma digit_in_tolower: "digit_in 10 c \<Longrightarrow> tolower c = c \<and> c \<noteq> CHR ''x'' \<and> c \<noteq> CHR ''b''"
  by (auto simp: digit_in_def digit_val_def ctype_defs tolower_def split: if_splits)

lemma set_str_ref_plain:
  assumes "ds \<noteq> []" and "list_all (digit_in b) ds" and "b \<noteq> 0"
  shows "set_str_ref ds b = Some (int (fst (scan_digits b 0 ds)))"
    and "set_str_ref (CHR ''-'' # ds) b = Some (- int (fst (scan_digits b 0 ds)))"
proof -
  obtain c cs where ds: "ds = c # cs" using assms by (cases ds) auto
  have c: "c \<noteq> CHR ''-''" using assms ds digit_in_not_space by auto
  have f: "filter (\<lambda>c. \<not> isspace c) ds = ds" using assms filter_space_digits by blast
  show "set_str_ref ds b = Some (int (fst (scan_digits b 0 ds)))"
    using assms ds c f by (simp add: set_str_ref_def Let_def del: scan_digits.simps)
  have "\<not> isspace CHR ''-''" by (simp add: isspace_def)
  then show "set_str_ref (CHR ''-'' # ds) b = Some (- int (fst (scan_digits b 0 ds)))"
    using assms f by (simp add: set_str_ref_def)
qed

lemma set_str_ref_base0:
  assumes "ds \<noteq> []" and "list_all (digit_in 10) ds" and "hd ds \<noteq> CHR ''0'' \<or> tl ds = []"
  shows "set_str_ref ds 0 = Some (int (fst (scan_digits 10 0 ds)))"
proof -
  obtain c cs where ds: "ds = c # cs" using assms by (cases ds) auto
  have c: "c \<noteq> CHR ''-''" using assms ds digit_in_not_space by auto
  have f: "filter (\<lambda>c. \<not> isspace c) ds = ds" using assms filter_space_digits by blast
  show ?thesis using assms ds c f
    by (auto simp: set_str_ref_def Let_def tolower_def isupper_def simp del: scan_digits.simps)
qed

lemma set_str_ref_bad:
  assumes "c \<in> set s" and "\<not> isspace c" and "c \<noteq> CHR ''-''" and "\<not> digit_in 10 c"
  shows "set_str_ref s 10 = None"
proof -
  have "c \<in> set (filter (\<lambda>c. \<not> isspace c) s)" using assms by simp
  then show ?thesis using assms
    by (cases "filter (\<lambda>c. \<not> isspace c) s") (auto simp: set_str_ref_def list_all_iff Let_def)
qed

interpretation gmp_ref: gmp_lib gmp_ref
proof (unfold_locales, goal_cases)
  case (1 ds)
  then show ?case by (simp add: gmp_ref_def set_str_ref_plain)
next
  case (2 ds)
  then show ?case by (simp add: gmp_ref_def set_str_ref_plain)
next
  case (3 ds)
  then show ?case by (simp add: gmp_ref_def set_str_ref_base0)
next
  case (4 c s)
  then show ?case by (simp add: gmp_ref_def set_str_ref_bad)
next
  case (5 ds)
  then show ?case by (simp add: gmp_ref_def set_str_ref_plain)
next
  case (7 n)
  then have b: "0 < nbits (nat \<bar>n\<bar>)" "2 ^ (nbits (nat \<bar>n\<bar>) - 1) \<le> nat \<bar>n\<bar>"
    "nat \<bar>n\<bar> < 2 ^ nbits (nat \<bar>n\<bar>)" using nbits_bounds [of "nat \<bar>n\<bar>"] by auto
  then have "int (2 ^ (nbits (nat \<bar>n\<bar>) - 1)) \<le> \<bar>n\<bar>" "\<bar>n\<bar> < int (2 ^ nbits (nat \<bar>n\<bar>))"
    by linarith+
  with 7 b(1) show ?case by (simp add: gmp_ref_def sizeinbase2_ref_def)
next
  case (8 n)
  then have "2 ^ low_bit (nat \<bar>n\<bar>) dvd nat \<bar>n\<bar>" "\<not> 2 ^ Suc (low_bit (nat \<bar>n\<bar>)) dvd nat \<bar>n\<bar>"
    using low_bit_dvd [of "nat \<bar>n\<bar>"] by auto
  then have "int (2 ^ low_bit (nat \<bar>n\<bar>)) dvd int (nat \<bar>n\<bar>)"
    "\<not> int (2 ^ Suc (low_bit (nat \<bar>n\<bar>))) dvd int (nat \<bar>n\<bar>)"
    by (simp_all only: int_dvd_int_iff not_False_eq_True)
  then show ?case by (simp add: gmp_ref_def)
next
  case (9 n)
  then show ?case by (simp add: gmp_ref_def be_val_to_bytes)
next
  case (10 n)
  then show ?case by (simp add: gmp_ref_def length_to_bytes sizeinbase2_ref_def)
next
  case (20 a)
  then obtain n where n: "a = int n" by (metis nonneg_int_cases)
  have "int (isqrt n * isqrt n) \<le> int n" "int n < int ((isqrt n + 1) * (isqrt n + 1))"
    using isqrt_bounds [of n] by (simp_all only: of_nat_le_iff of_nat_less_iff)
  then have "(int (isqrt n))\<^sup>2 \<le> int n" "int n < (int (isqrt n) + 1)\<^sup>2"
    by (simp_all only: of_nat_mult of_nat_add of_nat_1 power2_eq_square)
  then show ?case using n by (simp add: gmp_ref_def)
next
  case (25 a)
  then have "nbits (nat \<bar>a\<bar>) \<le> 53" by (intro nbits_le) (simp add: nat_less_iff)
  then show ?case by (simp add: gmp_ref_def get_d_ref_def mult_sgn_abs)
qed (auto simp: gmp_ref_def)

end
