(* ===== verification/Types.thy ===== *)
theory Types
  imports Prelude
begin

text \<open>
  \<^verbatim>\<open>ext/util/types.c\<close>: the type descriptions of columns and collections, their comparison and their
  names, and the scalar type names of \<^verbatim>\<open>ext/util/collections.c\<close>. The codes of \<^verbatim>\<open>CassValueType\<close> are those
  of the native protocol, in which the driver's header defines the enumeration.
\<close>

datatype cass_value_type =
    CASS_CUSTOM | CASS_ASCII | CASS_BIGINT | CASS_BLOB | CASS_BOOLEAN | CASS_COUNTER | CASS_DECIMAL | CASS_DOUBLE | CASS_FLOAT | CASS_INT | CASS_TEXT
  | CASS_TIMESTAMP | CASS_UUID | CASS_VARCHAR | CASS_VARINT | CASS_TIMEUUID | CASS_INET | CASS_DATE | CASS_TIME | CASS_SMALL_INT | CASS_TINY_INT
  | CASS_DURATION | CASS_LIST | CASS_MAP | CASS_SET | CASS_UDT | CASS_TUPLE

fun type_code :: "cass_value_type \<Rightarrow> nat" where
  "type_code CASS_CUSTOM = 0x00" | "type_code CASS_ASCII = 0x01" | "type_code CASS_BIGINT = 0x02"
| "type_code CASS_BLOB = 0x03" | "type_code CASS_BOOLEAN = 0x04" | "type_code CASS_COUNTER = 0x05"
| "type_code CASS_DECIMAL = 0x06" | "type_code CASS_DOUBLE = 0x07" | "type_code CASS_FLOAT = 0x08"
| "type_code CASS_INT = 0x09" | "type_code CASS_TEXT = 0x0A" | "type_code CASS_TIMESTAMP = 0x0B"
| "type_code CASS_UUID = 0x0C" | "type_code CASS_VARCHAR = 0x0D" | "type_code CASS_VARINT = 0x0E"
| "type_code CASS_TIMEUUID = 0x0F" | "type_code CASS_INET = 0x10" | "type_code CASS_DATE = 0x11"
| "type_code CASS_TIME = 0x12" | "type_code CASS_SMALL_INT = 0x13" | "type_code CASS_TINY_INT = 0x14"
| "type_code CASS_DURATION = 0x15" | "type_code CASS_LIST = 0x20" | "type_code CASS_MAP = 0x21"
| "type_code CASS_SET = 0x22" | "type_code CASS_UDT = 0x30" | "type_code CASS_TUPLE = 0x31"

text \<open>
  A \<^verbatim>\<open>php_driver_type\<close>: a scalar, a collection, a map, a set, a custom class, a user type with its
  optional keyspace and name and its fields, or a tuple.
\<close>

datatype php_driver_type =
    TScalar cass_value_type
  | TCollection php_driver_type
  | TMap php_driver_type php_driver_type
  | TSet php_driver_type
  | TCustom string
  | TUdt "string option" "string option" "(string \<times> php_driver_type) list"
  | TTuple "php_driver_type list"

fun type_type :: "php_driver_type \<Rightarrow> cass_value_type" where
  "type_type (TScalar t) = t"
| "type_type (TCollection _) = CASS_LIST"
| "type_type (TMap _ _) = CASS_MAP"
| "type_type (TSet _) = CASS_SET"
| "type_type (TCustom _) = CASS_CUSTOM"
| "type_type (TUdt _ _ _) = CASS_UDT"
| "type_type (TTuple _) = CASS_TUPLE"

section \<open>Comparison\<close>

text \<open>\<^verbatim>\<open>memcmp\<close> of two buffers of the same length, up to the magnitude of the result.\<close>

fun memcmp :: "string \<Rightarrow> string \<Rightarrow> int" where
  "memcmp (c # s) (d # t) =
     (if (of_char c :: nat) < of_char d then - 1
      else if (of_char d :: nat) < of_char c then 1 else memcmp s t)"
| "memcmp _ _ = 0"

definition php5to7_string_compare :: "string \<Rightarrow> string \<Rightarrow> int" where
  "php5to7_string_compare s1 s2 =
     (if length s1 \<noteq> length s2 then (if length s1 < length s2 then - 1 else 1) else memcmp s1 s2)"

definition is_string_type :: "cass_value_type \<Rightarrow> bool" where
  "is_string_type t \<longleftrightarrow> t = CASS_VARCHAR \<or> t = CASS_TEXT"

fun php_driver_type_compare :: "php_driver_type \<Rightarrow> php_driver_type \<Rightarrow> int"
  and tuple_compare :: "php_driver_type list \<Rightarrow> php_driver_type list \<Rightarrow> int"
  and user_type_compare :: "(string \<times> php_driver_type) list \<Rightarrow> (string \<times> php_driver_type) list \<Rightarrow> int" where
  "php_driver_type_compare type1 type2 =
     (if type_type type1 \<noteq> type_type type2 then
        (if is_string_type (type_type type1) \<and> is_string_type (type_type type2) then 0
         else if type_code (type_type type1) < type_code (type_type type2) then - 1 else 1)
      else
        case (type1, type2) of
          (TCollection v1, TCollection v2) \<Rightarrow> php_driver_type_compare v1 v2
        | (TMap k1 v1, TMap k2 v2) \<Rightarrow>
            (let result = php_driver_type_compare k1 k2
             in if result \<noteq> 0 then result else php_driver_type_compare v1 v2)
        | (TSet v1, TSet v2) \<Rightarrow> php_driver_type_compare v1 v2
        | (TTuple ts1, TTuple ts2) \<Rightarrow>
            if length ts1 \<noteq> length ts2 then (if length ts1 < length ts2 then - 1 else 1)
            else tuple_compare ts1 ts2
        | (TUdt _ _ fs1, TUdt _ _ fs2) \<Rightarrow>
            if length fs1 \<noteq> length fs2 then (if length fs1 < length fs2 then - 1 else 1)
            else user_type_compare fs1 fs2
        | _ \<Rightarrow> 0)"
| "tuple_compare (t1 # ts1) (t2 # ts2) =
     (let result = php_driver_type_compare t1 t2
      in if result \<noteq> 0 then result else tuple_compare ts1 ts2)"
| "tuple_compare _ _ = 0"
| "user_type_compare ((key1, t1) # fs1) ((key2, t2) # fs2) =
     (let result = php5to7_string_compare key1 key2
      in if result \<noteq> 0 then result
         else let result = php_driver_type_compare t1 t2
              in if result \<noteq> 0 then result else user_type_compare fs1 fs2)"
| "user_type_compare _ _ = 0"

declare php_driver_type_compare.simps [simp del]

section \<open>Names\<close>

text \<open>The table \<^verbatim>\<open>PHP_DRIVER_SCALAR_TYPES_MAP\<close>.\<close>

definition scalar_types :: "(string \<times> cass_value_type) list" where
  "scalar_types =
     [(''ascii'', CASS_ASCII), (''bigint'', CASS_BIGINT), (''smallint'', CASS_SMALL_INT), (''tinyint'', CASS_TINY_INT),
      (''blob'', CASS_BLOB), (''boolean'', CASS_BOOLEAN), (''counter'', CASS_COUNTER), (''decimal'', CASS_DECIMAL),
      (''double'', CASS_DOUBLE), (''duration'', CASS_DURATION), (''float'', CASS_FLOAT), (''int'', CASS_INT),
      (''text'', CASS_TEXT), (''timestamp'', CASS_TIMESTAMP), (''date'', CASS_DATE), (''time'', CASS_TIME),
      (''uuid'', CASS_UUID), (''varchar'', CASS_VARCHAR), (''varint'', CASS_VARINT), (''timeuuid'', CASS_TIMEUUID),
      (''inet'', CASS_INET)]"

definition php_driver_scalar_type_name :: "cass_value_type \<Rightarrow> string" where
  "php_driver_scalar_type_name t =
     (case find (\<lambda>(_, v). v = t) scalar_types of Some (name, _) \<Rightarrow> name | None \<Rightarrow> ''invalid'')"

text \<open>The chain of comparisons in \<^verbatim>\<open>php_driver_value_type\<close>, in its order.\<close>

definition php_driver_value_type :: "string \<Rightarrow> cass_value_type outcome" where
  "php_driver_value_type type =
     (case map_of [(''ascii'', CASS_ASCII), (''bigint'', CASS_BIGINT), (''smallint'', CASS_SMALL_INT),
        (''tinyint'', CASS_TINY_INT), (''blob'', CASS_BLOB), (''boolean'', CASS_BOOLEAN), (''counter'', CASS_COUNTER),
        (''decimal'', CASS_DECIMAL), (''duration'', CASS_DURATION), (''double'', CASS_DOUBLE), (''float'', CASS_FLOAT),
        (''int'', CASS_INT), (''text'', CASS_TEXT), (''timestamp'', CASS_TIMESTAMP), (''date'', CASS_DATE),
        (''time'', CASS_TIME), (''uuid'', CASS_UUID), (''varchar'', CASS_VARCHAR), (''varint'', CASS_VARINT),
        (''timeuuid'', CASS_TIMEUUID), (''inet'', CASS_INET)] (cstr type) of
        Some v \<Rightarrow> Ok v
      | None \<Rightarrow> Throw InvalidArgumentException)"

text \<open>
  The argument that the constructors of \<^verbatim>\<open>Set\<close>, \<^verbatim>\<open>Map\<close> and \<^verbatim>\<open>Collection\<close> turn into a type: a type name, an
  instance of \<^verbatim>\<open>Type\<close>, or any other value. \<open>php_driver_type_validate\<close> refuses the types of custom
  columns.
\<close>

datatype type_arg = ArgString string | ArgType php_driver_type | ArgOther

fun php_driver_type_validate :: "php_driver_type \<Rightarrow> bool" where
  "php_driver_type_validate (TCustom _) = False"
| "php_driver_type_validate _ = True"

fun php_driver_type_arg :: "type_arg \<Rightarrow> php_driver_type outcome" where
  "php_driver_type_arg (ArgString name) =
     bind_outcome (php_driver_value_type name) (\<lambda>value_type. Ok (TScalar value_type))"
| "php_driver_type_arg (ArgType type) =
     (if php_driver_type_validate type then Ok type else Throw InvalidArgumentException)"
| "php_driver_type_arg ArgOther = Throw InvalidArgumentException"

text \<open>
  The loops over the fields of a user type in \<^verbatim>\<open>types.c\<close> and \<^verbatim>\<open>collections.c\<close> store the key in a variable of
  type \<^verbatim>\<open>char *\<close>. From PHP 7 on the macro assigns a \<^verbatim>\<open>zend_string *\<close> there, so that the characters read are
  the bytes of that structure, of which the reference count is the first. What lies at the address
  of a key is the argument \<open>key_mem\<close>; before PHP 7 it is the key itself.
\<close>

definition key_chars :: "(string \<Rightarrow> string) \<Rightarrow> string \<Rightarrow> string" where
  "key_chars key_mem name = cstr (key_mem name)"

text \<open>The text appended to the buffer.\<close>

fun php_driver_type_string :: "(string \<Rightarrow> string) \<Rightarrow> php_driver_type \<Rightarrow> string"
  and tuple_string :: "(string \<Rightarrow> string) \<Rightarrow> php_driver_type list \<Rightarrow> bool \<Rightarrow> string"
  and user_type_string :: "(string \<Rightarrow> string) \<Rightarrow> (string \<times> php_driver_type) list \<Rightarrow> bool \<Rightarrow> string" where
  "php_driver_type_string km (TScalar t) = php_driver_scalar_type_name t"
| "php_driver_type_string km (TCollection v) = ''list<'' @ php_driver_type_string km v @ ''>''"
| "php_driver_type_string km (TMap k v) =
     ''map<'' @ php_driver_type_string km k @ '', '' @ php_driver_type_string km v @ ''>''"
| "php_driver_type_string km (TSet v) = ''set<'' @ php_driver_type_string km v @ ''>''"
| "php_driver_type_string km (TCustom _) = ''invalid''"
| "php_driver_type_string km (TUdt keyspace type_name fs) =
     (case type_name of
        Some name \<Rightarrow> (case keyspace of Some ks \<Rightarrow> ks @ ''.'' | None \<Rightarrow> []) @ name
      | None \<Rightarrow> ''userType<'' @ user_type_string km fs True @ ''>'')"
| "php_driver_type_string km (TTuple ts) = ''tuple<'' @ tuple_string km ts True @ ''>''"
| "tuple_string km [] first = []"
| "tuple_string km (t # ts) first =
     (if first then [] else '', '') @ php_driver_type_string km t @ tuple_string km ts False"
| "user_type_string km [] first = []"
| "user_type_string km ((name, t) # fs) first =
     (if first then [] else '', '') @ key_chars km name @ '':'' @ php_driver_type_string km t @
     user_type_string km fs False"

section \<open>What the comparison identifies\<close>

text \<open>
  Types with the names the comparison does not look at removed: \<^verbatim>\<open>text\<close> is \<^verbatim>\<open>varchar\<close>, user types lose
  keyspace and name, custom types their class.
\<close>

fun type_norm :: "php_driver_type \<Rightarrow> php_driver_type" where
  "type_norm (TScalar t) = TScalar (if t = CASS_TEXT then CASS_VARCHAR else t)"
| "type_norm (TCollection v) = TCollection (type_norm v)"
| "type_norm (TMap k v) = TMap (type_norm k) (type_norm v)"
| "type_norm (TSet v) = TSet (type_norm v)"
| "type_norm (TCustom _) = TCustom []"
| "type_norm (TUdt _ _ fs) = TUdt None None (map (\<lambda>(n, t). (n, type_norm t)) fs)"
| "type_norm (TTuple ts) = TTuple (map type_norm ts)"

text \<open>The types the driver builds: a \<open>TScalar\<close> holds a scalar code.\<close>

fun type_wf :: "php_driver_type \<Rightarrow> bool" where
  "type_wf (TScalar t) = (t \<in> snd ` set scalar_types)"
| "type_wf (TCollection v) = type_wf v"
| "type_wf (TMap k v) = (type_wf k \<and> type_wf v)"
| "type_wf (TSet v) = type_wf v"
| "type_wf (TCustom _) = True"
| "type_wf (TUdt _ _ fs) = (\<forall>(n, t) \<in> set fs. type_wf t)"
| "type_wf (TTuple ts) = (\<forall>t \<in> set ts. type_wf t)"

lemma type_code_inj: "type_code a = type_code b \<longleftrightarrow> a = b"
  by (cases a; cases b) simp_all

lemma memcmp_0: "length s = length t \<Longrightarrow> memcmp s t = 0 \<longleftrightarrow> s = t"
proof (induction s t rule: memcmp.induct)
  case (1 c s d t)
  then show ?case by (cases "(of_char c :: nat)" "of_char d :: nat" rule: linorder_cases) auto
qed auto

lemma string_compare_0: "php5to7_string_compare s t = 0 \<longleftrightarrow> s = t"
  by (auto simp: php5to7_string_compare_def memcmp_0)

lemma type_type_kind:
  assumes "type_wf a" and "type_wf b" and "type_type a = type_type b"
  shows "(\<exists>t. a = TScalar t \<and> b = TScalar t) \<or> (\<exists>v w. a = TCollection v \<and> b = TCollection w) \<or>
    (\<exists>k v l w. a = TMap k v \<and> b = TMap l w) \<or> (\<exists>v w. a = TSet v \<and> b = TSet w) \<or>
    (\<exists>m n. a = TCustom m \<and> b = TCustom n) \<or> (\<exists>k n fs l m gs. a = TUdt k n fs \<and> b = TUdt l m gs) \<or>
    (\<exists>ts us. a = TTuple ts \<and> b = TTuple us)"
  using assms by (cases a; cases b) (auto simp: scalar_types_def)

lemma type_norm_type:
  "type_wf a \<Longrightarrow> type_wf b \<Longrightarrow> type_norm a = type_norm b \<Longrightarrow> type_type a \<noteq> type_type b \<Longrightarrow>
     is_string_type (type_type a) \<and> is_string_type (type_type b)"
  by (cases a; cases b) (auto simp: is_string_type_def split: if_splits)

lemma string_types_norm:
  "type_wf a \<Longrightarrow> type_wf b \<Longrightarrow> is_string_type (type_type a) \<Longrightarrow> is_string_type (type_type b) \<Longrightarrow>
     type_norm a = type_norm b"
  by (cases a; cases b) (auto simp: is_string_type_def)

lemma type_compare_0:
  "type_wf a \<Longrightarrow> type_wf b \<Longrightarrow> php_driver_type_compare a b = 0 \<longleftrightarrow> type_norm a = type_norm b"
  "\<forall>t \<in> set ts. type_wf t \<Longrightarrow> \<forall>t \<in> set us. type_wf t \<Longrightarrow> length ts = length us \<Longrightarrow>
     tuple_compare ts us = 0 \<longleftrightarrow> map type_norm ts = map type_norm us"
  "\<forall>(n, t) \<in> set fs. type_wf t \<Longrightarrow> \<forall>(n, t) \<in> set gs. type_wf t \<Longrightarrow> length fs = length gs \<Longrightarrow>
     user_type_compare fs gs = 0 \<longleftrightarrow> map (\<lambda>(n, t). (n, type_norm t)) fs = map (\<lambda>(n, t). (n, type_norm t)) gs"
proof (induction a b and ts us and fs gs rule: php_driver_type_compare_tuple_compare_user_type_compare.induct)
  case (1 a b)
  show ?case
  proof (cases "type_type a = type_type b")
    case False
    then have "php_driver_type_compare a b = 0 \<longleftrightarrow> is_string_type (type_type a) \<and> is_string_type (type_type b)"
      by (simp add: php_driver_type_compare.simps)
    then show ?thesis using False 1(7,8) type_norm_type string_types_norm by blast
  next
    case True
    from type_type_kind [OF 1(7,8) True] show ?thesis
    proof (elim disjE exE conjE)
      fix ts us assume t: "a = TTuple ts" "b = TTuple us"
      then show ?thesis
        using 1 by (auto simp: php_driver_type_compare.simps dest: map_eq_imp_length_eq)
    next
      fix k n fs l m gs assume t: "a = TUdt k n fs" "b = TUdt l m gs"
      then show ?thesis
        using 1 by (auto simp: php_driver_type_compare.simps dest: map_eq_imp_length_eq)
    qed (use 1 True in \<open>auto simp: php_driver_type_compare.simps Let_def\<close>)
  qed
next
  case (2 t1 ts1 t2 ts2)
  then show ?case by (auto simp: Let_def)
next
  case (4 key1 t1 fs1 key2 t2 fs2)
  then show ?case by (auto simp: Let_def string_compare_0)
qed auto

section \<open>Properties\<close>

text \<open>
  Two types compare equal exactly when they agree up to what the comparison does not look at:
  \<^verbatim>\<open>text\<close> against \<^verbatim>\<open>varchar\<close>, the keyspace and name of a user type, and the class name of a custom type.
\<close>

theorem type_compare_equal:
  assumes "type_wf a" and "type_wf b"
  shows "php_driver_type_compare a b = 0 \<longleftrightarrow> type_norm a = type_norm b"
  using assms by (rule type_compare_0(1))

theorem type_compare_equal_witness:
  "php_driver_type_compare (TSet (TScalar CASS_TEXT)) (TSet (TScalar CASS_VARCHAR)) = 0 \<and>
   php_driver_type_compare (TSet (TScalar CASS_TEXT)) (TSet (TScalar CASS_INT)) \<noteq> 0"
  using type_compare_equal [of "TSet (TScalar CASS_TEXT)" "TSet (TScalar CASS_VARCHAR)"]
    type_compare_equal [of "TSet (TScalar CASS_TEXT)" "TSet (TScalar CASS_INT)"]
  by (simp add: scalar_types_def)

text \<open>
  The name of a scalar type is read back to that type, and only a name is read: every other
  string is refused with an invalid-argument exception.
\<close>

theorem scalar_type_names:
  "(\<forall>t \<in> snd ` set scalar_types. php_driver_value_type (php_driver_scalar_type_name t) = Ok t) \<and>
   (\<forall>s. NUL \<notin> set s \<longrightarrow> s \<notin> fst ` set scalar_types \<longrightarrow>
      php_driver_value_type s = Throw InvalidArgumentException)"
proof
  show "\<forall>t \<in> snd ` set scalar_types. php_driver_value_type (php_driver_scalar_type_name t) = Ok t"
    by (simp add: scalar_types_def php_driver_scalar_type_name_def php_driver_value_type_def cstr_def)
  show "\<forall>s. NUL \<notin> set s \<longrightarrow> s \<notin> fst ` set scalar_types \<longrightarrow>
      php_driver_value_type s = Throw InvalidArgumentException"
    by (simp add: scalar_types_def php_driver_value_type_def cstr_id)
qed

theorem scalar_type_names_witness:
  "php_driver_value_type (php_driver_scalar_type_name CASS_TIMEUUID) = Ok CASS_TIMEUUID \<and>
   php_driver_value_type ''string'' = Throw InvalidArgumentException"
proof
  show "php_driver_value_type (php_driver_scalar_type_name CASS_TIMEUUID) = Ok CASS_TIMEUUID"
    using scalar_type_names [THEN conjunct1, rule_format, of CASS_TIMEUUID] by (simp add: scalar_types_def)
  show "php_driver_value_type ''string'' = Throw InvalidArgumentException"
    using scalar_type_names [THEN conjunct2, rule_format, of "''string''"] by (simp add: scalar_types_def)
qed

text \<open>
  The codes of \<^verbatim>\<open>text\<close> and \<^verbatim>\<open>varchar\<close> are not adjacent, so the aliasing breaks the order: \<^verbatim>\<open>timestamp\<close> lies
  strictly between two types that compare equal.
\<close>

lemma type_compare_not_transitive:
  "php_driver_type_compare (TScalar CASS_TEXT) (TScalar CASS_TIMESTAMP) < 0 \<and>
   php_driver_type_compare (TScalar CASS_TIMESTAMP) (TScalar CASS_VARCHAR) < 0 \<and>
   php_driver_type_compare (TScalar CASS_TEXT) (TScalar CASS_VARCHAR) = 0"
  by (simp add: php_driver_type_compare.simps is_string_type_def)

end
