(* ===== verification/Zval.thy ===== *)
theory Zval
  imports Gmp Types
begin

text \<open>
  PHP values as the extension sees them. \<open>php_driver_numeric\<close> is the tagged union of
  \<^verbatim>\<open>ext/php_driver_types.h\<close>; an object of one of the driver's value classes carries the data of its C
  struct, any other object only its class name and its handle. The type tags are those of the Zend
  engine.
\<close>

datatype php_driver_numeric =
    NBigint "64 word"
  | NDecimal int int \<comment> \<open>unscaled value and scale\<close>
  | NFloat "32 word"
  | NVarint int
  | NSmallint "16 word"
  | NTinyint "8 word"

datatype obj =
    ONumeric php_driver_numeric
  | OTimestamp "64 word"
  | ODate "32 word"
  | OTime "64 word"
  | OBlob "byte list"
  | OUuid string "byte list" \<comment> \<open>the class, \<^verbatim>\<open>Uuid\<close> or \<^verbatim>\<open>Timeuuid\<close>, and the 16 bytes\<close>
  | OInet "byte list"
  | ODuration "32 word" "32 word" "64 word"
  | OTyped string php_driver_type nat \<comment> \<open>a collection object: its class, its type and its handle\<close>
  | OOther string nat

datatype zval =
    ZUndef
  | ZNull
  | ZFalse
  | ZTrue
  | ZLong "64 word"
  | ZDouble dbl
  | ZString string
  | ZArray nat \<comment> \<open>an array, by its handle: its elements are not inspected\<close>
  | ZObject obj

fun z_type :: "zval \<Rightarrow> nat" where
  "z_type ZUndef = 0"
| "z_type ZNull = 1"
| "z_type ZFalse = 2"
| "z_type ZTrue = 3"
| "z_type (ZLong _) = 4"
| "z_type (ZDouble _) = 5"
| "z_type (ZString _) = 6"
| "z_type (ZArray _) = 7"
| "z_type (ZObject _) = 8"

lemma z_type_null: "z_type z = 1 \<longleftrightarrow> z = ZNull"
  by (cases z) auto

text \<open>
  The macro \<^verbatim>\<open>PHP_DRIVER_COMPARE\<close> and the three-way comparisons of the numeric classes have this shape.
\<close>

definition cmp3 :: "int \<Rightarrow> int \<Rightarrow> int" where
  "cmp3 a b = (if a < b then -1 else if a > b then 1 else 0)"

lemma cmp3_0 [simp]: "cmp3 a b = 0 \<longleftrightarrow> a = b"
  by (simp add: cmp3_def)

lemma cmp3_neg: "cmp3 b a = - cmp3 a b"
  by (simp add: cmp3_def)

lemma cmp3_trans: "cmp3 a b \<le> 0 \<Longrightarrow> cmp3 b c \<le> 0 \<Longrightarrow> cmp3 a c \<le> 0"
  by (simp add: cmp3_def split: if_splits)

text \<open>The class name that \<^verbatim>\<open>Z_OBJCE\<close> distinguishes.\<close>

fun obj_class :: "obj \<Rightarrow> string" where
  "obj_class (ONumeric (NBigint _)) = ''Bigint''"
| "obj_class (ONumeric (NDecimal _ _)) = ''Decimal''"
| "obj_class (ONumeric (NFloat _)) = ''Float''"
| "obj_class (ONumeric (NVarint _)) = ''Varint''"
| "obj_class (ONumeric (NSmallint _)) = ''Smallint''"
| "obj_class (ONumeric (NTinyint _)) = ''Tinyint''"
| "obj_class (OTimestamp _) = ''Timestamp''"
| "obj_class (ODate _) = ''Date''"
| "obj_class (OTime _) = ''Time''"
| "obj_class (OBlob _) = ''Blob''"
| "obj_class (OUuid c _) = c"
| "obj_class (OInet _) = ''Inet''"
| "obj_class (ODuration _ _ _) = ''Duration''"
| "obj_class (OTyped c _ _) = c"
| "obj_class (OOther c _) = c"

end
