(* ===== verification/Numeric_Class.thy ===== *)
theory Numeric_Class
  imports Zval
begin

text \<open>
  What the arithmetic methods of the interface \<^verbatim>\<open>Cassandra\Numeric\<close> promise to a caller: a numeric
  object stands for an integer, a method either returns the object of the exact result or throws a
  range exception because the class cannot represent it. The locale is interpreted by the classes
  whose methods keep this promise; its lemmas are what a caller may rely on.
\<close>

locale numeric_class =
  fixes val :: "'a \<Rightarrow> int"
    and rep :: "int \<Rightarrow> bool"
    and add sub mul :: "'a \<Rightarrow> 'a \<Rightarrow> 'a outcome"
    and neg abs :: "'a \<Rightarrow> 'a outcome"
  assumes val_inj: "val x = val y \<Longrightarrow> x = y"
    and rep_val: "rep (val x)"
    and add_Ok: "rep (val x + val y) \<Longrightarrow> \<exists>z. add x y = Ok z \<and> val z = val x + val y"
    and add_Throw: "\<not> rep (val x + val y) \<Longrightarrow> add x y = Throw RangeException"
    and sub_Ok: "rep (val x - val y) \<Longrightarrow> \<exists>z. sub x y = Ok z \<and> val z = val x - val y"
    and sub_Throw: "\<not> rep (val x - val y) \<Longrightarrow> sub x y = Throw RangeException"
    and mul_Ok: "rep (val x * val y) \<Longrightarrow> \<exists>z. mul x y = Ok z \<and> val z = val x * val y"
    and mul_Throw: "\<not> rep (val x * val y) \<Longrightarrow> mul x y = Throw RangeException"
    and neg_Ok: "rep (- val x) \<Longrightarrow> \<exists>z. neg x = Ok z \<and> val z = - val x"
    and neg_Throw: "\<not> rep (- val x) \<Longrightarrow> neg x = Throw RangeException"
    and abs_Ok: "rep \<bar>val x\<bar> \<Longrightarrow> \<exists>z. abs x = Ok z \<and> val z = \<bar>val x\<bar>"
    and abs_Throw: "\<not> rep \<bar>val x\<bar> \<Longrightarrow> abs x = Throw RangeException"
begin

text \<open>The result is determined by its value.\<close>

lemma add_iff: "add x y = Ok z \<longleftrightarrow> val z = val x + val y"
  using add_Ok [of x y] add_Throw [of x y] rep_val [of z] val_inj by (cases "rep (val x + val y)") auto

lemma sub_iff: "sub x y = Ok z \<longleftrightarrow> val z = val x - val y"
  using sub_Ok [of x y] sub_Throw [of x y] rep_val [of z] val_inj by (cases "rep (val x - val y)") auto

lemma mul_iff: "mul x y = Ok z \<longleftrightarrow> val z = val x * val y"
  using mul_Ok [of x y] mul_Throw [of x y] rep_val [of z] val_inj by (cases "rep (val x * val y)") auto

lemma neg_iff: "neg x = Ok z \<longleftrightarrow> val z = - val x"
  using neg_Ok [of x] neg_Throw [of x] rep_val [of z] val_inj by (cases "rep (- val x)") auto

lemma abs_iff: "abs x = Ok z \<longleftrightarrow> val z = \<bar>val x\<bar>"
  using abs_Ok [of x] abs_Throw [of x] rep_val [of z] val_inj by (cases "rep \<bar>val x\<bar>") auto

lemmas result_iffs = add_iff sub_iff mul_iff neg_iff abs_iff

lemma add_total: "(\<exists>z. add x y = Ok z) \<or> add x y = Throw RangeException"
  using add_Ok add_Throw by blast

lemma mul_total: "(\<exists>z. mul x y = Ok z) \<or> mul x y = Throw RangeException"
  using mul_Ok mul_Throw by blast

lemma sub_total: "(\<exists>z. sub x y = Ok z) \<or> sub x y = Throw RangeException"
  using sub_Ok sub_Throw by blast

lemma add_commute: "add x y = add y x"
  by (rule outcome_eqI [OF _ add_total add_total]) (simp add: add_iff add.commute)

lemma mul_commute: "mul x y = mul y x"
  by (rule outcome_eqI [OF _ mul_total mul_total]) (simp add: mul_iff mult.commute)

lemma sub_of_add: "add x y = Ok z \<Longrightarrow> sub z y = Ok x"
  by (simp add: result_iffs)

lemma add_of_sub: "sub x y = Ok z \<Longrightarrow> add z y = Ok x"
  by (simp add: result_iffs)

lemma neg_neg: "neg x = Ok y \<Longrightarrow> neg y = Ok x"
  by (simp add: result_iffs)

lemma sub_neg: "neg y = Ok y' \<Longrightarrow> sub x y = add x y'"
  by (rule outcome_eqI [OF _ sub_total add_total]) (simp add: result_iffs)

text \<open>Associativity, as far as the intermediate sums exist.\<close>

lemma add_assoc: "add x y = Ok a \<Longrightarrow> add y z = Ok b \<Longrightarrow> add a z = add x b"
  by (rule outcome_eqI [OF _ add_total add_total]) (simp add: result_iffs add.assoc)

lemma mul_add_distrib:
  "add y z = Ok s \<Longrightarrow> mul x y = Ok a \<Longrightarrow> mul x z = Ok b \<Longrightarrow> mul x s = add a b"
  by (rule outcome_eqI [OF _ mul_total add_total]) (simp add: result_iffs distrib_left)

end

section \<open>Overflow checks on promoted operands\<close>

text \<open>
  The narrow classes compute on operands promoted to \<^verbatim>\<open>int\<close>, store the result truncated, and test
  whether the inverse operation gives the first operand back. The test is exact.
\<close>

lemma add_check:
  fixes a b :: "'a::len word"
  shows "sint (word_of_int (sint a + sint b) :: 'a word) - sint b = sint a \<longleftrightarrow>
    in_int LENGTH('a) (sint a + sint b)"
  using sint_of_int_iff [of "sint a + sint b", where 'a = 'a] by linarith

lemma sub_check:
  fixes a b :: "'a::len word"
  shows "sint (word_of_int (sint a - sint b) :: 'a word) + sint b = sint a \<longleftrightarrow>
    in_int LENGTH('a) (sint a - sint b)"
  using sint_of_int_iff [of "sint a - sint b", where 'a = 'a] by linarith

lemma cdiv_mult: "b \<noteq> 0 \<Longrightarrow> cdiv (a * b) b = a"
proof -
  assume b: "b \<noteq> 0"
  then have "sgn b * sgn b = 1" by (simp add: sgn_if)
  then have "sgn (a * b) * sgn b = sgn a" by (simp add: sgn_mult mult.assoc)
  then show ?thesis using b by (simp add: cdiv_def abs_mult mult_sgn_abs)
qed

lemma abs_cmod_less: "b \<noteq> 0 \<Longrightarrow> \<bar>cmod a b\<bar> < \<bar>b\<bar>"
proof -
  assume b: "b \<noteq> 0"
  have "a = sgn a * \<bar>a\<bar>" by (simp add: mult_sgn_abs)
  moreover have "b * sgn b = \<bar>b\<bar>" by (simp add: abs_sgn)
  ultimately have "cmod a b = sgn a * (\<bar>a\<bar> - \<bar>b\<bar> * (\<bar>a\<bar> div \<bar>b\<bar>))"
    by (simp add: cmod_def cdiv_def algebra_simps)
  also have "\<dots> = sgn a * (\<bar>a\<bar> mod \<bar>b\<bar>)" by (simp add: minus_mult_div_eq_mod)
  finally have "\<bar>cmod a b\<bar> \<le> \<bar>a\<bar> mod \<bar>b\<bar>"
    using b by (simp add: abs_mult abs_sgn_eq pos_mod_sign)
  also have "\<dots> < \<bar>b\<bar>" using b by simp
  finally show ?thesis .
qed

lemma mul_check:
  fixes a b :: "'a::len word"
  assumes "sint b \<noteq> 0"
  shows "cdiv (sint (word_of_int (sint a * sint b) :: 'a word)) (sint b) = sint a \<longleftrightarrow>
    in_int LENGTH('a) (sint a * sint b)"
proof
  assume "in_int LENGTH('a) (sint a * sint b)"
  then show "cdiv (sint (word_of_int (sint a * sint b) :: 'a word)) (sint b) = sint a"
    using assms sint_of_int_in [of "sint a * sint b", where 'a = 'a] by (simp add: cdiv_mult)
next
  let ?r = "word_of_int (sint a * sint b) :: 'a word"
  assume r: "cdiv (sint ?r) (sint b) = sint a"
  have "(word_of_int (sint ?r) :: 'a word) = word_of_int (sint a * sint b)" by simp
  then have "(2 ^ LENGTH('a)) dvd sint ?r - sint a * sint b"
    by (simp only: word_of_int_eq_iff take_bit_eq_mod mod_eq_dvd_iff)
  moreover have "sint ?r - sint a * sint b = cmod (sint ?r) (sint b)"
    using r by (simp add: cmod_def mult.commute)
  moreover have "\<bar>cmod (sint ?r) (sint b)\<bar> < 2 ^ LENGTH('a)"
  proof -
    have "\<bar>sint b\<bar> \<le> 2 ^ (LENGTH('a) - 1)" using sint_in_int [of b] by (auto simp: in_int_def)
    moreover have "(2::int) ^ (LENGTH('a) - 1) \<le> 2 ^ LENGTH('a)" by (intro power_increasing) auto
    ultimately show ?thesis using abs_cmod_less [OF assms, of "sint ?r"] by linarith
  qed
  ultimately have "sint ?r - sint a * sint b = 0"
    using zdvd_imp_le [of "2 ^ LENGTH('a)" "\<bar>sint ?r - sint a * sint b\<bar>"] by fastforce
  then have "sint ?r = sint a * sint b" by simp
  then show "in_int LENGTH('a) (sint a * sint b)" by (simp only: sint_of_int_iff)
qed

text \<open>The quotient is representable unless the smallest value is divided by -1; the remainder always is.\<close>

lemma in_int_cdiv:
  assumes "in_int w a" and "b \<noteq> 0" and "\<not> (a = - (2 ^ (w - 1)) \<and> b = - 1)"
  shows "in_int w (cdiv a b)"
proof (cases "\<bar>a\<bar> < 2 ^ (w - 1)")
  case True
  then have "\<bar>cdiv a b\<bar> < 2 ^ (w - 1)" using abs_cdiv [OF assms(2)] abs_div_le [of a b] by simp
  then show ?thesis by (auto simp: in_int_def)
next
  case False
  then have a: "a = - (2 ^ (w - 1))" using assms(1) by (auto simp: in_int_def)
  show ?thesis
  proof (cases "b = 1")
    case True
    then show ?thesis using assms(1) a by (simp add: cdiv_def sgn_if)
  next
    case False
    then have "2 \<le> \<bar>b\<bar>" using assms a by auto
    then have "\<bar>a\<bar> div \<bar>b\<bar> \<le> \<bar>a\<bar> div 2" by (intro zdiv_mono2) auto
    moreover have "0 < \<bar>a\<bar>" using a by simp
    then have "\<bar>a\<bar> div 2 < \<bar>a\<bar>" by (simp only: int_div_less_self)
    ultimately have "\<bar>cdiv a b\<bar> < 2 ^ (w - 1)" using abs_cdiv [OF assms(2), of a] a by simp
    then show ?thesis by (auto simp: in_int_def)
  qed
qed

lemma in_int_cmod:
  assumes "in_int w b" and "b \<noteq> 0"
  shows "in_int w (cmod a b)"
  using abs_cmod_less [OF assms(2), of a] assms(1) by (auto simp: in_int_def)

lemma word_div_mod:
  fixes a b :: "'a::len word"
  assumes b: "sint b \<noteq> 0"
  defines "q \<equiv> word_of_int (cdiv (sint a) (sint b)) :: 'a word"
    and "r \<equiv> word_of_int (cmod (sint a) (sint b)) :: 'a word"
  shows "\<bar>sint r\<bar> < \<bar>sint b\<bar>"
    and "\<not> (sint a = - (2 ^ (LENGTH('a) - 1)) \<and> sint b = - 1) \<Longrightarrow>
      sint q = cdiv (sint a) (sint b) \<and> sint a = sint q * sint b + sint r"
    and "sint a = - (2 ^ (LENGTH('a) - 1)) \<Longrightarrow> sint b = - 1 \<Longrightarrow> q = a"
proof -
  have r: "sint r = cmod (sint a) (sint b)"
    unfolding r_def by (rule sint_of_int_in, rule in_int_cmod [OF sint_in_int b])
  then show "\<bar>sint r\<bar> < \<bar>sint b\<bar>" using abs_cmod_less [OF b] by simp
  show "sint q = cdiv (sint a) (sint b) \<and> sint a = sint q * sint b + sint r"
    if "\<not> (sint a = - (2 ^ (LENGTH('a) - 1)) \<and> sint b = - 1)"
  proof -
    have "sint q = cdiv (sint a) (sint b)"
      unfolding q_def by (rule sint_of_int_in, rule in_int_cdiv [OF sint_in_int b that])
    then show ?thesis using r by (simp add: cmod_def mult.commute)
  qed
  show "q = a" if "sint a = - (2 ^ (LENGTH('a) - 1))" "sint b = - 1"
  proof -
    have "cdiv (sint a) (sint b) = 2 ^ (LENGTH('a) - 1)" using that by (simp add: cdiv_def)
    then have "q = word_of_int (2 ^ (LENGTH('a) - 1))" by (simp add: q_def)
    also have "\<dots> = word_of_int (2 ^ (LENGTH('a) - 1) - 2 ^ LENGTH('a))"
      by (simp only: word_of_int_eq_iff take_bit_eq_mod) (simp add: mod_eq_dvd_iff)
    also have "(2::int) ^ (LENGTH('a) - 1) - 2 ^ LENGTH('a) = sint a"
      using that(1) by (cases "LENGTH('a)") auto
    finally show "q = a" by simp
  qed
qed

lemma word_div_mod_ex:
  fixes a b :: "'a::len word"
  assumes "sint b \<noteq> 0"
  shows "\<exists>q r. word_of_int (cdiv (sint a) (sint b)) = q \<and> word_of_int (cmod (sint a) (sint b)) = (r :: 'a word) \<and>
    \<bar>sint r\<bar> < \<bar>sint b\<bar> \<and>
    (if sint a = - (2 ^ (LENGTH('a) - 1)) \<and> sint b = - 1 then q = a
     else sint q = cdiv (sint a) (sint b) \<and> sint a = sint q * sint b + sint r)"
proof -
  let ?q = "word_of_int (cdiv (sint a) (sint b)) :: 'a word"
  let ?r = "word_of_int (cmod (sint a) (sint b)) :: 'a word"
  have "if sint a = - (2 ^ (LENGTH('a) - 1)) \<and> sint b = - 1 then ?q = a
    else sint ?q = cdiv (sint a) (sint b) \<and> sint a = sint ?q * sint b + sint ?r"
    using word_div_mod(2,3) [OF assms, of a] by - (rule if_split [THEN iffD2], blast)
  then show ?thesis using word_div_mod(1) [OF assms, of a] by blast
qed

lemma word_sqrt:
  fixes a :: "'a::len word"
  assumes "0 \<le> sint a" and "sint a < 2 ^ 52"
  defines "r \<equiv> word_of_int (int (sqrt_trunc (nat (sint a)))) :: 'a word"
  shows "0 \<le> sint r \<and> sint r * sint r \<le> sint a \<and> sint a < (sint r + 1) * (sint r + 1)"
proof -
  obtain n where n: "sint a = int n" using assms(1) by (metis nonneg_int_cases)
  have "sqrt_trunc n = isqrt n" using assms(2) n by (intro sqrt_trunc_exact) (simp add: of_nat_less_iff [symmetric])
  moreover have le: "isqrt n * isqrt n \<le> n" "n < (isqrt n + 1) * (isqrt n + 1)" using isqrt_bounds by auto
  then have "isqrt n \<le> n" by (metis le_square le_trans)
  then have "in_int LENGTH('a) (int (isqrt n))"
    using sint_in_int [of a] n unfolding in_int_def by (smt (verit) of_nat_0_le_iff of_nat_mono)
  ultimately have r: "sint r = int (isqrt n)" using n by (simp only: r_def nat_int sint_of_int_in)
  have "int (isqrt n * isqrt n) \<le> int n" "int n < int ((isqrt n + 1) * (isqrt n + 1))"
    using le by (simp_all only: of_nat_le_iff of_nat_less_iff)
  then show ?thesis using n unfolding r by (simp add: algebra_simps)
qed

end
