(* ===== verification/Num_Parse.thy ===== *)
theory Num_Parse
  imports Gmp
begin

text \<open>
  \<^verbatim>\<open>ext/util/math.c\<close>: integers from PHP strings. \<open>strtoul\<close> is the C library function with a 64-bit
  \<^verbatim>\<open>unsigned long\<close> (the driver's \<^verbatim>\<open>strtoull\<close> has the same definition there). The parsers below
  return the number stored through the out parameter, or the exception that was thrown.
\<close>

section \<open>The C library function\<close>

text \<open>
  \<open>strtoul s base\<close> on the C string \<open>s\<close>: the value, the number of characters up to \<^verbatim>\<open>*endptr\<close> and
  whether \<^verbatim>\<open>errno\<close> is set to \<^verbatim>\<open>ERANGE\<close>.
\<close>

definition strtoul :: "string \<Rightarrow> nat \<Rightarrow> nat \<times> nat \<times> bool" where
  "strtoul s base =
     (let s1 = dropWhile isspace s;
          neg = cget s1 0 = CHR ''-'';
          s2 = (if cget s1 0 = CHR ''-'' \<or> cget s1 0 = CHR ''+'' then tl s1 else s1);
          hex = cget s2 0 = CHR ''0'' \<and> tolower (cget s2 1) = CHR ''x'' \<and> isxdigit (cget s2 2);
          (b, s3) =
            (if (base = 0 \<or> base = 16) \<and> hex then (16, drop 2 s2)
             else if base = 0 \<and> cget s2 0 = CHR ''0'' then (8, s2)
             else if base = 0 then (10, s2)
             else (base, s2));
          (v, rest) = scan_digits b 0 s3
      in if length rest = length s3 then (0, 0, False)
         else if 2 ^ 64 \<le> v then (2 ^ 64 - 1, length s - length rest, True)
         else ((if neg then (2 ^ 64 - v) mod 2 ^ 64 else v), length s - length rest, False))"

section \<open>Sign and binary prefix\<close>

text \<open>The base (2 after a prefix \<^verbatim>\<open>0b\<close>, otherwise 0), the position after sign and prefix, and the sign.\<close>

definition prepare_string_conversion :: "string \<Rightarrow> nat \<times> nat \<times> bool" where
  "prepare_string_conversion s =
     (let negative = cget s 0 = CHR ''-'';
          point = (if cget s 0 = CHR ''+'' \<or> cget s 0 = CHR ''-'' then 1 else 0)
      in if cget s point = CHR ''0'' \<and> cget s (point + 1) = CHR ''b''
         then (2, point + 2, negative) else (0, point, negative))"

section \<open>32-bit and 64-bit integers\<close>

text \<open>
  The cast to \<^verbatim>\<open>cass_uint32_t\<close> keeps the low 32 bits of the 64-bit result of \<^verbatim>\<open>strtoul\<close>.
\<close>

definition php_driver_parse_int :: "string \<Rightarrow> 32 word outcome" where
  "php_driver_parse_int s =
     (let (base, pos, negative) = prepare_string_conversion s;
          (v, e, erange0) = strtoul (cstr (drop pos s)) base;
          temp = v mod 2 ^ 32;
          (number, erange) =
            (if negative then
               (if temp > 2 ^ 31 then (- (2 ^ 31), True)
                else if temp = 2 ^ 31 then (- (2 ^ 31), erange0)
                else (- int temp, erange0))
             else
               (if temp > 2 ^ 31 - 1 then (2 ^ 31 - 1, True) else (int temp, erange0)))
      in if erange then Throw RangeException
         else if e = 0 then Throw InvalidArgumentException
         else if pos + e \<noteq> length s then Throw InvalidArgumentException
         else Ok (word_of_int number))"

definition php_driver_parse_bigint :: "string \<Rightarrow> 64 word outcome" where
  "php_driver_parse_bigint s =
     (let (base, pos, negative) = prepare_string_conversion s;
          (temp, e, erange0) = strtoul (cstr (drop pos s)) base;
          (number, erange) =
            (if negative then
               (if temp > 2 ^ 63 then (- (2 ^ 63), True)
                else if temp = 2 ^ 63 then (- (2 ^ 63), erange0)
                else (- int temp, erange0))
             else
               (if temp > 2 ^ 63 - 1 then (2 ^ 63 - 1, True) else (int temp, erange0)))
      in if erange then Throw RangeException
         else if e = 0 then Throw InvalidArgumentException
         else if pos + e \<noteq> length s then Throw InvalidArgumentException
         else Ok (word_of_int number))"

section \<open>Integers of any size\<close>

definition php_driver_parse_varint :: "gmp \<Rightarrow> string \<Rightarrow> int outcome" where
  "php_driver_parse_varint g s =
     (let (base, pos, negative) = prepare_string_conversion s
      in case mpz_set_str g (cstr (drop pos s)) base of
           None \<Rightarrow> Throw InvalidArgumentException
         | Some number \<Rightarrow> Ok (if negative then mpz_neg g number else number))"

text \<open>The formatted text; \<^verbatim>\<open>*out_len\<close> is its \<^verbatim>\<open>strlen\<close>.\<close>

definition php_driver_format_integer :: "gmp \<Rightarrow> int \<Rightarrow> string" where
  "php_driver_format_integer g number = mpz_get_str g number"

section \<open>Reading canonical decimal numerals\<close>

lemma show_nat_hd:
  assumes "0 < n"
  shows "\<exists>d cs. show_nat 10 n = digit_char d # cs \<and> 0 < d \<and> d < 10"
proof -
  have "(2::nat) \<le> 10" by simp
  then show ?thesis using assms
  proof (induction n rule: show_nat_induct)
    case (small n)
    then show ?case by (auto simp: show_nat_small)
  next
    case (big n)
    then have "0 < n div 10" by (simp add: div_greater_zero_iff)
    with big obtain d cs where "show_nat 10 (n div 10) = digit_char d # cs" "0 < d" "d < 10" by auto
    with big show ?case by (auto simp: show_nat_big)
  qed
qed

lemma digit_char_0_iff: "d < 10 \<Longrightarrow> digit_char d = CHR ''0'' \<longleftrightarrow> d = 0"
proof -
  assume d: "d < 10"
  have "digit_char 0 = CHR ''0''" by code_simp
  moreover have "d = 0" if "digit_char d = CHR ''0''"
    using arg_cong [OF that, of "of_char :: char \<Rightarrow> nat"] d by (simp add: of_char_digit_char)
  ultimately show ?thesis by auto
qed

lemma show_nat_10_cases:
  obtains d cs where "show_nat 10 n = digit_char d # cs" "d < 10" "d = 0 \<longleftrightarrow> n = 0" "n = 0 \<longrightarrow> cs = []"
proof (cases "n = 0")
  case True
  then show ?thesis using that [of 0 "[]"] by (simp add: show_nat_small)
next
  case False
  with show_nat_hd [of n] that show ?thesis by auto
qed

lemma digit_char_props:
  assumes "d < 10"
  shows "\<not> isspace (digit_char d)" "digit_char d \<noteq> CHR ''-''" "digit_char d \<noteq> CHR ''+''"
    "digit_char d \<noteq> CHR ''b''" "digit_char d \<noteq> CHR ''x''" "digit_char d \<noteq> NUL"
    "tolower (digit_char d) \<noteq> CHR ''x''" "digit_char d \<noteq> CHR ''.''"
    "digit_char d \<noteq> CHR ''e''" "digit_char d \<noteq> CHR ''E''"
proof -
  have o: "(of_char (digit_char d) :: nat) = 48 + d" using assms by (simp add: of_char_digit_char)
  show "\<not> isspace (digit_char d)" "tolower (digit_char d) \<noteq> CHR ''x''"
    using assms o by (auto simp: isspace_def tolower_def isupper_def)
  show "digit_char d \<noteq> CHR ''-''" "digit_char d \<noteq> CHR ''+''"
    "digit_char d \<noteq> CHR ''b''" "digit_char d \<noteq> CHR ''x''" "digit_char d \<noteq> NUL"
    "digit_char d \<noteq> CHR ''.''" "digit_char d \<noteq> CHR ''e''" "digit_char d \<noteq> CHR ''E''"
    using assms o by auto
qed

lemma strtoul_show_nat:
  "strtoul (show_nat 10 n) 0 =
     (if 2 ^ 64 \<le> n then (2 ^ 64 - 1, length (show_nat 10 n), True)
      else (n, length (show_nat 10 n), False))"
proof -
  obtain d cs where s: "show_nat 10 n = digit_char d # cs" "d < 10" "d = 0 \<longleftrightarrow> n = 0" "n = 0 \<longrightarrow> cs = []"
    by (rule show_nat_10_cases)
  have "scan_digits 10 0 (show_nat 10 n @ []) = (n, [])"
    by (rule scan_digits_show_nat) (auto simp: num_end_def)
  then have scan: "scan_digits 10 0 (digit_char d # cs) = (n, [])" using s by simp
  show ?thesis
  proof (cases "n = 0")
    case True
    with s have "show_nat 10 n = ''0''" using digit_char_0_iff [of d] by simp
    moreover have "strtoul ''0'' 0 = (0, 1, False)"
      by (simp add: strtoul_def Let_def digit_val_def ctype_defs tolower_def)
    ultimately show ?thesis using True by simp
  next
    case False
    then have "digit_char d \<noteq> CHR ''0''" using s digit_char_0_iff by blast
    with s scan show ?thesis
      by (simp add: strtoul_def Let_def digit_char_props del: scan_digits.simps)
  qed
qed

lemma prepare_show_nat: "prepare_string_conversion (show_nat 10 n) = (0, 0, False)"
proof -
  obtain d cs where "show_nat 10 n = digit_char d # cs" "d < 10" "d = 0 \<longleftrightarrow> n = 0" "n = 0 \<longrightarrow> cs = []"
    by (rule show_nat_10_cases)
  then show ?thesis
    by (cases "n = 0") (auto simp: prepare_string_conversion_def digit_char_props digit_char_0_iff)
qed

lemma prepare_neg_show_nat: "prepare_string_conversion (CHR ''-'' # show_nat 10 n) = (0, 1, True)"
proof -
  obtain d cs where "show_nat 10 n = digit_char d # cs" "d < 10" "d = 0 \<longleftrightarrow> n = 0" "n = 0 \<longrightarrow> cs = []"
    by (rule show_nat_10_cases)
  then show ?thesis
    by (cases "n = 0")
      (auto simp: prepare_string_conversion_def digit_char_props digit_char_0_iff)
qed

lemma cstr_show_nat: "cstr (show_nat 10 n) = show_nat 10 n"
  by (intro cstr_id show_nat_no_nul) auto

lemmas parse_canonical = strtoul_show_nat prepare_show_nat prepare_neg_show_nat cstr_show_nat

lemma parse_int_canonical:
  assumes "\<bar>k\<bar> < 2 ^ 64"
  shows "php_driver_parse_int (show_int k) =
     (let t = sgn k * (\<bar>k\<bar> mod 2 ^ 32)
      in if in_int 32 t then Ok (word_of_int t) else Throw RangeException)"
proof (cases "k < 0")
  case True
  then obtain n where k: "k = - int n" "0 < n" by (metis neg_int_cases)
  define m where "m = n mod 2 ^ 32"
  have m: "\<bar>k\<bar> mod 2 ^ 32 = int m" using k by (simp add: m_def of_nat_mod)
  show ?thesis using assms k unfolding m
    by (auto simp: php_driver_parse_int_def show_int_def parse_canonical in_int_def Let_def m_def)
next
  case False
  then obtain n where k: "k = int n" by (metis nonneg_int_cases not_less)
  define m where "m = n mod 2 ^ 32"
  have m: "\<bar>k\<bar> mod 2 ^ 32 = int m" using k by (simp add: m_def of_nat_mod)
  show ?thesis using assms k unfolding m
    by (cases "n = 0")
      (auto simp: php_driver_parse_int_def show_int_def parse_canonical in_int_def Let_def m_def)
qed

section \<open>Properties\<close>

text \<open>
  \<open>php_driver_parse_bigint\<close> reads back every canonical decimal numeral: the text of an integer
  in the range of a signed 64-bit integer gives that integer, and the text of any other integer,
  however long, throws a range exception.
\<close>

theorem parse_bigint_show_int:
  "php_driver_parse_bigint (show_int k) =
     (if in_int 64 k then Ok (word_of_int k) else Throw RangeException)"
proof (cases "k < 0")
  case True
  then obtain n where k: "k = - int n" "0 < n" by (metis neg_int_cases)
  then show ?thesis
    by (auto simp: php_driver_parse_bigint_def show_int_def parse_canonical in_int_def)
next
  case False
  then obtain n where k: "k = int n" by (metis nonneg_int_cases not_less)
  then show ?thesis
    by (auto simp: php_driver_parse_bigint_def show_int_def parse_canonical in_int_def)
qed

text \<open>
  \<open>php_driver_parse_int\<close> on the text of an integer of magnitude below \<open>2 ^ 64\<close> looks only at the
  low 32 bits of the magnitude: it accepts exactly the integers whose truncated magnitude fits,
  and stores the truncated value. Numbers outside the 32-bit range are therefore accepted, for
  example \<open>4294967297\<close> as \<open>1\<close>.
\<close>

theorem parse_int_show_int:
  assumes "\<bar>k\<bar> < 2 ^ 64"
  shows "php_driver_parse_int (show_int k) =
     (let t = sgn k * (\<bar>k\<bar> mod 2 ^ 32)
      in if in_int 32 t then Ok (word_of_int t) else Throw RangeException)"
  using assms by (rule parse_int_canonical)

theorem parse_int_show_int_witness:
  "php_driver_parse_int (show_int 4294967297) = Ok 1 \<and> \<not> in_int 32 4294967297"
  using parse_int_show_int [of 4294967297] by (simp add: in_int_def)

end
