(* ===== verification/Tinyint.thy ===== *)
theory Tinyint
  imports Numeric_Class Num_Parse
begin

text \<open>
  \<^verbatim>\<open>ext/src/Tinyint.c\<close>: the methods of \<^verbatim>\<open>Cassandra\Tinyint\<close>. An instance is its 8-bit value
  (\<^verbatim>\<open>self->data.tinyint.value\<close>); a method takes it and the argument and gives the value of the returned
  instance. Operands are promoted to \<^verbatim>\<open>int\<close> and results truncated where the C code stores them.
\<close>

abbreviation tinyint_obj :: "8 word \<Rightarrow> zval" where
  "tinyint_obj v \<equiv> ZObject (ONumeric (NTinyint v))"

section \<open>Conversions\<close>

definition tinyint_to_double :: "8 word \<Rightarrow> zval" where
  "tinyint_to_double v = ZDouble (int_to_dbl (sint v))"

definition tinyint_to_long :: "8 word \<Rightarrow> zval" where
  "tinyint_to_long v = ZLong (word_of_int (sint v))"

definition tinyint_to_string :: "8 word \<Rightarrow> zval" where
  "tinyint_to_string v = ZString (show_int (sint v))"

text \<open>The constructor: \<^verbatim>\<open>number\<close> is a 32-bit variable, to which a long is truncated.\<close>

definition php_driver_tinyint_init :: "zval \<Rightarrow> 8 word outcome" where
  "php_driver_tinyint_init value =
     (case value of
        ZObject (ONumeric (NTinyint other)) \<Rightarrow> Ok other
      | ZLong l \<Rightarrow>
          (let number = sint (word_of_int (sint l) :: 32 word)
           in if number < - 128 \<or> number > 127 then Throw RangeException
              else Ok (word_of_int number))
      | ZDouble d \<Rightarrow>
          bind_outcome (dbl_to_int 32 d) (\<lambda>number.
            if number < - 128 \<or> number > 127 then Throw RangeException
            else Ok (word_of_int number))
      | ZString s \<Rightarrow>
          bind_outcome (php_driver_parse_int s) (\<lambda>n. let number = sint n in
            if number < - 128 \<or> number > 127 then Throw RangeException
            else Ok (word_of_int number))
      | _ \<Rightarrow> Throw InvalidArgumentException)"

section \<open>Arithmetic\<close>

definition tinyint_add :: "8 word \<Rightarrow> zval \<Rightarrow> 8 word outcome" where
  "tinyint_add self addend =
     (case addend of
        ZObject (ONumeric (NTinyint t)) \<Rightarrow>
          (let r = word_of_int (sint self + sint t) :: 8 word
           in if sint r - sint t \<noteq> sint self then Throw RangeException else Ok r)
      | _ \<Rightarrow> Throw InvalidArgumentException)"

definition tinyint_sub :: "8 word \<Rightarrow> zval \<Rightarrow> 8 word outcome" where
  "tinyint_sub self difference =
     (case difference of
        ZObject (ONumeric (NTinyint t)) \<Rightarrow>
          (let r = word_of_int (sint self - sint t) :: 8 word
           in if sint r + sint t \<noteq> sint self then Throw RangeException else Ok r)
      | _ \<Rightarrow> Throw InvalidArgumentException)"

definition tinyint_mul :: "8 word \<Rightarrow> zval \<Rightarrow> 8 word outcome" where
  "tinyint_mul self multiplier =
     (case multiplier of
        ZObject (ONumeric (NTinyint t)) \<Rightarrow>
          (let r = word_of_int (sint self * sint t) :: 8 word
           in if sint t \<noteq> 0 \<and> cdiv (sint r) (sint t) \<noteq> sint self then Throw RangeException else Ok r)
      | _ \<Rightarrow> Throw InvalidArgumentException)"

definition tinyint_div :: "8 word \<Rightarrow> zval \<Rightarrow> 8 word outcome" where
  "tinyint_div self divisor =
     (case divisor of
        ZObject (ONumeric (NTinyint t)) \<Rightarrow>
          if sint t = 0 then Throw DivideByZeroException
          else Ok (word_of_int (cdiv (sint self) (sint t)))
      | _ \<Rightarrow> Throw InvalidArgumentException)"

definition tinyint_mod :: "8 word \<Rightarrow> zval \<Rightarrow> 8 word outcome" where
  "tinyint_mod self divisor =
     (case divisor of
        ZObject (ONumeric (NTinyint t)) \<Rightarrow>
          if sint t = 0 then Throw DivideByZeroException
          else Ok (word_of_int (cmod (sint self) (sint t)))
      | _ \<Rightarrow> Throw InvalidArgumentException)"

definition tinyint_abs :: "8 word \<Rightarrow> 8 word outcome" where
  "tinyint_abs self =
     (if sint self = - 128 then Throw RangeException
      else Ok (word_of_int (if sint self < 0 then - sint self else sint self)))"

definition tinyint_neg :: "8 word \<Rightarrow> 8 word outcome" where
  "tinyint_neg self =
     (if sint self = - 128 then Throw RangeException else Ok (word_of_int (- sint self)))"

definition tinyint_sqrt :: "8 word \<Rightarrow> 8 word outcome" where
  "tinyint_sqrt self =
     (if sint self < 0 then Throw RangeException
      else Ok (word_of_int (int (sqrt_trunc (nat (sint self))))))"

definition tinyint_min :: "8 word" where
  "tinyint_min = word_of_int (- 128)"

definition tinyint_max :: "8 word" where
  "tinyint_max = word_of_int 127"

section \<open>Object handlers\<close>

text \<open>\<^verbatim>\<open>cast_object\<close>: the value for the requested type tag, \<open>None\<close> for \<^verbatim>\<open>FAILURE\<close>.\<close>

definition php_driver_tinyint_cast :: "8 word \<Rightarrow> nat \<Rightarrow> zval option" where
  "php_driver_tinyint_cast self type =
     (if type = 4 then Some (tinyint_to_long self)
      else if type = 5 then Some (tinyint_to_double self)
      else if type = 6 then Some (tinyint_to_string self)
      else None)"

definition php_driver_tinyint_compare :: "obj \<Rightarrow> obj \<Rightarrow> int" where
  "php_driver_tinyint_compare obj1 obj2 =
     (if obj_class obj1 \<noteq> obj_class obj2 then 1
      else case (obj1, obj2) of
             (ONumeric (NTinyint t1), ONumeric (NTinyint t2)) \<Rightarrow>
               if sint t1 = sint t2 then 0 else if sint t1 < sint t2 then - 1 else 1
           | _ \<Rightarrow> 1)"

section \<open>Exactness\<close>

lemma tinyint_add_obj:
  "tinyint_add a (tinyint_obj b) =
     (if in_int 8 (sint a + sint b) then Ok (word_of_int (sint a + sint b)) else Throw RangeException)"
  using add_check [of a b] by (simp add: tinyint_add_def Let_def)

lemma tinyint_sub_obj:
  "tinyint_sub a (tinyint_obj b) =
     (if in_int 8 (sint a - sint b) then Ok (word_of_int (sint a - sint b)) else Throw RangeException)"
  using sub_check [of a b] by (simp add: tinyint_sub_def Let_def)

lemma tinyint_mul_obj:
  "tinyint_mul a (tinyint_obj b) =
     (if in_int 8 (sint a * sint b) then Ok (word_of_int (sint a * sint b)) else Throw RangeException)"
proof (cases "sint b = 0")
  case True
  then show ?thesis by (simp add: tinyint_mul_def Let_def in_int_def)
next
  case False
  then show ?thesis using mul_check [of b a] by (simp add: tinyint_mul_def Let_def)
qed

lemma tinyint_neg_eq:
  "tinyint_neg a = (if in_int 8 (- sint a) then Ok (word_of_int (- sint a)) else Throw RangeException)"
  using sint_in_int [of a] by (auto simp: tinyint_neg_def in_int_def)

lemma tinyint_abs_eq:
  "tinyint_abs a = (if in_int 8 \<bar>sint a\<bar> then Ok (word_of_int \<bar>sint a\<bar>) else Throw RangeException)"
  using sint_in_int [of a] by (auto simp: tinyint_abs_def in_int_def)

lemmas tinyint_ops = tinyint_add_obj tinyint_sub_obj tinyint_mul_obj tinyint_neg_eq tinyint_abs_eq

lemma sint_tinyint_of_int: "in_int 8 k \<Longrightarrow> sint (word_of_int k :: 8 word) = k"
  by (rule sint_of_int_in) simp

interpretation tinyint: numeric_class
  sint "in_int 8" "\<lambda>a b. tinyint_add a (tinyint_obj b)" "\<lambda>a b. tinyint_sub a (tinyint_obj b)"
  "\<lambda>a b. tinyint_mul a (tinyint_obj b)" tinyint_neg tinyint_abs
proof
  show "in_int 8 (sint x)" for x :: "8 word" using sint_in_int [of x] by simp
qed (auto simp: tinyint_ops sint_tinyint_of_int intro: signed_word_eqI simp del: of_int_add of_int_diff of_int_mult of_int_minus)

end
