(* ===== verification/Smallint.thy ===== *)
theory Smallint
  imports Tinyint
begin

text \<open>
  \<^verbatim>\<open>ext/src/Smallint.c\<close>: the methods of \<^verbatim>\<open>Cassandra\Smallint\<close>, on the 16-bit value of an instance. The
  properties below are about both narrow integer classes.
\<close>

abbreviation smallint_obj :: "16 word \<Rightarrow> zval" where
  "smallint_obj v \<equiv> ZObject (ONumeric (NSmallint v))"

section \<open>Conversions\<close>

definition smallint_to_double :: "16 word \<Rightarrow> zval" where
  "smallint_to_double v = ZDouble (int_to_dbl (sint v))"

definition smallint_to_long :: "16 word \<Rightarrow> zval" where
  "smallint_to_long v = ZLong (word_of_int (sint v))"

definition smallint_to_string :: "16 word \<Rightarrow> zval" where
  "smallint_to_string v = ZString (show_int (sint v))"

text \<open>The constructor: \<^verbatim>\<open>number\<close> is a 32-bit variable, to which a long is truncated.\<close>

definition php_driver_smallint_init :: "zval \<Rightarrow> 16 word outcome" where
  "php_driver_smallint_init value =
     (case value of
        ZObject (ONumeric (NSmallint other)) \<Rightarrow> Ok other
      | ZLong l \<Rightarrow>
          (let number = sint (word_of_int (sint l) :: 32 word)
           in if number < - 32768 \<or> number > 32767 then Throw RangeException
              else Ok (word_of_int number))
      | ZDouble d \<Rightarrow>
          bind_outcome (dbl_to_int 32 d) (\<lambda>number.
            if number < - 32768 \<or> number > 32767 then Throw RangeException
            else Ok (word_of_int number))
      | ZString s \<Rightarrow>
          bind_outcome (php_driver_parse_int s) (\<lambda>n. let number = sint n in
            if number < - 32768 \<or> number > 32767 then Throw RangeException
            else Ok (word_of_int number))
      | _ \<Rightarrow> Throw InvalidArgumentException)"

section \<open>Arithmetic\<close>

definition smallint_add :: "16 word \<Rightarrow> zval \<Rightarrow> 16 word outcome" where
  "smallint_add self addend =
     (case addend of
        ZObject (ONumeric (NSmallint t)) \<Rightarrow>
          (let r = word_of_int (sint self + sint t) :: 16 word
           in if sint r - sint t \<noteq> sint self then Throw RangeException else Ok r)
      | _ \<Rightarrow> Throw InvalidArgumentException)"

definition smallint_sub :: "16 word \<Rightarrow> zval \<Rightarrow> 16 word outcome" where
  "smallint_sub self difference =
     (case difference of
        ZObject (ONumeric (NSmallint t)) \<Rightarrow>
          (let r = word_of_int (sint self - sint t) :: 16 word
           in if sint r + sint t \<noteq> sint self then Throw RangeException else Ok r)
      | _ \<Rightarrow> Throw InvalidArgumentException)"

definition smallint_mul :: "16 word \<Rightarrow> zval \<Rightarrow> 16 word outcome" where
  "smallint_mul self multiplier =
     (case multiplier of
        ZObject (ONumeric (NSmallint t)) \<Rightarrow>
          (let r = word_of_int (sint self * sint t) :: 16 word
           in if sint t \<noteq> 0 \<and> cdiv (sint r) (sint t) \<noteq> sint self then Throw RangeException else Ok r)
      | _ \<Rightarrow> Throw InvalidArgumentException)"

definition smallint_div :: "16 word \<Rightarrow> zval \<Rightarrow> 16 word outcome" where
  "smallint_div self divisor =
     (case divisor of
        ZObject (ONumeric (NSmallint t)) \<Rightarrow>
          if sint t = 0 then Throw DivideByZeroException
          else Ok (word_of_int (cdiv (sint self) (sint t)))
      | _ \<Rightarrow> Throw InvalidArgumentException)"

definition smallint_mod :: "16 word \<Rightarrow> zval \<Rightarrow> 16 word outcome" where
  "smallint_mod self divisor =
     (case divisor of
        ZObject (ONumeric (NSmallint t)) \<Rightarrow>
          if sint t = 0 then Throw DivideByZeroException
          else Ok (word_of_int (cmod (sint self) (sint t)))
      | _ \<Rightarrow> Throw InvalidArgumentException)"

definition smallint_abs :: "16 word \<Rightarrow> 16 word outcome" where
  "smallint_abs self =
     (if sint self = - 32768 then Throw RangeException
      else Ok (word_of_int (if sint self < 0 then - sint self else sint self)))"

definition smallint_neg :: "16 word \<Rightarrow> 16 word outcome" where
  "smallint_neg self =
     (if sint self = - 32768 then Throw RangeException else Ok (word_of_int (- sint self)))"

text \<open>
  A negative value throws, and then goes on to cast the NaN returned by \<^verbatim>\<open>sqrt\<close>, which is undefined.
\<close>

definition smallint_sqrt :: "16 word \<Rightarrow> 16 word outcome" where
  "smallint_sqrt self =
     (if sint self < 0 then UB
      else Ok (word_of_int (int (sqrt_trunc (nat (sint self))))))"

definition smallint_min :: "16 word" where
  "smallint_min = word_of_int (- 32768)"

definition smallint_max :: "16 word" where
  "smallint_max = word_of_int 32767"

section \<open>Object handlers\<close>

text \<open>\<^verbatim>\<open>cast_object\<close>: the value for the requested type tag, \<open>None\<close> for \<^verbatim>\<open>FAILURE\<close>.\<close>

definition php_driver_smallint_cast :: "16 word \<Rightarrow> nat \<Rightarrow> zval option" where
  "php_driver_smallint_cast self type =
     (if type = 4 then Some (smallint_to_long self)
      else if type = 5 then Some (smallint_to_double self)
      else if type = 6 then Some (smallint_to_string self)
      else None)"

definition php_driver_smallint_compare :: "obj \<Rightarrow> obj \<Rightarrow> int" where
  "php_driver_smallint_compare obj1 obj2 =
     (if obj_class obj1 \<noteq> obj_class obj2 then 1
      else case (obj1, obj2) of
             (ONumeric (NSmallint t1), ONumeric (NSmallint t2)) \<Rightarrow>
               if sint t1 = sint t2 then 0 else if sint t1 < sint t2 then - 1 else 1
           | _ \<Rightarrow> 1)"

section \<open>Exactness\<close>

lemma smallint_add_obj:
  "smallint_add a (smallint_obj b) =
     (if in_int 16 (sint a + sint b) then Ok (word_of_int (sint a + sint b)) else Throw RangeException)"
  using add_check [of a b] by (simp add: smallint_add_def Let_def)

lemma smallint_sub_obj:
  "smallint_sub a (smallint_obj b) =
     (if in_int 16 (sint a - sint b) then Ok (word_of_int (sint a - sint b)) else Throw RangeException)"
  using sub_check [of a b] by (simp add: smallint_sub_def Let_def)

lemma smallint_mul_obj:
  "smallint_mul a (smallint_obj b) =
     (if in_int 16 (sint a * sint b) then Ok (word_of_int (sint a * sint b)) else Throw RangeException)"
proof (cases "sint b = 0")
  case True
  then show ?thesis by (simp add: smallint_mul_def Let_def in_int_def)
next
  case False
  then show ?thesis using mul_check [of b a] by (simp add: smallint_mul_def Let_def)
qed

lemma smallint_neg_eq:
  "smallint_neg a = (if in_int 16 (- sint a) then Ok (word_of_int (- sint a)) else Throw RangeException)"
  using sint_in_int [of a] by (auto simp: smallint_neg_def in_int_def)

lemma smallint_abs_eq:
  "smallint_abs a = (if in_int 16 \<bar>sint a\<bar> then Ok (word_of_int \<bar>sint a\<bar>) else Throw RangeException)"
  using sint_in_int [of a] by (auto simp: smallint_abs_def in_int_def)

lemmas smallint_ops = smallint_add_obj smallint_sub_obj smallint_mul_obj smallint_neg_eq smallint_abs_eq

lemma sint_smallint_of_int: "in_int 16 k \<Longrightarrow> sint (word_of_int k :: 16 word) = k"
  by (rule sint_of_int_in) simp

interpretation smallint: numeric_class
  sint "in_int 16" "\<lambda>a b. smallint_add a (smallint_obj b)" "\<lambda>a b. smallint_sub a (smallint_obj b)"
  "\<lambda>a b. smallint_mul a (smallint_obj b)" smallint_neg smallint_abs
proof
  show "in_int 16 (sint x)" for x :: "16 word" using sint_in_int [of x] by simp
qed (auto simp: smallint_ops sint_smallint_of_int intro: signed_word_eqI simp del: of_int_add of_int_diff of_int_mult of_int_minus)

section \<open>Both narrow integer classes\<close>

lemma dbl_to_int_of_int: "\<bar>k\<bar> < 2 ^ 31 \<Longrightarrow> dbl_to_int 32 (int_to_dbl k) = Ok k"
proof -
  assume k: "\<bar>k\<bar> < 2 ^ 31"
  then have "\<bar>k\<bar> < 2 ^ 53" by simp
  then have "dbl_trunc (int_to_dbl k) = Some k" by (rule dbl_trunc_int_to_dbl)
  with k show ?thesis by (auto simp: dbl_to_int_def in_int_def)
qed

lemma parse_int_small:
  assumes "\<bar>k\<bar> < 2 ^ 31"
  shows "php_driver_parse_int (show_int k) = Ok (word_of_int k)"
proof -
  have "sgn k * (\<bar>k\<bar> mod 2 ^ 32) = k" using assms by (simp add: sgn_mult_abs)
  then show ?thesis using parse_int_canonical [of k] assms by (auto simp: in_int_def)
qed

lemma sint_word_32: "\<bar>k\<bar> < 2 ^ 31 \<Longrightarrow> sint (word_of_int k :: 32 word) = k"
  by (rule sint_of_int_in) (auto simp: in_int_def)

lemma narrow_bounds:
  fixes a :: "8 word" and c :: "16 word"
  shows "- 128 \<le> sint a \<and> sint a \<le> 127 \<and> - 32768 \<le> sint c \<and> sint c \<le> 32767"
  using sint_in_int [of a] sint_in_int [of c] by (auto simp: in_int_def)

lemma narrow_bounds_abs:
  fixes a :: "8 word" and c :: "16 word"
  shows "\<bar>sint a\<bar> < 2 ^ 31 \<and> \<bar>sint c\<bar> < 2 ^ 31"
  using narrow_bounds [of a c] by auto

lemma word_of_sint: "word_of_int (sint w) = (w :: 'a::len word)"
  by simp

lemma sint_long: "\<bar>k\<bar> < 2 ^ 31 \<Longrightarrow> sint (word_of_int k :: 64 word) = k"
  by (rule sint_of_int_in) (auto simp: in_int_def)

section \<open>Properties of the narrow integer classes\<close>

text \<open>
  C12. Addition, subtraction and multiplication of two \<^verbatim>\<open>Tinyint\<close>s or two \<^verbatim>\<open>Smallint\<close>s are exact: the
  result of the integer operation when the class can represent it, a range exception otherwise.
\<close>

theorem narrow_arith_exact:
  "tinyint_add a (tinyint_obj b) =
     (if in_int 8 (sint a + sint b) then Ok (word_of_int (sint a + sint b)) else Throw RangeException) \<and>
   tinyint_sub a (tinyint_obj b) =
     (if in_int 8 (sint a - sint b) then Ok (word_of_int (sint a - sint b)) else Throw RangeException) \<and>
   tinyint_mul a (tinyint_obj b) =
     (if in_int 8 (sint a * sint b) then Ok (word_of_int (sint a * sint b)) else Throw RangeException) \<and>
   smallint_add c (smallint_obj d) =
     (if in_int 16 (sint c + sint d) then Ok (word_of_int (sint c + sint d)) else Throw RangeException) \<and>
   smallint_sub c (smallint_obj d) =
     (if in_int 16 (sint c - sint d) then Ok (word_of_int (sint c - sint d)) else Throw RangeException) \<and>
   smallint_mul c (smallint_obj d) =
     (if in_int 16 (sint c * sint d) then Ok (word_of_int (sint c * sint d)) else Throw RangeException)"
  by (intro conjI tinyint_add_obj tinyint_sub_obj tinyint_mul_obj
      smallint_add_obj smallint_sub_obj smallint_mul_obj)

text \<open>
  Whatever an instance of either class is converted to, a string, an int or a float, the
  constructor makes an equal instance from it.
\<close>

theorem narrow_conversions_roundtrip:
  "php_driver_tinyint_init (tinyint_to_string a) = Ok a \<and>
   php_driver_tinyint_init (tinyint_to_long a) = Ok a \<and>
   php_driver_tinyint_init (tinyint_to_double a) = Ok a \<and>
   php_driver_smallint_init (smallint_to_string c) = Ok c \<and>
   php_driver_smallint_init (smallint_to_long c) = Ok c \<and>
   php_driver_smallint_init (smallint_to_double c) = Ok c"
  using narrow_bounds [of a c] narrow_bounds_abs [of a c]
  by (simp add: php_driver_tinyint_init_def php_driver_smallint_init_def
      tinyint_to_string_def tinyint_to_long_def tinyint_to_double_def
      smallint_to_string_def smallint_to_long_def smallint_to_double_def
      parse_int_small dbl_to_int_of_int sint_long sint_word_32 word_of_sint Let_def
      del: of_int_sint)

text \<open>
  The constructors take a long only through its low 32 bits: they accept exactly the longs
  that agree with a representable value modulo \<open>2 ^ 32\<close>, and make that value of them.
\<close>

theorem narrow_init_truncates_long:
  "(php_driver_tinyint_init (ZLong l) = Ok a \<longleftrightarrow> 2 ^ 32 dvd sint l - sint a) \<and>
   (php_driver_smallint_init (ZLong l) = Ok c \<longleftrightarrow> 2 ^ 32 dvd sint l - sint c)"
proof -
  have "php_driver_tinyint_init (ZLong l) = Ok a \<longleftrightarrow> sint (word_of_int (sint l) :: 32 word) = sint a"
    using narrow_bounds [of a c] by (auto simp: php_driver_tinyint_init_def Let_def sint_tinyint_of_int in_int_def word_of_sint
        simp del: of_int_sint)
  moreover have "php_driver_smallint_init (ZLong l) = Ok c \<longleftrightarrow> sint (word_of_int (sint l) :: 32 word) = sint c"
    using narrow_bounds [of a c] by (auto simp: php_driver_smallint_init_def Let_def sint_smallint_of_int in_int_def word_of_sint
        simp del: of_int_sint)
  moreover have "sint (word_of_int (sint l) :: 32 word) = k \<longleftrightarrow> 2 ^ 32 dvd sint l - k" if "\<bar>k\<bar> < 2 ^ 31" for k
  proof -
    have "sint (word_of_int (sint l) :: 32 word) = k \<longleftrightarrow> (word_of_int (sint l) :: 32 word) = word_of_int k"
      using sint_word_32 [OF that] signed_word_eqI [of "word_of_int (sint l) :: 32 word" "word_of_int k"] by auto
    also have "\<dots> \<longleftrightarrow> 2 ^ 32 dvd sint l - k"
      by (simp only: word_of_int_eq_iff take_bit_eq_mod mod_eq_dvd_iff) simp
    finally show ?thesis .
  qed
  ultimately show ?thesis using narrow_bounds_abs [of a c] by simp
qed

lemma tinyint_div_mod:
  assumes "b \<noteq> 0"
  shows "\<exists>q r. tinyint_div a (tinyint_obj b) = Ok q \<and> tinyint_mod a (tinyint_obj b) = Ok r \<and>
      \<bar>sint r\<bar> < \<bar>sint b\<bar> \<and>
      (if sint a = - 128 \<and> sint b = - 1 then q = a
       else sint q = cdiv (sint a) (sint b) \<and> sint a = sint q * sint b + sint r)"
proof -
  have "sint b \<noteq> 0" using assms by (simp add: signed_eq_0_iff)
  then show ?thesis using word_div_mod_ex [of b a] unfolding tinyint_div_def tinyint_mod_def
    by (cases "sint a = - 128 \<and> sint b = - 1") auto
qed

lemma smallint_div_mod:
  assumes "b \<noteq> 0"
  shows "\<exists>q r. smallint_div a (smallint_obj b) = Ok q \<and> smallint_mod a (smallint_obj b) = Ok r \<and>
      \<bar>sint r\<bar> < \<bar>sint b\<bar> \<and>
      (if sint a = - 32768 \<and> sint b = - 1 then q = a
       else sint q = cdiv (sint a) (sint b) \<and> sint a = sint q * sint b + sint r)"
proof -
  have "sint b \<noteq> 0" using assms by (simp add: signed_eq_0_iff)
  then show ?thesis using word_div_mod_ex [of b a] unfolding smallint_div_def smallint_mod_def
    by (cases "sint a = - 32768 \<and> sint b = - 1") auto
qed

text \<open>
  Division truncates towards zero and the remainder belongs to it, on every pair of operands
  with a non-zero divisor except one: the smallest value divided by -1, whose quotient is not
  representable, silently gives the smallest value again.
\<close>

theorem narrow_div_mod:
  assumes "b \<noteq> 0" and "d \<noteq> 0"
  shows "(\<exists>q r. tinyint_div a (tinyint_obj b) = Ok q \<and> tinyint_mod a (tinyint_obj b) = Ok r \<and>
      \<bar>sint r\<bar> < \<bar>sint b\<bar> \<and>
      (if sint a = - 128 \<and> sint b = - 1 then q = a
       else sint q = cdiv (sint a) (sint b) \<and> sint a = sint q * sint b + sint r)) \<and>
    (\<exists>q r. smallint_div c (smallint_obj d) = Ok q \<and> smallint_mod c (smallint_obj d) = Ok r \<and>
      \<bar>sint r\<bar> < \<bar>sint d\<bar> \<and>
      (if sint c = - 32768 \<and> sint d = - 1 then q = c
       else sint q = cdiv (sint c) (sint d) \<and> sint c = sint q * sint d + sint r))"
  using tinyint_div_mod [OF assms(1)] smallint_div_mod [OF assms(2)] by blast

theorem narrow_div_mod_witness:
  "(\<exists>q r. tinyint_div (word_of_int (- 7)) (tinyint_obj 2) = Ok q \<and>
     tinyint_mod (word_of_int (- 7)) (tinyint_obj 2) = Ok r \<and> - 7 = sint q * 2 + sint r) \<and>
   smallint_div smallint_min (smallint_obj (word_of_int (- 1))) = Ok smallint_min"
  using narrow_div_mod [of "2 :: 8 word" "word_of_int (- 1) :: 16 word" "word_of_int (- 7)" smallint_min]
  by (auto simp: smallint_min_def)

text \<open>
  The square root of a value that is not negative is its integer square root; the rounding of
  the floating-point computation does not show at these widths.
\<close>

theorem narrow_sqrt:
  assumes "0 \<le> sint a" and "0 \<le> sint c"
  shows "(\<exists>r. tinyint_sqrt a = Ok r \<and> 0 \<le> sint r \<and> sint r * sint r \<le> sint a \<and>
      sint a < (sint r + 1) * (sint r + 1)) \<and>
    (\<exists>r. smallint_sqrt c = Ok r \<and> 0 \<le> sint r \<and> sint r * sint r \<le> sint c \<and>
      sint c < (sint r + 1) * (sint r + 1))"
  using word_sqrt [of a] word_sqrt [of c] assms narrow_bounds [of a c]
  unfolding tinyint_sqrt_def smallint_sqrt_def by simp

theorem narrow_sqrt_witness:
  "(\<exists>r. tinyint_sqrt 120 = Ok r \<and> sint r * sint r \<le> 120) \<and> (\<exists>r. smallint_sqrt 30000 = Ok r \<and> sint r * sint r \<le> 30000)"
  using narrow_sqrt [of "120 :: 8 word" "30000 :: 16 word"] by auto

end
