(* ===== verification/Bigint.thy ===== *)
theory Bigint
  imports Smallint
begin

text \<open>
  \<^verbatim>\<open>ext/src/Bigint.c\<close>: the methods of \<^verbatim>\<open>Cassandra\Bigint\<close>, on the 64-bit value of an instance. Unlike in
  the narrow classes there are no overflow checks: a result that does not fit is a signed overflow,
  which C leaves undefined.
\<close>

abbreviation bigint_obj :: "64 word \<Rightarrow> zval" where
  "bigint_obj v \<equiv> ZObject (ONumeric (NBigint v))"

section \<open>Conversions\<close>

definition bigint_to_double :: "64 word \<Rightarrow> zval" where
  "bigint_to_double v = ZDouble (int_to_dbl (sint v))"

text \<open>A \<^verbatim>\<open>zend_long\<close> has 64 bits here, so both range checks are on its own limits.\<close>

definition bigint_to_long :: "64 word \<Rightarrow> zval outcome" where
  "bigint_to_long v =
     (if sint v < - (2 ^ 63) then Throw RangeException
      else if sint v > 2 ^ 63 - 1 then Throw RangeException
      else Ok (ZLong v))"

definition bigint_to_string :: "64 word \<Rightarrow> zval" where
  "bigint_to_string v = ZString (show_int (sint v))"

text \<open>
  In the comparison \<^verbatim>\<open>double_value > INT64_MAX\<close> the integer is converted to a double, \<open>2 ^ 63\<close>.
\<close>

definition int64_max_dbl :: dbl where
  "int64_max_dbl = int_to_dbl (2 ^ 63 - 1)"

definition int64_min_dbl :: dbl where
  "int64_min_dbl = int_to_dbl (- (2 ^ 63))"

definition php_driver_bigint_init :: "zval \<Rightarrow> 64 word outcome" where
  "php_driver_bigint_init value =
     (case value of
        ZLong l \<Rightarrow> Ok l
      | ZDouble d \<Rightarrow>
          if dbl_lt int64_max_dbl d \<or> dbl_lt d int64_min_dbl then Throw RangeException
          else bind_outcome (dbl_to_int 64 d) (\<lambda>k. Ok (word_of_int k))
      | ZString s \<Rightarrow> php_driver_parse_bigint s
      | ZObject (ONumeric (NBigint v)) \<Rightarrow> Ok v
      | _ \<Rightarrow> Throw InvalidArgumentException)"

section \<open>Arithmetic\<close>

text \<open>The result of a signed 64-bit operation whose exact value is \<open>k\<close>.\<close>

definition int64_result :: "int \<Rightarrow> 64 word outcome" where
  "int64_result k = (if in_int 64 k then Ok (word_of_int k) else UB)"

definition bigint_add :: "64 word \<Rightarrow> zval \<Rightarrow> 64 word outcome" where
  "bigint_add self num =
     (case num of
        ZObject (ONumeric (NBigint b)) \<Rightarrow> int64_result (sint self + sint b)
      | _ \<Rightarrow> Throw InvalidArgumentException)"

definition bigint_sub :: "64 word \<Rightarrow> zval \<Rightarrow> 64 word outcome" where
  "bigint_sub self num =
     (case num of
        ZObject (ONumeric (NBigint b)) \<Rightarrow> int64_result (sint self - sint b)
      | _ \<Rightarrow> Throw InvalidArgumentException)"

definition bigint_mul :: "64 word \<Rightarrow> zval \<Rightarrow> 64 word outcome" where
  "bigint_mul self num =
     (case num of
        ZObject (ONumeric (NBigint b)) \<Rightarrow> int64_result (sint self * sint b)
      | _ \<Rightarrow> Throw InvalidArgumentException)"

text \<open>The quotient of the smallest value by -1 overflows, and so, in C, does the remainder.\<close>

definition bigint_div :: "64 word \<Rightarrow> zval \<Rightarrow> 64 word outcome" where
  "bigint_div self num =
     (case num of
        ZObject (ONumeric (NBigint b)) \<Rightarrow>
          if sint b = 0 then Throw DivideByZeroException
          else int64_result (cdiv (sint self) (sint b))
      | _ \<Rightarrow> Throw InvalidArgumentException)"

definition bigint_mod :: "64 word \<Rightarrow> zval \<Rightarrow> 64 word outcome" where
  "bigint_mod self num =
     (case num of
        ZObject (ONumeric (NBigint b)) \<Rightarrow>
          if sint b = 0 then Throw DivideByZeroException
          else bind_outcome (int64_result (cdiv (sint self) (sint b)))
            (\<lambda>_. Ok (word_of_int (cmod (sint self) (sint b))))
      | _ \<Rightarrow> Throw InvalidArgumentException)"

definition bigint_abs :: "64 word \<Rightarrow> 64 word outcome" where
  "bigint_abs self =
     (if sint self = - (2 ^ 63) then Throw RangeException
      else int64_result (if sint self < 0 then - sint self else sint self))"

definition bigint_neg :: "64 word \<Rightarrow> 64 word outcome" where
  "bigint_neg self = int64_result (- sint self)"

text \<open>As in \<^verbatim>\<open>Smallint\<close>, a negative value throws and then casts a NaN.\<close>

definition bigint_sqrt :: "64 word \<Rightarrow> 64 word outcome" where
  "bigint_sqrt self =
     (if sint self < 0 then UB
      else Ok (word_of_int (int (sqrt_trunc (nat (sint self))))))"

definition bigint_min :: "64 word" where
  "bigint_min = word_of_int (- (2 ^ 63))"

definition bigint_max :: "64 word" where
  "bigint_max = word_of_int (2 ^ 63 - 1)"

section \<open>Object handlers\<close>

text \<open>\<open>Ok None\<close> is the return value \<^verbatim>\<open>FAILURE\<close> without an exception.\<close>

definition php_driver_bigint_cast :: "64 word \<Rightarrow> nat \<Rightarrow> zval option outcome" where
  "php_driver_bigint_cast self type =
     (if type = 4 then bind_outcome (bigint_to_long self) (\<lambda>z. Ok (Some z))
      else if type = 5 then Ok (Some (bigint_to_double self))
      else if type = 6 then Ok (Some (bigint_to_string self))
      else Ok None)"

definition php_driver_bigint_compare :: "obj \<Rightarrow> obj \<Rightarrow> int" where
  "php_driver_bigint_compare obj1 obj2 =
     (if obj_class obj1 \<noteq> obj_class obj2 then 1
      else case (obj1, obj2) of
             (ONumeric (NBigint b1), ONumeric (NBigint b2)) \<Rightarrow>
               if sint b1 = sint b2 then 0 else if sint b1 < sint b2 then - 1 else 1
           | _ \<Rightarrow> 1)"

section \<open>Doubles and the 64-bit range\<close>

lemma limits_dbl: "int64_max_dbl = 0x43E0000000000000" "int64_min_dbl = 0xC3E0000000000000"
  by (simp_all add: int64_max_dbl_def int64_min_dbl_def int_to_dbl_def round53_def nbits.simps Let_def)

text \<open>The magnitude bits of a double: its exponent and mantissa fields.\<close>

definition dbl_mag :: "dbl \<Rightarrow> int" where
  "dbl_mag d = (if dbl_neg d then uint d - 2 ^ 63 else uint d)"

lemma dbl_mag_bounds: "0 \<le> dbl_mag d" "dbl_mag d < 2 ^ 63"
  using uint_lt2p [of d] by (auto simp: dbl_mag_def dbl_neg_def)

lemma dbl_mag_fields: "dbl_exp d = dbl_mag d div 2 ^ 52" "dbl_man d = dbl_mag d mod 2 ^ 52"
proof -
  define s where "s = (if dbl_neg d then 1 else 0 :: int)"
  define m where "m = dbl_mag d"
  have m: "0 \<le> m" "m < 2 ^ 63" using dbl_mag_bounds by (auto simp: m_def)
  have u: "uint d = m + s * 2 ^ 11 * 2 ^ 52" by (simp add: m_def dbl_mag_def s_def)
  have "uint d div 2 ^ 52 = s * 2 ^ 11 + m div 2 ^ 52" unfolding u by (subst div_mult_self1) simp_all
  moreover have "0 \<le> m div 2 ^ 52" "m div 2 ^ 52 < 2 ^ 11" using m by auto
  ultimately show "dbl_exp d = dbl_mag d div 2 ^ 52"
    by (simp add: dbl_exp_def m_def s_def)
  have "uint d mod 2 ^ 52 = m mod 2 ^ 52" unfolding u by (simp only: mod_mult_self1)
  then show "dbl_man d = dbl_mag d mod 2 ^ 52" by (simp add: dbl_man_def m_def)
qed

lemma dbl_key_mag: "dbl_key d = (if dbl_neg d then - dbl_mag d else dbl_mag d)"
  by (simp add: dbl_key_def dbl_mag_def)

lemma dbl_abs_trunc:
  "dbl_exp d \<noteq> 2047 \<Longrightarrow> dbl_trunc d = Some ((if dbl_neg d then - 1 else 1) *
     (if dbl_pow d \<ge> 0 then dbl_sig d * 2 ^ nat (dbl_pow d) else dbl_sig d div 2 ^ nat (- dbl_pow d)))"
  by (simp add: dbl_trunc_def)

definition dbl_abs_int :: "dbl \<Rightarrow> int" where
  "dbl_abs_int d =
     (if dbl_pow d \<ge> 0 then dbl_sig d * 2 ^ nat (dbl_pow d) else dbl_sig d div 2 ^ nat (- dbl_pow d))"

text \<open>\<open>2 ^ 63\<close> has the magnitude bits \<open>1086 * 2 ^ 52\<close>: doubles below and above it, by their bits.\<close>

lemma dbl_man_bounds: "0 \<le> dbl_man d" "dbl_man d < 2 ^ 52"
  by (simp_all add: dbl_man_def)

lemma dbl_abs_int_small:
  assumes "dbl_mag d < 1086 * 2 ^ 52"
  shows "0 \<le> dbl_abs_int d \<and> dbl_abs_int d < 2 ^ 63"
proof -
  have e: "0 \<le> dbl_exp d" "dbl_exp d \<le> 1085"
    using assms dbl_mag_bounds [of d] by (auto simp: dbl_mag_fields)
  have sg: "0 \<le> dbl_sig d" "dbl_sig d < 2 ^ 53"
    using dbl_man_bounds [of d] by (auto simp: dbl_sig_def)
  show ?thesis
  proof (cases "0 \<le> dbl_pow d")
    case True
    have "(2::int) ^ nat (dbl_pow d) \<le> 2 ^ 10"
      using e by (intro power_increasing) (auto simp: dbl_pow_def)
    then have "dbl_sig d * 2 ^ nat (dbl_pow d) \<le> dbl_sig d * 2 ^ 10" using sg by (intro mult_left_mono) auto
    then show ?thesis using True sg by (simp add: dbl_abs_int_def)
  next
    case False
    have "dbl_sig d div 2 ^ nat (- dbl_pow d) \<le> dbl_sig d div 1" using sg by (intro zdiv_mono2) auto
    then show ?thesis using False sg by (simp add: dbl_abs_int_def pos_imp_zdiv_nonneg_iff)
  qed
qed

lemma dbl_abs_int_big:
  assumes "1086 * 2 ^ 52 < dbl_mag d"
  shows "2 ^ 63 < dbl_abs_int d"
proof -
  have e: "1086 \<le> dbl_exp d" using assms by (auto simp: dbl_mag_fields)
  then have pow: "dbl_pow d = dbl_exp d - 1075" "0 \<le> dbl_pow d" by (auto simp: dbl_pow_def)
  have sg: "2 ^ 52 \<le> dbl_sig d" using e dbl_man_bounds [of d] by (simp add: dbl_sig_def)
  show ?thesis
  proof (cases "dbl_exp d = 1086")
    case True
    then have "dbl_man d = dbl_mag d - 1086 * 2 ^ 52"
      using minus_div_mult_eq_mod [of "dbl_mag d" "2 ^ 52"] by (simp add: dbl_mag_fields)
    then have "2 ^ 52 < dbl_sig d" using assms True by (simp add: dbl_sig_def)
    then show ?thesis using True pow by (simp add: dbl_abs_int_def)
  next
    case False
    then have "(2::int) ^ 12 \<le> 2 ^ nat (dbl_pow d)" using e pow by (intro power_increasing) auto
    then have "2 ^ 52 * 2 ^ 12 \<le> dbl_sig d * 2 ^ nat (dbl_pow d)" using sg by (intro mult_mono) auto
    then show ?thesis using pow by (simp add: dbl_abs_int_def)
  qed
qed

lemma dbl_abs_int_eq:
  assumes "dbl_mag d = 1086 * 2 ^ 52"
  shows "dbl_abs_int d = 2 ^ 63"
  using assms by (simp add: dbl_abs_int_def dbl_pow_def dbl_sig_def dbl_mag_fields)

text \<open>
  The constructor takes from a double exactly the truncated value when it fits, and throws a
  range exception when it does not, infinities included; but a NaN and the double \<open>2 ^ 63\<close> itself
  pass the range check and reach a cast that is undefined.
\<close>

theorem bigint_init_double:
  "php_driver_bigint_init (ZDouble d) =
     (if dbl_isnan d \<or> d = int_to_dbl (2 ^ 63) then UB
      else case dbl_trunc d of
             Some k \<Rightarrow> if in_int 64 k then Ok (word_of_int k) else Throw RangeException
           | None \<Rightarrow> Throw RangeException)"
proof -
  have lim: "int_to_dbl (2 ^ 63) = 0x43E0000000000000"
    by (simp add: int_to_dbl_def round53_def nbits.simps Let_def)
  have lims: "\<not> dbl_isnan int64_max_dbl" "\<not> dbl_isnan int64_min_dbl"
    "dbl_key int64_max_dbl = 1086 * 2 ^ 52" "dbl_key int64_min_dbl = - (1086 * 2 ^ 52)"
    by (simp_all add: limits_dbl dbl_isnan_def dbl_exp_def dbl_man_def dbl_key_def dbl_neg_def)
  have eq: "d = int_to_dbl (2 ^ 63) \<longleftrightarrow> \<not> dbl_neg d \<and> dbl_mag d = 1086 * 2 ^ 52"
    unfolding lim by (auto simp: dbl_mag_def dbl_neg_def word_uint_eq_iff)
  show ?thesis
  proof (cases "dbl_exp d = 2047")
    case True
    then have "1086 * 2 ^ 52 < dbl_mag d" by (auto simp: dbl_mag_fields)
    with True show ?thesis using eq lims
      by (auto simp: php_driver_bigint_init_def dbl_lt_def dbl_key_mag dbl_trunc_def dbl_to_int_def)
  next
    case False
    then have t: "dbl_trunc d = Some ((if dbl_neg d then - 1 else 1) * dbl_abs_int d)"
      by (simp add: dbl_abs_trunc dbl_abs_int_def)
    have n: "\<not> dbl_isnan d" using False by (simp add: dbl_isnan_def)
    consider "dbl_mag d < 1086 * 2 ^ 52" | "dbl_mag d = 1086 * 2 ^ 52" | "1086 * 2 ^ 52 < dbl_mag d"
      by linarith
    then show ?thesis
      by cases (use eq lims n t dbl_mag_bounds [of d] dbl_abs_int_small [of d] dbl_abs_int_eq [of d] dbl_abs_int_big [of d] in
          \<open>auto simp: php_driver_bigint_init_def dbl_lt_def dbl_key_mag dbl_to_int_def in_int_def\<close>)
  qed
qed

text \<open>
  The square root of a \<^verbatim>\<open>Bigint\<close> below \<open>2 ^ 52\<close> is its integer square root. Above that the
  rounding of the floating-point computation shows: the square root of \<open>2 ^ 62 - 1\<close> is given as
  \<open>2 ^ 31\<close>, whose square is larger.
\<close>

theorem bigint_sqrt_exact:
  "(0 \<le> sint a \<and> sint a < 2 ^ 52 \<longrightarrow>
     (\<exists>r. bigint_sqrt a = Ok r \<and> 0 \<le> sint r \<and> sint r * sint r \<le> sint a \<and>
       sint a < (sint r + 1) * (sint r + 1))) \<and>
   bigint_sqrt (word_of_int (2 ^ 62 - 1)) = Ok (word_of_int (2 ^ 31))"
proof
  show "0 \<le> sint a \<and> sint a < 2 ^ 52 \<longrightarrow>
     (\<exists>r. bigint_sqrt a = Ok r \<and> 0 \<le> sint r \<and> sint r * sint r \<le> sint a \<and>
       sint a < (sint r + 1) * (sint r + 1))"
    using word_sqrt [of a] unfolding bigint_sqrt_def by simp
  have s: "sint (word_of_int (2 ^ 62 - 1) :: 64 word) = 2 ^ 62 - 1"
    by (rule sint_of_int_in) (simp add: in_int_def)
  have d: "dbl_of_nat (2 ^ 62 - 1) = 2 ^ 62"
    by (simp add: dbl_of_nat_def round53_def nbits.simps Let_def)
  have q: "isqrt (2 ^ 62) = 2 ^ 31" "isqrt (2 ^ 62 * 4 ^ 21) = 2 ^ 52" by (rule isqrt_unique; simp)+
  have "sqrt_trunc (2 ^ 62 - 1) = 2 ^ 31"
    unfolding sqrt_trunc_def d Let_def q(1) using q(2) by (simp add: nbits.simps)
  then show "bigint_sqrt (word_of_int (2 ^ 62 - 1)) = Ok (word_of_int (2 ^ 31))"
    unfolding bigint_sqrt_def s by simp
qed

theorem bigint_sqrt_exact_witness:
  "\<exists>r. bigint_sqrt 1000000 = Ok r \<and> 0 \<le> sint r \<and> sint r * sint r \<le> 1000000"
  using bigint_sqrt_exact [of 1000000] by auto

end
