(* ===== verification/Hashing.thy ===== *)
theory Hashing
  imports Uthash Bigint
begin

text \<open>
  \<^verbatim>\<open>ext/util/hash.c\<close> and \<^verbatim>\<open>hash.h\<close>: hashes and comparison of PHP values. The functions of the Zend
  engine and the handlers that objects carry are the fields of a record \<open>engine\<close>; the locale
  \<open>engine_lib\<close> states what is used of them. Every object of PHP 8 has a \<^verbatim>\<open>compare\<close> handler, but the
  \<^verbatim>\<open>hash_value\<close> slot exists in the driver's own handler table only, and a class need not fill it:
  \<open>obj_hash_value\<close> gives \<open>None\<close> when there is nothing to call, and hashing such an object is \<open>UB\<close>. Which
  classes fill it is in the theory \<open>Value_Objects\<close>. The main fact is that hash and comparison of
  values fit together, so that values can be the keys of a \<^verbatim>\<open>uthash\<close> table.
\<close>

record engine =
  zend_inline_hash_func :: "string \<Rightarrow> 64 word"
  zend_binary_strcmp :: "string \<Rightarrow> string \<Rightarrow> int"
  obj_compare :: "obj \<Rightarrow> obj \<Rightarrow> int"
  obj_hash_value :: "obj \<Rightarrow> 32 word option"

section \<open>Hashes\<close>

text \<open>The shift of the signed value is arithmetic.\<close>

definition php_driver_bigint_hash :: "64 word \<Rightarrow> 32 word" where
  "php_driver_bigint_hash value = ucast (value XOR signed_drop_bit 32 value)"

definition php_driver_combine_hash :: "32 word \<Rightarrow> 32 word \<Rightarrow> 32 word" where
  "php_driver_combine_hash seed hashv =
     seed XOR (hashv + 0x9e3779b9 + push_bit 6 seed + drop_bit 2 seed)"

definition double_to_bits :: "dbl \<Rightarrow> 64 word" where
  "double_to_bits value = (if dbl_isnan value then 0x7ff8000000000000 else value)"

definition double_hash :: "dbl \<Rightarrow> 32 word" where
  "double_hash value = php_driver_bigint_hash (double_to_bits value)"

fun php_driver_value_hash :: "engine \<Rightarrow> zval \<Rightarrow> 32 word outcome" where
  "php_driver_value_hash e (ZLong l) = Ok (php_driver_bigint_hash l)"
| "php_driver_value_hash e (ZDouble d) = Ok (double_hash d)"
| "php_driver_value_hash e ZTrue = Ok 1"
| "php_driver_value_hash e ZFalse = Ok 0"
| "php_driver_value_hash e (ZString s) = Ok (ucast (zend_inline_hash_func e s))"
| "php_driver_value_hash e (ZObject obj) = (case obj_hash_value e obj of Some h \<Rightarrow> Ok h | None \<Rightarrow> UB)"
| "php_driver_value_hash e z = Ok 0"

text \<open>The hash of a value that has one, for the table itself, which stores it and asks for it again.\<close>

definition zval_hash :: "engine \<Rightarrow> zval \<Rightarrow> 32 word" where
  "zval_hash e z = (case php_driver_value_hash e z of Ok h \<Rightarrow> h | _ \<Rightarrow> 0)"

definition php_driver_mpz_hash :: "gmp \<Rightarrow> 32 word \<Rightarrow> int \<Rightarrow> 32 word" where
  "php_driver_mpz_hash g seed n =
     fold (\<lambda>limb hashv. php_driver_combine_hash hashv (php_driver_bigint_hash limb)) (mpz_limbs g n) seed"

section \<open>Comparison\<close>

definition double_compare :: "dbl \<Rightarrow> dbl \<Rightarrow> int" where
  "double_compare d1 d2 =
     (if dbl_lt d1 d2 then - 1
      else if dbl_lt d2 d1 then 1
      else cmp3 (sint (double_to_bits d1)) (sint (double_to_bits d2)))"

text \<open>Of two values at different addresses; a value compared with itself is equal.\<close>

definition php_driver_value_compare :: "engine \<Rightarrow> zval \<Rightarrow> zval \<Rightarrow> int" where
  "php_driver_value_compare e z1 z2 =
     (if z_type z1 \<noteq> z_type z2 then (if z_type z1 < z_type z2 then - 1 else 1)
      else case (z1, z2) of
             (ZNull, _) \<Rightarrow> 0
           | (ZLong a, ZLong b) \<Rightarrow> cmp3 (sint a) (sint b)
           | (ZDouble a, ZDouble b) \<Rightarrow> double_compare a b
           | (ZTrue, _) \<Rightarrow> if z_type z2 = 3 then 0 else 1
           | (ZFalse, _) \<Rightarrow> if z_type z2 = 2 then 0 else - 1
           | (ZString a, ZString b) \<Rightarrow> zend_binary_strcmp e a b
           | (ZObject a, ZObject b) \<Rightarrow> obj_compare e a b
           | _ \<Rightarrow> 1)"

section \<open>Tables of values\<close>

text \<open>
  \<^verbatim>\<open>HASH_FIND_ZVAL\<close> and \<^verbatim>\<open>HASH_ADD_ZVAL\<close>: a table that is not empty hashes the value it looks for, and the value
  of a new element is always hashed.
\<close>

definition find_zval :: "engine \<Rightarrow> zval ut_table option \<Rightarrow> zval \<Rightarrow> addr option outcome" where
  "find_zval e head zv =
     (if head = None then Ok None
      else bind_outcome (php_driver_value_hash e zv) (\<lambda>_.
        Ok (hash_find (zval_hash e) (php_driver_value_compare e) head zv)))"

definition add_zval :: "engine \<Rightarrow> zval ut_table option \<Rightarrow> zval \<Rightarrow> addr \<Rightarrow> zval ut_table option outcome" where
  "add_zval e head zv add =
     bind_outcome (php_driver_value_hash e zv) (\<lambda>_. Ok (hash_add (zval_hash e) head zv add))"

section \<open>Doubles are totally ordered\<close>

text \<open>
  The position of a double in the order of \<open>double_compare\<close>: by value, -0 just below +0, and all
  NaNs together above everything else.
\<close>

definition dbl_rank :: "dbl \<Rightarrow> int" where
  "dbl_rank d =
     (if dbl_isnan d then 2 ^ 63 else if dbl_neg d then - dbl_mag d - 1 else dbl_mag d)"

lemma sint_dbl: "sint (d :: dbl) = (if dbl_neg d then dbl_mag d - 2 ^ 63 else dbl_mag d)"
proof -
  define k where "k = (if dbl_neg d then dbl_mag d - 2 ^ 63 else dbl_mag d)"
  have d: "d = word_of_int k" by (simp add: k_def dbl_mag_def)
  have "in_int 64 k" using dbl_mag_bounds [of d] unfolding in_int_def k_def by (auto split: if_splits)
  then have "sint (word_of_int k :: dbl) = k" by (intro sint_of_int_in) simp
  then show ?thesis unfolding k_def [symmetric] using d by simp
qed

lemma dbl_mag_finite: "\<not> dbl_isnan d \<Longrightarrow> dbl_mag d \<le> 2047 * 2 ^ 52"
proof -
  assume n: "\<not> dbl_isnan d"
  have m: "dbl_mag d = dbl_exp d * 2 ^ 52 + dbl_man d" by (simp add: dbl_mag_fields)
  have "0 \<le> dbl_exp d" "dbl_exp d < 2 ^ 11" by (simp_all add: dbl_exp_def)
  then have "dbl_exp d \<le> 2046 \<or> dbl_exp d = 2047" by auto
  then show ?thesis
  proof
    assume "dbl_exp d \<le> 2046"
    then have "dbl_exp d * 2 ^ 52 \<le> 2046 * 2 ^ 52" by simp
    then show ?thesis using m dbl_man_bounds [of d] by simp
  next
    assume "dbl_exp d = 2047"
    then show ?thesis using m n by (simp add: dbl_isnan_def)
  qed
qed

lemma sint_canonical_nan: "sint (0x7ff8000000000000 :: dbl) = 0x7ff8000000000000"
  by simp

lemma double_compare_rank: "double_compare a b = cmp3 (dbl_rank a) (dbl_rank b)"
proof -
  have nan: "sint d < 0x7ff8000000000000 \<and> dbl_rank d < 2 ^ 63" if "\<not> dbl_isnan d" for d
    using dbl_mag_finite [OF that] dbl_mag_bounds [of d] that by (auto simp: sint_dbl dbl_rank_def)
  consider "dbl_isnan a" "dbl_isnan b" | "dbl_isnan a" "\<not> dbl_isnan b" | "\<not> dbl_isnan a" "dbl_isnan b"
    | (fin) "\<not> dbl_isnan a" "\<not> dbl_isnan b" by blast
  then show ?thesis
  proof cases
    case 1
    then show ?thesis by (simp add: double_compare_def dbl_lt_def double_to_bits_def dbl_rank_def cmp3_def)
  next
    case 2
    then show ?thesis using nan [of b]
      by (simp add: double_compare_def dbl_lt_def double_to_bits_def cmp3_def dbl_rank_def)
  next
    case 3
    then show ?thesis using nan [of a]
      by (simp add: double_compare_def dbl_lt_def double_to_bits_def cmp3_def dbl_rank_def)
  next
    case fin
    show ?thesis using dbl_mag_bounds [of a] dbl_mag_bounds [of b] fin
      by (auto simp: double_compare_def dbl_lt_def double_to_bits_def cmp3_def dbl_key_mag sint_dbl dbl_rank_def)
  qed
qed

lemma dbl_rank_bits: "dbl_rank a = dbl_rank b \<longleftrightarrow> double_to_bits a = double_to_bits b"
proof -
  have nan: "dbl_rank d < 2 ^ 63 \<and> sint d \<noteq> 0x7ff8000000000000" if "\<not> dbl_isnan d" for d
    using dbl_mag_finite [OF that] dbl_mag_bounds [of d] that by (auto simp: sint_dbl dbl_rank_def)
  have fin: "dbl_rank a = dbl_rank b \<longleftrightarrow> a = b" if "\<not> dbl_isnan a" "\<not> dbl_isnan b"
  proof -
    have "dbl_rank a = dbl_rank b \<longleftrightarrow> sint a = sint b"
      using that dbl_mag_bounds [of a] dbl_mag_bounds [of b] by (auto simp: dbl_rank_def sint_dbl)
    then show ?thesis using signed_word_eqI [of a b] by auto
  qed
  show ?thesis
    using fin nan [of a] nan [of b] sint_canonical_nan
    by (cases "dbl_isnan a"; cases "dbl_isnan b") (auto simp: double_to_bits_def dbl_rank_def)
qed

section \<open>Hash and comparison fit together\<close>

locale engine_lib =
  fixes e :: engine and obj_ok :: "obj \<Rightarrow> bool"
  assumes strcmp_eq: "zend_binary_strcmp e s t = 0 \<longleftrightarrow> s = t"
    and obj_refl: "obj_ok a \<Longrightarrow> obj_compare e a a = 0"
    and obj_sym: "obj_ok a \<Longrightarrow> obj_ok b \<Longrightarrow> obj_compare e a b = 0 \<Longrightarrow> obj_compare e b a = 0"
    and obj_trans: "obj_ok a \<Longrightarrow> obj_ok b \<Longrightarrow> obj_ok c \<Longrightarrow> obj_compare e a b = 0 \<Longrightarrow> obj_compare e b c = 0 \<Longrightarrow> obj_compare e a c = 0"
    and obj_hash: "obj_ok a \<Longrightarrow> obj_ok b \<Longrightarrow> obj_compare e a b = 0 \<Longrightarrow> obj_hash_value e a = obj_hash_value e b"
    and obj_hashed: "obj_ok a \<Longrightarrow> obj_hash_value e a \<noteq> None"

text \<open>The values that may be keys: not undefined, not an array, and only objects whose handlers keep the contract.\<close>

fun hashable :: "(obj \<Rightarrow> bool) \<Rightarrow> zval \<Rightarrow> bool" where
  "hashable obj_ok ZUndef = False"
| "hashable obj_ok (ZArray _) = False"
| "hashable obj_ok (ZObject obj) = obj_ok obj"
| "hashable obj_ok _ = True"

context engine_lib
begin

text \<open>Equality of values, spelled out.\<close>

lemma value_compare_0:
  assumes "hashable obj_ok a" and "hashable obj_ok b"
  shows "php_driver_value_compare e a b = 0 \<longleftrightarrow>
    (case (a, b) of
       (ZDouble x, ZDouble y) \<Rightarrow> double_to_bits x = double_to_bits y
     | (ZObject x, ZObject y) \<Rightarrow> obj_compare e x y = 0
     | _ \<Rightarrow> a = b)"
proof -
  have sint: "sint x = sint y \<longleftrightarrow> x = y" for x y :: "64 word" using signed_word_eqI [of x y] by auto
  show ?thesis using assms
    by (cases a; cases b)
      (auto simp: php_driver_value_compare_def double_compare_rank dbl_rank_bits strcmp_eq sint)
qed

end

sublocale engine_lib \<subseteq> vh: ut_hash "hashable obj_ok" "zval_hash e" "php_driver_value_compare e"
proof
  fix a b c :: zval
  assume a: "hashable obj_ok a"
  then show "php_driver_value_compare e a a = 0"
    by (cases a) (auto simp: value_compare_0 obj_refl)
  assume b: "hashable obj_ok b" and ab: "php_driver_value_compare e a b = 0"
  show "php_driver_value_compare e b a = 0"
    using a b ab by (cases a; cases b) (auto simp: value_compare_0 intro: obj_sym)
  show "zval_hash e a = zval_hash e b"
    using a b ab obj_hash by (cases a; cases b) (auto simp: value_compare_0 double_hash_def zval_hash_def)
  assume "hashable obj_ok c" and "php_driver_value_compare e b c = 0"
  then show "php_driver_value_compare e a c = 0"
    using a b ab by (cases a; cases b; cases c) (auto simp: value_compare_0 intro: obj_trans)
qed

context engine_lib
begin

lemma value_hash_ok: "hashable obj_ok z \<Longrightarrow> php_driver_value_hash e z = Ok (zval_hash e z)"
  using obj_hashed by (cases z) (auto simp: zval_hash_def split: option.splits)

lemma find_zval_ok:
  "hashable obj_ok z \<Longrightarrow> find_zval e head z = Ok (hash_find (zval_hash e) (php_driver_value_compare e) head z)"
  by (simp add: find_zval_def value_hash_ok hash_find_def)

lemma add_zval_ok: "hashable obj_ok z \<Longrightarrow> add_zval e head z a = Ok (hash_add (zval_hash e) head z a)"
  by (simp add: add_zval_def value_hash_ok)

lemma axioms_ut_hash: "ut_hash (hashable obj_ok) (zval_hash e) (php_driver_value_compare e)"
  by (rule vh.ut_hash_axioms)

end

section \<open>A concrete engine\<close>

text \<open>
  The string hash and comparison of the Zend engine, without the objects: no class of the driver has
  both its own comparison and a hash in a build for PHP 8, as the theory \<open>Value_Objects\<close> shows.
\<close>

definition zend_hash_ref :: "string \<Rightarrow> 64 word" where
  "zend_hash_ref s = fold (\<lambda>c h. h * 33 + of_char c) s 5381 OR 0x8000000000000000"

fun strcmp_ref :: "string \<Rightarrow> string \<Rightarrow> int" where
  "strcmp_ref [] [] = 0"
| "strcmp_ref [] (_ # _) = - 1"
| "strcmp_ref (_ # _) [] = 1"
| "strcmp_ref (c # s) (d # t) =
     (if (of_char c :: nat) < of_char d then - 1
      else if (of_char d :: nat) < of_char c then 1 else strcmp_ref s t)"

definition engine_ref :: engine where
  "engine_ref = \<lparr>zend_inline_hash_func = zend_hash_ref, zend_binary_strcmp = strcmp_ref,
     obj_compare = (\<lambda>_ _. 1), obj_hash_value = (\<lambda>_. None)\<rparr>"

abbreviation no_object :: "obj \<Rightarrow> bool" where
  "no_object \<equiv> \<lambda>_. False"

lemma of_char_nat_inj: "(of_char c :: nat) = of_char d \<longleftrightarrow> c = d"
  by simp

lemma strcmp_ref_0: "strcmp_ref s t = 0 \<longleftrightarrow> s = t"
proof (induction s t rule: strcmp_ref.induct)
  case (4 c s d t)
  then show ?case
    using of_char_nat_inj [of c d] by (cases "(of_char c :: nat)" "of_char d :: nat" rule: linorder_cases) auto
qed auto

interpretation engine_ref: engine_lib engine_ref no_object
  by unfold_locales (auto simp: engine_ref_def strcmp_ref_0)

section \<open>Properties\<close>



text \<open>
  \<open>double_compare\<close> is a total order on doubles with NaNs identified: it is the comparison of
  ranks, in which -0 comes just before +0 and NaN after infinity. Two doubles compare equal exactly
  when their canonical bits agree.
\<close>

theorem double_compare_total:
  "double_compare a b = cmp3 (dbl_rank a) (dbl_rank b) \<and>
   (double_compare a b = 0 \<longleftrightarrow> double_to_bits a = double_to_bits b)"
  using double_compare_rank dbl_rank_bits by simp

end
