(* ===== verification/Validate.thy ===== *)
theory Validate
  imports Zval
begin

text \<open>
  \<^verbatim>\<open>ext/util/collections.c\<close>: the check that a value may be an element of a collection of a given type.
\<close>

section \<open>The check\<close>

text \<open>
  \<^verbatim>\<open>INSTANCE_OF\<close>: the value classes are final, so an instance has exactly the class. The remaining
  objects belong to classes outside the driver.
\<close>

definition instance_of :: "zval \<Rightarrow> string \<Rightarrow> bool" where
  "instance_of z c =
     (case z of ZObject (OOther _ _) \<Rightarrow> False | ZObject obj \<Rightarrow> obj_class obj = c | _ \<Rightarrow> False)"

text \<open>The macro \<^verbatim>\<open>EXPECTING_VALUE\<close>, unless the condition holds.\<close>

definition expecting :: "bool \<Rightarrow> bool outcome" where
  "expecting b = (if b then Ok True else Throw InvalidArgumentException)"

text \<open>A nested collection must carry an equal type; if it does not, 0 is returned without an exception.\<close>

definition expecting_typed :: "zval \<Rightarrow> string \<Rightarrow> php_driver_type \<Rightarrow> bool outcome" where
  "expecting_typed z c ty =
     (case z of
        ZObject (OTyped c' ty' _) \<Rightarrow>
          if c' = c then Ok (php_driver_type_compare ty' ty = 0) else Throw InvalidArgumentException
      | _ \<Rightarrow> Throw InvalidArgumentException)"

definition php_driver_validate_object :: "zval \<Rightarrow> php_driver_type \<Rightarrow> bool outcome" where
  "php_driver_validate_object object ty =
     (if z_type object = 1 then Ok True
      else case type_type ty of
        CASS_VARCHAR \<Rightarrow> expecting (z_type object = 6)
      | CASS_TEXT \<Rightarrow> expecting (z_type object = 6)
      | CASS_ASCII \<Rightarrow> expecting (z_type object = 6)
      | CASS_DOUBLE \<Rightarrow> expecting (z_type object = 5)
      | CASS_INT \<Rightarrow> expecting (z_type object = 4)
      | CASS_BOOLEAN \<Rightarrow> expecting (z_type object = 2 \<or> z_type object = 3)
      | CASS_FLOAT \<Rightarrow> expecting (instance_of object ''Float'')
      | CASS_COUNTER \<Rightarrow> expecting (instance_of object ''Bigint'')
      | CASS_BIGINT \<Rightarrow> expecting (instance_of object ''Bigint'')
      | CASS_SMALL_INT \<Rightarrow> expecting (instance_of object ''Smallint'')
      | CASS_TINY_INT \<Rightarrow> expecting (instance_of object ''Tinyint'')
      | CASS_BLOB \<Rightarrow> expecting (instance_of object ''Blob'')
      | CASS_DECIMAL \<Rightarrow> expecting (instance_of object ''Decimal'')
      | CASS_DURATION \<Rightarrow> expecting (instance_of object ''Duration'')
      | CASS_TIMESTAMP \<Rightarrow> expecting (instance_of object ''Timestamp'')
      | CASS_DATE \<Rightarrow> expecting (instance_of object ''Date'')
      | CASS_TIME \<Rightarrow> expecting (instance_of object ''Time'')
      | CASS_UUID \<Rightarrow> expecting (instance_of object ''Uuid'')
      | CASS_VARINT \<Rightarrow> expecting (instance_of object ''Varint'')
      | CASS_TIMEUUID \<Rightarrow> expecting (instance_of object ''Timeuuid'')
      | CASS_INET \<Rightarrow> expecting (instance_of object ''Inet'')
      | CASS_MAP \<Rightarrow> expecting_typed object ''Map'' ty
      | CASS_SET \<Rightarrow> expecting_typed object ''Set'' ty
      | CASS_LIST \<Rightarrow> expecting_typed object ''Collection'' ty
      | CASS_TUPLE \<Rightarrow> expecting_typed object ''Tuple'' ty
      | CASS_UDT \<Rightarrow> expecting_typed object ''UserTypeValue'' ty
      | CASS_CUSTOM \<Rightarrow> Throw InvalidArgumentException)"

lemma validate_defined: "php_driver_validate_object z ty \<noteq> UB"
  by (auto simp: php_driver_validate_object_def expecting_def expecting_typed_def
      split: cass_value_type.splits zval.splits obj.splits)

text \<open>A value accepted by the check is one the hash functions know: not undefined, not an array.\<close>

lemma validate_shape:
  assumes "php_driver_validate_object z ty = Ok True" and "z_type z \<noteq> 1"
  shows "z \<noteq> ZUndef" and "\<And>h. z \<noteq> ZArray h"
  using assms
  by (auto simp: php_driver_validate_object_def expecting_def expecting_typed_def instance_of_def
      split: cass_value_type.splits if_splits)

end
