(* ===== verification/Php_Set.thy ===== *)
theory Php_Set
  imports Hashing Validate
begin

text \<open>
  \<^verbatim>\<open>ext/src/Set.c\<close>: the class \<^verbatim>\<open>Cassandra\Set\<close>. A set object is its value type, its hash table, the cached
  hash and the iterator; \<open>next_addr\<close> is the address that the next \<^verbatim>\<open>emalloc\<close> of an entry returns, so that
  an entry that was freed is one whose address is no longer in the table. Reading such an entry is
  \<open>UB\<close>. The methods are given with the state they leave and the value they return. The elements
  themselves do not change while they are in the set: how two objects compare and what they hash to
  is a fixed function of the engine. The hash that a set object caches is never asked for: its handler
  is not compiled for PHP 8.
\<close>

section \<open>State\<close>

record php_set =
  set_type :: php_driver_type \<comment> \<open>the type of the values\<close>
  set_entries :: "zval ut_table option"
  set_hashv :: "32 word"
  set_dirty :: bool
  iter_curr :: "addr option"
  iter_temp :: "addr option"
  iter_index :: int
  next_addr :: addr

definition php_driver_set_new :: "php_driver_type \<Rightarrow> php_set" where
  "php_driver_set_new ty =
     \<lparr>set_type = ty, set_entries = None, set_hashv = 0, set_dirty = True, iter_curr = None,
      iter_temp = None, iter_index = 0, next_addr = 0\<rparr>"

text \<open>The argument of the constructor: a type name, an instance of \<^verbatim>\<open>Type\<close>, or anything else.\<close>

definition set_construct :: "type_arg \<Rightarrow> php_set outcome" where
  "set_construct type = bind_outcome (php_driver_type_arg type) (\<lambda>ty. Ok (php_driver_set_new ty))"

section \<open>Elements\<close>

definition set_find :: "engine \<Rightarrow> php_set \<Rightarrow> zval \<Rightarrow> addr option outcome" where
  "set_find e self object = find_zval e (set_entries self) object"

text \<open>The new state and the returned flag.\<close>

definition php_driver_set_add :: "engine \<Rightarrow> php_set \<Rightarrow> zval \<Rightarrow> (php_set \<times> bool) outcome" where
  "php_driver_set_add e self object =
     (if z_type object = 1 then Throw InvalidArgumentException
      else bind_outcome (php_driver_validate_object object (set_type self)) (\<lambda>valid.
        if \<not> valid then Ok (self, False)
        else bind_outcome (set_find e self object) (\<lambda>found.
          case found of
            None \<Rightarrow>
              bind_outcome (add_zval e (set_entries self) object (next_addr self)) (\<lambda>entries.
                Ok (self\<lparr>set_dirty := True, set_entries := entries, next_addr := next_addr self + 1\<rparr>, True))
          | Some _ \<Rightarrow> Ok (self, True))))"

text \<open>The \<^verbatim>\<open>hh.next\<close> pointer of an entry; reading it from an entry that was freed is undefined.\<close>

definition set_next_of :: "php_set \<Rightarrow> addr \<Rightarrow> addr option outcome" where
  "set_next_of self a =
     (if a \<in> set (hash_iter (set_entries self)) then Ok (next_in (hash_iter (set_entries self)) a) else UB)"

definition php_driver_set_del :: "engine \<Rightarrow> php_set \<Rightarrow> zval \<Rightarrow> (php_set \<times> bool) outcome" where
  "php_driver_set_del e self object =
     bind_outcome (php_driver_validate_object object (set_type self)) (\<lambda>valid.
       if \<not> valid then Ok (self, False)
       else bind_outcome (set_find e self object) (\<lambda>found.
         case (found, set_entries self) of
           (Some entry, Some t) \<Rightarrow>
             bind_outcome
               (if iter_temp self = Some entry then set_next_of self entry else Ok (iter_temp self)) (\<lambda>temp.
               Ok (self\<lparr>set_dirty := True, iter_temp := temp, set_entries := hash_delete t entry\<rparr>, True))
         | _ \<Rightarrow> Ok (self, False)))"

definition php_driver_set_has :: "engine \<Rightarrow> php_set \<Rightarrow> zval \<Rightarrow> bool outcome" where
  "php_driver_set_has e self object =
     bind_outcome (php_driver_validate_object object (set_type self)) (\<lambda>valid.
       if \<not> valid then Ok False
       else bind_outcome (set_find e self object) (\<lambda>found. Ok (found \<noteq> None)))"

text \<open>\<^verbatim>\<open>php_driver_set_populate\<close>: the array of the values.\<close>

definition set_values :: "php_set \<Rightarrow> zval list" where
  "set_values self = ut_keys (set_entries self)"

definition set_count :: "php_set \<Rightarrow> nat" where
  "set_count self = hash_count (set_entries self)"

section \<open>Iterator\<close>

definition set_current :: "php_set \<Rightarrow> zval outcome" where
  "set_current self =
     (case iter_curr self of
        None \<Rightarrow> Ok ZNull
      | Some a \<Rightarrow> (case key_at (set_entries self) a of Some v \<Rightarrow> Ok v | None \<Rightarrow> UB))"

definition set_key :: "php_set \<Rightarrow> zval" where
  "set_key self = ZLong (word_of_int (iter_index self))"

text \<open>The index is a C \<^verbatim>\<open>int\<close>, whose overflow is undefined.\<close>

definition set_next :: "php_set \<Rightarrow> php_set outcome" where
  "set_next self =
     bind_outcome (case iter_temp self of None \<Rightarrow> Ok None | Some a \<Rightarrow> set_next_of self a) (\<lambda>temp.
       if iter_index self = 2147483647 then UB
       else Ok (self\<lparr>iter_curr := iter_temp self, iter_temp := temp, iter_index := iter_index self + 1\<rparr>))"

definition set_valid :: "php_set \<Rightarrow> bool" where
  "set_valid self \<longleftrightarrow> iter_curr self \<noteq> None"

definition set_rewind :: "php_set \<Rightarrow> php_set" where
  "set_rewind self =
     (case hash_iter (set_entries self) of
        [] \<Rightarrow> self\<lparr>iter_curr := None, iter_temp := None, iter_index := 0\<rparr>
      | a # _ \<Rightarrow> self\<lparr>iter_curr := Some a, iter_temp := next_in (hash_iter (set_entries self)) a, iter_index := 0\<rparr>)"

text \<open>
  The \<^verbatim>\<open>foreach\<close> statement from the current position: the values it sees. Out of fuel is \<open>UB\<close>; the
  number of values plus one is enough.
\<close>

fun set_foreach :: "nat \<Rightarrow> php_set \<Rightarrow> zval list outcome" where
  "set_foreach 0 self = UB"
| "set_foreach (Suc n) self =
     (if \<not> set_valid self then Ok []
      else bind_outcome (set_current self) (\<lambda>v.
             bind_outcome (set_next self) (\<lambda>self'.
               bind_outcome (set_foreach n self') (\<lambda>vs. Ok (v # vs)))))"

section \<open>Comparison\<close>

fun all_found :: "engine \<Rightarrow> php_set \<Rightarrow> zval list \<Rightarrow> bool outcome" where
  "all_found e set2 [] = Ok True"
| "all_found e set2 (v # vs) =
     bind_outcome (set_find e set2 v) (\<lambda>found. if found = None then Ok False else all_found e set2 vs)"

text \<open>Of two objects of the class.\<close>

definition php_driver_set_compare :: "engine \<Rightarrow> php_set \<Rightarrow> php_set \<Rightarrow> int outcome" where
  "php_driver_set_compare e set1 set2 =
     (let result = php_driver_type_compare (TSet (set_type set1)) (TSet (set_type set2))
      in if result \<noteq> 0 then Ok result
         else if set_count set1 \<noteq> set_count set2 then Ok (if set_count set1 < set_count set2 then - 1 else 1)
         else bind_outcome (all_found e set2 (set_values set1)) (\<lambda>found. Ok (if found then 0 else 1)))"

section \<open>Method calls\<close>

datatype set_method =
    SAdd zval | SRemove zval | SHas zval | SValues | SCount | SCurrent | SKey | SNext | SValid | SRewind

definition zbool :: "bool \<Rightarrow> zval" where
  "zbool b = (if b then ZTrue else ZFalse)"

text \<open>The state after a call and the value it returns; an array is returned as a handle.\<close>

fun set_call :: "engine \<Rightarrow> set_method \<Rightarrow> php_set \<Rightarrow> (php_set \<times> zval) outcome" where
  "set_call e (SAdd z) s = bind_outcome (php_driver_set_add e s z) (\<lambda>(s', b). Ok (s', zbool b))"
| "set_call e (SRemove z) s = bind_outcome (php_driver_set_del e s z) (\<lambda>(s', b). Ok (s', zbool b))"
| "set_call e (SHas z) s = bind_outcome (php_driver_set_has e s z) (\<lambda>b. Ok (s, zbool b))"
| "set_call e SValues s = Ok (s, ZArray 0)"
| "set_call e SCount s = Ok (s, ZLong (word_of_nat (set_count s)))"
| "set_call e SCurrent s = bind_outcome (set_current s) (\<lambda>z. Ok (s, z))"
| "set_call e SKey s = Ok (s, set_key s)"
| "set_call e SNext s = bind_outcome (set_next s) (\<lambda>s'. Ok (s', ZNull))"
| "set_call e SValid s = Ok (s, zbool (set_valid s))"
| "set_call e SRewind s = Ok (set_rewind s, ZNull)"

fun set_arg_ok :: "(obj \<Rightarrow> bool) \<Rightarrow> set_method \<Rightarrow> bool" where
  "set_arg_ok obj_ok (SAdd z) = hashable obj_ok z"
| "set_arg_ok obj_ok (SRemove z) = hashable obj_ok z"
| "set_arg_ok obj_ok (SHas z) = hashable obj_ok z"
| "set_arg_ok obj_ok _ = True"

text \<open>
  The states a set object can be in after its construction, whatever methods are called on it in
  whatever order, the constructor apart.
\<close>

inductive set_reach :: "engine \<Rightarrow> (obj \<Rightarrow> bool) \<Rightarrow> php_set \<Rightarrow> bool" for e obj_ok where
  construct: "set_construct type = Ok s \<Longrightarrow> set_reach e obj_ok s"
| call: "set_reach e obj_ok s \<Longrightarrow> set_arg_ok obj_ok m \<Longrightarrow> set_call e m s = Ok (s', r) \<Longrightarrow> set_reach e obj_ok s'"

section \<open>Invariant\<close>

definition set_inv :: "engine \<Rightarrow> (obj \<Rightarrow> bool) \<Rightarrow> php_set \<Rightarrow> bool" where
  "set_inv e obj_ok s \<longleftrightarrow>
     ut_good (hashable obj_ok) (zval_hash e) (php_driver_value_compare e) (set_entries s) \<and>
     (\<forall>a \<in> set (hash_iter (set_entries s)). a < next_addr s) \<and>
     (\<forall>a. iter_temp s = Some a \<longrightarrow> a \<in> set (hash_iter (set_entries s))) \<and>
     (\<forall>v \<in> set (set_values s). z_type v \<noteq> 1 \<and> php_driver_validate_object v (set_type s) = Ok True)"

lemma set_inv_new: "set_inv e obj_ok (php_driver_set_new ty)"
  by (simp add: set_inv_def php_driver_set_new_def ut_good_def head_inv_def ut_keys_def hash_iter_def
      set_values_def)

lemma keys_ok_sorted: "keys_ok ok cmp ks \<Longrightarrow> sorted_wrt (\<lambda>k k'. cmp k k' \<noteq> 0) ks"
  by (induction ks) auto

lemma set_current_UB: "set_current s = UB \<Longrightarrow> set_valid s"
  by (auto simp: set_current_def set_valid_def split: option.splits)

text \<open>Removing an element leaves the others where they are.\<close>

lemma set_del_keys:
  assumes "php_driver_set_del e s z = Ok (s', b)" and "key_at (set_entries s') a = Some w"
  shows "key_at (set_entries s) a = Some w"
proof -
  consider "s' = s" | t x where "set_entries s = Some t" "set_entries s' = hash_delete t x"
    using assms(1) by (cases "set_find e s z"; cases "set_entries s")
      (auto simp: php_driver_set_del_def bind_outcome_Ok_iff split: option.split_asm if_splits)
  then show ?thesis
    using assms(2) by cases (auto simp: key_at_def hash_delete_def Let_def split: if_splits option.splits)
qed

context engine_lib
begin

abbreviation eq_val :: "zval \<Rightarrow> zval \<Rightarrow> bool" where
  "eq_val a b \<equiv> php_driver_value_compare e a b = 0"

abbreviation set_lookup :: "php_set \<Rightarrow> zval \<Rightarrow> addr option" where
  "set_lookup s z \<equiv> hash_find (zval_hash e) (php_driver_value_compare e) (set_entries s) z"

lemma set_find_ok: "hashable obj_ok z \<Longrightarrow> set_find e s z = Ok (set_lookup s z)"
  by (simp add: set_find_def find_zval_ok)

lemma set_find_iff:
  assumes "set_inv e obj_ok s" and "hashable obj_ok z"
  shows "set_lookup s z \<noteq> None \<longleftrightarrow> (\<exists>v \<in> set (set_values s). eq_val v z)"
  using vh.find_cases [of "set_entries s" z] assms by (auto simp: set_inv_def set_values_def)

lemma set_add_fresh:
  assumes inv: "set_inv e obj_ok s" and z: "hashable obj_ok z" and n: "set_lookup s z = None"
    and v: "z_type z \<noteq> 1" "php_driver_validate_object z (set_type s) = Ok True"
  shows "set_inv e obj_ok (s\<lparr>set_dirty := True,
      set_entries := hash_add (zval_hash e) (set_entries s) z (next_addr s),
      next_addr := next_addr s + 1\<rparr>)"
    and "ut_keys (hash_add (zval_hash e) (set_entries s) z (next_addr s)) = set_values s @ [z]"
proof -
  have f: "next_addr s \<notin> set (hash_iter (set_entries s))" using inv by (auto simp: set_inv_def)
  have g: "ut_good (hashable obj_ok) (zval_hash e) (php_driver_value_compare e) (set_entries s)"
    using inv by (simp add: set_inv_def)
  note add = vh.add_good [OF g z _ f]
  show "ut_keys (hash_add (zval_hash e) (set_entries s) z (next_addr s)) = set_values s @ [z]"
    using add(2) n by (simp add: set_values_def)
  show "set_inv e obj_ok (s\<lparr>set_dirty := True,
      set_entries := hash_add (zval_hash e) (set_entries s) z (next_addr s),
      next_addr := next_addr s + 1\<rparr>)"
    using inv add n v by (auto simp: set_inv_def hash_iter_add less_Suc_eq set_values_def)
qed

lemma set_del_found:
  assumes inv: "set_inv e obj_ok s" and z: "hashable obj_ok z"
    and f: "set_lookup s z = Some a" and t: "set_entries s = Some t"
  shows "ut_keys (hash_delete t a) = filter (\<lambda>v. \<not> eq_val v z) (set_values s)"
    and "\<exists>temp. (if iter_temp s = Some a then set_next_of s a else Ok (iter_temp s)) = Ok temp \<and>
      set_inv e obj_ok (s\<lparr>set_dirty := True, iter_temp := temp, set_entries := hash_delete t a\<rparr>)"
proof -
  have g: "ut_good (hashable obj_ok) (zval_hash e) (php_driver_value_compare e) (Some t)"
    and lt: "\<And>x. x \<in> set (order t) \<Longrightarrow> x < next_addr s"
    and tm: "\<And>x. iter_temp s = Some x \<Longrightarrow> x \<in> set (order t)"
    using inv t by (auto simp: set_inv_def hash_iter_def)
  have hf: "hash_find (zval_hash e) (php_driver_value_compare e) (Some t) z = Some a"
    using f t by simp
  note del = vh.delete_good [OF g z hf]
  show "ut_keys (hash_delete t a) = filter (\<lambda>v. \<not> eq_val v z) (set_values s)"
    using del(2) t by (simp add: set_values_def)
  have inv': "head_inv (zval_hash e) (Some t)" using g by (simp add: ut_good_def)
  have a: "a \<in> set (order t)" using vh.find_Some [OF inv' hf] by (simp add: hash_iter_def)
  have d: "distinct (order t)" using inv' by (simp add: head_inv_def ut_inv_def)
  define temp where "temp = (if iter_temp s = Some a then next_in (order t) a else iter_temp s)"
  have "(if iter_temp s = Some a then set_next_of s a else Ok (iter_temp s)) = Ok temp"
    using a t by (simp add: temp_def set_next_of_def hash_iter_def)
  moreover have "\<forall>x. temp = Some x \<longrightarrow> x \<in> set (remove1 a (order t))"
    using d tm next_in_mem [of "order t" a] by (auto simp: temp_def)
  then have "set_inv e obj_ok (s\<lparr>set_dirty := True, iter_temp := temp, set_entries := hash_delete t a\<rparr>)"
    using del lt d inv t by (simp add: set_inv_def hash_iter_delete set_values_def)
  ultimately show "\<exists>temp. (if iter_temp s = Some a then set_next_of s a else Ok (iter_temp s)) = Ok temp \<and>
      set_inv e obj_ok (s\<lparr>set_dirty := True, iter_temp := temp, set_entries := hash_delete t a\<rparr>)"
    by blast
qed

lemma set_next_of_temp:
  assumes "set_inv e obj_ok s"
  shows "(case iter_temp s of None \<Rightarrow> Ok None | Some a \<Rightarrow> set_next_of s a) =
    Ok (Option.bind (iter_temp s) (next_in (hash_iter (set_entries s))))"
  using assms by (auto simp: set_inv_def set_next_of_def split: option.splits)

lemma set_inv_next:
  assumes "set_inv e obj_ok s" and "set_next s = Ok s'"
  shows "set_inv e obj_ok s'"
  using assms set_next_of_temp [OF assms(1)] next_in_mem
  by (fastforce simp: set_next_def set_inv_def set_values_def bind_eq_Some_conv split: if_splits)

lemma set_inv_rewind: "set_inv e obj_ok s \<Longrightarrow> set_inv e obj_ok (set_rewind s)"
proof -
  assume inv: "set_inv e obj_ok s"
  show ?thesis
  proof (cases "hash_iter (set_entries s)")
    case Nil
    then show ?thesis using inv by (simp add: set_rewind_def set_inv_def set_values_def)
  next
    case (Cons a xs)
    then show ?thesis using inv next_in_mem [of "a # xs" a]
      by (auto simp: set_rewind_def set_inv_def set_values_def)
  qed
qed

text \<open>What the three element operations do, on a state of the invariant and a value that passes the check.\<close>

lemma set_add_spec:
  assumes inv: "set_inv e obj_ok s" and z: "hashable obj_ok z" "z_type z \<noteq> 1"
    and v: "php_driver_validate_object z (set_type s) = Ok True"
  shows "\<exists>s'. php_driver_set_add e s z = Ok (s', True) \<and> set_inv e obj_ok s' \<and> set_type s' = set_type s \<and>
    set_values s' = (if \<exists>v \<in> set (set_values s). eq_val v z then set_values s else set_values s @ [z])"
proof (cases "set_lookup s z")
  case None
  show ?thesis using set_add_fresh [OF inv z(1) None z(2) v] set_find_iff [OF inv z(1)] None z v
    by (simp add: php_driver_set_add_def set_find_ok add_zval_ok set_values_def)
next
  case (Some a)
  then show ?thesis using set_find_iff [OF inv z(1)] z v inv by (simp add: php_driver_set_add_def set_find_ok)
qed

lemma set_del_spec:
  assumes inv: "set_inv e obj_ok s" and z: "hashable obj_ok z"
    and v: "php_driver_validate_object z (set_type s) = Ok True"
  shows "\<exists>s'. php_driver_set_del e s z = Ok (s', \<exists>v \<in> set (set_values s). eq_val v z) \<and>
    set_inv e obj_ok s' \<and> set_type s' = set_type s \<and> iter_curr s' = iter_curr s \<and>
    set_values s' = filter (\<lambda>v. \<not> eq_val v z) (set_values s)"
proof (cases "set_lookup s z")
  case None
  have n: "\<forall>v \<in> set (set_values s). \<not> eq_val v z" using set_find_iff [OF inv z] None by auto
  then have "filter (\<lambda>v. \<not> eq_val v z) (set_values s) = set_values s" by (simp add: filter_id_conv)
  then show ?thesis using None n v inv z by (auto simp: php_driver_set_del_def set_find_ok)
next
  case (Some a)
  then obtain t where t: "set_entries s = Some t" by (cases "set_entries s") (auto simp: hash_find_def)
  have m: "\<exists>v \<in> set (set_values s). eq_val v z" using set_find_iff [OF inv z] Some by auto
  obtain temp where temp: "(if iter_temp s = Some a then set_next_of s a else Ok (iter_temp s)) = Ok temp"
    and inv': "set_inv e obj_ok (s\<lparr>set_dirty := True, iter_temp := temp, set_entries := hash_delete t a\<rparr>)"
    using set_del_found(2) [OF inv z Some t] by blast
  have "php_driver_set_del e s z =
      Ok (s\<lparr>set_dirty := True, iter_temp := temp, set_entries := hash_delete t a\<rparr>, True)"
    using v Some t temp set_find_ok [OF z, of s] by (simp add: php_driver_set_del_def)
  then show ?thesis using set_del_found(1) [OF inv z Some t] inv' m by (simp add: set_values_def)
qed

lemma set_has_spec:
  assumes "set_inv e obj_ok s" and "hashable obj_ok z" and "php_driver_validate_object z (set_type s) = Ok True"
  shows "php_driver_set_has e s z = Ok (\<exists>v \<in> set (set_values s). eq_val v z)"
  using set_find_iff [OF assms(1,2)] assms(2,3) by (simp add: php_driver_set_has_def set_find_ok)

text \<open>No method leaves the invariant.\<close>

lemma set_inv_add:
  assumes "set_inv e obj_ok s" and "hashable obj_ok z" and "php_driver_set_add e s z = Ok (s', b)"
  shows "set_inv e obj_ok s'"
  using set_add_spec [OF assms(1,2)] assms(1,3)
  by (cases "z_type z \<noteq> 1 \<and> php_driver_validate_object z (set_type s) = Ok True")
    (auto simp: php_driver_set_add_def bind_outcome_Ok_iff split: if_splits)

lemma set_inv_del:
  assumes "set_inv e obj_ok s" and "hashable obj_ok z" and "php_driver_set_del e s z = Ok (s', b)"
  shows "set_inv e obj_ok s'"
proof (cases "php_driver_validate_object z (set_type s) = Ok True")
  case True
  then show ?thesis using set_del_spec [OF assms(1,2)] assms(3) by auto
next
  case False
  then show ?thesis using assms(1,3) by (auto simp: php_driver_set_del_def bind_outcome_Ok_iff)
qed

lemma set_inv_call:
  assumes "set_inv e obj_ok s" and "set_arg_ok obj_ok m" and "set_call e m s = Ok (s', r)"
  shows "set_inv e obj_ok s'"
  using assms
  by (cases m) (auto simp: bind_outcome_Ok_iff intro: set_inv_add set_inv_del set_inv_next set_inv_rewind
      split: prod.splits)

lemma set_reach_inv: "set_reach e obj_ok s \<Longrightarrow> set_inv e obj_ok s"
proof (induction rule: set_reach.induct)
  case (construct type s)
  then show ?case by (auto simp: set_construct_def bind_outcome_Ok_iff set_inv_new)
next
  case (call s m s' r)
  then show ?case using set_inv_call by blast
qed

text \<open>A \<^verbatim>\<open>foreach\<close> that starts at some element sees the elements from there on.\<close>

lemma set_foreach_suffix:
  assumes "set_inv e obj_ok s" and "hash_iter (set_entries s) = pre @ suf"
    and "iter_curr s = opt_hd suf" and "iter_temp s = opt_hd (tl suf)"
    and "iter_index s + int (length suf) \<le> 2147483647"
  shows "set_foreach (Suc (length suf)) s = Ok (map (\<lambda>a. the (key_at (set_entries s) a)) suf)"
  using assms
proof (induction suf arbitrary: s pre)
  case Nil
  then show ?case by (simp add: set_valid_def)
next
  case (Cons a suf)
  have hi: "head_inv (zval_hash e) (set_entries s)" using Cons.prems(1) by (simp add: set_inv_def ut_good_def)
  have d: "distinct (pre @ a # suf)" using distinct_iter [OF hi] Cons.prems(2) by simp
  obtain v where v: "key_at (set_entries s) a = Some v" using key_at_iter [OF hi] Cons.prems(2) by fastforce
  have temp: "Option.bind (opt_hd suf) (next_in (pre @ a # suf)) = opt_hd (tl suf)"
    using next_in_split [of "pre @ [a]" "hd suf" "tl suf"] d by (cases suf) auto
  define s' where "s' = s\<lparr>iter_curr := opt_hd suf, iter_temp := opt_hd (tl suf), iter_index := iter_index s + 1\<rparr>"
  have n: "set_next s = Ok s'"
    using set_next_of_temp [OF Cons.prems(1)] Cons.prems temp by (simp add: set_next_def s'_def)
  have "set_foreach (Suc (length suf)) s' = Ok (map (\<lambda>a. the (key_at (set_entries s') a)) suf)"
    using Cons.prems by (intro Cons.IH [of s' "pre @ [a]"] set_inv_next [OF Cons.prems(1) n]) (auto simp: s'_def)
  then show ?case using Cons.prems(3) v n by (simp add: set_valid_def set_current_def s'_def)
qed

lemma set_foreach_rewind:
  assumes inv: "set_inv e obj_ok s" and "set_count s \<le> 2147483647"
  shows "set_foreach (Suc (set_count s)) (set_rewind s) = Ok (set_values s)"
proof -
  have hi: "head_inv (zval_hash e) (set_entries s)" using inv by (simp add: set_inv_def ut_good_def)
  let ?xs = "hash_iter (set_entries s)"
  have len: "set_count s = length ?xs" using hash_count_eq [OF hi] ut_keys_at [OF hi] by (simp add: set_count_def)
  have r: "set_rewind s = s\<lparr>iter_curr := opt_hd ?xs, iter_temp := opt_hd (tl ?xs), iter_index := 0\<rparr>"
    using distinct_iter [OF hi] next_in_split [of "[]" "hd ?xs" "tl ?xs"]
    by (cases ?xs) (auto simp: set_rewind_def)
  show ?thesis
    using set_foreach_suffix [OF set_inv_rewind [OF inv], of "[]" ?xs] assms(2) len
    by (simp add: r set_values_def ut_keys_at [OF hi])
qed

text \<open>Only the value of the current element can be read after it was freed.\<close>

lemma set_call_UB:
  assumes inv: "set_inv e obj_ok s" and "set_arg_ok obj_ok m"
  shows "set_call e m s \<noteq> UB \<or> (m = SCurrent \<and> (\<exists>a. iter_curr s = Some a \<and> a \<notin> set (hash_iter (set_entries s)))) \<or>
    (m = SNext \<and> iter_index s = 2147483647)"
proof (cases m)
  case (SAdd z)
  have "php_driver_set_add e s z \<noteq> UB"
    using validate_defined [of z "set_type s"] SAdd assms(2)
    by (cases "php_driver_validate_object z (set_type s)")
      (auto simp: php_driver_set_add_def set_find_ok add_zval_ok split: option.splits)
  then show ?thesis using SAdd by (auto simp: bind_outcome_UB_iff)
next
  case (SRemove z)
  have "php_driver_set_del e s z \<noteq> UB"
  proof (cases "php_driver_validate_object z (set_type s) = Ok True")
    case True
    then show ?thesis using set_del_spec [OF inv] SRemove assms(2) by fastforce
  next
    case False
    then show ?thesis using validate_defined [of z "set_type s"]
      by (cases "php_driver_validate_object z (set_type s)") (auto simp: php_driver_set_del_def)
  qed
  then show ?thesis using SRemove by (auto simp: bind_outcome_UB_iff)
next
  case (SHas z)
  then show ?thesis using validate_defined [of z "set_type s"]
    by (cases "php_driver_validate_object z (set_type s)") (use assms(2) in \<open>auto simp: php_driver_set_has_def set_find_ok\<close>)
next
  case SCurrent
  have "head_inv (zval_hash e) (set_entries s)" using inv by (simp add: set_inv_def ut_good_def)
  then show ?thesis using SCurrent key_at_iter by (fastforce simp: set_current_def bind_outcome_UB_iff split: option.splits)
next
  case SNext
  then show ?thesis using set_next_of_temp [OF inv] by (auto simp: set_next_def)
qed (auto split: prod.splits)

lemma set_current_freed:
  assumes inv: "set_inv e obj_ok s" and vs: "set_values s = v # vs"
  shows "\<exists>s'. php_driver_set_del e (set_rewind s) v = Ok (s', True) \<and> set_current s' = UB"
proof -
  let ?r = "set_rewind s"
  have hi: "head_inv (zval_hash e) (set_entries s)" and ks: "keys_ok (hashable obj_ok) (php_driver_value_compare e) (v # vs)"
    using inv vs by (auto simp: set_inv_def ut_good_def set_values_def)
  obtain a as where it: "hash_iter (set_entries s) = a # as" and ka: "the (key_at (set_entries s) a) = v"
    using vs ut_keys_at [OF hi] by (auto simp: set_values_def map_eq_Cons_conv)
  have ka': "key_at (set_entries s) a = Some v" using key_at_iter [OF hi, of a] it ka by auto
  have r: "set_entries ?r = set_entries s" "set_type ?r = set_type s" "set_values ?r = v # vs" "iter_curr ?r = Some a"
    using it vs by (auto simp: set_rewind_def set_values_def)
  have hv: "hashable obj_ok v" using keys_ok_all [OF ks] by simp
  have v: "php_driver_validate_object v (set_type ?r) = Ok True" using inv vs r by (auto simp: set_inv_def)
  have self: "eq_val v v" using vh.cmp_refl [OF hv] .
  obtain s' where s': "php_driver_set_del e ?r v = Ok (s', True)" "set_inv e obj_ok s'" "iter_curr s' = Some a"
    "set_values s' = filter (\<lambda>x. \<not> eq_val x v) (v # vs)"
    using set_del_spec [OF set_inv_rewind [OF inv] hv v] r self by fastforce
  have "key_at (set_entries s') a = None"
  proof (rule ccontr)
    assume "key_at (set_entries s') a \<noteq> None"
    then obtain w where w: "key_at (set_entries s') a = Some w" by auto
    have hi': "head_inv (zval_hash e) (set_entries s')" using s'(2) by (simp add: set_inv_def ut_good_def)
    have "w \<in> set (set_values s')" using in_ut_keys [OF hi', of w] w by (auto simp: set_values_def)
    then have "\<not> eq_val w v" using s'(4) self by simp
    moreover have "w = v" using set_del_keys [OF s'(1)] w ka' r by simp
    ultimately show False using self by simp
  qed
  then show ?thesis using s' by (auto simp: set_current_def)
qed

lemma all_found_ok:
  "\<forall>v \<in> set vs. hashable obj_ok v \<Longrightarrow> all_found e s vs = Ok (\<forall>v \<in> set vs. set_lookup s v \<noteq> None)"
  by (induction vs) (auto simp: set_find_ok)

text \<open>The one-sided search of the comparison is enough, since the sets have as many elements.\<close>

lemma set_compare_0:
  assumes inv: "set_inv e obj_ok s1" "set_inv e obj_ok s2"
  shows "php_driver_set_compare e s1 s2 = Ok 0 \<longleftrightarrow>
    php_driver_type_compare (TSet (set_type s1)) (TSet (set_type s2)) = 0 \<and>
    (\<forall>v \<in> set (set_values s1). \<exists>w \<in> set (set_values s2). eq_val w v) \<and>
    (\<forall>w \<in> set (set_values s2). \<exists>v \<in> set (set_values s1). eq_val v w)"
proof -
  have good: "ut_good (hashable obj_ok) (zval_hash e) (php_driver_value_compare e) (set_entries s)"
    "keys_ok (hashable obj_ok) (php_driver_value_compare e) (set_values s)"
    "set_count s = length (set_values s)"
    if "set_inv e obj_ok s" for s
    using that hash_count_eq [of "zval_hash e" "set_entries s"]
    by (auto simp: set_inv_def ut_good_def set_values_def set_count_def)
  have all: "all_found e s2 (set_values s1) = Ok (\<forall>v \<in> set (set_values s1). \<exists>w \<in> set (set_values s2). eq_val w v)"
    using set_find_iff [OF inv(2)] keys_ok_all [OF good(2) [OF inv(1)]] by (auto simp: all_found_ok)
  have same: "length (set_values s1) = length (set_values s2) \<longleftrightarrow>
      (\<forall>w \<in> set (set_values s2). \<exists>v \<in> set (set_values s1). eq_val v w)"
    if "\<forall>v \<in> set (set_values s1). \<exists>w \<in> set (set_values s2). eq_val w v"
    using vh.same_length [OF good(2) [OF inv(1)] good(2) [OF inv(2)] that] .
  show ?thesis
    using all same good(3) [OF inv(1)] good(3) [OF inv(2)] unfolding php_driver_set_compare_def Let_def by auto
qed

end

section \<open>Properties\<close>

text \<open>
  The abstract set: a list of values, no two of which compare equal, in insertion order.
\<close>

definition abs_member :: "engine \<Rightarrow> zval list \<Rightarrow> zval \<Rightarrow> bool" where
  "abs_member e vs z \<longleftrightarrow> (\<exists>v \<in> set vs. php_driver_value_compare e v z = 0)"

definition abs_add :: "engine \<Rightarrow> zval list \<Rightarrow> zval \<Rightarrow> zval list" where
  "abs_add e vs z = (if abs_member e vs z then vs else vs @ [z])"

definition abs_remove :: "engine \<Rightarrow> zval list \<Rightarrow> zval \<Rightarrow> zval list" where
  "abs_remove e vs z = filter (\<lambda>v. php_driver_value_compare e v z \<noteq> 0) vs"

text \<open>A small set used by the witnesses: two ints, added in the order given.\<close>

definition set_pair :: "64 word \<Rightarrow> 64 word \<Rightarrow> php_set" where
  "set_pair a b = (case bind_outcome (php_driver_set_add engine_ref (php_driver_set_new (TScalar CASS_INT)) (ZLong a))
       (\<lambda>(s, _). php_driver_set_add engine_ref s (ZLong b)) of
     Ok (s, _) \<Rightarrow> s | _ \<Rightarrow> php_driver_set_new (TScalar CASS_INT))"

lemma set_pair:
  assumes "a \<noteq> b"
  shows "set_reach engine_ref no_object (set_pair a b)" and "set_values (set_pair a b) = [ZLong a, ZLong b]"
    and "set_type (set_pair a b) = TScalar CASS_INT"
proof -
  let ?n = "php_driver_set_new (TScalar CASS_INT)"
  have c: "set_construct (ArgType (TScalar CASS_INT)) = Ok ?n" by (simp add: set_construct_def)
  have r0: "set_reach engine_ref no_object ?n" by (rule set_reach.construct [OF c])
  have v: "php_driver_validate_object (ZLong l) (TScalar CASS_INT) = Ok True" for l
    by (simp add: php_driver_validate_object_def expecting_def)
  have ty: "set_type ?n = TScalar CASS_INT" and v0: "set_values ?n = []"
    by (simp_all add: php_driver_set_new_def set_values_def ut_keys_def)
  obtain s1 where s1: "php_driver_set_add engine_ref ?n (ZLong a) = Ok (s1, True)" "set_type s1 = TScalar CASS_INT"
    "set_values s1 = [ZLong a]"
    using engine_ref.set_add_spec [OF engine_ref.set_reach_inv [OF r0], of "ZLong a"] v ty v0 by auto
  have r1: "set_reach engine_ref no_object s1"
    by (rule set_reach.call [OF r0, of "SAdd (ZLong a)"]) (simp_all add: s1(1))
  have "php_driver_value_compare engine_ref (ZLong a) (ZLong b) \<noteq> 0"
    using assms engine_ref.value_compare_0 [of "ZLong a" "ZLong b"] by simp
  then obtain s2 where s2: "php_driver_set_add engine_ref s1 (ZLong b) = Ok (s2, True)" "set_type s2 = TScalar CASS_INT"
    "set_values s2 = [ZLong a, ZLong b]"
    using engine_ref.set_add_spec [OF engine_ref.set_reach_inv [OF r1], of "ZLong b"] v s1(2,3) by auto
  have eq: "set_pair a b = s2" by (simp add: set_pair_def s1(1) s2(1))
  show "set_reach engine_ref no_object (set_pair a b)" unfolding eq
    by (rule set_reach.call [OF r1, of "SAdd (ZLong b)"]) (simp_all add: s2(1))
  show "set_values (set_pair a b) = [ZLong a, ZLong b]" "set_type (set_pair a b) = TScalar CASS_INT"
    using eq s2 by simp_all
qed

definition set_79 :: php_set where
  "set_79 = set_pair 7 9"

lemma set_79_reach: "set_reach engine_ref no_object set_79" and set_79_values: "set_values set_79 = [ZLong 7, ZLong 9]"
  and set_79_type: "set_type set_79 = TScalar CASS_INT"
  using set_pair [of 7 9] by (simp_all add: set_79_def)

text \<open>
  C1. Refinement. Whatever calls led to the state of a set object, \<^verbatim>\<open>add\<close>, \<^verbatim>\<open>remove\<close>, \<^verbatim>\<open>has\<close> and \<^verbatim>\<open>count\<close> of a value of
  the element type act on the values the set holds as the operations of the abstract set do, and
  return what they would return: \<^verbatim>\<open>add\<close> is idempotent and keeps the order of insertion, \<^verbatim>\<open>remove\<close> reports
  whether the value was there, \<^verbatim>\<open>has\<close> finds exactly the values that are there.
\<close>

theorem set_refines_abstract:
  assumes "engine_lib e obj_ok" and "set_reach e obj_ok s"
    and "hashable obj_ok z" and "z \<noteq> ZNull" and "php_driver_validate_object z (set_type s) = Ok True"
  shows "(\<exists>s'. php_driver_set_add e s z = Ok (s', True) \<and> set_values s' = abs_add e (set_values s) z) \<and>
    (\<exists>s'. php_driver_set_del e s z = Ok (s', abs_member e (set_values s) z) \<and>
       set_values s' = abs_remove e (set_values s) z) \<and>
    php_driver_set_has e s z = Ok (abs_member e (set_values s) z) \<and>
    set_count s = length (set_values s)"
proof -
  note inv = engine_lib.set_reach_inv [OF assms(1,2)]
  have z: "z_type z \<noteq> 1" using assms(4) z_type_null [of z] by simp
  have "set_count s = length (set_values s)"
    using inv hash_count_eq [of "zval_hash e"] by (auto simp: set_inv_def ut_good_def set_count_def set_values_def)
  then show ?thesis
    using engine_lib.set_add_spec [OF assms(1) inv assms(3) z assms(5)]
      engine_lib.set_del_spec [OF assms(1) inv assms(3,5)] engine_lib.set_has_spec [OF assms(1) inv assms(3,5)]
    by (auto simp: abs_add_def abs_remove_def abs_member_def)
qed

theorem set_refines_abstract_witness:
  "\<exists>s'. php_driver_set_del engine_ref set_79 (ZLong 7) = Ok (s', True) \<and> set_values s' = [ZLong 9]"
proof -
  have "php_driver_validate_object (ZLong 7) (set_type set_79) = Ok True"
    by (simp add: set_79_type php_driver_validate_object_def expecting_def)
  then show ?thesis
    using set_refines_abstract [OF engine_ref.engine_lib_axioms set_79_reach, of "ZLong 7"]
    by (simp add: set_79_values abs_member_def abs_remove_def php_driver_value_compare_def)
qed

text \<open>
  C4. In every state a set object can be in, no method reads freed memory or overflows, except
  \<^verbatim>\<open>current\<close> when the current element was removed (the iterator's next pointer, in contrast, never
  dangles) and \<^verbatim>\<open>next\<close> when the index has reached the largest \<^verbatim>\<open>int\<close>. Moreover every value the set holds is a
  non-null value of its element type, and no two of them are equal.
\<close>

theorem set_safety:
  assumes "engine_lib e obj_ok" and "set_reach e obj_ok s" and "set_arg_ok obj_ok m"
  shows "(set_call e m s \<noteq> UB \<or> (m = SCurrent \<and> (\<exists>a. iter_curr s = Some a \<and> a \<notin> set (hash_iter (set_entries s)))) \<or>
      (m = SNext \<and> iter_index s = 2147483647)) \<and>
    (\<forall>v \<in> set (set_values s). v \<noteq> ZNull \<and> php_driver_validate_object v (set_type s) = Ok True) \<and>
    sorted_wrt (\<lambda>v w. php_driver_value_compare e v w \<noteq> 0) (set_values s)"
proof -
  note inv = engine_lib.set_reach_inv [OF assms(1,2)]
  have "\<forall>v \<in> set (set_values s). v \<noteq> ZNull \<and> php_driver_validate_object v (set_type s) = Ok True"
    using inv by (auto simp: set_inv_def)
  moreover have "keys_ok (hashable obj_ok) (php_driver_value_compare e) (set_values s)"
    using inv by (simp add: set_inv_def ut_good_def set_values_def)
  ultimately show ?thesis using engine_lib.set_call_UB [OF assms(1) inv assms(3)] by (simp add: keys_ok_sorted)
qed

theorem set_safety_witness:
  "set_call engine_ref (SRemove (ZLong 7)) set_79 \<noteq> UB"
  using set_safety [OF engine_ref.engine_lib_axioms set_79_reach, of "SRemove (ZLong 7)"] by simp

text \<open>
  A \<^verbatim>\<open>foreach\<close> loop over a set (rewind, then current and next while valid) terminates and sees
  exactly the values of the set, each once, in insertion order.
\<close>

theorem set_iteration:
  assumes "engine_lib e obj_ok" and "set_reach e obj_ok s" and "set_count s \<le> 2147483647"
  shows "set_foreach (Suc (set_count s)) (set_rewind s) = Ok (set_values s)"
  using engine_lib.set_foreach_rewind [OF assms(1) engine_lib.set_reach_inv [OF assms(1,2)] assms(3)] .

theorem set_iteration_witness:
  "set_foreach (Suc 2) (set_rewind set_79) = Ok [ZLong 7, ZLong 9]"
proof -
  have "set_count set_79 = 2"
    using engine_ref.set_reach_inv [OF set_79_reach]
      hash_count_eq [of "zval_hash engine_ref" "set_entries set_79"] set_79_values
    by (simp add: set_inv_def ut_good_def set_count_def set_values_def)
  then show ?thesis
    using set_iteration [OF engine_ref.engine_lib_axioms set_79_reach] set_79_values by (simp del: set_foreach.simps)
qed

text \<open>
  Removing the current element leaves the iterator at the freed entry: in every state of a
  non-empty set, \<^verbatim>\<open>rewind\<close>, then \<^verbatim>\<open>remove\<close> of the first value, then \<^verbatim>\<open>current\<close> reads freed memory.
\<close>

theorem set_remove_current_dangles:
  assumes "engine_lib e obj_ok" and "set_reach e obj_ok s" and "set_values s = v # vs"
  shows "\<exists>s'. php_driver_set_del e (set_rewind s) v = Ok (s', True) \<and> set_valid s' \<and> set_current s' = UB"
  using engine_lib.set_current_freed [OF assms(1) engine_lib.set_reach_inv [OF assms(1,2)] assms(3)]
    set_current_UB by blast

theorem set_remove_current_dangles_witness:
  "\<exists>s'. php_driver_set_del engine_ref (set_rewind set_79) (ZLong 7) = Ok (s', True) \<and> set_current s' = UB"
  using set_remove_current_dangles [OF engine_ref.engine_lib_axioms set_79_reach set_79_values] by blast

text \<open>
  Two set objects compare equal exactly when their types do and each value of one is in the
  other, whatever the insertion orders, although the code searches in one direction only.
\<close>

theorem set_compare_equal:
  assumes "engine_lib e obj_ok" and "set_reach e obj_ok s1" and "set_reach e obj_ok s2"
  shows "php_driver_set_compare e s1 s2 = Ok 0 \<longleftrightarrow>
    php_driver_type_compare (TSet (set_type s1)) (TSet (set_type s2)) = 0 \<and>
    (\<forall>v \<in> set (set_values s1). abs_member e (set_values s2) v) \<and>
    (\<forall>w \<in> set (set_values s2). abs_member e (set_values s1) w)"
  unfolding abs_member_def
  by (rule engine_lib.set_compare_0 [OF assms(1)]) (use assms engine_lib.set_reach_inv in blast)+

theorem set_compare_equal_witness:
  "php_driver_set_compare engine_ref (set_pair 7 9) (set_pair 9 7) = Ok 0"
proof -
  have "php_driver_type_compare (TSet (TScalar CASS_INT)) (TSet (TScalar CASS_INT)) = 0"
    by (simp add: php_driver_type_compare.simps)
  then show ?thesis
    using set_compare_equal [OF engine_ref.engine_lib_axioms set_pair(1) [of 7 9] set_pair(1) [of 9 7]]
    by (simp add: set_pair abs_member_def php_driver_value_compare_def)
qed

end
