(* ===== verification/Php_Map.thy ===== *)
theory Php_Map
  imports Php_Set
begin

text \<open>
  \<^verbatim>\<open>ext/src/Map.c\<close>: the class \<^verbatim>\<open>Cassandra\Map\<close>. The hash table holds the keys; the values are kept per entry.
  As in \<^verbatim>\<open>Set\<close>, an entry that was freed is one whose address is no longer in the table.
\<close>

section \<open>State\<close>

record php_map =
  map_key_type :: php_driver_type
  map_value_type :: php_driver_type
  map_entries :: "zval ut_table option"
  map_vals :: "addr \<Rightarrow> zval option" \<comment> \<open>the \<^verbatim>\<open>value\<close> member of each entry\<close>
  map_hashv :: "32 word"
  map_dirty :: bool
  map_iter_curr :: "addr option"
  map_iter_temp :: "addr option"
  map_next_addr :: addr

definition php_driver_map_new :: "php_driver_type \<Rightarrow> php_driver_type \<Rightarrow> php_map" where
  "php_driver_map_new kt vt =
     \<lparr>map_key_type = kt, map_value_type = vt, map_entries = None, map_vals = (\<lambda>_. None), map_hashv = 0,
      map_dirty = True, map_iter_curr = None, map_iter_temp = None, map_next_addr = 0\<rparr>"

definition map_construct :: "type_arg \<Rightarrow> type_arg \<Rightarrow> php_map outcome" where
  "map_construct key_type value_type =
     bind_outcome (php_driver_type_arg key_type) (\<lambda>kt.
       bind_outcome (php_driver_type_arg value_type) (\<lambda>vt. Ok (php_driver_map_new kt vt)))"

section \<open>Entries\<close>

definition map_find :: "engine \<Rightarrow> php_map \<Rightarrow> zval \<Rightarrow> addr option outcome" where
  "map_find e self zkey = find_zval e (map_entries self) zkey"

text \<open>The hash is marked stale before the entry is looked up.\<close>

definition php_driver_map_set :: "engine \<Rightarrow> php_map \<Rightarrow> zval \<Rightarrow> zval \<Rightarrow> (php_map \<times> bool) outcome" where
  "php_driver_map_set e self zkey zvalue =
     (if z_type zkey = 1 then Throw InvalidArgumentException
      else if z_type zvalue = 1 then Throw InvalidArgumentException
      else
        bind_outcome (php_driver_validate_object zkey (map_key_type self)) (\<lambda>valid_key.
        if \<not> valid_key then Ok (self, False)
        else
          bind_outcome (php_driver_validate_object zvalue (map_value_type self)) (\<lambda>valid_value.
          if \<not> valid_value then Ok (self, False)
          else
            (let self = self\<lparr>map_dirty := True\<rparr>
             in bind_outcome (map_find e self zkey) (\<lambda>found.
                  case found of
                    None \<Rightarrow>
                      bind_outcome (add_zval e (map_entries self) zkey (map_next_addr self)) (\<lambda>entries.
                        Ok (self\<lparr>map_entries := entries, map_vals := (map_vals self)(map_next_addr self \<mapsto> zvalue),
                              map_next_addr := map_next_addr self + 1\<rparr>, True))
                  | Some entry \<Rightarrow> Ok (self\<lparr>map_vals := (map_vals self)(entry \<mapsto> zvalue)\<rparr>, True))))))"

text \<open>The value found, if any; every entry of the table has one.\<close>

definition php_driver_map_get :: "engine \<Rightarrow> php_map \<Rightarrow> zval \<Rightarrow> zval option outcome" where
  "php_driver_map_get e self zkey =
     bind_outcome (php_driver_validate_object zkey (map_key_type self)) (\<lambda>valid.
       if \<not> valid then Ok None
       else bind_outcome (map_find e self zkey) (\<lambda>found.
         case found of
           None \<Rightarrow> Ok None
         | Some entry \<Rightarrow> (case map_vals self entry of Some v \<Rightarrow> Ok (Some v) | None \<Rightarrow> UB)))"

definition map_next_of :: "php_map \<Rightarrow> addr \<Rightarrow> addr option outcome" where
  "map_next_of self a =
     (if a \<in> set (hash_iter (map_entries self)) then Ok (next_in (hash_iter (map_entries self)) a) else UB)"

definition php_driver_map_del :: "engine \<Rightarrow> php_map \<Rightarrow> zval \<Rightarrow> (php_map \<times> bool) outcome" where
  "php_driver_map_del e self zkey =
     bind_outcome (php_driver_validate_object zkey (map_key_type self)) (\<lambda>valid.
       if \<not> valid then Ok (self, False)
       else bind_outcome (map_find e self zkey) (\<lambda>found.
         case (found, map_entries self) of
           (Some entry, Some t) \<Rightarrow>
             bind_outcome
               (if map_iter_temp self = Some entry then map_next_of self entry else Ok (map_iter_temp self)) (\<lambda>temp.
               Ok (self\<lparr>map_dirty := True, map_iter_temp := temp, map_entries := hash_delete t entry,
                     map_vals := (map_vals self)(entry := None)\<rparr>, True))
         | _ \<Rightarrow> Ok (self, False)))"

definition php_driver_map_has :: "engine \<Rightarrow> php_map \<Rightarrow> zval \<Rightarrow> bool outcome" where
  "php_driver_map_has e self zkey =
     bind_outcome (php_driver_validate_object zkey (map_key_type self)) (\<lambda>valid.
       if \<not> valid then Ok False
       else bind_outcome (map_find e self zkey) (\<lambda>found. Ok (found \<noteq> None)))"

text \<open>\<^verbatim>\<open>php_driver_map_populate_keys\<close> and \<^verbatim>\<open>php_driver_map_populate_values\<close>: the elements of the arrays.\<close>

definition map_keys :: "php_map \<Rightarrow> zval list" where
  "map_keys self = ut_keys (map_entries self)"

definition map_values :: "php_map \<Rightarrow> zval list" where
  "map_values self = map (\<lambda>a. the (map_vals self a)) (hash_iter (map_entries self))"

definition map_count :: "php_map \<Rightarrow> nat" where
  "map_count self = hash_count (map_entries self)"

section \<open>Iterator\<close>

definition map_current :: "php_map \<Rightarrow> zval outcome" where
  "map_current self =
     (case map_iter_curr self of
        None \<Rightarrow> Ok ZNull
      | Some a \<Rightarrow> (case map_vals self a of Some v \<Rightarrow> Ok v | None \<Rightarrow> UB))"

definition map_key :: "php_map \<Rightarrow> zval outcome" where
  "map_key self =
     (case map_iter_curr self of
        None \<Rightarrow> Ok ZNull
      | Some a \<Rightarrow> (case key_at (map_entries self) a of Some v \<Rightarrow> Ok v | None \<Rightarrow> UB))"

definition map_next :: "php_map \<Rightarrow> php_map outcome" where
  "map_next self =
     bind_outcome (case map_iter_temp self of None \<Rightarrow> Ok None | Some a \<Rightarrow> map_next_of self a) (\<lambda>temp.
       Ok (self\<lparr>map_iter_curr := map_iter_temp self, map_iter_temp := temp\<rparr>))"

definition map_valid :: "php_map \<Rightarrow> bool" where
  "map_valid self \<longleftrightarrow> map_iter_curr self \<noteq> None"

definition map_rewind :: "php_map \<Rightarrow> php_map" where
  "map_rewind self =
     (case hash_iter (map_entries self) of
        [] \<Rightarrow> self\<lparr>map_iter_curr := None, map_iter_temp := None\<rparr>
      | a # _ \<Rightarrow> self\<lparr>map_iter_curr := Some a, map_iter_temp := next_in (hash_iter (map_entries self)) a\<rparr>)"

text \<open>A \<^verbatim>\<open>foreach\<close> loop with key and value, from the current position; out of fuel is \<open>UB\<close>.\<close>

fun map_foreach :: "nat \<Rightarrow> php_map \<Rightarrow> (zval \<times> zval) list outcome" where
  "map_foreach 0 self = UB"
| "map_foreach (Suc n) self =
     (if \<not> map_valid self then Ok []
      else bind_outcome (map_current self) (\<lambda>v.
             bind_outcome (map_key self) (\<lambda>k.
               bind_outcome (map_next self) (\<lambda>self'.
                 bind_outcome (map_foreach n self') (\<lambda>kvs. Ok ((k, v) # kvs))))))"

definition map_items :: "php_map \<Rightarrow> (zval \<times> zval) list" where
  "map_items self = map (\<lambda>a. (the (key_at (map_entries self) a), the (map_vals self a))) (hash_iter (map_entries self))"

definition map_type :: "php_map \<Rightarrow> php_driver_type" where
  "map_type self = TMap (map_key_type self) (map_value_type self)"

section \<open>Method calls\<close>

text \<open>The methods of \<^verbatim>\<open>ArrayAccess\<close> call the same functions and drop their results.\<close>

datatype map_method =
    MSet zval zval | MGet zval | MRemove zval | MHas zval | MKeys | MValues | MCount
  | MCurrent | MKey | MNext | MValid | MRewind
  | MOffsetSet zval zval | MOffsetGet zval | MOffsetUnset zval | MOffsetExists zval

definition zopt :: "zval option \<Rightarrow> zval" where
  "zopt v = (case v of Some z \<Rightarrow> z | None \<Rightarrow> ZNull)"

fun map_call :: "engine \<Rightarrow> map_method \<Rightarrow> php_map \<Rightarrow> (php_map \<times> zval) outcome" where
  "map_call e (MSet k v) s = bind_outcome (php_driver_map_set e s k v) (\<lambda>(s', b). Ok (s', zbool b))"
| "map_call e (MGet k) s = bind_outcome (php_driver_map_get e s k) (\<lambda>v. Ok (s, zopt v))"
| "map_call e (MRemove k) s = bind_outcome (php_driver_map_del e s k) (\<lambda>(s', b). Ok (s', zbool b))"
| "map_call e (MHas k) s = bind_outcome (php_driver_map_has e s k) (\<lambda>b. Ok (s, zbool b))"
| "map_call e MKeys s = Ok (s, ZArray 0)"
| "map_call e MValues s = Ok (s, ZArray 0)"
| "map_call e MCount s = Ok (s, ZLong (word_of_nat (map_count s)))"
| "map_call e MCurrent s = bind_outcome (map_current s) (\<lambda>z. Ok (s, z))"
| "map_call e MKey s = bind_outcome (map_key s) (\<lambda>z. Ok (s, z))"
| "map_call e MNext s = bind_outcome (map_next s) (\<lambda>s'. Ok (s', ZNull))"
| "map_call e MValid s = Ok (s, zbool (map_valid s))"
| "map_call e MRewind s = Ok (map_rewind s, ZNull)"
| "map_call e (MOffsetSet k v) s = bind_outcome (php_driver_map_set e s k v) (\<lambda>(s', b). Ok (s', ZNull))"
| "map_call e (MOffsetGet k) s = bind_outcome (php_driver_map_get e s k) (\<lambda>v. Ok (s, zopt v))"
| "map_call e (MOffsetUnset k) s = bind_outcome (php_driver_map_del e s k) (\<lambda>(s', b). Ok (s', ZNull))"
| "map_call e (MOffsetExists k) s = bind_outcome (php_driver_map_has e s k) (\<lambda>b. Ok (s, zbool b))"

fun map_arg_ok :: "(obj \<Rightarrow> bool) \<Rightarrow> map_method \<Rightarrow> bool" where
  "map_arg_ok obj_ok (MSet k v) = hashable obj_ok k"
| "map_arg_ok obj_ok (MOffsetSet k v) = hashable obj_ok k"
| "map_arg_ok obj_ok (MGet k) = hashable obj_ok k"
| "map_arg_ok obj_ok (MRemove k) = hashable obj_ok k"
| "map_arg_ok obj_ok (MHas k) = hashable obj_ok k"
| "map_arg_ok obj_ok (MOffsetGet k) = hashable obj_ok k"
| "map_arg_ok obj_ok (MOffsetUnset k) = hashable obj_ok k"
| "map_arg_ok obj_ok (MOffsetExists k) = hashable obj_ok k"
| "map_arg_ok obj_ok _ = True"

inductive map_reach :: "engine \<Rightarrow> (obj \<Rightarrow> bool) \<Rightarrow> php_map \<Rightarrow> bool" for e obj_ok where
  construct: "map_construct kt vt = Ok s \<Longrightarrow> map_reach e obj_ok s"
| call: "map_reach e obj_ok s \<Longrightarrow> map_arg_ok obj_ok m \<Longrightarrow> map_call e m s = Ok (s', r) \<Longrightarrow> map_reach e obj_ok s'"

section \<open>Invariant\<close>

definition map_inv :: "engine \<Rightarrow> (obj \<Rightarrow> bool) \<Rightarrow> php_map \<Rightarrow> bool" where
  "map_inv e obj_ok s \<longleftrightarrow>
     ut_good (hashable obj_ok) (zval_hash e) (php_driver_value_compare e) (map_entries s) \<and>
     (\<forall>a. map_vals s a \<noteq> None \<longleftrightarrow> a \<in> set (hash_iter (map_entries s))) \<and>
     (\<forall>a \<in> set (hash_iter (map_entries s)). a < map_next_addr s) \<and>
     (\<forall>a. map_iter_temp s = Some a \<longrightarrow> a \<in> set (hash_iter (map_entries s))) \<and>
     (\<forall>(k, v) \<in> set (map_items s). z_type k \<noteq> 1 \<and> z_type v \<noteq> 1 \<and>
        php_driver_validate_object k (map_key_type s) = Ok True \<and>
        php_driver_validate_object v (map_value_type s) = Ok True)"

lemma map_inv_new: "map_inv e obj_ok (php_driver_map_new kt vt)"
  by (simp add: map_inv_def php_driver_map_new_def ut_good_def head_inv_def ut_keys_def hash_iter_def map_items_def)

lemma map_keys_items: "map_inv e obj_ok s \<Longrightarrow> map_keys s = map fst (map_items s)"
  using ut_keys_at [of "zval_hash e" "map_entries s"]
  by (auto simp: map_inv_def ut_good_def map_keys_def map_items_def)

lemma map_values_items: "map_values s = map snd (map_items s)"
  by (simp add: map_values_def map_items_def)

lemma map_count_items: "map_inv e obj_ok s \<Longrightarrow> map_count s = length (map_items s)"
  using hash_count_eq [of "zval_hash e" "map_entries s"] map_keys_items [of e obj_ok s]
  by (auto simp: map_inv_def ut_good_def map_count_def map_keys_def)

section \<open>The abstract map\<close>

text \<open>A list of keys, no two of which compare equal, with their values, in the order of insertion of the keys.\<close>

definition abs_get :: "engine \<Rightarrow> (zval \<times> zval) list \<Rightarrow> zval \<Rightarrow> zval option" where
  "abs_get e kvs k = map_option snd (find (\<lambda>(k', v). php_driver_value_compare e k' k = 0) kvs)"

definition abs_has :: "engine \<Rightarrow> (zval \<times> zval) list \<Rightarrow> zval \<Rightarrow> bool" where
  "abs_has e kvs k \<longleftrightarrow> abs_get e kvs k \<noteq> None"

definition abs_put :: "engine \<Rightarrow> (zval \<times> zval) list \<Rightarrow> zval \<Rightarrow> zval \<Rightarrow> (zval \<times> zval) list" where
  "abs_put e kvs k v =
     (if abs_has e kvs k
      then map (\<lambda>(k', v'). (k', if php_driver_value_compare e k' k = 0 then v else v')) kvs
      else kvs @ [(k, v)])"

definition abs_drop :: "engine \<Rightarrow> (zval \<times> zval) list \<Rightarrow> zval \<Rightarrow> (zval \<times> zval) list" where
  "abs_drop e kvs k = filter (\<lambda>(k', v). php_driver_value_compare e k' k \<noteq> 0) kvs"

lemma find_only:
  assumes "a \<in> set xs" and "\<And>x. x \<in> set xs \<Longrightarrow> P (f x) \<longleftrightarrow> x = a"
  shows "find P (map f xs) = Some (f a)"
  using assms by (induction xs) auto

context engine_lib
begin

abbreviation map_lookup :: "php_map \<Rightarrow> zval \<Rightarrow> addr option" where
  "map_lookup s k \<equiv> hash_find (zval_hash e) (php_driver_value_compare e) (map_entries s) k"

lemma map_find_ok: "hashable obj_ok k \<Longrightarrow> map_find e s k = Ok (map_lookup s k)"
  by (simp add: map_find_def find_zval_ok)

lemma map_find_None:
  assumes inv: "map_inv e obj_ok s" and k: "hashable obj_ok k" and f: "map_lookup s k = None"
  shows "abs_get e (map_items s) k = None" and "\<forall>(k', v) \<in> set (map_items s). \<not> eq_val k' k"
proof -
  have g: "ut_good (hashable obj_ok) (zval_hash e) (php_driver_value_compare e) (map_entries s)"
    using inv by (simp add: map_inv_def)
  have "\<forall>k' \<in> set (map_keys s). \<not> eq_val k' k"
    using vh.find_cases [OF g k] f by (auto simp: map_keys_def)
  then show "\<forall>(k', v) \<in> set (map_items s). \<not> eq_val k' k" using map_keys_items [OF inv] by fastforce
  then show "abs_get e (map_items s) k = None" by (auto simp: abs_get_def find_None_iff)
qed

lemma map_find_Some:
  assumes inv: "map_inv e obj_ok s" and k: "hashable obj_ok k" and f: "map_lookup s k = Some a"
  shows "a \<in> set (hash_iter (map_entries s))"
    and "\<And>x. x \<in> set (hash_iter (map_entries s)) \<Longrightarrow> eq_val (the (key_at (map_entries s) x)) k \<longleftrightarrow> x = a"
    and "abs_get e (map_items s) k = map_vals s a" and "map_vals s a \<noteq> None"
proof -
  have g: "ut_good (hashable obj_ok) (zval_hash e) (php_driver_value_compare e) (map_entries s)"
    using inv by (simp add: map_inv_def)
  have hf: "hash_find (zval_hash e) (php_driver_value_compare e) (map_entries s) k = Some a"
    using f by simp
  have hi: "head_inv (zval_hash e) (map_entries s)" using g by (simp add: ut_good_def)
  show a: "a \<in> set (hash_iter (map_entries s))" using vh.find_Some [OF hi hf] by simp
  show u: "eq_val (the (key_at (map_entries s) x)) k \<longleftrightarrow> x = a" if "x \<in> set (hash_iter (map_entries s))" for x
    using vh.find_unique [OF g k hf that] .
  show v: "map_vals s a \<noteq> None" using inv a by (simp add: map_inv_def)
  show "abs_get e (map_items s) k = map_vals s a"
    unfolding abs_get_def map_items_def
    by (subst find_only [of a]) (use a u v in auto)
qed

lemma map_set_fresh:
  assumes inv: "map_inv e obj_ok s" and k: "hashable obj_ok k" and f: "map_lookup s k = None"
    and v: "z_type k \<noteq> 1" "z_type v \<noteq> 1"
      "php_driver_validate_object k (map_key_type s) = Ok True"
      "php_driver_validate_object v (map_value_type s) = Ok True"
    and s': "s' = s\<lparr>map_dirty := True,
      map_entries := hash_add (zval_hash e) (map_entries s) k (map_next_addr s),
      map_vals := (map_vals s)(map_next_addr s \<mapsto> v), map_next_addr := map_next_addr s + 1\<rparr>"
  shows "map_items s' = map_items s @ [(k, v)]" and "map_inv e obj_ok s'"
proof -
  let ?n = "map_next_addr s"
  have g: "ut_good (hashable obj_ok) (zval_hash e) (php_driver_value_compare e) (map_entries s)"
    and n: "?n \<notin> set (hash_iter (map_entries s))"
    using inv by (auto simp: map_inv_def)
  have hf: "hash_find (zval_hash e) (php_driver_value_compare e) (map_entries s) k = None"
    using f by simp
  show it: "map_items s' = map_items s @ [(k, v)]"
    using n by (auto simp: map_items_def s' hash_iter_add key_at_add)
  have vals: "map_vals s a \<noteq> None \<longleftrightarrow> a \<in> set (hash_iter (map_entries s))" for a
    using inv by (simp add: map_inv_def)
  show "map_inv e obj_ok s'"
    unfolding map_inv_def it
    using vh.add_good(1) [OF g k hf n] inv v vals by (auto simp: s' hash_iter_add map_inv_def less_Suc_eq)
qed

lemma map_set_found:
  assumes inv: "map_inv e obj_ok s" and k: "hashable obj_ok k" and f: "map_lookup s k = Some a"
    and v: "z_type v \<noteq> 1" "php_driver_validate_object v (map_value_type s) = Ok True"
    and s': "s' = s\<lparr>map_dirty := True, map_vals := (map_vals s)(a \<mapsto> v)\<rparr>"
  shows "map_items s' = map (\<lambda>(k', v'). (k', if eq_val k' k then v else v')) (map_items s)"
    and "map_inv e obj_ok s'"
proof -
  note a = map_find_Some [OF inv k f]
  show it: "map_items s' = map (\<lambda>(k', v'). (k', if eq_val k' k then v else v')) (map_items s)"
    using a(2) by (auto simp: map_items_def s')
  show "map_inv e obj_ok s'"
    unfolding map_inv_def it using inv v a(1) by (auto simp: s' map_inv_def split: if_splits)
qed

lemma map_del_found:
  assumes inv: "map_inv e obj_ok s" and k: "hashable obj_ok k" and f: "map_lookup s k = Some a"
    and t: "map_entries s = Some t"
  shows "\<exists>temp. (if map_iter_temp s = Some a then map_next_of s a else Ok (map_iter_temp s)) = Ok temp \<and>
    (let s' = s\<lparr>map_dirty := True, map_iter_temp := temp, map_entries := hash_delete t a,
        map_vals := (map_vals s)(a := None)\<rparr>
     in map_items s' = abs_drop e (map_items s) k \<and> map_inv e obj_ok s')"
proof -
  have g: "ut_good (hashable obj_ok) (zval_hash e) (php_driver_value_compare e) (Some t)"
    and lt: "\<And>x. x \<in> set (order t) \<Longrightarrow> x < map_next_addr s"
    and vals: "\<And>x. map_vals s x \<noteq> None \<longleftrightarrow> x \<in> set (order t)"
    and tm: "\<And>x. map_iter_temp s = Some x \<Longrightarrow> x \<in> set (order t)"
    using inv t by (auto simp: map_inv_def hash_iter_def)
  have hf: "hash_find (zval_hash e) (php_driver_value_compare e) (Some t) k = Some a"
    using f t by simp
  have hi: "head_inv (zval_hash e) (Some t)" using g by (simp add: ut_good_def)
  have d: "distinct (order t)" using hi by (simp add: head_inv_def ut_inv_def)
  have a: "a \<in> set (order t)" using map_find_Some(1) [OF inv k f] t by (simp add: hash_iter_def)
  define temp where "temp = (if map_iter_temp s = Some a then next_in (order t) a else map_iter_temp s)"
  define s' where "s' = s\<lparr>map_dirty := True, map_iter_temp := temp, map_entries := hash_delete t a,
      map_vals := (map_vals s)(a := None)\<rparr>"
  have tempOk: "(if map_iter_temp s = Some a then map_next_of s a else Ok (map_iter_temp s)) = Ok temp"
    using a t by (simp add: temp_def map_next_of_def hash_iter_def)
  have rest: "remove1 a (order t) = filter (\<lambda>x. \<not> eq_val (the (key_at (Some t) x)) k) (order t)"
  proof -
    have "remove1 a (order t) = filter (\<lambda>x. x \<noteq> a) (order t)"
      using d by (simp add: distinct_remove1_removeAll removeAll_filter_not_eq eq_commute)
    also have "\<dots> = filter (\<lambda>x. \<not> eq_val (the (key_at (Some t) x)) k) (order t)"
      using map_find_Some(2) [OF inv k f] t by (intro filter_cong) (auto simp: hash_iter_def)
    finally show ?thesis .
  qed
  have "map_items s' = map (\<lambda>x. (the (key_at (Some t) x), the (map_vals s x))) (remove1 a (order t))"
    using d by (auto simp: map_items_def s'_def hash_iter_delete key_at_delete [OF hi])
  also have "\<dots> = abs_drop e (map_items s) k"
    unfolding rest by (simp add: abs_drop_def map_items_def t hash_iter_def filter_map comp_def)
  finally have it: "map_items s' = abs_drop e (map_items s) k" .
  have "\<forall>x. temp = Some x \<longrightarrow> x \<in> set (remove1 a (order t))"
    using d tm next_in_mem [of "order t" a] by (auto simp: temp_def)
  moreover have "\<forall>x. map_vals s' x \<noteq> None \<longleftrightarrow> x \<in> set (remove1 a (order t))"
    using vals d by (auto simp: s'_def)
  moreover have "set (map_items s') \<subseteq> set (map_items s)" unfolding it by (auto simp: abs_drop_def)
  ultimately have "map_inv e obj_ok s'"
    using vh.delete_good(1) [OF g k hf] lt d inv
    unfolding map_inv_def by (auto simp: s'_def hash_iter_delete)
  then show ?thesis using tempOk it unfolding s'_def Let_def by blast
qed

text \<open>What the operations on entries do, on a state of the invariant and values that pass the checks.\<close>

lemma map_set_spec:
  assumes inv: "map_inv e obj_ok s" and k: "hashable obj_ok k" "z_type k \<noteq> 1"
      "php_driver_validate_object k (map_key_type s) = Ok True"
    and v: "z_type v \<noteq> 1" "php_driver_validate_object v (map_value_type s) = Ok True"
  shows "\<exists>s'. php_driver_map_set e s k v = Ok (s', True) \<and> map_inv e obj_ok s' \<and>
    map_key_type s' = map_key_type s \<and> map_value_type s' = map_value_type s \<and>
    map_items s' = abs_put e (map_items s) k v"
proof (cases "map_lookup s k")
  case None
  have f: "map_lookup (s\<lparr>map_dirty := True\<rparr>) k = None" using None by simp
  show ?thesis
    using map_set_fresh [OF inv k(1) None k(2) v(1) k(3) v(2) refl] map_find_None(1) [OF inv k(1) None] f k v
    by (simp add: php_driver_map_set_def abs_put_def abs_has_def map_find_ok add_zval_ok)
next
  case (Some a)
  have f: "map_lookup (s\<lparr>map_dirty := True\<rparr>) k = Some a" using Some by simp
  show ?thesis
    using map_set_found [OF inv k(1) Some v refl] map_find_Some(3,4) [OF inv k(1) Some] f k v
    by (simp add: php_driver_map_set_def abs_put_def abs_has_def map_find_ok)
qed

lemma map_get_spec:
  assumes inv: "map_inv e obj_ok s" and k: "hashable obj_ok k" "php_driver_validate_object k (map_key_type s) = Ok True"
  shows "php_driver_map_get e s k = Ok (abs_get e (map_items s) k)"
    and "php_driver_map_has e s k = Ok (abs_has e (map_items s) k)"
  using map_find_None(1) [OF inv k(1)] map_find_Some(3,4) [OF inv k(1)] k
  by (cases "map_lookup s k"; auto simp: map_find_ok php_driver_map_get_def php_driver_map_has_def abs_has_def split: option.splits)+

lemma map_del_spec:
  assumes inv: "map_inv e obj_ok s" and k: "hashable obj_ok k" "php_driver_validate_object k (map_key_type s) = Ok True"
  shows "\<exists>s'. php_driver_map_del e s k = Ok (s', abs_has e (map_items s) k) \<and> map_inv e obj_ok s' \<and>
    map_key_type s' = map_key_type s \<and> map_value_type s' = map_value_type s \<and>
    map_iter_curr s' = map_iter_curr s \<and> map_items s' = abs_drop e (map_items s) k"
proof (cases "map_lookup s k")
  case None
  note n = map_find_None [OF inv k(1) None]
  have "abs_drop e (map_items s) k = map_items s" using n(2) by (auto simp: abs_drop_def filter_id_conv)
  then show ?thesis using None n(1) k inv by (simp add: php_driver_map_del_def abs_has_def map_find_ok)
next
  case (Some a)
  then obtain t where t: "map_entries s = Some t" by (cases "map_entries s") (auto simp: hash_find_def)
  obtain temp where temp: "(if map_iter_temp s = Some a then map_next_of s a else Ok (map_iter_temp s)) = Ok temp"
    and r: "map_items (s\<lparr>map_dirty := True, map_iter_temp := temp, map_entries := hash_delete t a,
        map_vals := (map_vals s)(a := None)\<rparr>) = abs_drop e (map_items s) k"
      "map_inv e obj_ok (s\<lparr>map_dirty := True, map_iter_temp := temp, map_entries := hash_delete t a,
        map_vals := (map_vals s)(a := None)\<rparr>)"
    using map_del_found [OF inv k(1) Some t] unfolding Let_def by blast
  have "php_driver_map_del e s k = Ok (s\<lparr>map_dirty := True, map_iter_temp := temp, map_entries := hash_delete t a,
        map_vals := (map_vals s)(a := None)\<rparr>, True)"
    using k(2) Some t temp map_find_ok [OF k(1), of s] by (simp add: php_driver_map_del_def)
  then show ?thesis using r map_find_Some(3,4) [OF inv k(1) Some] by (simp add: abs_has_def)
qed

text \<open>No method leaves the invariant.\<close>

lemma map_inv_set:
  assumes "map_inv e obj_ok s" and "hashable obj_ok k" and r: "php_driver_map_set e s k v = Ok (s', b)"
  shows "map_inv e obj_ok s'"
proof (cases "z_type k \<noteq> 1 \<and> z_type v \<noteq> 1 \<and> php_driver_validate_object k (map_key_type s) = Ok True \<and>
    php_driver_validate_object v (map_value_type s) = Ok True")
  case True
  then show ?thesis using map_set_spec [OF assms(1), of k v] assms by auto
next
  case False
  then have "s' = s" using r
    by (auto simp: php_driver_map_set_def bind_outcome_Ok_iff split: if_splits)
  then show ?thesis using assms(1) by simp
qed

lemma map_inv_del:
  assumes "map_inv e obj_ok s" and "hashable obj_ok k" and r: "php_driver_map_del e s k = Ok (s', b)"
  shows "map_inv e obj_ok s'"
proof (cases "php_driver_validate_object k (map_key_type s) = Ok True")
  case True
  then show ?thesis using map_del_spec [OF assms(1,2)] r by auto
next
  case False
  then show ?thesis using assms(1) r by (auto simp: php_driver_map_del_def bind_outcome_Ok_iff)
qed

lemma map_next_of_temp:
  assumes "map_inv e obj_ok s"
  shows "(case map_iter_temp s of None \<Rightarrow> Ok None | Some a \<Rightarrow> map_next_of s a) =
    Ok (Option.bind (map_iter_temp s) (next_in (hash_iter (map_entries s))))"
  using assms by (auto simp: map_inv_def map_next_of_def split: option.splits)

lemma map_inv_iter:
  assumes "map_inv e obj_ok s" and "\<And>a. temp = Some a \<Longrightarrow> a \<in> set (hash_iter (map_entries s))"
  shows "map_inv e obj_ok (s\<lparr>map_iter_curr := cur, map_iter_temp := temp\<rparr>)"
  using assms by (auto simp: map_inv_def map_items_def)

lemma map_inv_next:
  assumes "map_inv e obj_ok s" and "map_next s = Ok s'"
  shows "map_inv e obj_ok s'"
proof -
  have "s' = s\<lparr>map_iter_curr := map_iter_temp s,
      map_iter_temp := Option.bind (map_iter_temp s) (next_in (hash_iter (map_entries s)))\<rparr>"
    using assms(2) map_next_of_temp [OF assms(1)] by (simp add: map_next_def)
  moreover have "a \<in> set (hash_iter (map_entries s))"
    if "Option.bind (map_iter_temp s) (next_in (hash_iter (map_entries s))) = Some a" for a
    using that next_in_mem by (auto simp: bind_eq_Some_conv)
  ultimately show ?thesis using map_inv_iter [OF assms(1)] by simp
qed

lemma map_inv_rewind: "map_inv e obj_ok s \<Longrightarrow> map_inv e obj_ok (map_rewind s)"
  using map_inv_iter [of s None None] map_inv_iter [of s "next_in (hash_iter (map_entries s)) a" "Some a" for a]
    next_in_mem [of "hash_iter (map_entries s)"]
  by (cases "hash_iter (map_entries s)") (force simp: map_rewind_def)+

lemma map_inv_call:
  assumes "map_inv e obj_ok s" and "map_arg_ok obj_ok m" and "map_call e m s = Ok (s', r)"
  shows "map_inv e obj_ok s'"
  using assms
  by (cases m) (auto simp: bind_outcome_Ok_iff intro: map_inv_set map_inv_del map_inv_next map_inv_rewind
      split: prod.splits)

lemma map_reach_inv: "map_reach e obj_ok s \<Longrightarrow> map_inv e obj_ok s"
proof (induction rule: map_reach.induct)
  case (construct kt vt s)
  then show ?case by (auto simp: map_construct_def bind_outcome_Ok_iff map_inv_new)
next
  case (call s m s' r)
  then show ?case using map_inv_call by blast
qed

lemma map_call_UB:
  assumes inv: "map_inv e obj_ok s" and ok: "map_arg_ok obj_ok m"
  shows "map_call e m s \<noteq> UB \<or>
    (m \<in> {MCurrent, MKey} \<and> (\<exists>a. map_iter_curr s = Some a \<and> a \<notin> set (hash_iter (map_entries s))))"
proof -
  have set: "php_driver_map_set e s k v \<noteq> UB" if "hashable obj_ok k" for k v
    using validate_defined [of k "map_key_type s"] validate_defined [of v "map_value_type s"]
    by (auto simp: php_driver_map_set_def bind_outcome_UB_iff Let_def map_find_ok [OF that] add_zval_ok [OF that] split: option.splits if_splits)
  have key: "php_driver_map_get e s k \<noteq> UB \<and> php_driver_map_del e s k \<noteq> UB \<and> php_driver_map_has e s k \<noteq> UB"
    if k: "hashable obj_ok k" for k
  proof (cases "php_driver_validate_object k (map_key_type s) = Ok True")
    case True
    then show ?thesis using map_get_spec [OF inv k] map_del_spec [OF inv k] by auto
  next
    case False
    then have "php_driver_validate_object k (map_key_type s) = Ok False \<or>
        (\<exists>x. php_driver_validate_object k (map_key_type s) = Throw x)"
      using validate_defined [of k "map_key_type s"] by (cases "php_driver_validate_object k (map_key_type s)") auto
    then show ?thesis by (auto simp: php_driver_map_get_def php_driver_map_del_def php_driver_map_has_def)
  qed
  have nxt: "map_next s \<noteq> UB" using map_next_of_temp [OF inv] by (simp add: map_next_def)
  have hi: "head_inv (zval_hash e) (map_entries s)" using inv by (simp add: map_inv_def ut_good_def)
  have vals: "map_vals s a \<noteq> None \<longleftrightarrow> a \<in> set (hash_iter (map_entries s))" for a using inv by (simp add: map_inv_def)
  have cur: "\<exists>a. map_iter_curr s = Some a \<and> a \<notin> set (hash_iter (map_entries s))"
    if ub: "map_current s = UB \<or> map_key s = UB"
  proof -
    obtain a where "map_iter_curr s = Some a" "map_vals s a = None \<or> key_at (map_entries s) a = None"
      using ub by (cases "map_iter_curr s") (auto simp: map_current_def map_key_def split: option.splits)
    then show ?thesis using vals [of a] key_at_iter [OF hi, of a] by auto
  qed
  have "(\<lambda>(s', b). Ok (f s' b)) x \<noteq> UB" for f :: "php_map \<Rightarrow> bool \<Rightarrow> php_map \<times> zval" and x
    by (cases x) simp
  then show ?thesis using ok set key nxt cur by (cases m) (simp_all add: bind_outcome_UB_iff split: prod.splits)
qed

lemma map_foreach_suffix:
  assumes "map_inv e obj_ok s" and "hash_iter (map_entries s) = pre @ suf"
    and "map_iter_curr s = opt_hd suf" and "map_iter_temp s = opt_hd (tl suf)"
  shows "map_foreach (Suc (length suf)) s =
    Ok (map (\<lambda>a. (the (key_at (map_entries s) a), the (map_vals s a))) suf)"
  using assms
proof (induction suf arbitrary: s pre)
  case Nil
  then show ?case by (simp add: map_valid_def)
next
  case (Cons a suf)
  have hi: "head_inv (zval_hash e) (map_entries s)" using Cons.prems(1) by (simp add: map_inv_def ut_good_def)
  have d: "distinct (pre @ a # suf)" using distinct_iter [OF hi] Cons.prems(2) by simp
  obtain k where k: "key_at (map_entries s) a = Some k" using key_at_iter [OF hi] Cons.prems(2) by fastforce
  have "map_vals s a \<noteq> None" using Cons.prems(1,2) by (simp add: map_inv_def)
  then obtain v where v: "map_vals s a = Some v" by blast
  have temp: "Option.bind (opt_hd suf) (next_in (pre @ a # suf)) = opt_hd (tl suf)"
    using next_in_split [of "pre @ [a]" "hd suf" "tl suf"] d by (cases suf) auto
  define s' where "s' = s\<lparr>map_iter_curr := opt_hd suf, map_iter_temp := opt_hd (tl suf)\<rparr>"
  have n: "map_next s = Ok s'"
    using map_next_of_temp [OF Cons.prems(1)] Cons.prems temp by (simp add: map_next_def s'_def)
  have "map_foreach (Suc (length suf)) s' =
      Ok (map (\<lambda>a. (the (key_at (map_entries s') a), the (map_vals s' a))) suf)"
    using Cons.prems by (intro Cons.IH [of s' "pre @ [a]"] map_inv_next [OF Cons.prems(1) n]) (auto simp: s'_def)
  then show ?case using Cons.prems(3) k v n by (simp add: map_valid_def map_current_def map_key_def s'_def)
qed

lemma map_foreach_rewind:
  assumes inv: "map_inv e obj_ok s"
  shows "map_foreach (Suc (map_count s)) (map_rewind s) = Ok (map_items s)"
proof -
  have hi: "head_inv (zval_hash e) (map_entries s)" using inv by (simp add: map_inv_def ut_good_def)
  let ?xs = "hash_iter (map_entries s)"
  have len: "map_count s = length ?xs" using map_count_items [OF inv] by (simp add: map_items_def)
  have r: "map_rewind s = s\<lparr>map_iter_curr := opt_hd ?xs, map_iter_temp := opt_hd (tl ?xs)\<rparr>"
    using distinct_iter [OF hi] next_in_split [of "[]" "hd ?xs" "tl ?xs"]
    by (cases ?xs) (auto simp: map_rewind_def)
  show ?thesis
    using map_foreach_suffix [OF map_inv_rewind [OF inv], of "[]" ?xs] len by (simp add: r map_items_def)
qed

text \<open>Looking up after storing.\<close>

lemma abs_get_put:
  assumes "\<forall>(k', v') \<in> set kvs. hashable obj_ok k'" and "hashable obj_ok k" and "hashable obj_ok k2"
  shows "abs_get e (abs_put e kvs k v) k2 = (if eq_val k k2 then Some v else abs_get e kvs k2)"
proof (cases "abs_has e kvs k")
  case True
  have sym: "eq_val a b \<longleftrightarrow> eq_val b a" if "hashable obj_ok a" "hashable obj_ok b" for a b
    using vh.cmp_sym that by blast
  have "map_option snd (find (\<lambda>(k', v). eq_val k' k2) (map (\<lambda>(k', v'). (k', if eq_val k' k then v else v')) kvs)) =
      (if eq_val k k2 then (if abs_has e kvs k then Some v else None) else abs_get e kvs k2)"
    using assms(1)
  proof (induction kvs)
    case Nil
    then show ?case by (simp add: abs_get_def abs_has_def)
  next
    case (Cons kv kvs)
    obtain k' v' where kv: "kv = (k', v')" by fastforce
    have k': "hashable obj_ok k'" using Cons.prems kv by simp
    have "eq_val k' k2 \<longleftrightarrow> eq_val k' k" if "eq_val k k2"
      using vh.cmp_trans [OF k' assms(2,3)] vh.cmp_trans [OF k' assms(3,2)] vh.cmp_sym [OF assms(2,3)] that by blast
    moreover have "\<not> eq_val k' k" if "eq_val k' k2" "\<not> eq_val k k2"
      using vh.cmp_trans [OF assms(2) k' assms(3)] sym [OF k' assms(2)] that by blast
    ultimately show ?case using Cons kv by (auto simp: abs_get_def abs_has_def)
  qed
  then show ?thesis using True by (simp add: abs_put_def abs_get_def)
next
  case False
  have n: "\<not> eq_val k' k" if "(k', v') \<in> set kvs" for k' v'
    using False that by (auto simp: abs_has_def abs_get_def find_None_iff)
  have "find (\<lambda>(k', v). eq_val k' k2) kvs = None" if "eq_val k k2"
  proof -
    have "\<not> eq_val k' k2" if kv: "(k', v') \<in> set kvs" for k' v'
    proof -
      have k': "hashable obj_ok k'" using assms(1) kv by auto
      show ?thesis
        using n [OF kv] vh.cmp_trans [OF k' assms(3,2)] vh.cmp_sym [OF assms(2,3)] \<open>eq_val k k2\<close> by blast
    qed
    then show ?thesis by (auto simp: find_None_iff)
  qed
  moreover have "find P (kvs @ [x]) = (case find P kvs of None \<Rightarrow> if P x then Some x else None | y \<Rightarrow> y)" for P x
    by (induction kvs) auto
  ultimately show ?thesis using False by (auto simp: abs_put_def abs_get_def split: option.splits)
qed

end

section \<open>Properties\<close>

text \<open>The map used by the witnesses: the int key 7 with the value 1, then the key 9 with the value 2.\<close>

definition map_ex :: php_map where
  "map_ex =
     (case bind_outcome (php_driver_map_set engine_ref (php_driver_map_new (TScalar CASS_INT) (TScalar CASS_INT)) (ZLong 7) (ZLong 1))
        (\<lambda>(s, _). php_driver_map_set engine_ref s (ZLong 9) (ZLong 2)) of
      Ok (s, _) \<Rightarrow> s | _ \<Rightarrow> php_driver_map_new (TScalar CASS_INT) (TScalar CASS_INT))"

lemma map_ex:
  shows map_ex_reach: "map_reach engine_ref no_object map_ex"
    and map_ex_items: "map_items map_ex = [(ZLong 7, ZLong 1), (ZLong 9, ZLong 2)]"
    and map_ex_types: "map_key_type map_ex = TScalar CASS_INT" "map_value_type map_ex = TScalar CASS_INT"
proof -
  let ?int = "TScalar CASS_INT"
  let ?n = "php_driver_map_new ?int ?int"
  have c: "map_construct (ArgType ?int) (ArgType ?int) = Ok ?n" by (simp add: map_construct_def)
  have r0: "map_reach engine_ref no_object ?n" by (rule map_reach.construct [OF c])
  have v: "php_driver_validate_object (ZLong l) ?int = Ok True" for l
    by (simp add: php_driver_validate_object_def expecting_def)
  have n: "map_key_type ?n = ?int" "map_value_type ?n = ?int" "map_items ?n = []"
    by (simp_all add: php_driver_map_new_def map_items_def hash_iter_def)
  obtain s1 where s1: "php_driver_map_set engine_ref ?n (ZLong 7) (ZLong 1) = Ok (s1, True)" "map_key_type s1 = ?int"
    "map_value_type s1 = ?int" "map_items s1 = [(ZLong 7, ZLong 1)]"
    using engine_ref.map_set_spec [OF engine_ref.map_reach_inv [OF r0], of "ZLong 7" "ZLong 1"] v n
    by (auto simp: abs_put_def abs_has_def abs_get_def)
  have r1: "map_reach engine_ref no_object s1"
    by (rule map_reach.call [OF r0, of "MSet (ZLong 7) (ZLong 1)"]) (simp_all add: s1(1))
  obtain s2 where s2: "php_driver_map_set engine_ref s1 (ZLong 9) (ZLong 2) = Ok (s2, True)" "map_key_type s2 = ?int"
    "map_value_type s2 = ?int" "map_items s2 = [(ZLong 7, ZLong 1), (ZLong 9, ZLong 2)]"
    using engine_ref.map_set_spec [OF engine_ref.map_reach_inv [OF r1], of "ZLong 9" "ZLong 2"] v s1
    by (auto simp: abs_put_def abs_has_def abs_get_def php_driver_value_compare_def)
  have eq: "map_ex = s2" by (simp add: map_ex_def s1(1) s2(1))
  show "map_reach engine_ref no_object map_ex" unfolding eq
    by (rule map_reach.call [OF r1, of "MSet (ZLong 9) (ZLong 2)"]) (simp_all add: s2(1))
  show "map_items map_ex = [(ZLong 7, ZLong 1), (ZLong 9, ZLong 2)]"
    "map_key_type map_ex = ?int" "map_value_type map_ex = ?int"
    using eq s2 by simp_all
qed

text \<open>
  C2. Refinement. In every state a map object can be in, \<^verbatim>\<open>set\<close>, \<^verbatim>\<open>get\<close>, \<^verbatim>\<open>remove\<close>, \<^verbatim>\<open>has\<close> and \<^verbatim>\<open>count\<close>, given keys
  and values of the map's types, act on the entries as the operations of the abstract map: \<^verbatim>\<open>set\<close> of a
  present key replaces its value in place, of a new key appends it, and \<^verbatim>\<open>keys\<close> and \<^verbatim>\<open>values\<close> list the
  entries in the same order.
\<close>

theorem map_refines_abstract:
  assumes "engine_lib e obj_ok" and "map_reach e obj_ok s"
    and "hashable obj_ok k" and "k \<noteq> ZNull" and "php_driver_validate_object k (map_key_type s) = Ok True"
    and "v \<noteq> ZNull" and "php_driver_validate_object v (map_value_type s) = Ok True"
  shows "(\<exists>s'. php_driver_map_set e s k v = Ok (s', True) \<and> map_items s' = abs_put e (map_items s) k v) \<and>
    (\<exists>s'. php_driver_map_del e s k = Ok (s', abs_has e (map_items s) k) \<and> map_items s' = abs_drop e (map_items s) k) \<and>
    php_driver_map_get e s k = Ok (abs_get e (map_items s) k) \<and>
    php_driver_map_has e s k = Ok (abs_has e (map_items s) k) \<and>
    map_count s = length (map_items s) \<and> zip (map_keys s) (map_values s) = map_items s"
proof -
  note inv = engine_lib.map_reach_inv [OF assms(1,2)]
  have z: "z_type k \<noteq> 1" "z_type v \<noteq> 1" using assms(4,6) z_type_null [of k] z_type_null [of v] by simp_all
  have "zip (map_keys s) (map_values s) = map_items s"
    using map_keys_items [OF inv] by (simp add: map_values_items zip_map_fst_snd)
  then show ?thesis
    using engine_lib.map_set_spec [OF assms(1) inv assms(3) z(1) assms(5) z(2) assms(7)]
      engine_lib.map_del_spec [OF assms(1) inv assms(3,5)] engine_lib.map_get_spec [OF assms(1) inv assms(3,5)]
      map_count_items [OF inv] by (elim exE conjE) (intro conjI exI, assumption+)
qed

theorem map_refines_abstract_witness:
  "\<exists>s'. php_driver_map_set engine_ref map_ex (ZLong 7) (ZLong 3) = Ok (s', True) \<and>
     map_items s' = [(ZLong 7, ZLong 3), (ZLong 9, ZLong 2)]"
proof -
  have "php_driver_validate_object (ZLong x) (TScalar CASS_INT) = Ok True" for x
    by (simp add: php_driver_validate_object_def expecting_def)
  then show ?thesis
    using map_refines_abstract [OF engine_ref.engine_lib_axioms map_ex_reach, of "ZLong 7" "ZLong 3"]
    by (simp add: map_ex_types map_ex_items abs_put_def abs_has_def abs_get_def php_driver_value_compare_def)
qed

text \<open>
  C3. Storing and looking up: after \<^verbatim>\<open>set\<close> of a key, \<^verbatim>\<open>get\<close> of any key that compares equal to it returns the
  value stored, and \<^verbatim>\<open>get\<close> of every other key returns what it returned before.
\<close>

theorem map_get_set:
  assumes "engine_lib e obj_ok" and "map_reach e obj_ok s"
    and "hashable obj_ok k" and "hashable obj_ok k2"
    and "php_driver_map_set e s k v = Ok (s', True)" and "php_driver_validate_object k2 (map_key_type s) = Ok True"
  shows "php_driver_map_get e s' k2 =
    (if php_driver_value_compare e k k2 = 0 then Ok (Some v) else php_driver_map_get e s k2)"
proof -
  note inv = engine_lib.map_reach_inv [OF assms(1,2)]
  note inv' = engine_lib.map_inv_set [OF assms(1) inv assms(3,5)]
  have c: "z_type k \<noteq> 1" "php_driver_validate_object k (map_key_type s) = Ok True"
    "z_type v \<noteq> 1" "php_driver_validate_object v (map_value_type s) = Ok True"
    using assms(5) by (auto simp: php_driver_map_set_def bind_outcome_Ok_iff split: if_splits)
  have it: "map_items s' = abs_put e (map_items s) k v" and ty: "map_key_type s' = map_key_type s"
    using engine_lib.map_set_spec [OF assms(1) inv assms(3) c] assms(5) by auto
  have "\<forall>(k', v') \<in> set (map_items s). hashable obj_ok k'"
    using inv map_keys_items [OF inv] keys_ok_all [of "hashable obj_ok" _ "map_keys s"]
    by (fastforce simp: map_inv_def ut_good_def map_keys_def)
  then show ?thesis
    using engine_lib.abs_get_put [OF assms(1) _ assms(3,4), of "map_items s" v]
      engine_lib.map_get_spec(1) [OF assms(1) inv assms(4,6)]
      engine_lib.map_get_spec(1) [OF assms(1) inv' assms(4)] assms(6) it ty by simp
qed

theorem map_get_set_witness:
  "\<exists>s'. php_driver_map_set engine_ref map_ex (ZLong 9) (ZLong 5) = Ok (s', True) \<and>
     php_driver_map_get engine_ref s' (ZLong 9) = Ok (Some (ZLong 5)) \<and>
     php_driver_map_get engine_ref s' (ZLong 7) = Ok (Some (ZLong 1))"
proof -
  have v: "php_driver_validate_object (ZLong x) (TScalar CASS_INT) = Ok True" for x
    by (simp add: php_driver_validate_object_def expecting_def)
  note inv = engine_ref.map_reach_inv [OF map_ex_reach]
  obtain s' where s': "php_driver_map_set engine_ref map_ex (ZLong 9) (ZLong 5) = Ok (s', True)"
    using engine_ref.map_set_spec [OF inv, of "ZLong 9" "ZLong 5"] v map_ex_types by auto
  have "php_driver_map_get engine_ref map_ex (ZLong 7) = Ok (Some (ZLong 1))"
    using engine_ref.map_get_spec(1) [OF inv, of "ZLong 7"] v
    by (simp add: map_ex_types map_ex_items abs_get_def php_driver_value_compare_def)
  then show ?thesis
    using s' map_get_set [OF engine_ref.engine_lib_axioms map_ex_reach _ _ s', of "ZLong 9"]
      map_get_set [OF engine_ref.engine_lib_axioms map_ex_reach _ _ s', of "ZLong 7"] v
    by (simp add: map_ex_types php_driver_value_compare_def)
qed

text \<open>
  C5. In every state a map object can be in, no method reads freed memory, except \<^verbatim>\<open>current\<close> and \<^verbatim>\<open>key\<close> when
  the current entry was removed. Moreover every key and value the map holds is a non-null value of
  its type, and a \<^verbatim>\<open>foreach\<close> loop over the map terminates and sees exactly its entries, in order.
\<close>

theorem map_safety:
  assumes "engine_lib e obj_ok" and "map_reach e obj_ok s" and "map_arg_ok obj_ok m"
  shows "(map_call e m s \<noteq> UB \<or>
      (m \<in> {MCurrent, MKey} \<and> (\<exists>a. map_iter_curr s = Some a \<and> a \<notin> set (hash_iter (map_entries s))))) \<and>
    (\<forall>(k, v) \<in> set (map_items s). k \<noteq> ZNull \<and> v \<noteq> ZNull \<and>
       php_driver_validate_object k (map_key_type s) = Ok True \<and>
       php_driver_validate_object v (map_value_type s) = Ok True) \<and>
    map_foreach (Suc (map_count s)) (map_rewind s) = Ok (map_items s)"
proof -
  note inv = engine_lib.map_reach_inv [OF assms(1,2)]
  have "\<forall>(k, v) \<in> set (map_items s). k \<noteq> ZNull \<and> v \<noteq> ZNull \<and>
       php_driver_validate_object k (map_key_type s) = Ok True \<and>
       php_driver_validate_object v (map_value_type s) = Ok True"
    using inv unfolding map_inv_def by fastforce
  then show ?thesis
    using engine_lib.map_call_UB [OF assms(1) inv assms(3)] engine_lib.map_foreach_rewind [OF assms(1) inv] by blast
qed

theorem map_safety_witness:
  "map_call engine_ref (MOffsetUnset (ZLong 9)) map_ex \<noteq> UB"
  using map_safety [OF engine_ref.engine_lib_axioms map_ex_reach, of "MOffsetUnset (ZLong 9)"] by simp

end
