(* ===== verification/Zend_Hash.thy ===== *)
theory Zend_Hash
  imports Zval
begin

text \<open>
  PHP arrays, as the extension uses them through the \<^verbatim>\<open>zend_hash\<close> functions of the engine: an ordered
  list of entries with distinct integer or string keys, the next free integer key, and the internal
  pointer as the number of entries before it. Updating a present key keeps its place; a new key is
  appended; deleting the entry under the pointer leaves the pointer on the one after it.
\<close>

datatype zkey = KInt int | KStr string

record 'v htable =
  ht_data :: "(zkey \<times> 'v) list"
  ht_next_free :: int
  ht_pos :: nat

definition ht_new :: "'v htable" where
  "ht_new = \<lparr>ht_data = [], ht_next_free = 0, ht_pos = 0\<rparr>"

definition ht_find :: "'v htable \<Rightarrow> zkey \<Rightarrow> 'v option" where
  "ht_find h k = map_of (ht_data h) k"

definition ht_count :: "'v htable \<Rightarrow> nat" where
  "ht_count h = length (ht_data h)"

definition ht_values :: "'v htable \<Rightarrow> 'v list" where
  "ht_values h = map snd (ht_data h)"

fun key_after :: "zkey \<Rightarrow> int" where
  "key_after (KInt i) = i + 1"
| "key_after (KStr _) = 0"

definition ht_update :: "'v htable \<Rightarrow> zkey \<Rightarrow> 'v \<Rightarrow> 'v htable" where
  "ht_update h k v =
     h\<lparr>ht_data := (if k \<in> fst ` set (ht_data h) then map (\<lambda>(k', v'). (k', if k' = k then v else v')) (ht_data h)
                   else ht_data h @ [(k, v)]),
       ht_next_free := max (ht_next_free h) (key_after k)\<rparr>"

definition ht_next_insert :: "'v htable \<Rightarrow> 'v \<Rightarrow> 'v htable" where
  "ht_next_insert h v = ht_update h (KInt (ht_next_free h)) v"

definition ht_index :: "'v htable \<Rightarrow> zkey \<Rightarrow> nat" where
  "ht_index h k = length (takeWhile (\<lambda>(k', _). k' \<noteq> k) (ht_data h))"

text \<open>The new table and whether the key was there.\<close>

definition ht_del :: "'v htable \<Rightarrow> zkey \<Rightarrow> 'v htable \<times> bool" where
  "ht_del h k =
     (if k \<in> fst ` set (ht_data h)
      then (h\<lparr>ht_data := filter (\<lambda>(k', _). k' \<noteq> k) (ht_data h),
              ht_pos := (if ht_index h k < ht_pos h then ht_pos h - 1 else ht_pos h)\<rparr>, True)
      else (h, False))"

definition ht_current :: "'v htable \<Rightarrow> (zkey \<times> 'v) option" where
  "ht_current h = (if ht_pos h < length (ht_data h) then Some (ht_data h ! ht_pos h) else None)"

definition ht_forward :: "'v htable \<Rightarrow> 'v htable" where
  "ht_forward h = (if ht_pos h < length (ht_data h) then h\<lparr>ht_pos := ht_pos h + 1\<rparr> else h)"

definition ht_reset :: "'v htable \<Rightarrow> 'v htable" where
  "ht_reset h = h\<lparr>ht_pos := 0\<rparr>"

definition ht_inv :: "'v htable \<Rightarrow> bool" where
  "ht_inv h \<longleftrightarrow> distinct (map fst (ht_data h)) \<and> (\<forall>k \<in> fst ` set (ht_data h). key_after k \<le> ht_next_free h) \<and>
     0 \<le> ht_next_free h"

section \<open>Laws\<close>

text \<open>The contract the classes rely on: a finite map with an ordered list of entries.\<close>

locale ordered_dict =
  fixes inv :: "'d \<Rightarrow> bool" and lookup :: "'d \<Rightarrow> 'k \<Rightarrow> 'v option" and upd :: "'d \<Rightarrow> 'k \<Rightarrow> 'v \<Rightarrow> 'd"
    and del :: "'d \<Rightarrow> 'k \<Rightarrow> 'd" and keys :: "'d \<Rightarrow> 'k list"
  assumes upd_inv: "inv d \<Longrightarrow> inv (upd d k v)"
    and del_inv: "inv d \<Longrightarrow> inv (del d k)"
    and lookup_upd: "lookup (upd d k v) k' = (if k' = k then Some v else lookup d k')"
    and lookup_del: "inv d \<Longrightarrow> lookup (del d k) k' = (if k' = k then None else lookup d k')"
    and keys_lookup: "k \<in> set (keys d) \<longleftrightarrow> lookup d k \<noteq> None"
    and keys_upd: "keys (upd d k v) = (if k \<in> set (keys d) then keys d else keys d @ [k])"
begin

lemma upd_twice: "lookup (upd (upd d k v) k w) = lookup (upd d k w)"
  by (rule ext) (simp add: lookup_upd)

lemma upd_commute: "k \<noteq> k' \<Longrightarrow> lookup (upd (upd d k v) k' w) = lookup (upd (upd d k' w) k v)"
  by (rule ext) (auto simp: lookup_upd)

text \<open>A property of all entries survives an update with an entry that has it.\<close>

lemma all_upd:
  assumes "\<forall>k v. lookup d k = Some v \<longrightarrow> P k v" and "P k v"
  shows "\<forall>k' v'. lookup (upd d k v) k' = Some v' \<longrightarrow> P k' v'"
  using assms by (simp add: lookup_upd)

lemma all_del:
  assumes "inv d" and "\<forall>k v. lookup d k = Some v \<longrightarrow> P k v"
  shows "\<forall>k' v'. lookup (del d k) k' = Some v' \<longrightarrow> P k' v'"
  using assms by (simp add: lookup_del)

end

lemma map_of_map_upd:
  "map_of (map (\<lambda>(k', v'). (k', if k' = k then v else v')) xs) x =
    (if x = k then (if k \<in> fst ` set xs then Some v else None) else map_of xs x)"
  by (induction xs) (force split: if_splits)+

lemma map_of_filter_key: "map_of (filter (\<lambda>(k', _). k' \<noteq> k) xs) x = (if x = k then None else map_of xs x)"
  by (induction xs) auto

lemma ht_find_update: "ht_find (ht_update h k v) k' = (if k' = k then Some v else ht_find h k')"
proof (cases "k \<in> fst ` set (ht_data h)")
  case True
  then show ?thesis by (simp add: ht_find_def ht_update_def map_of_map_upd)
next
  case False
  then have "map_of (ht_data h) k = None" by (simp add: map_of_eq_None_iff)
  then show ?thesis using False by (auto simp: ht_find_def ht_update_def map_add_def split: option.splits)
qed

lemma fst_map_upd [simp]: "map fst (map (\<lambda>(k', v'). (k', if k' = k then v else v')) xs) = map fst xs"
  by (induction xs) auto

lemma ht_keys_update:
  "map fst (ht_data (ht_update h k v)) =
    (if k \<in> fst ` set (ht_data h) then map fst (ht_data h) else map fst (ht_data h) @ [k])"
  by (simp add: ht_update_def del: map_map)

interpretation ht: ordered_dict ht_inv ht_find ht_update "\<lambda>h k. fst (ht_del h k)" "\<lambda>h. map fst (ht_data h)"
proof
  fix h :: "'v htable" and k k' and v :: 'v
  show "ht_inv (ht_update h k v)" if "ht_inv h"
    using that ht_keys_update [of h k v]
    by (auto simp: ht_inv_def image_iff simp flip: set_map split: if_splits)
      (auto simp: ht_update_def)
  show "ht_inv (fst (ht_del h k))" if "ht_inv h"
    using that by (auto simp: ht_inv_def ht_del_def distinct_map_filter)
  show "ht_find (ht_update h k v) k' = (if k' = k then Some v else ht_find h k')" by (rule ht_find_update)
  show "ht_find (fst (ht_del h k)) k' = (if k' = k then None else ht_find h k')" if "ht_inv h"
    by (auto simp: ht_find_def ht_del_def map_of_filter_key map_of_eq_None_iff)
  show "k \<in> set (map fst (ht_data h)) \<longleftrightarrow> ht_find h k \<noteq> None"
    by (simp add: ht_find_def map_of_eq_None_iff)
  show "map fst (ht_data (ht_update h k v)) =
      (if k \<in> set (map fst (ht_data h)) then map fst (ht_data h) else map fst (ht_data h) @ [k])"
    by (simp add: ht_keys_update)
qed

lemma ht_next_fresh: "ht_inv h \<Longrightarrow> KInt (ht_next_free h) \<notin> fst ` set (ht_data h)"
  by (force simp: ht_inv_def)

lemma ht_next_insert_data:
  "ht_inv h \<Longrightarrow> ht_data (ht_next_insert h v) = ht_data h @ [(KInt (ht_next_free h), v)] \<and>
    ht_next_free (ht_next_insert h v) = ht_next_free h + 1 \<and> ht_pos (ht_next_insert h v) = ht_pos h"
  using ht_next_fresh [of h] by (simp add: ht_next_insert_def ht_update_def)

lemma ht_next_insert_inv: "ht_inv h \<Longrightarrow> ht_inv (ht_next_insert h v)"
  by (simp add: ht_next_insert_def ht.upd_inv)

lemma ht_new_inv [simp]: "ht_inv ht_new"
  by (simp add: ht_inv_def ht_new_def)

lemma ht_iter_same [simp]:
  "ht_data (ht_forward h) = ht_data h" "ht_data (ht_reset h) = ht_data h"
  "ht_inv (ht_forward h) = ht_inv h" "ht_inv (ht_reset h) = ht_inv h"
  by (simp_all add: ht_forward_def ht_reset_def ht_inv_def)

section \<open>Iterator objects\<close>

text \<open>
  PHP's \<^verbatim>\<open>foreach\<close> over an object of class \<^verbatim>\<open>Iterator\<close>, after \<^verbatim>\<open>rewind\<close>: while the object is valid, its
  current item is read and the object advanced. The fuel bounds the number of calls of \<^verbatim>\<open>valid\<close>; \<open>None\<close>
  means that it did not suffice.
\<close>

fun php_foreach :: "('s \<Rightarrow> bool) \<Rightarrow> ('s \<Rightarrow> 'v) \<Rightarrow> ('s \<Rightarrow> 's) \<Rightarrow> nat \<Rightarrow> 's \<Rightarrow> 'v list option" where
  "php_foreach valid item advance 0 s = None"
| "php_foreach valid item advance (Suc n) s =
     (if \<not> valid s then Some []
      else map_option (\<lambda>vs. item s # vs) (php_foreach valid item advance n (advance s)))"

text \<open>A position that runs through a list of items which the iteration itself does not change.\<close>

locale php_cursor =
  fixes items :: "'s \<Rightarrow> 'v list" and pos :: "'s \<Rightarrow> nat" and valid :: "'s \<Rightarrow> bool"
    and item :: "'s \<Rightarrow> 'v" and advance :: "'s \<Rightarrow> 's" and rewind :: "'s \<Rightarrow> 's"
  assumes valid_iff: "valid s \<longleftrightarrow> pos s < length (items s)"
    and item_nth: "pos s < length (items s) \<Longrightarrow> item s = items s ! pos s"
    and advance_pos: "pos s < length (items s) \<Longrightarrow> pos (advance s) = Suc (pos s)"
    and advance_items: "items (advance s) = items s"
    and rewind_pos: "pos (rewind s) = 0"
    and rewind_items: "items (rewind s) = items s"
begin

lemma foreach_from:
  "length (items s) - pos s \<le> n \<Longrightarrow> php_foreach valid item advance (Suc n) s = Some (drop (pos s) (items s))"
proof (induction n arbitrary: s)
  case 0
  then show ?case by (simp add: valid_iff)
next
  case (Suc n)
  show ?case
  proof (cases "pos s < length (items s)")
    case True
    have "length (items (advance s)) - pos (advance s) \<le> n"
      using Suc.prems True by (simp add: advance_items advance_pos)
    from Suc.IH [OF this] True show ?thesis
      by (simp add: valid_iff item_nth advance_items advance_pos Cons_nth_drop_Suc [symmetric])
  next
    case False
    then show ?thesis by (simp add: valid_iff)
  qed
qed

lemma foreach_all:
  "length (items s) < n \<Longrightarrow> php_foreach valid item advance n (rewind s) = Some (items s)"
  using foreach_from [of "rewind s" "n - 1"] by (cases n) (simp_all add: rewind_pos rewind_items)

end

end
