(* ===== verification/Typed_Record.thy ===== *)
theory Typed_Record
  imports Zend_Hash Hashing Validate
begin

text \<open>
  What \<^verbatim>\<open>Tuple\<close> and \<^verbatim>\<open>UserTypeValue\<close> have in common: a fixed list of fields, each with its type, and values
  for some of them. A field is addressed by an index or by a name; a value must be of the type of its
  field, and a field that was not set reads as \<^verbatim>\<open>null\<close>.
\<close>

locale typed_record =
  fixes field :: "'s \<Rightarrow> 'k \<Rightarrow> php_driver_type option"
    and stored :: "'s \<Rightarrow> 'k \<Rightarrow> zval option"
    and put :: "'s \<Rightarrow> 'k \<Rightarrow> zval \<Rightarrow> 's"
    and set_field :: "'s \<Rightarrow> 'k \<Rightarrow> zval \<Rightarrow> 's outcome"
    and get_field :: "'s \<Rightarrow> 'k \<Rightarrow> zval outcome"
  assumes field_put: "field (put s k v) = field s"
    and stored_put: "stored (put s k v) k' = (if k' = k then Some v else stored s k')"
    and set_field: "set_field s k v =
      (case field s k of
         None \<Rightarrow> Throw InvalidArgumentException
       | Some t \<Rightarrow> bind_outcome (php_driver_validate_object v t) (\<lambda>valid. Ok (if valid then put s k v else s)))"
    and get_field: "get_field s k =
      (case field s k of
         None \<Rightarrow> Throw InvalidArgumentException
       | Some t \<Rightarrow> Ok (case stored s k of Some v \<Rightarrow> v | None \<Rightarrow> ZNull))"
begin

lemma unknown_field: "field s k = None \<Longrightarrow> set_field s k v = Throw InvalidArgumentException \<and>
    get_field s k = Throw InvalidArgumentException"
  by (simp add: set_field get_field)

lemma set_field_defined: "set_field s k v \<noteq> UB \<and> get_field s k \<noteq> UB"
  by (auto simp: set_field get_field bind_outcome_UB_iff validate_defined split: option.splits)

text \<open>Reading after writing: the written field has the value, the others what they had.\<close>

lemma set_get:
  assumes "field s k = Some t" and "php_driver_validate_object v t = Ok True"
  shows "\<exists>s'. set_field s k v = Ok s' \<and> field s' = field s \<and> get_field s' k = Ok v \<and>
    (\<forall>k'. k' \<noteq> k \<longrightarrow> get_field s' k' = get_field s k')"
  using assms by (auto simp: set_field get_field field_put stored_put split: option.splits)

text \<open>A value of a wrong type changes nothing.\<close>

lemma set_wrong:
  assumes "field s k = Some t" and "php_driver_validate_object v t \<noteq> Ok True"
  shows "set_field s k v = Ok s \<or> (\<exists>x. set_field s k v = Throw x)"
  using assms validate_defined [of v t]
  by (cases "php_driver_validate_object v t") (auto simp: set_field)

lemma field_set: "set_field s k v = Ok s' \<Longrightarrow> field s' = field s"
  by (auto simp: set_field bind_outcome_Ok_iff field_put split: option.splits if_splits)

text \<open>All values are of the types of their fields.\<close>

lemma set_typed:
  assumes "\<forall>k t v. field s k = Some t \<longrightarrow> stored s k = Some v \<longrightarrow> php_driver_validate_object v t = Ok True"
    and "set_field s k v = Ok s'"
  shows "\<forall>k t v. field s' k = Some t \<longrightarrow> stored s' k = Some v \<longrightarrow> php_driver_validate_object v t = Ok True"
  using assms by (auto simp: set_field bind_outcome_Ok_iff field_put stored_put split: option.splits if_splits)

end

section \<open>Comparing the values\<close>

text \<open>
  The loop over two arrays with as many elements that the comparisons of \<^verbatim>\<open>Tuple\<close> and \<^verbatim>\<open>UserTypeValue\<close> share.
\<close>

fun values_compare :: "engine \<Rightarrow> zval list \<Rightarrow> zval list \<Rightarrow> int" where
  "values_compare e (v1 # vs1) (v2 # vs2) =
     (let result = php_driver_value_compare e v1 v2
      in if result \<noteq> 0 then result else values_compare e vs1 vs2)"
| "values_compare e _ _ = 0"

lemma values_compare_0:
  "length vs1 = length vs2 \<Longrightarrow>
    values_compare e vs1 vs2 = 0 \<longleftrightarrow> list_all2 (\<lambda>a b. php_driver_value_compare e a b = 0) vs1 vs2"
  by (induction vs1 vs2 rule: list_induct2) (auto simp: Let_def)

end
