(* ===== verification/Php_Collection.thy ===== *)
theory Php_Collection
  imports Typed_Record
begin

text \<open>
  \<^verbatim>\<open>ext/src/Collection.c\<close>: the class \<^verbatim>\<open>Cassandra\Collection\<close>, a list of values of one type in a PHP array. An index
  stays with its value when others are removed, so indices have gaps afterwards. Loose equality of
  PHP, which \<^verbatim>\<open>find\<close> uses, is an argument.
\<close>

section \<open>State\<close>

record php_collection =
  coll_type :: php_driver_type
  coll_values :: "zval htable"
  coll_hashv :: "32 word"
  coll_dirty :: bool

text \<open>The object is allocated with zeroed memory: the flag is not set, unlike in \<^verbatim>\<open>Set\<close> and \<^verbatim>\<open>Map\<close>.\<close>

definition php_driver_collection_new :: "php_driver_type \<Rightarrow> php_collection" where
  "php_driver_collection_new ty = \<lparr>coll_type = ty, coll_values = ht_new, coll_hashv = 0, coll_dirty = False\<rparr>"

definition collection_construct :: "type_arg \<Rightarrow> php_collection outcome" where
  "collection_construct type =
     bind_outcome (php_driver_type_arg type) (\<lambda>ty. Ok (php_driver_collection_new ty))"

section \<open>Operations\<close>

definition php_driver_collection_add :: "php_collection \<Rightarrow> zval \<Rightarrow> php_collection" where
  "php_driver_collection_add self object =
     self\<lparr>coll_values := ht_next_insert (coll_values self) object, coll_dirty := True\<rparr>"

definition php_driver_collection_del :: "php_collection \<Rightarrow> 64 word \<Rightarrow> php_collection \<times> bool" where
  "php_driver_collection_del self index =
     (case ht_del (coll_values self) (KInt (sint index)) of
        (values, True) \<Rightarrow> (self\<lparr>coll_values := values, coll_dirty := True\<rparr>, True)
      | (_, False) \<Rightarrow> (self, False))"

definition php_driver_collection_get :: "php_collection \<Rightarrow> 64 word \<Rightarrow> zval option" where
  "php_driver_collection_get self index = ht_find (coll_values self) (KInt (sint index))"

fun find_equal :: "(zval \<Rightarrow> zval \<Rightarrow> bool) \<Rightarrow> zval \<Rightarrow> (zkey \<times> zval) list \<Rightarrow> zkey option" where
  "find_equal is_equal object [] = None"
| "find_equal is_equal object ((num_key, current) # rest) =
     (if is_equal object current then Some num_key else find_equal is_equal object rest)"

definition php_driver_collection_find :: "(zval \<Rightarrow> zval \<Rightarrow> bool) \<Rightarrow> php_collection \<Rightarrow> zval \<Rightarrow> zkey option" where
  "php_driver_collection_find is_equal self object = find_equal is_equal object (ht_data (coll_values self))"

definition collection_values :: "php_collection \<Rightarrow> zval list" where
  "collection_values self = ht_values (coll_values self)"

text \<open>The first loop of \<^verbatim>\<open>Collection::add\<close>: all arguments are checked before any of them is added.\<close>

fun collection_check :: "php_driver_type \<Rightarrow> zval list \<Rightarrow> bool outcome" where
  "collection_check ty [] = Ok True"
| "collection_check ty (arg # args) =
     (if z_type arg = 1 then Throw InvalidArgumentException
      else bind_outcome (php_driver_validate_object arg ty) (\<lambda>valid.
        if \<not> valid then Ok False else collection_check ty args))"

text \<open>The number of elements, or \<open>None\<close> for the return value \<^verbatim>\<open>false\<close>.\<close>

definition collection_add :: "php_collection \<Rightarrow> zval list \<Rightarrow> (php_collection \<times> nat option) outcome" where
  "collection_add self args =
     bind_outcome (collection_check (coll_type self) args) (\<lambda>valid.
       if \<not> valid then Ok (self, None)
       else (let self' = fold (\<lambda>arg c. php_driver_collection_add c arg) args self
             in Ok (self', Some (ht_count (coll_values self')))))"

definition collection_count :: "php_collection \<Rightarrow> nat" where
  "collection_count self = ht_count (coll_values self)"

definition collection_current :: "php_collection \<Rightarrow> zval" where
  "collection_current self = (case ht_current (coll_values self) of Some (_, v) \<Rightarrow> v | None \<Rightarrow> ZNull)"

definition collection_key :: "php_collection \<Rightarrow> zkey option" where
  "collection_key self = map_option fst (ht_current (coll_values self))"

definition collection_next :: "php_collection \<Rightarrow> php_collection" where
  "collection_next self = self\<lparr>coll_values := ht_forward (coll_values self)\<rparr>"

definition collection_valid :: "php_collection \<Rightarrow> bool" where
  "collection_valid self \<longleftrightarrow> ht_current (coll_values self) \<noteq> None"

definition collection_rewind :: "php_collection \<Rightarrow> php_collection" where
  "collection_rewind self = self\<lparr>coll_values := ht_reset (coll_values self)\<rparr>"

section \<open>Reachable states\<close>

inductive collection_reach :: "php_collection \<Rightarrow> bool" where
  construct: "collection_construct type = Ok c \<Longrightarrow> collection_reach c"
| add: "collection_reach c \<Longrightarrow> collection_add c args = Ok (c', r) \<Longrightarrow> collection_reach c'"
| remove: "collection_reach c \<Longrightarrow> collection_reach (fst (php_driver_collection_del c index))"
| advance: "collection_reach c \<Longrightarrow> collection_reach (collection_next c)"
| rewind: "collection_reach c \<Longrightarrow> collection_reach (collection_rewind c)"

definition collection_inv :: "php_collection \<Rightarrow> bool" where
  "collection_inv c \<longleftrightarrow> ht_inv (coll_values c) \<and>
     (\<forall>v \<in> set (collection_values c). v \<noteq> ZNull \<and> php_driver_validate_object v (coll_type c) = Ok True)"

text \<open>Adding values appends them in order, at consecutive indices.\<close>

lemma add_all:
  assumes "ht_inv (coll_values c)"
  shows "let c' = fold (\<lambda>arg c. php_driver_collection_add c arg) args c
    in ht_inv (coll_values c') \<and> coll_type c' = coll_type c \<and>
       ht_data (coll_values c') = ht_data (coll_values c) @
         zip (map (\<lambda>i. KInt (ht_next_free (coll_values c) + int i)) [0..<length args]) args \<and>
       (args \<noteq> [] \<longrightarrow> coll_dirty c')"
  using assms
proof (induction args arbitrary: c)
  case (Cons a args)
  let ?c = "php_driver_collection_add c a"
  have h: "ht_inv (coll_values ?c)" "coll_type ?c = coll_type c" "coll_dirty ?c"
    "ht_data (coll_values ?c) = ht_data (coll_values c) @ [(KInt (ht_next_free (coll_values c)), a)]"
    "ht_next_free (coll_values ?c) = ht_next_free (coll_values c) + 1"
    using ht_next_insert_data [OF Cons.prems, of a] ht_next_insert_inv [OF Cons.prems, of a]
    by (auto simp: php_driver_collection_add_def)
  have z: "map (\<lambda>i. KInt (ht_next_free (coll_values c) + int i)) [0..<Suc (length args)] =
      KInt (ht_next_free (coll_values c)) # map (\<lambda>i. KInt (ht_next_free (coll_values c) + 1 + int i)) [0..<length args]"
    by (simp add: map_upt_Suc add.assoc del: upt_Suc)
  show ?case using Cons.IH [OF h(1)] h z by (cases args) (auto simp: Let_def simp del: upt_Suc)
qed (simp add: Let_def)

lemma collection_check_ok:
  "collection_check ty args = Ok True \<longleftrightarrow>
    (\<forall>a \<in> set args. a \<noteq> ZNull \<and> php_driver_validate_object a ty = Ok True)"
  by (induction args) (auto simp: bind_outcome_Ok_iff z_type_null [simplified] split: if_splits)

lemma collection_add_spec:
  assumes inv: "ht_inv (coll_values c)"
    and args: "\<forall>a \<in> set args. a \<noteq> ZNull \<and> php_driver_validate_object a (coll_type c) = Ok True"
  shows "\<exists>c'. collection_add c args = Ok (c', Some (collection_count c + length args)) \<and>
    ht_data (coll_values c') = ht_data (coll_values c) @
      zip (map (\<lambda>i. KInt (ht_next_free (coll_values c) + int i)) [0..<length args]) args \<and>
    coll_type c' = coll_type c \<and> ht_inv (coll_values c') \<and> (args \<noteq> [] \<longrightarrow> coll_dirty c')"
  using add_all [OF inv, of args] args collection_check_ok [of "coll_type c" args]
  by (auto simp: collection_add_def Let_def ht_count_def collection_count_def)

lemma collection_inv_add:
  assumes inv: "collection_inv c" and r: "collection_add c args = Ok (c', n)"
  shows "collection_inv c'"
proof (cases "collection_check (coll_type c) args = Ok True")
  case True
  then have args: "\<forall>a \<in> set args. a \<noteq> ZNull \<and> php_driver_validate_object a (coll_type c) = Ok True"
    using collection_check_ok by blast
  have h: "ht_inv (coll_values c)" using inv by (simp add: collection_inv_def)
  from collection_add_spec [OF h args] r have c':
    "ht_data (coll_values c') = ht_data (coll_values c) @
      zip (map (\<lambda>i. KInt (ht_next_free (coll_values c) + int i)) [0..<length args]) args"
    "coll_type c' = coll_type c" "ht_inv (coll_values c')" "args \<noteq> [] \<longrightarrow> coll_dirty c'"
    by auto
  have vs: "collection_values c' = collection_values c @ args"
    using c'(1) by (simp add: collection_values_def ht_values_def)
  show ?thesis
  proof (cases "args = []")
    case True
    then have "c' = c" using r by (auto simp: collection_add_def Let_def)
    then show ?thesis using inv by simp
  next
    case False
    then show ?thesis using inv c'(2-4) args vs by (auto simp: collection_inv_def)
  qed
next
  case False
  then have "c' = c" using r by (auto simp: collection_add_def bind_outcome_Ok_iff split: if_splits)
  then show ?thesis using inv by simp
qed

lemma collection_inv_del: "collection_inv c \<Longrightarrow> collection_inv (fst (php_driver_collection_del c index))"
  using ht.del_inv [of "coll_values c" "KInt (sint index)"]
  by (auto simp: php_driver_collection_del_def collection_inv_def ht_del_def collection_values_def ht_values_def
      split: if_splits)

lemma collection_reach_inv: "collection_reach c \<Longrightarrow> collection_inv c"
proof (induction rule: collection_reach.induct)
  case (construct type c)
  then show ?case
    by (auto simp: collection_construct_def bind_outcome_Ok_iff php_driver_collection_new_def collection_inv_def
        collection_values_def ht_values_def) (auto simp: ht_new_def)
next
  case (add c args c' r)
  then show ?case using collection_inv_add by blast
next
  case (remove c index)
  show ?case by (rule collection_inv_del [OF remove.IH])
next
  case (advance c)
  then show ?case by (simp add: collection_inv_def collection_next_def collection_values_def ht_values_def)
next
  case (rewind c)
  then show ?case by (simp add: collection_inv_def collection_rewind_def collection_values_def ht_values_def)
qed


section \<open>Iteration\<close>

lemma collection_iter_same [simp]:
  "coll_values (collection_next c) = ht_forward (coll_values c)"
  "coll_values (collection_rewind c) = ht_reset (coll_values c)"
  by (simp_all add: collection_next_def collection_rewind_def)

interpretation cc: php_cursor "\<lambda>c. map (\<lambda>(k, v). (Some k, v)) (ht_data (coll_values c))" "\<lambda>c. ht_pos (coll_values c)"
  collection_valid "\<lambda>c. (collection_key c, collection_current c)" collection_next collection_rewind
  by unfold_locales
    (auto simp: collection_valid_def collection_key_def collection_current_def ht_current_def ht_forward_def ht_reset_def
      split: prod.splits)

section \<open>Indices\<close>

lemma collection_get_add:
  assumes inv: "ht_inv (coll_values c)"
    and args: "\<forall>a \<in> set args. a \<noteq> ZNull \<and> php_driver_validate_object a (coll_type c) = Ok True"
    and r: "collection_add c args = Ok (c', n)" and g: "php_driver_collection_get c i = Some v"
  shows "php_driver_collection_get c' i = Some v"
proof -
  from collection_add_spec [OF inv args] r have d: "ht_data (coll_values c') = ht_data (coll_values c) @
      zip (map (\<lambda>i. KInt (ht_next_free (coll_values c) + int i)) [0..<length args]) args"
    and inv': "ht_inv (coll_values c')" by auto
  have "(KInt (sint i), v) \<in> set (ht_data (coll_values c))"
    using g by (auto simp: php_driver_collection_get_def ht_find_def dest: map_of_SomeD)
  then show ?thesis
    using inv' d by (auto simp: php_driver_collection_get_def ht_find_def ht_inv_def intro: map_of_is_SomeI)
qed

lemma collection_check_fails:
  "collection_check ty args \<noteq> Ok True \<Longrightarrow> (\<exists>x. collection_check ty args = Throw x) \<or> collection_check ty args = Ok False"
proof (cases "collection_check ty args")
  case UB
  have "collection_check ty args \<noteq> UB"
    by (induction args) (auto simp: bind_outcome_UB_iff validate_defined)
  then show ?thesis using UB by simp
qed auto

lemma collection_remove_get:
  assumes "ht_inv (coll_values c)"
  shows "php_driver_collection_get (fst (php_driver_collection_del c i)) j =
    (if i = j then None else php_driver_collection_get c j)"
proof -
  have "coll_values (fst (php_driver_collection_del c i)) = fst (ht_del (coll_values c) (KInt (sint i)))"
    by (auto simp: php_driver_collection_del_def ht_del_def)
  then show ?thesis
    using ht.lookup_del [OF assms, of "KInt (sint i)" "KInt (sint j)"]
    by (auto simp: php_driver_collection_get_def dest: signed_word_eqI)
qed

section \<open>Properties\<close>

text \<open>
  \<^verbatim>\<open>Collection::add\<close> is all or nothing: in every reachable state, if all arguments are non-null values
  of the element type, they are appended in order, the new number of elements is returned and every
  old index keeps its value; otherwise an exception is thrown or \<^verbatim>\<open>false\<close> returned and the collection is
  as before.
\<close>

theorem collection_add_atomic:
  assumes "collection_reach c"
  shows "if (\<forall>a \<in> set args. a \<noteq> ZNull \<and> php_driver_validate_object a (coll_type c) = Ok True)
    then \<exists>c'. collection_add c args = Ok (c', Some (collection_count c + length args)) \<and>
      collection_values c' = collection_values c @ args \<and>
      (\<forall>i v. php_driver_collection_get c i = Some v \<longrightarrow> php_driver_collection_get c' i = Some v)
    else (\<exists>x. collection_add c args = Throw x) \<or> collection_add c args = Ok (c, None)"
proof (cases "\<forall>a \<in> set args. a \<noteq> ZNull \<and> php_driver_validate_object a (coll_type c) = Ok True")
  case True
  have inv: "ht_inv (coll_values c)" using collection_reach_inv [OF assms] by (simp add: collection_inv_def)
  from collection_add_spec [OF inv True] obtain c' where c':
    "collection_add c args = Ok (c', Some (collection_count c + length args))"
    "ht_data (coll_values c') = ht_data (coll_values c) @
      zip (map (\<lambda>i. KInt (ht_next_free (coll_values c) + int i)) [0..<length args]) args"
    by blast
  have "collection_values c' = collection_values c @ args"
    using c'(2) by (simp add: collection_values_def ht_values_def)
  then show ?thesis using c'(1) True collection_get_add [OF inv True c'(1)] by auto
next
  case False
  then have "collection_check (coll_type c) args \<noteq> Ok True" using collection_check_ok by blast
  from collection_check_fails [OF this] show ?thesis
    using False by (auto simp: collection_add_def)
qed

theorem collection_add_atomic_witness:
  "\<exists>c'. collection_add (php_driver_collection_new (TScalar CASS_INT)) [ZLong 7, ZLong 8] = Ok (c', Some 2) \<and>
     collection_values c' = [ZLong 7, ZLong 8]"
proof -
  have "collection_construct (ArgType (TScalar CASS_INT)) = Ok (php_driver_collection_new (TScalar CASS_INT))"
    by (simp add: collection_construct_def)
  from collection_add_atomic [OF collection_reach.construct [OF this], of "[ZLong 7, ZLong 8]"]
  show ?thesis
    by (auto simp: php_driver_collection_new_def php_driver_validate_object_def expecting_def
        collection_count_def ht_count_def ht_new_def collection_values_def ht_values_def)
qed



end
