(* ===== verification/Php_Tuple.thy ===== *)
theory Php_Tuple
  imports Typed_Record
begin

text \<open>
  \<^verbatim>\<open>ext/src/Tuple.c\<close> and \<^verbatim>\<open>ext/src/Type/Tuple.c\<close>: the class \<^verbatim>\<open>Cassandra\Tuple\<close>. The types are an array with the
  keys 0, 1, \<dots>, here a list; the values an array in the order in which they were set. The iterator is a
  position in the types. Whether the driver library accepts another element type is the argument
  \<open>cass_add\<close>.
\<close>

section \<open>State\<close>

record php_tuple =
  tup_types :: "php_driver_type list"
  tup_values :: "zval htable"
  tup_hashv :: "32 word"
  tup_dirty :: bool
  tup_pos :: nat

definition HT_INVALID_IDX :: nat where
  "HT_INVALID_IDX = 4294967295"

definition php_driver_tuple_new :: "php_driver_type list \<Rightarrow> php_tuple" where
  "php_driver_tuple_new types =
     \<lparr>tup_types = types, tup_values = ht_new, tup_hashv = 0, tup_dirty = True, tup_pos = HT_INVALID_IDX\<rparr>"

section \<open>Operations\<close>

definition php_driver_tuple_set :: "php_tuple \<Rightarrow> 64 word \<Rightarrow> zval \<Rightarrow> php_tuple" where
  "php_driver_tuple_set tuple index object =
     tuple\<lparr>tup_values := ht_update (tup_values tuple) (KInt (sint index)) object, tup_dirty := True\<rparr>"

text \<open>The loop of the constructor over the array of types; a refused type ends it silently.\<close>

fun tuple_add_types ::
  "(php_driver_type list \<Rightarrow> php_driver_type \<Rightarrow> bool) \<Rightarrow> php_driver_type list \<Rightarrow> type_arg list \<Rightarrow> php_driver_type list outcome" where
  "tuple_add_types cass_add types [] = Ok types"
| "tuple_add_types cass_add types (sub_type # rest) =
     bind_outcome (php_driver_type_arg sub_type) (\<lambda>ty.
       if cass_add types ty then tuple_add_types cass_add (types @ [ty]) rest else Ok types)"

definition tuple_construct ::
  "(php_driver_type list \<Rightarrow> php_driver_type \<Rightarrow> bool) \<Rightarrow> type_arg list \<Rightarrow> php_tuple outcome" where
  "tuple_construct cass_add args =
     bind_outcome (tuple_add_types cass_add [] args) (\<lambda>types. Ok (php_driver_tuple_new types))"

definition tuple_field :: "php_tuple \<Rightarrow> 64 word \<Rightarrow> php_driver_type option" where
  "tuple_field self index =
     (if sint index < 0 \<or> int (length (tup_types self)) \<le> sint index then None
      else Some (tup_types self ! nat (sint index)))"

definition tuple_set :: "php_tuple \<Rightarrow> 64 word \<Rightarrow> zval \<Rightarrow> php_tuple outcome" where
  "tuple_set self index value =
     (case tuple_field self index of
        None \<Rightarrow> Throw InvalidArgumentException
      | Some sub_type \<Rightarrow>
          bind_outcome (php_driver_validate_object value sub_type) (\<lambda>valid.
            if \<not> valid then Ok self else Ok (php_driver_tuple_set self index value)))"

definition tuple_get :: "php_tuple \<Rightarrow> 64 word \<Rightarrow> zval outcome" where
  "tuple_get self index =
     (case tuple_field self index of
        None \<Rightarrow> Throw InvalidArgumentException
      | Some _ \<Rightarrow>
          Ok (case ht_find (tup_values self) (KInt (sint index)) of Some value \<Rightarrow> value | None \<Rightarrow> ZNull))"

text \<open>\<^verbatim>\<open>Type\Tuple::create\<close>: no argument at all, or one for every element type.\<close>

fun tuple_fill :: "php_tuple \<Rightarrow> nat \<Rightarrow> zval list \<Rightarrow> php_tuple outcome" where
  "tuple_fill tuple i [] = Ok tuple"
| "tuple_fill tuple i (arg # args) =
     (if length (tup_types tuple) \<le> i then Ok tuple
      else bind_outcome (php_driver_validate_object arg (tup_types tuple ! i)) (\<lambda>valid.
        if \<not> valid then Ok tuple else tuple_fill (php_driver_tuple_set tuple (of_nat i) arg) (i + 1) args))"

definition type_tuple_create :: "php_driver_type list \<Rightarrow> zval list \<Rightarrow> php_tuple outcome" where
  "type_tuple_create types args =
     (if args = [] then Ok (php_driver_tuple_new types)
      else if length args \<noteq> length types then Throw InvalidArgumentException
      else tuple_fill (php_driver_tuple_new types) 0 args)"

definition php_driver_tuple_populate :: "php_tuple \<Rightarrow> zval list" where
  "php_driver_tuple_populate tuple =
     map (\<lambda>index. case ht_find (tup_values tuple) (KInt (int index)) of Some value \<Rightarrow> value | None \<Rightarrow> ZNull)
       [0..<length (tup_types tuple)]"

definition tuple_count :: "php_tuple \<Rightarrow> nat" where
  "tuple_count self = length (tup_types self)"

definition tuple_current :: "php_tuple \<Rightarrow> zval" where
  "tuple_current self =
     (if tup_pos self < length (tup_types self)
      then (case ht_find (tup_values self) (KInt (int (tup_pos self))) of Some value \<Rightarrow> value | None \<Rightarrow> ZNull)
      else ZNull)"

definition tuple_key :: "php_tuple \<Rightarrow> nat option" where
  "tuple_key self = (if tup_pos self < length (tup_types self) then Some (tup_pos self) else None)"

definition tuple_next :: "php_tuple \<Rightarrow> php_tuple" where
  "tuple_next self = (if tup_pos self < length (tup_types self) then self\<lparr>tup_pos := tup_pos self + 1\<rparr> else self)"

definition tuple_valid :: "php_tuple \<Rightarrow> bool" where
  "tuple_valid self \<longleftrightarrow> tup_pos self < length (tup_types self)"

definition tuple_rewind :: "php_tuple \<Rightarrow> php_tuple" where
  "tuple_rewind self = self\<lparr>tup_pos := 0\<rparr>"

definition php_driver_tuple_compare :: "engine \<Rightarrow> php_tuple \<Rightarrow> php_tuple \<Rightarrow> int" where
  "php_driver_tuple_compare e t1 t2 =
     (let result = php_driver_type_compare (TTuple (tup_types t1)) (TTuple (tup_types t2))
      in if result \<noteq> 0 then result
         else if ht_count (tup_values t1) \<noteq> ht_count (tup_values t2)
         then (if ht_count (tup_values t1) < ht_count (tup_values t2) then - 1 else 1)
         else values_compare e (ht_values (tup_values t1)) (ht_values (tup_values t2)))"

section \<open>Interfaces\<close>

interpretation tr: typed_record tuple_field "\<lambda>s k. ht_find (tup_values s) (KInt (sint k))"
  php_driver_tuple_set tuple_set tuple_get
proof
  fix s k k' v
  show "tuple_field (php_driver_tuple_set s k v) = tuple_field s"
    by (rule ext) (simp add: tuple_field_def php_driver_tuple_set_def)
  show "ht_find (tup_values (php_driver_tuple_set s k v)) (KInt (sint k')) =
      (if k' = k then Some v else ht_find (tup_values s) (KInt (sint k')))"
    by (auto simp: php_driver_tuple_set_def ht.lookup_upd dest: signed_word_eqI)
  show "tuple_set s k v = (case tuple_field s k of
      None \<Rightarrow> Throw InvalidArgumentException
    | Some t \<Rightarrow> bind_outcome (php_driver_validate_object v t)
        (\<lambda>valid. Ok (if valid then php_driver_tuple_set s k v else s)))"
    by (cases "tuple_field s k"; cases "php_driver_validate_object v (the (tuple_field s k))")
      (simp_all add: tuple_set_def)
  show "tuple_get s k = (case tuple_field s k of
      None \<Rightarrow> Throw InvalidArgumentException
    | Some t \<Rightarrow> Ok (case ht_find (tup_values s) (KInt (sint k)) of Some v \<Rightarrow> v | None \<Rightarrow> ZNull))"
    by (simp add: tuple_get_def)
qed

interpretation tc: php_cursor php_driver_tuple_populate tup_pos tuple_valid tuple_current tuple_next tuple_rewind
  by unfold_locales
    (auto simp: php_driver_tuple_populate_def tuple_valid_def tuple_current_def tuple_next_def tuple_rewind_def)

section \<open>Reachable states\<close>

text \<open>An argument count is an \<^verbatim>\<open>int\<close>, so \<^verbatim>\<open>create\<close> is only called for fewer than $2^{31}$ types.\<close>

inductive tuple_reach :: "php_tuple \<Rightarrow> bool" where
  construct: "tuple_construct cass_add args = Ok t \<Longrightarrow> tuple_reach t"
| create: "length types < 2147483648 \<Longrightarrow> type_tuple_create types args = Ok t \<Longrightarrow> tuple_reach t"
| assign: "tuple_reach t \<Longrightarrow> tuple_set t index value = Ok t' \<Longrightarrow> tuple_reach t'"
| advance: "tuple_reach t \<Longrightarrow> tuple_reach (tuple_next t)"
| rewind: "tuple_reach t \<Longrightarrow> tuple_reach (tuple_rewind t)"

definition tuple_inv :: "php_tuple \<Rightarrow> bool" where
  "tuple_inv t \<longleftrightarrow> ht_inv (tup_values t) \<and>
     (\<forall>k v. ht_find (tup_values t) k = Some v \<longrightarrow>
        (\<exists>i < length (tup_types t). k = KInt (int i) \<and> php_driver_validate_object v (tup_types t ! i) = Ok True))"

lemma tuple_inv_new: "tuple_inv (php_driver_tuple_new types)"
  by (simp add: tuple_inv_def php_driver_tuple_new_def) (simp add: ht_new_def ht_find_def)

lemma tuple_inv_put:
  assumes inv: "tuple_inv t" and i: "sint k = int i" "i < length (tup_types t)"
    and v: "php_driver_validate_object v (tup_types t ! i) = Ok True"
  shows "tuple_inv (php_driver_tuple_set t k v)"
proof -
  let ?P = "\<lambda>k v. \<exists>i < length (tup_types t). k = KInt (int i) \<and> php_driver_validate_object v (tup_types t ! i) = Ok True"
  have "\<forall>k' v'. ht_find (ht_update (tup_values t) (KInt (sint k)) v) k' = Some v' \<longrightarrow> ?P k' v'"
    by (rule ht.all_upd) (use inv i v in \<open>auto simp: tuple_inv_def\<close>)
  then show ?thesis using inv by (simp add: tuple_inv_def php_driver_tuple_set_def ht.upd_inv)
qed

lemma sint_of_nat: "i < 2147483648 \<Longrightarrow> sint (of_nat i :: 64 word) = int i"
  using sint_of_int_in [of "int i", where 'a = 64] by (simp add: in_int_def)

lemma tuple_inv_fill:
  "tuple_inv t \<Longrightarrow> length (tup_types t) < 2147483648 \<Longrightarrow> tuple_fill t i args = Ok t' \<Longrightarrow>
    tuple_inv t' \<and> tup_types t' = tup_types t"
proof (induction args arbitrary: t i)
  case (Cons arg args)
  show ?case
  proof (cases "i < length (tup_types t) \<and> php_driver_validate_object arg (tup_types t ! i) = Ok True")
    case True
    let ?t = "php_driver_tuple_set t (of_nat i) arg"
    have same: "tup_types ?t = tup_types t" by (simp add: php_driver_tuple_set_def)
    have "tuple_inv ?t"
      by (rule tuple_inv_put [OF Cons.prems(1) sint_of_nat]) (use True Cons.prems(2) in auto)
    from Cons.IH [OF this, of "i + 1"] show ?thesis using Cons.prems(2,3) True same by simp
  next
    case False
    then have "t' = t" using Cons.prems(3) by (auto simp: bind_outcome_Ok_iff split: if_splits)
    then show ?thesis using Cons.prems(1) by simp
  qed
qed auto

lemma tuple_inv_set:
  assumes inv: "tuple_inv t" and r: "tuple_set t index value = Ok t'"
  shows "tuple_inv t'"
proof (cases "t' = t")
  case False
  then obtain ty where f: "tuple_field t index = Some ty" and v: "php_driver_validate_object value ty = Ok True"
    and t': "t' = php_driver_tuple_set t index value"
    using r by (auto simp: tuple_set_def bind_outcome_Ok_iff split: option.splits if_splits)
  have "tuple_inv (php_driver_tuple_set t index value)"
    by (rule tuple_inv_put [OF inv, where i = "nat (sint index)"])
      (use f v in \<open>auto simp: tuple_field_def split: if_splits\<close>)
  then show ?thesis using t' by simp
qed (use inv in simp)

lemma tuple_reach_inv: "tuple_reach t \<Longrightarrow> tuple_inv t"
proof (induction rule: tuple_reach.induct)
  case (construct cass_add args t)
  then show ?case using tuple_inv_new by (auto simp: tuple_construct_def bind_outcome_Ok_iff)
next
  case (create types args t)
  then show ?case using tuple_inv_new tuple_inv_fill [OF tuple_inv_new, of types 0 args t]
    by (auto simp: type_tuple_create_def php_driver_tuple_new_def split: if_splits)
next
  case (assign t index v t')
  then show ?case using tuple_inv_set by blast
next
  case (advance t)
  then show ?case by (simp add: tuple_inv_def tuple_next_def)
next
  case (rewind t)
  then show ?case by (simp add: tuple_inv_def tuple_rewind_def)
qed

section \<open>Tuples that are filled in order\<close>

lemma tuple_fill_data:
  assumes "\<forall>j < length args. php_driver_validate_object (args ! j) (tup_types t ! (i + j)) = Ok True"
    and "i + length args \<le> length (tup_types t)" and "length (tup_types t) < 2147483648"
    and "map fst (ht_data (tup_values t)) = map (\<lambda>j. KInt (int j)) [0..<i]"
  shows "\<exists>t'. tuple_fill t i args = Ok t' \<and> tup_types t' = tup_types t \<and>
    ht_values (tup_values t') = ht_values (tup_values t) @ args"
  using assms
proof (induction args arbitrary: t i)
  case (Cons a args)
  let ?t = "php_driver_tuple_set t (of_nat i) a"
  have i: "i < length (tup_types t)" and s: "sint (of_nat i :: 64 word) = int i"
    using Cons.prems(2,3) sint_of_nat [of i] by auto
  have new: "KInt (int i) \<notin> fst ` set (ht_data (tup_values t))"
    using arg_cong [OF Cons.prems(4), of set] by auto
  have same: "tup_types ?t = tup_types t" by (simp add: php_driver_tuple_set_def)
  have d: "ht_data (tup_values ?t) = ht_data (tup_values t) @ [(KInt (int i), a)]"
    using new s by (simp add: php_driver_tuple_set_def ht_update_def)
  have v: "php_driver_validate_object a (tup_types t ! i) = Ok True" using Cons.prems(1) by force
  have "\<forall>j < length args. php_driver_validate_object (args ! j) (tup_types ?t ! (i + 1 + j)) = Ok True"
    using Cons.prems(1) same by force
  from Cons.IH [OF this] obtain t' where "tuple_fill ?t (i + 1) args = Ok t'" "tup_types t' = tup_types t"
    "ht_values (tup_values t') = ht_values (tup_values ?t) @ args"
    using Cons.prems(2-4) same d by auto
  then show ?case using i v d by (simp add: ht_values_def)
qed auto

lemma type_tuple_create_all:
  assumes "length args = length types" and "length types < 2147483648"
    and "\<forall>j < length args. php_driver_validate_object (args ! j) (types ! j) = Ok True"
  shows "\<exists>t. type_tuple_create types args = Ok t \<and> tup_types t = types \<and> ht_values (tup_values t) = args"
  using tuple_fill_data [of args "php_driver_tuple_new types" 0] assms
  by (cases "args = []") (auto simp: type_tuple_create_def php_driver_tuple_new_def ht_new_def ht_values_def)

lemma tuple_compare_0:
  "php_driver_tuple_compare e t1 t2 = 0 \<longleftrightarrow>
    php_driver_type_compare (TTuple (tup_types t1)) (TTuple (tup_types t2)) = 0 \<and>
    list_all2 (\<lambda>a b. php_driver_value_compare e a b = 0) (ht_values (tup_values t1)) (ht_values (tup_values t2))"
proof -
  have "ht_count h = length (ht_values h)" for h :: "zval htable" by (simp add: ht_count_def ht_values_def)
  then show ?thesis
    by (auto simp: php_driver_tuple_compare_def Let_def values_compare_0 dest: list_all2_lengthD)
qed

lemma populate_set:
  assumes "0 \<le> sint k" and "sint k < int (tuple_count t)"
  shows "php_driver_tuple_populate (php_driver_tuple_set t k v) = (php_driver_tuple_populate t)[nat (sint k) := v]"
proof (rule nth_equalityI)
  fix i assume i: "i < length (php_driver_tuple_populate (php_driver_tuple_set t k v))"
  have same: "tup_types (php_driver_tuple_set t k v) = tup_types t" by (simp add: php_driver_tuple_set_def)
  show "php_driver_tuple_populate (php_driver_tuple_set t k v) ! i = (php_driver_tuple_populate t)[nat (sint k) := v] ! i"
    using i assms by (auto simp: php_driver_tuple_populate_def same nth_list_update tuple_count_def)
      (auto simp: php_driver_tuple_set_def ht.lookup_upd)
qed (simp add: php_driver_tuple_populate_def php_driver_tuple_set_def)

section \<open>Properties\<close>

text \<open>
  \<^verbatim>\<open>Tuple::set\<close> and \<^verbatim>\<open>Tuple::get\<close> accept exactly the indices from 0 to the number of types; a value of the
  type at its index is read back from there, while the other indices keep theirs; a value of another
  type changes nothing.
\<close>

theorem tuple_set_get:
  "(if 0 \<le> sint k \<and> sint k < int (tuple_count t) then
      (if php_driver_validate_object v (tup_types t ! nat (sint k)) = Ok True
       then \<exists>t'. tuple_set t k v = Ok t' \<and> tuple_get t' k = Ok v \<and> tup_types t' = tup_types t \<and>
         (\<forall>k'. k' \<noteq> k \<longrightarrow> tuple_get t' k' = tuple_get t k')
       else tuple_set t k v = Ok t \<or> (\<exists>x. tuple_set t k v = Throw x))
    else tuple_set t k v = Throw InvalidArgumentException \<and> tuple_get t k = Throw InvalidArgumentException)"
proof (cases "0 \<le> sint k \<and> sint k < int (tuple_count t)")
  case True
  then have f: "tuple_field t k = Some (tup_types t ! nat (sint k))"
    by (simp add: tuple_field_def tuple_count_def)
  show ?thesis
  proof (cases "php_driver_validate_object v (tup_types t ! nat (sint k)) = Ok True")
    case ok: True
    then have "tuple_set t k v = Ok (php_driver_tuple_set t k v)" using f by (simp add: tuple_set_def)
    moreover have "tup_types (php_driver_tuple_set t k v) = tup_types t" by (simp add: php_driver_tuple_set_def)
    ultimately show ?thesis using True ok tr.set_get [OF f ok] by auto
  next
    case False
    then show ?thesis using True tr.set_wrong [OF f False] by simp
  qed
next
  case False
  then have "tuple_field t k = None" by (auto simp: tuple_field_def tuple_count_def)
  then show ?thesis using False tr.unknown_field [of t k v] by auto
qed

theorem tuple_set_get_witness:
  "\<exists>t'. tuple_set (php_driver_tuple_new [TScalar CASS_INT]) 0 (ZLong 7) = Ok t' \<and> tuple_get t' 0 = Ok (ZLong 7)"
  using tuple_set_get [of 0 "php_driver_tuple_new [TScalar CASS_INT]" "ZLong 7"]
  by (auto simp: php_driver_tuple_new_def tuple_count_def php_driver_validate_object_def expecting_def)

text \<open>
  C8. In every reachable state of a tuple, every value is of the type at its index; a \<^verbatim>\<open>foreach\<close> loop ends and
  visits one value per type, the one that \<^verbatim>\<open>get\<close> returns for the index; and \<^verbatim>\<open>set\<close> of a value of the type at
  an index replaces just that one of the values.
\<close>

theorem tuple_reachable:
  assumes "tuple_reach t"
  shows "(\<forall>i < tuple_count t. \<forall>v. ht_find (tup_values t) (KInt (int i)) = Some v \<longrightarrow>
      php_driver_validate_object v (tup_types t ! i) = Ok True) \<and>
    php_foreach tuple_valid tuple_current tuple_next (tuple_count t + 1) (tuple_rewind t) =
      Some (php_driver_tuple_populate t) \<and>
    length (php_driver_tuple_populate t) = tuple_count t \<and>
    (\<forall>k. 0 \<le> sint k \<longrightarrow> sint k < int (tuple_count t) \<longrightarrow>
      tuple_get t k = Ok (php_driver_tuple_populate t ! nat (sint k)) \<and>
      (\<forall>v. php_driver_validate_object v (tup_types t ! nat (sint k)) = Ok True \<longrightarrow>
        (\<exists>t'. tuple_set t k v = Ok t' \<and>
          php_driver_tuple_populate t' = (php_driver_tuple_populate t)[nat (sint k) := v])))"
proof -
  have inv: "tuple_inv t" by (rule tuple_reach_inv [OF assms])
  have len: "length (php_driver_tuple_populate t) = tuple_count t"
    by (simp add: php_driver_tuple_populate_def tuple_count_def)
  have "php_foreach tuple_valid tuple_current tuple_next (tuple_count t + 1) (tuple_rewind t) =
      Some (php_driver_tuple_populate t)"
    by (rule tc.foreach_all) (simp add: len)
  moreover have "tuple_get t k = Ok (php_driver_tuple_populate t ! nat (sint k))"
    if k: "0 \<le> sint k" "sint k < int (tuple_count t)" for k
    using k by (auto simp: tuple_get_def tuple_field_def php_driver_tuple_populate_def tuple_count_def nat_less_iff)
  moreover have "\<exists>t'. tuple_set t k v = Ok t' \<and> php_driver_tuple_populate t' = (php_driver_tuple_populate t)[nat (sint k) := v]"
    if "0 \<le> sint k" "sint k < int (tuple_count t)" "php_driver_validate_object v (tup_types t ! nat (sint k)) = Ok True" for k v
    using that populate_set [of k t v] by (simp add: tuple_set_def tuple_field_def tuple_count_def)
  moreover have "php_driver_validate_object v (tup_types t ! i) = Ok True"
    if "ht_find (tup_values t) (KInt (int i)) = Some v" for i v
    using inv that by (force simp: tuple_inv_def)
  ultimately show ?thesis using len by blast
qed

text \<open>A pair whose second value is set first.\<close>

theorem tuple_reachable_witness:
  "\<exists>t. tuple_reach t \<and> php_foreach tuple_valid tuple_current tuple_next 3 (tuple_rewind t) = Some [ZLong 7, ZLong 9] \<and>
     tuple_get t 1 = Ok (ZLong 9)"
proof -
  let ?n = "php_driver_tuple_new [TScalar CASS_INT, TScalar CASS_INT]"
  have r0: "tuple_reach ?n"
    by (rule tuple_reach.construct [of "\<lambda>_ _. True" "[ArgType (TScalar CASS_INT), ArgType (TScalar CASS_INT)]"])
      (simp add: tuple_construct_def)
  define t where "t = php_driver_tuple_set (php_driver_tuple_set ?n 1 (ZLong 9)) 0 (ZLong 7)"
  have s: "tuple_set ?n 1 (ZLong 9) = Ok (php_driver_tuple_set ?n 1 (ZLong 9))"
    "tuple_set (php_driver_tuple_set ?n 1 (ZLong 9)) 0 (ZLong 7) = Ok t"
    by (simp_all add: t_def tuple_set_def tuple_field_def php_driver_tuple_set_def php_driver_tuple_new_def
        php_driver_validate_object_def expecting_def)
  have r: "tuple_reach t" by (rule tuple_reach.assign [OF tuple_reach.assign [OF r0 s(1)] s(2)])
  have "php_driver_tuple_populate t = [ZLong 7, ZLong 9]" "tuple_count t = 2"
    by (simp_all add: t_def php_driver_tuple_populate_def php_driver_tuple_set_def php_driver_tuple_new_def ht_new_def
        ht_update_def ht_find_def tuple_count_def numeral_2_eq_2)
  then show ?thesis using r tuple_reachable [OF r]
    by (intro exI [of _ t]) (simp add: numeral_3_eq_3 numeral_2_eq_2 del: php_foreach.simps)
qed

text \<open>
  Two tuples made by \<^verbatim>\<open>Type\Tuple::create\<close> with a value for every type compare equal exactly when
  the types do and the values at each index do. Not so for tuples that are set index by index: the
  comparison goes by the order of setting. Two tuples whose every \<^verbatim>\<open>get\<close> agrees compare unequal when they
  were set in different orders, and \<^verbatim>\<open>(7, null)\<close> compares equal to \<^verbatim>\<open>(null, 7)\<close>.
\<close>

theorem tuple_compare_by_insertion:
  assumes "length args1 = length types1" and "length types1 < 2147483648"
    and "\<forall>j < length args1. php_driver_validate_object (args1 ! j) (types1 ! j) = Ok True"
    and "length args2 = length types2" and "length types2 < 2147483648"
    and "\<forall>j < length args2. php_driver_validate_object (args2 ! j) (types2 ! j) = Ok True"
  shows "(\<exists>t1 t2. type_tuple_create types1 args1 = Ok t1 \<and> type_tuple_create types2 args2 = Ok t2 \<and>
      (php_driver_tuple_compare e t1 t2 = 0 \<longleftrightarrow> php_driver_type_compare (TTuple types1) (TTuple types2) = 0 \<and>
        list_all2 (\<lambda>a b. php_driver_value_compare e a b = 0) args1 args2)) \<and>
    (let t0 = php_driver_tuple_new [TScalar CASS_INT, TScalar CASS_INT];
         up = php_driver_tuple_set (php_driver_tuple_set t0 0 (ZLong 7)) 1 (ZLong 8);
         down = php_driver_tuple_set (php_driver_tuple_set t0 1 (ZLong 8)) 0 (ZLong 7);
         left = php_driver_tuple_set t0 0 (ZLong 7); right = php_driver_tuple_set t0 1 (ZLong 7)
     in (\<forall>k. tuple_get up k = tuple_get down k) \<and> php_driver_tuple_compare e up down \<noteq> 0 \<and>
        tuple_get left 0 \<noteq> tuple_get right 0 \<and> php_driver_tuple_compare e left right = 0)"
proof -
  obtain t1 where t1: "type_tuple_create types1 args1 = Ok t1" "tup_types t1 = types1" "ht_values (tup_values t1) = args1"
    using type_tuple_create_all [OF assms(1-3)] by blast
  obtain t2 where t2: "type_tuple_create types2 args2 = Ok t2" "tup_types t2 = types2" "ht_values (tup_values t2) = args2"
    using type_tuple_create_all [OF assms(4-6)] by blast
  have "php_driver_tuple_compare e t1 t2 = 0 \<longleftrightarrow> php_driver_type_compare (TTuple types1) (TTuple types2) = 0 \<and>
      list_all2 (\<lambda>a b. php_driver_value_compare e a b = 0) args1 args2"
    using tuple_compare_0 [of e t1 t2] t1 t2 by simp
  moreover have "sint (1 :: 64 word) = 1" "sint (0 :: 64 word) = 0" by simp_all
  then have "let t0 = php_driver_tuple_new [TScalar CASS_INT, TScalar CASS_INT];
         up = php_driver_tuple_set (php_driver_tuple_set t0 0 (ZLong 7)) 1 (ZLong 8);
         down = php_driver_tuple_set (php_driver_tuple_set t0 1 (ZLong 8)) 0 (ZLong 7);
         left = php_driver_tuple_set t0 0 (ZLong 7); right = php_driver_tuple_set t0 1 (ZLong 7)
     in (\<forall>k. tuple_get up k = tuple_get down k) \<and> php_driver_tuple_compare e up down \<noteq> 0 \<and>
        tuple_get left 0 \<noteq> tuple_get right 0 \<and> php_driver_tuple_compare e left right = 0"
    by (auto simp: Let_def php_driver_tuple_set_def php_driver_tuple_new_def ht_new_def ht_update_def ht_values_def
        tuple_get_def tuple_field_def ht_find_def tuple_compare_0 php_driver_type_compare.simps
        php_driver_value_compare_def)
  ultimately show ?thesis using t1(1) t2(1) by blast
qed

theorem tuple_compare_by_insertion_witness:
  "\<exists>t. type_tuple_create [TScalar CASS_INT] [ZLong 7] = Ok t \<and> php_driver_tuple_compare engine_ref t t = 0"
  using tuple_compare_by_insertion [of "[ZLong 7]" "[TScalar CASS_INT]" "[ZLong 7]" "[TScalar CASS_INT]" engine_ref]
  by (auto simp: php_driver_validate_object_def expecting_def php_driver_value_compare_def php_driver_type_compare.simps)

end
