(* ===== verification/Php_Udt.thy ===== *)
theory Php_Udt
  imports Typed_Record
begin

text \<open>
  \<^verbatim>\<open>ext/src/UserTypeValue.c\<close> and \<^verbatim>\<open>ext/src/Type/UserType.c\<close>: the class \<^verbatim>\<open>Cassandra\UserTypeValue\<close>, values for the
  named fields of a user type, and the operations of the type itself. The fields are an array with
  string keys, here an association list in its order. Whether the driver library accepts another
  field is the argument \<open>cass_add\<close>.
\<close>

section \<open>State\<close>

type_synonym udt_fields = "(string \<times> php_driver_type) list"

record php_udt =
  udt_keyspace :: "string option"
  udt_type_name :: "string option"
  udt_types :: udt_fields
  udt_values :: "zval htable"
  udt_hashv :: "32 word"
  udt_dirty :: bool
  udt_pos :: nat

definition php_driver_user_type_value_new :: "string option \<Rightarrow> string option \<Rightarrow> udt_fields \<Rightarrow> php_udt" where
  "php_driver_user_type_value_new keyspace type_name types =
     \<lparr>udt_keyspace = keyspace, udt_type_name = type_name, udt_types = types, udt_values = ht_new, udt_hashv = 0,
      udt_dirty = True, udt_pos = 4294967295\<rparr>"

text \<open>The type object that the value refers to.\<close>

definition udt_type :: "php_udt \<Rightarrow> php_driver_type" where
  "udt_type self = TUdt (udt_keyspace self) (udt_type_name self) (udt_types self)"

section \<open>The type\<close>

text \<open>\<^verbatim>\<open>php_driver_type_user_type_add\<close>: of two fields with the same name the array keeps the first.\<close>

definition php_driver_type_user_type_add ::
  "((string \<times> 't) list \<Rightarrow> string \<Rightarrow> 't \<Rightarrow> bool) \<Rightarrow> (string \<times> 't) list \<Rightarrow> string \<Rightarrow> 't \<Rightarrow> (string \<times> 't) list \<times> bool" where
  "php_driver_type_user_type_add cass_add types name sub_type =
     (if \<not> cass_add types name sub_type then (types, False)
      else (if name \<in> fst ` set types then types else types @ [(name, sub_type)], True))"

fun type_with_name :: "php_driver_type \<Rightarrow> string \<Rightarrow> php_driver_type" where
  "type_with_name (TUdt keyspace type_name types) name = TUdt keyspace (Some (cstr name)) types"
| "type_with_name ty name = ty"

fun type_with_keyspace :: "php_driver_type \<Rightarrow> string \<Rightarrow> php_driver_type" where
  "type_with_keyspace (TUdt keyspace type_name types) ks = TUdt (Some (cstr ks)) type_name types"
| "type_with_keyspace ty ks = ty"

fun type_user_name :: "php_driver_type \<Rightarrow> string" where
  "type_user_name (TUdt _ (Some name) _) = name"
| "type_user_name _ = []"

fun type_user_keyspace :: "php_driver_type \<Rightarrow> string" where
  "type_user_keyspace (TUdt (Some keyspace) _ _) = keyspace"
| "type_user_keyspace _ = []"

section \<open>Operations\<close>

definition php_driver_user_type_value_set :: "php_udt \<Rightarrow> string \<Rightarrow> zval \<Rightarrow> php_udt" where
  "php_driver_user_type_value_set self name object =
     self\<lparr>udt_values := ht_update (udt_values self) (KStr name) object, udt_dirty := True\<rparr>"

text \<open>The loop of the constructor over the array of types; a refused field ends it silently.\<close>

fun udt_add_types ::
  "(udt_fields \<Rightarrow> string \<Rightarrow> php_driver_type \<Rightarrow> bool) \<Rightarrow> udt_fields \<Rightarrow> (zkey \<times> type_arg) list \<Rightarrow> udt_fields outcome" where
  "udt_add_types cass_add types [] = Ok types"
| "udt_add_types cass_add types ((KInt _, sub_type) # rest) = Throw InvalidArgumentException"
| "udt_add_types cass_add types ((KStr name, sub_type) # rest) =
     bind_outcome (php_driver_type_arg sub_type) (\<lambda>ty.
       case php_driver_type_user_type_add cass_add types name ty of
         (types', True) \<Rightarrow> udt_add_types cass_add types' rest
       | (_, False) \<Rightarrow> Ok types)"

definition udt_construct ::
  "(udt_fields \<Rightarrow> string \<Rightarrow> php_driver_type \<Rightarrow> bool) \<Rightarrow> (zkey \<times> type_arg) list \<Rightarrow> php_udt outcome" where
  "udt_construct cass_add args =
     bind_outcome (udt_add_types cass_add [] args) (\<lambda>types. Ok (php_driver_user_type_value_new None None types))"

definition udt_field :: "php_udt \<Rightarrow> string \<Rightarrow> php_driver_type option" where
  "udt_field self name = map_of (udt_types self) name"

definition udt_set :: "php_udt \<Rightarrow> string \<Rightarrow> zval \<Rightarrow> php_udt outcome" where
  "udt_set self name value =
     (case udt_field self name of
        None \<Rightarrow> Throw InvalidArgumentException
      | Some sub_type \<Rightarrow>
          bind_outcome (php_driver_validate_object value sub_type) (\<lambda>valid.
            if \<not> valid then Ok self else Ok (php_driver_user_type_value_set self name value)))"

definition udt_get :: "php_udt \<Rightarrow> string \<Rightarrow> zval outcome" where
  "udt_get self name =
     (case udt_field self name of
        None \<Rightarrow> Throw InvalidArgumentException
      | Some _ \<Rightarrow> Ok (case ht_find (udt_values self) (KStr name) of Some value \<Rightarrow> value | None \<Rightarrow> ZNull))"

text \<open>\<^verbatim>\<open>Type\UserType::create\<close> takes names and values in turn; a value of a wrong collection type ends it silently.\<close>

fun udt_fill :: "php_udt \<Rightarrow> zval list \<Rightarrow> php_udt outcome" where
  "udt_fill self (ZString name # value # args) =
     (case udt_field self name of
        None \<Rightarrow> Throw InvalidArgumentException
      | Some sub_type \<Rightarrow>
          bind_outcome (php_driver_validate_object value sub_type) (\<lambda>valid.
            if \<not> valid then Ok self else udt_fill (php_driver_user_type_value_set self name value) args))"
| "udt_fill self (_ # _ # args) = Throw InvalidArgumentException"
| "udt_fill self _ = Ok self"

definition type_user_type_create ::
  "string option \<Rightarrow> string option \<Rightarrow> udt_fields \<Rightarrow> zval list \<Rightarrow> php_udt outcome" where
  "type_user_type_create keyspace type_name types args =
     (if odd (length args) then Throw InvalidArgumentException
      else udt_fill (php_driver_user_type_value_new keyspace type_name types) args)"

text \<open>
  The array of \<^verbatim>\<open>values\<close> is filled with \<^verbatim>\<open>add_assoc_zval_ex\<close>, which turns a name that is the decimal form of
  a 64-bit integer into an integer key.
\<close>

definition symtable_key :: "string \<Rightarrow> zkey" where
  "symtable_key s =
     (let i = (case s of
                 [] \<Rightarrow> 0
               | c # cs \<Rightarrow> if c = CHR ''-'' then - int (fst (scan_digits 10 0 cs)) else int (fst (scan_digits 10 0 s)))
      in if show_int i = s \<and> - (2 ^ 63) \<le> i \<and> i < 2 ^ 63 then KInt i else KStr s)"

definition udt_value :: "php_udt \<Rightarrow> string \<Rightarrow> zval" where
  "udt_value self name = (case ht_find (udt_values self) (KStr name) of Some value \<Rightarrow> value | None \<Rightarrow> ZNull)"

definition php_driver_user_type_value_populate :: "php_udt \<Rightarrow> zval htable" where
  "php_driver_user_type_value_populate self =
     fold (\<lambda>(name, _) a. ht_update a (symtable_key name) (udt_value self name)) (udt_types self) ht_new"

definition udt_count :: "php_udt \<Rightarrow> nat" where
  "udt_count self = length (udt_types self)"

definition udt_key :: "php_udt \<Rightarrow> string option" where
  "udt_key self = (if udt_pos self < length (udt_types self) then Some (fst (udt_types self ! udt_pos self)) else None)"

definition udt_current :: "php_udt \<Rightarrow> zval" where
  "udt_current self = (case udt_key self of Some key \<Rightarrow> udt_value self key | None \<Rightarrow> ZNull)"

definition udt_next :: "php_udt \<Rightarrow> php_udt" where
  "udt_next self = (if udt_pos self < length (udt_types self) then self\<lparr>udt_pos := udt_pos self + 1\<rparr> else self)"

definition udt_valid :: "php_udt \<Rightarrow> bool" where
  "udt_valid self \<longleftrightarrow> udt_pos self < length (udt_types self)"

definition udt_rewind :: "php_udt \<Rightarrow> php_udt" where
  "udt_rewind self = self\<lparr>udt_pos := 0\<rparr>"

definition php_driver_user_type_value_compare :: "engine \<Rightarrow> php_udt \<Rightarrow> php_udt \<Rightarrow> int" where
  "php_driver_user_type_value_compare e u1 u2 =
     (let result = php_driver_type_compare (udt_type u1) (udt_type u2)
      in if result \<noteq> 0 then result
         else if ht_count (udt_values u1) \<noteq> ht_count (udt_values u2)
         then (if ht_count (udt_values u1) < ht_count (udt_values u2) then - 1 else 1)
         else values_compare e (ht_values (udt_values u1)) (ht_values (udt_values u2)))"

section \<open>Interfaces\<close>

interpretation ur: typed_record udt_field "\<lambda>s k. ht_find (udt_values s) (KStr k)"
  php_driver_user_type_value_set udt_set udt_get
proof
  fix s k k' v
  show "udt_field (php_driver_user_type_value_set s k v) = udt_field s"
    by (rule ext) (simp add: udt_field_def php_driver_user_type_value_set_def)
  show "ht_find (udt_values (php_driver_user_type_value_set s k v)) (KStr k') =
      (if k' = k then Some v else ht_find (udt_values s) (KStr k'))"
    by (simp add: php_driver_user_type_value_set_def ht.lookup_upd)
  show "udt_set s k v = (case udt_field s k of
      None \<Rightarrow> Throw InvalidArgumentException
    | Some t \<Rightarrow> bind_outcome (php_driver_validate_object v t)
        (\<lambda>valid. Ok (if valid then php_driver_user_type_value_set s k v else s)))"
    by (cases "udt_field s k"; cases "php_driver_validate_object v (the (udt_field s k))")
      (simp_all add: udt_set_def)
  show "udt_get s k = (case udt_field s k of
      None \<Rightarrow> Throw InvalidArgumentException
    | Some t \<Rightarrow> Ok (case ht_find (udt_values s) (KStr k) of Some v \<Rightarrow> v | None \<Rightarrow> ZNull))"
    by (simp add: udt_get_def)
qed

lemma udt_value_same [simp]: "udt_value (s\<lparr>udt_pos := n\<rparr>) = udt_value s"
  by (rule ext) (simp add: udt_value_def)

interpretation uc: php_cursor "\<lambda>s. map (\<lambda>(name, _). (Some name, udt_value s name)) (udt_types s)" udt_pos udt_valid
  "\<lambda>s. (udt_key s, udt_current s)" udt_next udt_rewind
  by unfold_locales
    (auto simp: udt_valid_def udt_key_def udt_current_def udt_next_def udt_rewind_def split_def)

section \<open>Reachable states\<close>

text \<open>The field names of a type are distinct, since they are the keys of an array.\<close>

inductive udt_reach :: "php_udt \<Rightarrow> bool" where
  construct: "udt_construct cass_add args = Ok u \<Longrightarrow> udt_reach u"
| create: "distinct (map fst types) \<Longrightarrow> type_user_type_create keyspace type_name types args = Ok u \<Longrightarrow> udt_reach u"
| assign: "udt_reach u \<Longrightarrow> udt_set u name v = Ok u' \<Longrightarrow> udt_reach u'"
| advance: "udt_reach u \<Longrightarrow> udt_reach (udt_next u)"
| rewind: "udt_reach u \<Longrightarrow> udt_reach (udt_rewind u)"

definition udt_inv :: "php_udt \<Rightarrow> bool" where
  "udt_inv u \<longleftrightarrow> ht_inv (udt_values u) \<and> distinct (map fst (udt_types u)) \<and>
     (\<forall>k v. ht_find (udt_values u) k = Some v \<longrightarrow>
        (\<exists>n t. k = KStr n \<and> udt_field u n = Some t \<and> php_driver_validate_object v t = Ok True))"

lemma udt_inv_new: "distinct (map fst types) \<Longrightarrow> udt_inv (php_driver_user_type_value_new keyspace type_name types)"
  by (simp add: udt_inv_def php_driver_user_type_value_new_def) (simp add: ht_new_def ht_find_def)

lemma user_type_add_distinct:
  "distinct (map fst types) \<Longrightarrow> distinct (map fst (fst (php_driver_type_user_type_add cass_add types name ty)))"
  by (simp add: php_driver_type_user_type_add_def)

lemma udt_add_types_distinct:
  "udt_add_types cass_add types args = Ok types' \<Longrightarrow> distinct (map fst types) \<Longrightarrow> distinct (map fst types')"
proof (induction args arbitrary: types)
  case (Cons arg args)
  obtain k sub where arg: "arg = (k, sub)" by (cases arg)
  show ?case
  proof (cases k)
    case (KStr name)
    then obtain ty where "php_driver_type_arg sub = Ok ty"
      "(case php_driver_type_user_type_add cass_add types name ty of
         (types', True) \<Rightarrow> udt_add_types cass_add types' args | (_, False) \<Rightarrow> Ok types) = Ok types'"
      using Cons.prems(1) arg by (auto simp: bind_outcome_Ok_iff)
    then show ?thesis
      using Cons.IH [of "fst (php_driver_type_user_type_add cass_add types name ty)"] Cons.prems(2)
        user_type_add_distinct [of types cass_add name ty]
      by (auto split: prod.splits bool.splits)
  qed (use Cons.prems(1) arg in simp)
qed simp

lemma udt_inv_put:
  assumes inv: "udt_inv u" and f: "udt_field u n = Some t" and v: "php_driver_validate_object v t = Ok True"
  shows "udt_inv (php_driver_user_type_value_set u n v)"
proof -
  let ?P = "\<lambda>k v. \<exists>n t. k = KStr n \<and> udt_field u n = Some t \<and> php_driver_validate_object v t = Ok True"
  have "\<forall>k' v'. ht_find (ht_update (udt_values u) (KStr n) v) k' = Some v' \<longrightarrow> ?P k' v'"
    by (rule ht.all_upd) (use inv f v in \<open>auto simp: udt_inv_def\<close>)
  moreover have "udt_field (php_driver_user_type_value_set u n v) = udt_field u" by (rule ur.field_put)
  ultimately show ?thesis using inv by (simp add: udt_inv_def php_driver_user_type_value_set_def ht.upd_inv)
qed

lemma udt_inv_fill: "udt_inv u \<Longrightarrow> udt_fill u args = Ok u' \<Longrightarrow> udt_inv u'"
proof (induction u args rule: udt_fill.induct)
  case (1 u name v args)
  then show ?case using udt_inv_put [OF 1(2)]
    by (auto simp: bind_outcome_Ok_iff split: option.splits if_splits)
qed auto

lemma udt_inv_set: "udt_inv u \<Longrightarrow> udt_set u n v = Ok u' \<Longrightarrow> udt_inv u'"
  using udt_inv_put by (auto simp: udt_set_def bind_outcome_Ok_iff split: option.splits if_splits)

lemma udt_field_same [simp]: "udt_field (udt_next u) = udt_field u" "udt_field (udt_rewind u) = udt_field u"
  by (rule ext, simp add: udt_field_def udt_next_def udt_rewind_def)+

lemma udt_reach_inv: "udt_reach u \<Longrightarrow> udt_inv u"
proof (induction rule: udt_reach.induct)
  case (construct cass_add args u)
  then show ?case
    using udt_inv_new udt_add_types_distinct by (force simp: udt_construct_def bind_outcome_Ok_iff)
next
  case (create types keyspace type_name args u)
  then show ?case using udt_inv_fill [OF udt_inv_new] by (auto simp: type_user_type_create_def split: if_splits)
next
  case (assign u name v u')
  then show ?case using udt_inv_set by blast
next
  case (advance u)
  then show ?case by (simp add: udt_inv_def) (simp add: udt_next_def)
next
  case (rewind u)
  then show ?case by (simp add: udt_inv_def) (simp add: udt_rewind_def)
qed

section \<open>The array of values\<close>

lemma symtable_key_inj: "symtable_key s = symtable_key t \<Longrightarrow> s = t"
  by (auto simp: symtable_key_def Let_def split: if_splits)

lemma populate_data:
  assumes "distinct (map fst fs)" and "ht_inv h"
    and "\<forall>n \<in> fst ` set fs. symtable_key n \<notin> fst ` set (ht_data h)"
  shows "ht_data (fold (\<lambda>(name, _) a. ht_update a (symtable_key name) (f name)) fs h) =
    ht_data h @ map (\<lambda>(name, _). (symtable_key name, f name)) fs"
  using assms
proof (induction fs arbitrary: h)
  case (Cons x fs)
  obtain n t where x: "x = (n, t)" by (cases x)
  let ?h = "ht_update h (symtable_key n) (f n)"
  have d: "ht_data ?h = ht_data h @ [(symtable_key n, f n)]" using Cons.prems(3) x by (simp add: ht_update_def)
  have "\<forall>m \<in> fst ` set fs. symtable_key m \<notin> fst ` set (ht_data ?h)"
    using Cons.prems(1,3) d x by (auto dest!: symtable_key_inj)
  then show ?case using Cons.IH [of ?h] Cons.prems(1) d x ht.upd_inv [OF Cons.prems(2)] by simp
qed simp

lemma udt_populate:
  "distinct (map fst (udt_types u)) \<Longrightarrow>
    ht_data (php_driver_user_type_value_populate u) =
      map (\<lambda>(name, _). (symtable_key name, udt_value u name)) (udt_types u)"
  using populate_data [of "udt_types u" ht_new "udt_value u"]
  by (simp add: php_driver_user_type_value_populate_def) (simp add: ht_new_def)

lemma udt_get_value: "udt_get u n = (if n \<in> fst ` set (udt_types u) then Ok (udt_value u n) else Throw InvalidArgumentException)"
  by (auto simp: udt_get_def udt_field_def udt_value_def map_of_eq_None_iff split: option.splits)
    (force dest: map_of_SomeD)

section \<open>Properties\<close>

text \<open>
  C9. \<^verbatim>\<open>UserTypeValue::set\<close> and \<^verbatim>\<open>get\<close> accept exactly the names of the fields; a value of the type of its
  field is read back under its name, while the other names keep theirs; a value of another type changes
  nothing.
\<close>

theorem udt_set_get:
  "case map_of (udt_types u) n of
     None \<Rightarrow> udt_set u n v = Throw InvalidArgumentException \<and> udt_get u n = Throw InvalidArgumentException
   | Some ty \<Rightarrow>
      (if php_driver_validate_object v ty = Ok True
       then \<exists>u'. udt_set u n v = Ok u' \<and> udt_get u' n = Ok v \<and> (\<forall>m. m \<noteq> n \<longrightarrow> udt_get u' m = udt_get u m)
       else udt_set u n v = Ok u \<or> (\<exists>x. udt_set u n v = Throw x))"
proof (cases "map_of (udt_types u) n")
  case None
  then show ?thesis using ur.unknown_field [of u n v] by (simp add: udt_field_def)
next
  case (Some ty)
  then have "udt_field u n = Some ty" by (simp add: udt_field_def)
  from ur.set_get [OF this, of v] ur.set_wrong [OF this, of v] Some show ?thesis
    by (cases "php_driver_validate_object v ty = Ok True") auto
qed

theorem udt_set_get_witness:
  "\<exists>u. udt_set (php_driver_user_type_value_new None None [(''age'', TScalar CASS_INT)]) ''age'' (ZLong 7) = Ok u \<and>
     udt_get u ''age'' = Ok (ZLong 7)"
  using udt_set_get [of "php_driver_user_type_value_new None None [(''age'', TScalar CASS_INT)]" "''age''" "ZLong 7"]
  by (auto simp: php_driver_user_type_value_new_def php_driver_validate_object_def expecting_def)

text \<open>
  In every reachable state of a user type value, every value is of the type of its field, a \<^verbatim>\<open>foreach\<close> loop ends and visits every field once,
  with its name and what \<^verbatim>\<open>get\<close> returns for it, and the array of \<^verbatim>\<open>values\<close> has the same entries in the same
  order, under the key the engine makes of the name.
\<close>

theorem udt_reachable:
  assumes "udt_reach u"
  shows "(\<forall>n t v. map_of (udt_types u) n = Some t \<longrightarrow> ht_find (udt_values u) (KStr n) = Some v \<longrightarrow>
      php_driver_validate_object v t = Ok True) \<and>
    (\<exists>entries. php_foreach udt_valid (\<lambda>u. (udt_key u, udt_current u)) udt_next (udt_count u + 1) (udt_rewind u) =
        Some (map (\<lambda>(n, v). (Some n, v)) entries) \<and>
      map fst entries = map fst (udt_types u) \<and> distinct (map fst entries) \<and>
      (\<forall>(n, v) \<in> set entries. udt_get u n = Ok v) \<and>
      ht_data (php_driver_user_type_value_populate u) = map (\<lambda>(n, v). (symtable_key n, v)) entries)"
proof -
  have inv: "udt_inv u" by (rule udt_reach_inv [OF assms])
  let ?entries = "map (\<lambda>(n, _). (n, udt_value u n)) (udt_types u)"
  have keys: "map fst ?entries = map fst (udt_types u)" by (simp add: split_def comp_def)
  have each: "php_foreach udt_valid (\<lambda>u. (udt_key u, udt_current u)) udt_next (udt_count u + 1) (udt_rewind u) =
      Some (map (\<lambda>(name, _). (Some name, udt_value u name)) (udt_types u))"
    by (rule uc.foreach_all) (simp add: udt_count_def)
  have "map (\<lambda>(name, _). (Some name, udt_value u name)) (udt_types u) = map (\<lambda>(n, v). (Some n, v)) ?entries"
    by (simp add: split_def)
  note each = each [unfolded this]
  have get: "\<forall>(n, v) \<in> set ?entries. udt_get u n = Ok v" by (force simp: udt_get_value)
  have d: "distinct (map fst (udt_types u))" using inv by (simp add: udt_inv_def)
  then have pop: "ht_data (php_driver_user_type_value_populate u) = map (\<lambda>(n, v). (symtable_key n, v)) ?entries"
    using udt_populate [of u] by (simp add: split_def)
  have typed: "php_driver_validate_object v t = Ok True"
    if "map_of (udt_types u) n = Some t" "ht_find (udt_values u) (KStr n) = Some v" for n t v
    using inv that by (force simp: udt_inv_def udt_field_def)
  show ?thesis using typed each keys d [folded keys] get pop by blast
qed

theorem udt_reachable_witness:
  "\<exists>entries. php_foreach udt_valid (\<lambda>u. (udt_key u, udt_current u)) udt_next 2
      (udt_rewind (php_driver_user_type_value_new None None [(''age'', TScalar CASS_INT)])) = Some entries"
proof -
  have "udt_construct (\<lambda>_ _ _. True) [(KStr ''age'', ArgType (TScalar CASS_INT))] =
      Ok (php_driver_user_type_value_new None None [(''age'', TScalar CASS_INT)])"
    by (simp add: udt_construct_def php_driver_type_user_type_add_def)
  from udt_reachable [OF udt_reach.construct [OF this], THEN conjunct2]
  show ?thesis
    by (auto simp: php_driver_user_type_value_new_def udt_count_def numeral_2_eq_2 simp del: php_foreach.simps)
qed

text \<open>As for tuples, the comparison goes by the order in which the fields were set.\<close>

lemma udt_compare_by_insertion:
  "let u0 = php_driver_user_type_value_new None None [(''a'', TScalar CASS_INT), (''b'', TScalar CASS_INT)];
       up = php_driver_user_type_value_set (php_driver_user_type_value_set u0 ''a'' (ZLong 7)) ''b'' (ZLong 8);
       down = php_driver_user_type_value_set (php_driver_user_type_value_set u0 ''b'' (ZLong 8)) ''a'' (ZLong 7)
   in (\<forall>n. udt_get up n = udt_get down n) \<and> php_driver_user_type_value_compare e up down \<noteq> 0"
  by (auto simp: Let_def php_driver_user_type_value_set_def php_driver_user_type_value_new_def ht_new_def ht_update_def
      ht_values_def udt_get_def udt_field_def ht_find_def php_driver_user_type_value_compare_def udt_type_def
      php_driver_type_compare.simps string_compare_0 ht_count_def php_driver_value_compare_def cmp3_def)

end
