(* ===== verification/Num_Decimal.thy ===== *)
theory Num_Decimal
  imports Num_Parse
begin

text \<open>
  \<^verbatim>\<open>ext/util/math.c\<close>: decimals (an unscaled integer and a scale) from and to text. The theorems
  compare the two directions: which formatted decimals the parser reads back, and which it
  rejects.
\<close>

section \<open>The C library function\<close>

text \<open>\<^verbatim>\<open>sscanf(s, "%d", &diff)\<close>: 1 and the number, 0, or EOF. A number that does not fit an \<^verbatim>\<open>int\<close> is undefined.\<close>

datatype scanf_result = Matched int | NoMatch | InputEnd | Overflow

definition sscanf_d :: "string \<Rightarrow> scanf_result" where
  "sscanf_d s =
     (let s1 = dropWhile isspace s;
          neg = cget s1 0 = CHR ''-'';
          s2 = (if cget s1 0 = CHR ''-'' \<or> cget s1 0 = CHR ''+'' then tl s1 else s1);
          (v, rest) = scan_digits 10 0 s2;
          k = (if neg then - int v else int v)
      in if s1 = [] then InputEnd
         else if length rest = length s2 then NoMatch
         else if in_int 32 k then Matched k else Overflow)"

text \<open>\<^verbatim>\<open>ceil(log10(x))\<close> of a positive integer.\<close>

fun ceil_log10 :: "nat \<Rightarrow> nat" where
  "ceil_log10 x = (if x \<le> 1 then 0 else Suc (ceil_log10 ((x + 9) div 10)))"

declare ceil_log10.simps [simp del]

section \<open>Parsing\<close>

text \<open>
  The loop that looks for the decimal point and the exponent, on the characters from \<open>point\<close> on:
  the final values of \<^verbatim>\<open>point\<close> and \<^verbatim>\<open>dot\<close> (\<open>None\<close> for -1).
\<close>

fun decimal_scan :: "string \<Rightarrow> nat \<Rightarrow> nat option \<Rightarrow> (nat \<times> nat option) outcome" where
  "decimal_scan [] point dot = Ok (point, dot)"
| "decimal_scan (c # cs) point dot =
     (if c = CHR ''.'' then
        (if dot \<noteq> None then Throw InvalidArgumentException
         else decimal_scan cs (point + 1) (Some point))
      else if c = CHR ''e'' \<or> c = CHR ''E'' then Ok (point, dot)
      else if \<not> isxdigit c then Throw InvalidArgumentException
      else decimal_scan cs (point + 1) dot)"

text \<open>
  The unscaled digits copied to \<^verbatim>\<open>out\<close>. With a decimal point the second \<^verbatim>\<open>memcpy\<close> copies
  \<^verbatim>\<open>point - dot\<close> bytes from \<^verbatim>\<open>dot + 1\<close>, one more than there are digits: the last is the exponent
  character or the terminating NUL.
\<close>

definition decimal_out :: "string \<Rightarrow> nat \<Rightarrow> nat \<Rightarrow> nat option \<Rightarrow> bool \<Rightarrow> string" where
  "decimal_out s start point dot negative =
     (if negative then ''-'' else []) @
     (case dot of
        Some d \<Rightarrow> take (d - start) (drop start s) @ take (point - d) (drop (d + 1) (s @ [NUL]))
      | None \<Rightarrow> take (point - start) (drop start s))"

text \<open>The exponent after \<open>point\<close>, subtracted from the scale.\<close>

definition decimal_exponent :: "string \<Rightarrow> nat \<Rightarrow> int \<Rightarrow> int outcome" where
  "decimal_exponent s point scale =
     (if point < length s then
        (let point = point + 1;
             point = (if cget s point = CHR ''+'' then point + 1 else point)
         in if length s \<le> point then Throw InvalidArgumentException
            else case sscanf_d (cstr (drop point s)) of
                   NoMatch \<Rightarrow> Throw InvalidArgumentException
                 | Matched diff \<Rightarrow> Ok (scale - diff)
                 | InputEnd \<Rightarrow> UB
                 | Overflow \<Rightarrow> UB)
      else Ok scale)"

definition php_driver_parse_decimal :: "gmp \<Rightarrow> string \<Rightarrow> (int \<times> int) outcome" where
  "php_driver_parse_decimal g s =
     (let negative = cget s 0 = CHR ''-'';
          start = (if cget s 0 = CHR ''+'' \<or> cget s 0 = CHR ''-'' then 1 else 0);
          maybe_octal = cget s start = CHR ''0''
      in if maybe_octal \<and> (cget s (start + 1) = CHR ''b'' \<or> cget s (start + 1) = CHR ''x'')
         then bind_outcome (php_driver_parse_varint g s) (\<lambda>number. Ok (number, 0))
         else bind_outcome (decimal_scan (drop start s) start None) (\<lambda>(point, dot).
           if maybe_octal \<and> dot = None
           then bind_outcome (php_driver_parse_varint g s) (\<lambda>number. Ok (number, 0))
           else
             (let out = decimal_out s start point dot negative;
                  neg = (if negative then 1 else 0);
                  (out_len, scale) =
                    (case dot of
                       Some d \<Rightarrow> (int point - int start + neg - 1, int point - 1 - int d)
                     | None \<Rightarrow> (int point - int start + neg, 0))
              in if out_len = 0 then Throw InvalidArgumentException
                 else case mpz_set_str g (cstr out) 10 of
                        None \<Rightarrow> Throw InvalidArgumentException
                      | Some number \<Rightarrow>
                          bind_outcome (decimal_exponent s point scale)
                            (\<lambda>scale. Ok (number, scale)))))"

section \<open>Formatting\<close>

text \<open>
  The returned buffer up to \<^verbatim>\<open>*out_len\<close>. In scientific notation \<^verbatim>\<open>total\<close> is computed from
  \<^verbatim>\<open>exponent_size\<close>; when it is larger than the text, the terminating NUL is part of the result.
  A negative scale runs into the assertion; \<^verbatim>\<open>point\<close> is an \<^verbatim>\<open>int\<close>, truncated from the difference;
  \<^verbatim>\<open>abs(exponent) + 2\<close> may overflow.
\<close>

definition php_driver_format_decimal :: "gmp \<Rightarrow> int \<Rightarrow> int \<Rightarrow> string outcome" where
  "php_driver_format_decimal g number scale =
     (if scale = 0 then Ok (php_driver_format_integer g number)
      else if scale < 0 then UB
      else
        (let negative = mpz_sgn g number < 0;
             neg = (if negative then 1 else 0 :: nat);
             minus = (if negative then ''-'' else []);
             tmp = mpz_get_str g number;
             digits = drop neg tmp;
             len = length tmp - neg;
             point = sint (word_of_int (int len - scale) :: 32 word)
         in if point - 1 \<ge> - 6 then
              (if point \<le> 0 then Ok (minus @ ''0.'' @ replicate (nat (- point)) CHR ''0'' @ digits)
               else Ok (minus @ take (nat point) digits @ ''.'' @ drop (nat point) digits))
            else
              (let exponent = point - 1;
                   exponent_size = ceil_log10 (nat \<bar>exponent\<bar> + 2) + 1;
                   e_text = CHR ''E'' # (if exponent < 0 then ''-'' else ''+'') @ show_nat 10 (nat \<bar>exponent\<bar>)
               in if \<not> in_int 32 (\<bar>exponent\<bar> + 2) then UB
                  else if len = 1
                  then Ok (take (1 + neg + 1 + exponent_size) (minus @ digits @ e_text @ [NUL]))
                  else Ok (take (neg + 1 + len + 1 + exponent_size)
                             (minus @ take 1 digits @ ''.'' @ drop 1 digits @ e_text @ [NUL])))))"

section \<open>Lengths\<close>

lemma ceil_log10_le: "0 < x \<Longrightarrow> ceil_log10 x \<le> k \<longleftrightarrow> x \<le> 10 ^ k"
proof (induction x arbitrary: k rule: ceil_log10.induct)
  case (1 x)
  show ?case
  proof (cases "x \<le> 1")
    case True
    with 1 have "x = 1" by simp
    then show ?thesis by (simp add: ceil_log10.simps)
  next
    case False
    then have s: "ceil_log10 x = Suc (ceil_log10 ((x + 9) div 10))" by (subst ceil_log10.simps) simp
    show ?thesis
    proof (cases k)
      case 0
      then show ?thesis using False s by simp
    next
      case (Suc j)
      have "0 < (x + 9) div 10" using False by (simp add: div_greater_zero_iff)
      then have "ceil_log10 ((x + 9) div 10) \<le> j \<longleftrightarrow> (x + 9) div 10 \<le> 10 ^ j"
        using 1 False by simp
      also have "\<dots> \<longleftrightarrow> x \<le> 10 * 10 ^ j" by linarith
      finally show ?thesis using s Suc by simp
    qed
  qed
qed

lemma show_nat_10_length: "length (show_nat 10 n) \<le> k \<longleftrightarrow> 0 < k \<and> n < 10 ^ k"
proof -
  have "(2::nat) \<le> 10" by simp
  then show ?thesis
  proof (induction n arbitrary: k rule: show_nat_induct)
    case (small n)
    have "n < 10 ^ k" if "0 < k"
      using small that by (cases k) (auto intro: less_le_trans)
    then show ?case using small by (auto simp: show_nat_small Suc_le_eq)
  next
    case (big n)
    show ?case
    proof (cases k)
      case 0
      then show ?thesis by simp
    next
      case (Suc j)
      have "length (show_nat 10 n) = Suc (length (show_nat 10 (n div 10)))"
        using big by (simp add: show_nat_big)
      then have "length (show_nat 10 n) \<le> k \<longleftrightarrow> 0 < j \<and> n div 10 < 10 ^ j"
        using big Suc by simp
      also have "\<dots> \<longleftrightarrow> n < 10 * 10 ^ j"
        using big.hyps by (cases j) auto
      finally show ?thesis using Suc by simp
    qed
  qed
qed

text \<open>Numbers one below a power of ten, written with nines only.\<close>

definition nines :: "nat \<Rightarrow> bool" where
  "nines a \<longleftrightarrow> a + 1 = 10 ^ length (show_nat 10 a)"

text \<open>\<^verbatim>\<open>exponent_size\<close> is right, except just below a power of ten, where it is one too large.\<close>

lemma exponent_size:
  assumes "7 \<le> a"
  shows "ceil_log10 (a + 2) = length (show_nat 10 a) + (if nines a then 1 else 0)"
proof -
  let ?d = "length (show_nat 10 a)"
  have d: "0 < ?d" "a < 10 ^ ?d" using show_nat_10_length [of a ?d] by auto
  have lower: "10 ^ (?d - 1) \<le> a"
  proof (cases "0 < ?d - 1")
    case True
    have "\<not> ?d \<le> ?d - 1" using d(1) by arith
    then show ?thesis using True show_nat_10_length [of a "?d - 1"] by simp
  next
    case False
    then have "?d - 1 = 0" by arith
    then show ?thesis using assms by simp
  qed
  have up: "ceil_log10 (a + 2) \<le> Suc ?d"
  proof -
    have "(10::nat) ^ ?d + 1 \<le> 10 * 10 ^ ?d" using one_le_power [of "10::nat" ?d] by linarith
    with d have "a + 2 \<le> 10 ^ Suc ?d" by simp
    then show ?thesis by (subst ceil_log10_le) auto
  qed
  have low: "\<not> ceil_log10 (a + 2) \<le> ?d - 1"
    using lower ceil_log10_le [of "a + 2" "?d - 1"] by simp
  have eq: "ceil_log10 (a + 2) \<le> ?d \<longleftrightarrow> a + 2 \<le> 10 ^ ?d" by (rule ceil_log10_le) simp
  show ?thesis
  proof (cases "a + 1 = 10 ^ ?d")
    case True
    then have "\<not> ceil_log10 (a + 2) \<le> ?d" using eq by simp
    with up True show ?thesis by (simp add: nines_def)
  next
    case False
    then have "ceil_log10 (a + 2) \<le> ?d" using eq d by simp
    with low False show ?thesis by (simp add: nines_def)
  qed
qed

section \<open>Parsing a number with a decimal point\<close>

lemma decimal_scan_digits:
  assumes "list_all (digit_in 10) ds"
  shows "decimal_scan (ds @ t) point dot = decimal_scan t (point + length ds) dot"
  using assms
proof (induction ds arbitrary: point)
  case (Cons c ds)
  then have c: "digit_in 10 c" by simp
  then have "c \<noteq> CHR ''.''" "c \<noteq> CHR ''e''" "c \<noteq> CHR ''E''" "isxdigit c"
    by (auto simp: digit_in_def digit_val_def ctype_defs split: if_splits)
  with Cons show ?case by simp
qed simp

lemma digit_10_props:
  assumes "digit_in 10 c"
  shows "c \<noteq> CHR ''-''" "c \<noteq> CHR ''+''" "c \<noteq> CHR ''b''" "c \<noteq> CHR ''x''" "c \<noteq> NUL"
  using assms by (auto simp: digit_in_def digit_val_def ctype_defs split: if_splits)

lemma digits_no_nul: "list_all (digit_in 10) ds \<Longrightarrow> NUL \<notin> set ds"
  by (auto simp: list_all_iff dest: digit_in_no_nul)

lemma cstr_append_nul: "NUL \<notin> set s \<Longrightarrow> cstr (s @ NUL # t) = s"
  by (simp add: cstr_def takeWhile_append takeWhile_eq_all_conv [THEN iffD2])

definition minus_sign :: "bool \<Rightarrow> string" where
  "minus_sign neg = (if neg then ''-'' else [])"

definition apply_sign :: "bool \<Rightarrow> nat \<Rightarrow> int" where
  "apply_sign neg n = (if neg then - int n else int n)"

definition digits_value :: "string \<Rightarrow> nat" where
  "digits_value ds = fst (scan_digits 10 0 ds)"

context gmp_lib
begin

lemma set_str_signed:
  assumes "ds \<noteq> []" and "list_all (digit_in 10) ds"
  shows "mpz_set_str g (minus_sign neg @ ds) 10 = Some (apply_sign neg (digits_value ds))"
  using set_str_10 [OF assms] set_str_10_neg [OF assms]
  by (simp add: minus_sign_def apply_sign_def digits_value_def)

text \<open>Sign, digits, a dot, digits: the unscaled value is all digits, the scale the digits after the dot.\<close>

lemma parse_dotted:
  assumes A: "A \<noteq> []" "list_all (digit_in 10) A" and B: "list_all (digit_in 10) B"
  shows "php_driver_parse_decimal g (minus_sign neg @ A @ CHR ''.'' # B) =
    Ok (apply_sign neg (digits_value (A @ B)), int (length B))"
proof -
  obtain a A' where a: "A = a # A'" using A by (cases A) auto
  have a10: "digit_in 10 a" using A a by simp
  let ?t = "A @ CHR ''.'' # B"
  let ?n = "if neg then 1 else 0 :: nat"
  let ?s = "minus_sign neg @ ?t"
  have "cget ?t 1 \<noteq> CHR ''b''" "cget ?t 1 \<noteq> CHR ''x''"
    using A a by (cases A'; auto dest: digit_10_props)+
  then have x: "cget ?s (Suc ?n) \<noteq> CHR ''b''" "cget ?s (Suc ?n) \<noteq> CHR ''x''"
    by (auto simp: minus_sign_def)
  have n: "(cget ?s 0 = CHR ''-'') = neg" "cget ?s 0 \<noteq> CHR ''+''"
    using a digit_10_props [OF a10] by (auto simp: minus_sign_def)
  have drops: "drop ?n ?s = ?t" by (simp add: minus_sign_def)
  have "decimal_scan ?t ?n None = decimal_scan (B @ []) (?n + length A + 1) (Some (?n + length A))"
    by (simp add: decimal_scan_digits [OF A(2)])
  then have scan: "decimal_scan ?t ?n None = Ok (?n + length A + 1 + length B, Some (?n + length A))"
    by (simp only: decimal_scan_digits [OF B]) simp
  let ?p = "?n + length A + 1 + length B"
  have len: "length ?s = ?p" by (simp add: minus_sign_def)
  have out: "decimal_out ?s ?n ?p (Some (?n + length A)) neg = (minus_sign neg @ A @ B) @ [NUL]"
    by (simp add: decimal_out_def minus_sign_def)
  have no: "NUL \<notin> set (minus_sign neg @ A @ B)"
    using digits_no_nul [OF A(2)] digits_no_nul [OF B] by (simp add: minus_sign_def)
  have out': "cstr (decimal_out ?s ?n ?p (Some (?n + length A)) neg) = minus_sign neg @ A @ B"
    unfolding out using cstr_append_nul [OF no, of "[]"] by simp
  have set: "mpz_set_str g (minus_sign neg @ A @ B) 10 = Some (apply_sign neg (digits_value (A @ B)))"
    using A B by (intro set_str_signed) auto
  have ex: "decimal_exponent ?s ?p scale = Ok scale" for scale
    using len by (simp add: decimal_exponent_def)
  show ?thesis
    unfolding php_driver_parse_decimal_def Let_def n(1)
    using n(2) x drops scan out' set ex A(1) by (cases neg) (simp_all add: a)
qed

lemma parse_plain:
  assumes A: "A \<noteq> []" "list_all (digit_in 10) A" "hd A \<noteq> CHR ''0''"
    and E: "E = [] \<or> hd E = CHR ''E''"
  shows "php_driver_parse_decimal g (minus_sign neg @ A @ E) =
    bind_outcome (decimal_exponent (minus_sign neg @ A @ E) (length (minus_sign neg @ A)) 0)
      (\<lambda>scale. Ok (apply_sign neg (digits_value A), scale))"
proof -
  obtain a A' where a: "A = a # A'" using A by (cases A) auto
  have a10: "digit_in 10 a" using A a by simp
  let ?n = "if neg then 1 else 0 :: nat"
  let ?s = "minus_sign neg @ A @ E"
  have n: "(cget ?s 0 = CHR ''-'') = neg" "cget ?s 0 \<noteq> CHR ''+''" "cget ?s ?n \<noteq> CHR ''0''"
    using A a digit_10_props [OF a10] by (auto simp: minus_sign_def)
  have drops: "drop ?n ?s = A @ E" by (simp add: minus_sign_def)
  have scan: "decimal_scan (A @ E) ?n None = Ok (?n + length A, None)"
    unfolding decimal_scan_digits [OF A(2)] using E by (cases E) auto
  have "decimal_out ?s ?n (?n + length A) None neg = minus_sign neg @ A"
    by (simp add: decimal_out_def minus_sign_def)
  moreover have "NUL \<notin> set (minus_sign neg @ A)"
    using digits_no_nul [OF A(2)] by (simp add: minus_sign_def)
  ultimately have out: "cstr (decimal_out ?s ?n (?n + length A) None neg) = minus_sign neg @ A"
    using cstr_id by metis
  have len: "length (minus_sign neg @ A) = ?n + length A" by (simp add: minus_sign_def)
  show ?thesis
    unfolding php_driver_parse_decimal_def Let_def n(1) len
    using n(2,3) drops scan out set_str_signed [OF A(1,2), of neg] A(1) by (cases neg) simp_all
qed

text \<open>
  With a decimal point and an exponent the copied digits end in the exponent character, which
  \<^verbatim>\<open>mpz_set_str\<close> refuses.
\<close>

lemma parse_dotted_exponent:
  assumes A: "A \<noteq> []" "list_all (digit_in 10) A" and B: "list_all (digit_in 10) B"
  shows "php_driver_parse_decimal g (minus_sign neg @ A @ CHR ''.'' # B @ CHR ''E'' # t) =
    Throw InvalidArgumentException"
proof -
  obtain a A' where a: "A = a # A'" using A by (cases A) auto
  have a10: "digit_in 10 a" using A a by simp
  let ?t = "A @ CHR ''.'' # B @ CHR ''E'' # t"
  let ?n = "if neg then 1 else 0 :: nat"
  let ?s = "minus_sign neg @ ?t"
  have "cget ?t 1 \<noteq> CHR ''b''" "cget ?t 1 \<noteq> CHR ''x''"
    using A a by (cases A'; auto dest: digit_10_props)+
  then have x: "cget ?s (Suc ?n) \<noteq> CHR ''b''" "cget ?s (Suc ?n) \<noteq> CHR ''x''"
    by (auto simp: minus_sign_def)
  have n: "(cget ?s 0 = CHR ''-'') = neg" "cget ?s 0 \<noteq> CHR ''+''"
    using a digit_10_props [OF a10] by (auto simp: minus_sign_def)
  have drops: "drop ?n ?s = ?t" by (simp add: minus_sign_def)
  let ?p = "?n + length A + 1 + length B"
  have scan: "decimal_scan ?t ?n None = Ok (?p, Some (?n + length A))"
    by (simp add: decimal_scan_digits [OF A(2)] decimal_scan_digits [OF B])
  have "decimal_out ?s ?n ?p (Some (?n + length A)) neg = minus_sign neg @ A @ B @ ''E''"
    by (simp add: decimal_out_def minus_sign_def)
  moreover have no: "NUL \<notin> set (minus_sign neg @ A @ B @ ''E'')"
    using digits_no_nul [OF A(2)] digits_no_nul [OF B] by (simp add: minus_sign_def)
  ultimately have out: "cstr (decimal_out ?s ?n ?p (Some (?n + length A)) neg) = minus_sign neg @ A @ B @ ''E''"
    using cstr_id by metis
  have bad: "mpz_set_str g (minus_sign neg @ A @ B @ ''E'') 10 = None"
    by (rule set_str_bad [of "CHR ''E''"]) (auto simp: isspace_def digit_in_def digit_val_def ctype_defs)
  show ?thesis
    unfolding php_driver_parse_decimal_def Let_def n(1)
    using n(2) x drops scan out bad A(1) by (cases neg) (simp_all add: a)
qed

end

section \<open>Properties\<close>

lemma show_nat_list_all: "list_all (digit_in 10) (show_nat 10 n)"
  using show_nat_digits [of 10 n] by (simp add: list_all_iff)

lemma digits_value_show_nat: "digits_value (show_nat 10 n) = n"
  by (simp add: digits_value_def scan_show_nat)

lemma digits_value_zeros: "digits_value (replicate k CHR ''0'' @ ds) = digits_value ds"
  by (induction k) (simp_all add: digits_value_def digit_val_def ctype_defs)

lemma digits_value_zeros1: "digits_value (CHR ''0'' # replicate k CHR ''0'' @ ds) = digits_value ds"
  using digits_value_zeros [of "Suc k" ds] by simp

lemma show_int_signed: "show_int v = minus_sign (v < 0) @ show_nat 10 (nat \<bar>v\<bar>)"
  by (simp add: show_int_def minus_sign_def)

lemma apply_sign_abs: "apply_sign (v < 0) (nat \<bar>v\<bar>) = v"
  by (simp add: apply_sign_def)

text \<open>Number of decimal digits, and when the formatter switches to an exponent.\<close>

definition decimal_digits :: "int \<Rightarrow> nat" where
  "decimal_digits v = length (show_nat 10 (nat \<bar>v\<bar>))"

definition scientific :: "int \<Rightarrow> int \<Rightarrow> bool" where
  "scientific v scale \<longleftrightarrow> scale \<noteq> 0 \<and> int (decimal_digits v) - scale - 1 < - 6"

text \<open>What the formatter writes in each notation.\<close>

definition exponent_text :: "int \<Rightarrow> int \<Rightarrow> string" where
  "exponent_text v scale =
     (let a = nat (scale + 1 - int (decimal_digits v))
      in ''E-'' @ show_nat 10 a @ (if nines a then [NUL] else []))"

lemma exponent_text_shape:
  assumes "0 < scale" and "scientific v scale"
  obtains a t where "exponent_text v scale = ''E-'' @ show_nat 10 a @ t" "t = [] \<or> t = [NUL]"
    "int a = scale + 1 - int (decimal_digits v)"
proof
  let ?a = "nat (scale + 1 - int (decimal_digits v))"
  show "exponent_text v scale = ''E-'' @ show_nat 10 ?a @ (if nines ?a then [NUL] else [])"
    by (simp add: exponent_text_def Let_def)
  show "int ?a = scale + 1 - int (decimal_digits v)" using assms by (simp add: scientific_def)
qed simp

context gmp_lib
begin

lemma get_str_parts:
  "drop (if v < 0 then 1 else 0) (mpz_get_str g v) = show_nat 10 (nat \<bar>v\<bar>)"
  "length (mpz_get_str g v) - (if v < 0 then 1 else 0) = decimal_digits v"
  "mpz_sgn g v < 0 \<longleftrightarrow> v < 0"
  by (auto simp: get_str sgn show_int_signed minus_sign_def decimal_digits_def)

lemma format_fixed:
  assumes "0 < scale" and "in_int 32 (int (decimal_digits v) - scale)" and "\<not> scientific v scale"
  shows "php_driver_format_decimal g v scale =
    Ok (minus_sign (v < 0) @
        (let ds = show_nat 10 (nat \<bar>v\<bar>)
         in if int (decimal_digits v) \<le> scale
            then ''0.'' @ replicate (nat scale - decimal_digits v) CHR ''0'' @ ds
            else take (decimal_digits v - nat scale) ds @ ''.'' @ drop (decimal_digits v - nat scale) ds))"
proof -
  have sc: "- 6 \<le> int (decimal_digits v) - scale - 1" using assms by (simp add: scientific_def)
  have p: "sint (word_of_int (int (decimal_digits v) - scale) :: 32 word) = int (decimal_digits v) - scale"
    using assms by (intro sint_of_int_in) simp
  have n: "nat (- (int (decimal_digits v) - scale)) = nat scale - decimal_digits v"
    "nat (int (decimal_digits v) - scale) = decimal_digits v - nat scale"
    using assms by auto
  show ?thesis
    unfolding php_driver_format_decimal_def Let_def get_str_parts p n
    using assms sc by (simp add: minus_sign_def)
qed

lemma format_scientific:
  assumes "0 < scale" and "in_int 32 (scale + 2)" and "scientific v scale"
  shows "php_driver_format_decimal g v scale =
    Ok (minus_sign (v < 0) @
        (let ds = show_nat 10 (nat \<bar>v\<bar>) in if decimal_digits v = 1 then ds else take 1 ds @ ''.'' @ drop 1 ds) @
        exponent_text v scale)"
proof -
  let ?x = "int (decimal_digits v) - scale"
  define a where "a = nat (1 - ?x)"
  have pos: "0 < decimal_digits v" by (simp add: decimal_digits_def)
  have sc: "?x - 1 < - 6" using assms by (simp add: scientific_def)
  then have a: "7 \<le> a" "\<bar>?x - 1\<bar> = int a" by (auto simp: a_def)
  have i: "in_int 32 ?x" "in_int 32 (int a + 2)"
    using assms sc pos by (auto simp: in_int_def a_def)
  then have p: "sint (word_of_int ?x :: 32 word) = ?x" by (intro sint_of_int_in) simp
  have e: "exponent_text v scale = ''E-'' @ show_nat 10 a @ (if nines a then [NUL] else [])"
    by (simp add: exponent_text_def a_def Let_def algebra_simps)
  have ds: "length (show_nat 10 (nat \<bar>v\<bar>)) = decimal_digits v" by (simp add: decimal_digits_def)
  show ?thesis
    unfolding php_driver_format_decimal_def Let_def get_str_parts p a e
    using assms sc i pos ds exponent_size [OF a(1)]
    by (auto simp: minus_sign_def take_Cons')
qed

text \<open>The exponent written by the formatter is read back, with or without the NUL after it.\<close>

lemma sscanf_negative:
  assumes "in_int 32 (- int a)" and "t = [] \<or> t = [NUL]"
  shows "sscanf_d (cstr (CHR ''-'' # show_nat 10 a @ t)) = Matched (- int a)"
proof -
  have no: "NUL \<notin> set (CHR ''-'' # show_nat 10 a)" using show_nat_no_nul [of 10 a] by simp
  have c: "cstr (CHR ''-'' # show_nat 10 a @ t) = CHR ''-'' # show_nat 10 a"
    using assms(2) cstr_id [OF no] cstr_append_nul [OF no, of "[]"] by auto
  have s: "scan_digits 10 0 (show_nat 10 a @ []) = (a, [])"
    by (rule scan_digits_show_nat) (auto simp: num_end_def)
  show ?thesis
    unfolding c using s assms(1)
    by (simp add: sscanf_d_def isspace_def Let_def del: scan_digits.simps)
qed

lemma digit_in_0: "digit_in 10 (CHR ''0'')"
  by (simp add: digit_in_def digit_val_def ctype_defs)

lemma signed_value: "apply_sign (v < 0) (digits_value (show_nat 10 (nat \<bar>v\<bar>))) = v"
  by (simp add: digits_value_show_nat apply_sign_abs)

lemma hd_show_nat: "v \<noteq> 0 \<Longrightarrow> hd (show_nat 10 (nat \<bar>v\<bar>)) \<noteq> CHR ''0''"
  using show_nat_hd [of "nat \<bar>v\<bar>"] digit_char_0_iff by fastforce

lemma parse_format_plain:
  "bind_outcome (php_driver_format_decimal g v 0) (php_driver_parse_decimal g) = Ok (v, 0)"
proof -
  have f: "php_driver_format_decimal g v 0 = Ok (minus_sign (v < 0) @ show_nat 10 (nat \<bar>v\<bar>) @ [])"
    by (simp add: php_driver_format_decimal_def php_driver_format_integer_def get_str show_int_signed)
  show ?thesis
  proof (cases "v = 0")
    case True
    have "php_driver_parse_decimal g ''0'' = Ok (0, 0)"
      using set_str_0 [of "''0''"]
      by (simp add: php_driver_parse_decimal_def php_driver_parse_varint_def
          prepare_string_conversion_def cstr_def ctype_defs digit_in_def digit_val_def)
    moreover have "show_nat 10 0 = ''0''" using digit_char_0_iff [of 0] by (simp add: show_nat_small)
    ultimately show ?thesis using True f by (simp add: minus_sign_def)
  next
    case False
    then show ?thesis unfolding f
      using parse_plain [OF show_nat_nonempty show_nat_list_all hd_show_nat, of v "[]"] signed_value
      by (simp add: decimal_exponent_def)
  qed
qed

lemma parse_format_fixed:
  assumes "0 < scale" and "in_int 32 (int (decimal_digits v) - scale)" and "\<not> scientific v scale"
  shows "bind_outcome (php_driver_format_decimal g v scale) (php_driver_parse_decimal g) = Ok (v, scale)"
proof -
  let ?ds = "show_nat 10 (nat \<bar>v\<bar>)" and ?d = "decimal_digits v"
  have len: "length ?ds = ?d" by (simp add: decimal_digits_def)
  show ?thesis
  proof (cases "int ?d \<le> scale")
    case True
    let ?z = "replicate (nat scale - ?d) CHR ''0''"
    have "list_all (digit_in 10) (?z @ ?ds)"
      using show_nat_list_all [of "nat \<bar>v\<bar>"] digit_in_0 by (auto simp: list_all_iff)
    then have "php_driver_parse_decimal g (minus_sign (v < 0) @ ''0'' @ CHR ''.'' # ?z @ ?ds) =
      Ok (apply_sign (v < 0) (digits_value (''0'' @ ?z @ ?ds)), int (length (?z @ ?ds)))"
      using digit_in_0 by (intro parse_dotted) auto
    then show ?thesis using format_fixed [OF assms] True len assms(1) signed_value
      by (simp add: Let_def digits_value_zeros1)
  next
    case False
    let ?k = "?d - nat scale"
    have k: "0 < ?k" "?k < ?d" using False assms by auto
    have all: "list_all (digit_in 10) (take ?k ?ds)" "list_all (digit_in 10) (drop ?k ?ds)"
      using show_nat_list_all [of "nat \<bar>v\<bar>"] by (auto simp: list_all_iff dest: in_set_takeD in_set_dropD)
    have "php_driver_parse_decimal g (minus_sign (v < 0) @ take ?k ?ds @ CHR ''.'' # drop ?k ?ds) =
      Ok (apply_sign (v < 0) (digits_value (take ?k ?ds @ drop ?k ?ds)), int (length (drop ?k ?ds)))"
      using k all by (intro parse_dotted) auto
    then show ?thesis using format_fixed [OF assms] False len k signed_value
      by (simp add: Let_def)
  qed
qed

lemma parse_format_scientific:
  assumes "0 < scale" and "in_int 32 (scale + 2)" and sci: "scientific v scale"
    and d: "decimal_digits v = 1" "v \<noteq> 0"
  shows "bind_outcome (php_driver_format_decimal g v scale) (php_driver_parse_decimal g) = Ok (v, scale)"
proof -
  let ?ds = "show_nat 10 (nat \<bar>v\<bar>)"
  obtain a t where e: "exponent_text v scale = ''E-'' @ show_nat 10 a @ t" "t = [] \<or> t = [NUL]"
    "int a = scale + 1 - int (decimal_digits v)"
    using exponent_text_shape [OF assms(1) sci] .
  let ?s = "minus_sign (v < 0) @ ?ds @ exponent_text v scale"
  have f: "php_driver_format_decimal g v scale = Ok ?s"
    using format_scientific [OF assms(1,2) sci] d by simp
  have a: "int a = scale" using e d by simp
  have "in_int 32 (- int a)" using a assms by (simp add: in_int_def)
  then have scanf: "sscanf_d (cstr (CHR ''-'' # show_nat 10 a @ t)) = Matched (- int a)"
    using e(2) by (rule sscanf_negative)
  define m where "m = minus_sign (v < 0) @ ?ds"
  have "decimal_exponent (m @ CHR ''E'' # CHR ''-'' # show_nat 10 a @ t) (length m) 0 = Ok (int a)"
    using scanf by (simp add: decimal_exponent_def cget_def nth_append)
  then have "decimal_exponent ?s (length (minus_sign (v < 0) @ ?ds)) 0 = Ok scale"
    using e(1) a by (simp add: m_def)
  then show ?thesis unfolding f
    using parse_plain [OF show_nat_nonempty show_nat_list_all hd_show_nat [OF d(2)],
        of "exponent_text v scale" "v < 0"] e(1) signed_value
    by simp
qed

end

text \<open>
  C11. A formatted decimal is read back with the same unscaled value and scale, provided it is
  written without an exponent or has a single non-zero digit. The scale is at least zero, and
  small enough for the formatter's \<^verbatim>\<open>int\<close> arithmetic.
\<close>

theorem parse_format_decimal:
  assumes "gmp_lib g" and "0 \<le> scale" and "in_int 32 (scale + 2)"
    and "in_int 32 (int (decimal_digits v))"
    and "scientific v scale \<longrightarrow> decimal_digits v = 1 \<and> v \<noteq> 0"
  shows "bind_outcome (php_driver_format_decimal g v scale) (php_driver_parse_decimal g) = Ok (v, scale)"
proof -
  have x: "in_int 32 (int (decimal_digits v) - scale)" using assms(2-4) by (auto simp: in_int_def)
  consider "scale = 0" | "0 < scale" "\<not> scientific v scale" | "0 < scale" "scientific v scale"
    using assms(2) by linarith
  then show ?thesis
    using assms x gmp_lib.parse_format_plain gmp_lib.parse_format_fixed gmp_lib.parse_format_scientific
    by cases auto
qed

theorem parse_format_decimal_witness:
  "bind_outcome (php_driver_format_decimal gmp_ref (- 12) 5) (php_driver_parse_decimal gmp_ref) = Ok (- 12, 5) \<and>
   bind_outcome (php_driver_format_decimal gmp_ref 3 9) (php_driver_parse_decimal gmp_ref) = Ok (3, 9)"
  using parse_format_decimal [OF gmp_ref.gmp_lib_axioms, of 5 "- 12"]
    parse_format_decimal [OF gmp_ref.gmp_lib_axioms, of 9 3]
  by (simp add: in_int_def scientific_def decimal_digits_def show_nat.simps)

text \<open>
  A decimal of two or more digits that is written with an exponent is never read back: the
  parser hands the exponent character to \<^verbatim>\<open>mpz_set_str\<close> and throws.
\<close>

theorem parse_rejects_formatted_scientific:
  assumes "gmp_lib g" and "0 < scale" and "in_int 32 (scale + 2)"
    and "scientific v scale" and "2 \<le> decimal_digits v"
  shows "bind_outcome (php_driver_format_decimal g v scale) (php_driver_parse_decimal g) =
    Throw InvalidArgumentException"
proof -
  let ?ds = "show_nat 10 (nat \<bar>v\<bar>)"
  obtain a t where e: "exponent_text v scale = ''E-'' @ show_nat 10 a @ t"
    using exponent_text_shape [OF assms(2,4)] .
  have all: "list_all (digit_in 10) (take 1 ?ds)" "list_all (digit_in 10) (drop 1 ?ds)"
    using show_nat_list_all [of "nat \<bar>v\<bar>"] by (auto simp: list_all_iff dest: in_set_takeD in_set_dropD)
  show ?thesis
    using gmp_lib.format_scientific [OF assms(1-4)] assms(5) e
      gmp_lib.parse_dotted_exponent [OF assms(1) _ all, of "v < 0" "CHR ''-'' # show_nat 10 a @ t"]
    by (simp add: Let_def)
qed

theorem parse_rejects_formatted_scientific_witness:
  "bind_outcome (php_driver_format_decimal gmp_ref 12 10) (php_driver_parse_decimal gmp_ref) =
    Throw InvalidArgumentException"
  using parse_rejects_formatted_scientific [OF gmp_ref.gmp_lib_axioms, of 10 12]
  by (simp add: in_int_def scientific_def decimal_digits_def show_nat.simps)

text \<open>
  In scientific notation the returned length counts the terminating NUL exactly when the
  magnitude of the exponent consists of nines; every other formatted decimal is free of NULs.
\<close>

theorem format_decimal_nul:
  assumes "gmp_lib g" and "0 \<le> scale" and "in_int 32 (scale + 2)"
    and "in_int 32 (int (decimal_digits v))"
  shows "\<exists>s. php_driver_format_decimal g v scale = Ok s \<and>
    (NUL \<in> set s \<longleftrightarrow> scientific v scale \<and> nines (nat (scale + 1 - int (decimal_digits v))))"
proof -
  let ?ds = "show_nat 10 (nat \<bar>v\<bar>)"
  have x: "in_int 32 (int (decimal_digits v) - scale)" using assms(2-4) by (auto simp: in_int_def)
  have no: "NUL \<notin> set (show_nat 10 n)" for n by (rule show_nat_no_nul) auto
  have m: "NUL \<notin> set (minus_sign b)" for b by (simp add: minus_sign_def)
  have tk: "NUL \<notin> set (take k ?ds)" "NUL \<notin> set (drop k ?ds)" for k
    using no by (auto dest: in_set_takeD in_set_dropD)
  consider "scale = 0" | "0 < scale" "\<not> scientific v scale" | "0 < scale" "scientific v scale"
    using assms(2) by linarith
  then show ?thesis
  proof cases
    case 1
    then show ?thesis using no m gmp_lib.get_str [OF assms(1)]
      by (simp add: php_driver_format_decimal_def php_driver_format_integer_def show_int_signed scientific_def)
  next
    case 2
    then show ?thesis using gmp_lib.format_fixed [OF assms(1) 2(1) x 2(2)] no m tk by (simp add: Let_def)
  next
    case 3
    then show ?thesis using gmp_lib.format_scientific [OF assms(1) 3(1) assms(3) 3(2)] no m tk
      by (simp add: Let_def exponent_text_def)
  qed
qed

theorem format_decimal_nul_witness:
  "\<exists>s. php_driver_format_decimal gmp_ref 1 9 = Ok s \<and> NUL \<in> set s"
  using format_decimal_nul [OF gmp_ref.gmp_lib_axioms, of 9 1]
  by (simp add: in_int_def scientific_def decimal_digits_def nines_def show_nat.simps)

end
