(* ===== verification/Varint.thy ===== *)
theory Varint
  imports Numeric_Class Num_Parse
begin

text \<open>
  \<^verbatim>\<open>ext/src/Varint.c\<close>: the methods of \<^verbatim>\<open>Cassandra\Varint\<close>, on the integer in \<^verbatim>\<open>self->data.varint.value\<close>. The
  arithmetic is the GMP library's. Division rounds towards minus infinity and the remainder is never
  negative, unlike in the fixed-width classes, which truncate.
\<close>

abbreviation varint_obj :: "int \<Rightarrow> zval" where
  "varint_obj v \<equiv> ZObject (ONumeric (NVarint v))"

section \<open>Conversions\<close>

text \<open>\<^verbatim>\<open>DBL_MAX\<close>, and its negation.\<close>

definition dbl_max :: dbl where
  "dbl_max = 0x7FEFFFFFFFFFFFFF"

definition dbl_max_neg :: dbl where
  "dbl_max_neg = 0xFFEFFFFFFFFFFFFF"

definition varint_to_double :: "gmp \<Rightarrow> int \<Rightarrow> zval outcome" where
  "varint_to_double g v =
     (if mpz_cmp_d g v dbl_max_neg < 0 then Throw RangeException
      else if mpz_cmp_d g v dbl_max > 0 then Throw RangeException
      else Ok (ZDouble (mpz_get_d g v)))"

definition varint_to_long :: "gmp \<Rightarrow> int \<Rightarrow> zval outcome" where
  "varint_to_long g v =
     (if mpz_cmp g v (- (2 ^ 63)) < 0 then Throw RangeException
      else if mpz_cmp g v (2 ^ 63 - 1) > 0 then Throw RangeException
      else Ok (ZLong (word_of_int v)))"

definition varint_to_string :: "gmp \<Rightarrow> int \<Rightarrow> zval" where
  "varint_to_string g v = ZString (php_driver_format_integer g v)"

text \<open>\<^verbatim>\<open>mpz_set_d\<close> of a NaN or an infinity raises an invalid-operation trap.\<close>

definition php_driver_varint_init :: "gmp \<Rightarrow> zval \<Rightarrow> int outcome" where
  "php_driver_varint_init g num =
     (case num of
        ZLong l \<Rightarrow> Ok (sint l)
      | ZDouble d \<Rightarrow> if dbl_isnan d \<or> dbl_isinf d then UB else Ok (mpz_set_d g d)
      | ZString s \<Rightarrow> php_driver_parse_varint g s
      | ZObject (ONumeric (NVarint v)) \<Rightarrow> Ok v
      | _ \<Rightarrow> Throw InvalidArgumentException)"

section \<open>Arithmetic\<close>

definition varint_add :: "gmp \<Rightarrow> int \<Rightarrow> zval \<Rightarrow> int outcome" where
  "varint_add g self num =
     (case num of
        ZObject (ONumeric (NVarint v)) \<Rightarrow> Ok (mpz_add g self v)
      | _ \<Rightarrow> Throw InvalidArgumentException)"

definition varint_sub :: "gmp \<Rightarrow> int \<Rightarrow> zval \<Rightarrow> int outcome" where
  "varint_sub g self num =
     (case num of
        ZObject (ONumeric (NVarint v)) \<Rightarrow> Ok (mpz_sub g self v)
      | _ \<Rightarrow> Throw InvalidArgumentException)"

definition varint_mul :: "gmp \<Rightarrow> int \<Rightarrow> zval \<Rightarrow> int outcome" where
  "varint_mul g self num =
     (case num of
        ZObject (ONumeric (NVarint v)) \<Rightarrow> Ok (mpz_mul g self v)
      | _ \<Rightarrow> Throw InvalidArgumentException)"

definition varint_div :: "gmp \<Rightarrow> int \<Rightarrow> zval \<Rightarrow> int outcome" where
  "varint_div g self num =
     (case num of
        ZObject (ONumeric (NVarint v)) \<Rightarrow>
          if mpz_sgn g v = 0 then Throw DivideByZeroException else Ok (mpz_div g self v)
      | _ \<Rightarrow> Throw InvalidArgumentException)"

definition varint_mod :: "gmp \<Rightarrow> int \<Rightarrow> zval \<Rightarrow> int outcome" where
  "varint_mod g self num =
     (case num of
        ZObject (ONumeric (NVarint v)) \<Rightarrow>
          if mpz_sgn g v = 0 then Throw DivideByZeroException else Ok (mpz_mod g self v)
      | _ \<Rightarrow> Throw InvalidArgumentException)"

definition varint_abs :: "gmp \<Rightarrow> int \<Rightarrow> int outcome" where
  "varint_abs g self = Ok (mpz_abs g self)"

definition varint_neg :: "gmp \<Rightarrow> int \<Rightarrow> int outcome" where
  "varint_neg g self = Ok (mpz_neg g self)"

definition varint_sqrt :: "gmp \<Rightarrow> int \<Rightarrow> int outcome" where
  "varint_sqrt g self = (if mpz_sgn g self < 0 then Throw RangeException else Ok (mpz_sqrt g self))"

section \<open>Exact arithmetic\<close>

text \<open>Every GMP library that keeps its promises makes \<^verbatim>\<open>Varint\<close> a numeric class without range errors.\<close>

sublocale gmp_lib \<subseteq> varint: numeric_class
  "\<lambda>v. v" "\<lambda>_. True" "\<lambda>a b. varint_add g a (varint_obj b)" "\<lambda>a b. varint_sub g a (varint_obj b)"
  "\<lambda>a b. varint_mul g a (varint_obj b)" "varint_neg g" "varint_abs g"
  by unfold_locales
    (auto simp: varint_add_def varint_sub_def varint_mul_def varint_neg_def varint_abs_def
      add sub mul neg abs)

context gmp_lib
begin

lemma varint_laws:
  "varint_add g a (varint_obj b) = Ok (a + b) \<and> varint_mul g a (varint_obj b) = Ok (a * b) \<and>
   varint_add g a (varint_obj b) = varint_add g b (varint_obj a) \<and>
   varint_mul g a (varint_obj b) = varint_mul g b (varint_obj a) \<and>
   varint_sub g (a + b) (varint_obj b) = Ok a \<and>
   varint_mul g a (varint_obj (b + c)) = varint_add g (a * b) (varint_obj (a * c))"
  using varint.add_commute [of a b] varint.mul_commute [of a b] varint.sub_of_add [of a b "a + b"]
    varint.mul_add_distrib [of b c "b + c" a "a * b" "a * c"] varint.add_iff varint.mul_iff
  by simp

end

lemma parse_varint_canonical:
  assumes "gmp_lib g"
  shows "php_driver_parse_varint g (show_int k) = Ok k"
proof -
  have str: "mpz_set_str g (show_nat 10 n) 0 = Some (int n)" for n
  proof -
    obtain d cs where s: "show_nat 10 n = digit_char d # cs" "d < 10" "d = 0 \<longleftrightarrow> n = 0" "n = 0 \<longrightarrow> cs = []"
      by (rule show_nat_10_cases)
    have "list_all (digit_in 10) (show_nat 10 n)"
      using show_nat_digits [of 10 n] by (simp add: list_all_iff)
    moreover have "hd (show_nat 10 n) \<noteq> CHR ''0'' \<or> tl (show_nat 10 n) = []"
      using s digit_char_0_iff [of d] by auto
    ultimately show ?thesis
      using gmp_lib.set_str_0 [OF assms, of "show_nat 10 n"] by (simp add: scan_show_nat)
  qed
  show ?thesis
    by (simp add: php_driver_parse_varint_def show_int_def parse_canonical str gmp_lib.neg [OF assms])
qed

text \<open>
  A \<^verbatim>\<open>Varint\<close> is read back from the string it is converted to, whatever its size; its conversion
  to an int gives the value when it fits and a range exception otherwise.
\<close>

theorem varint_conversions:
  assumes "gmp_lib g"
  shows "php_driver_varint_init g (varint_to_string g v) = Ok v \<and>
    varint_to_long g v = (if in_int 64 v then Ok (ZLong (word_of_int v)) else Throw RangeException)"
proof
  show "php_driver_varint_init g (varint_to_string g v) = Ok v"
    using parse_varint_canonical [OF assms]
    by (simp add: php_driver_varint_init_def varint_to_string_def php_driver_format_integer_def
        gmp_lib.get_str [OF assms])
  have c: "mpz_cmp g v k < 0 \<longleftrightarrow> v < k" "mpz_cmp g v k > 0 \<longleftrightarrow> v > k" for k
    using gmp_lib.cmp [OF assms, of v k] by (auto simp: sgn_if split: if_splits)
  show "varint_to_long g v = (if in_int 64 v then Ok (ZLong (word_of_int v)) else Throw RangeException)"
    by (auto simp: varint_to_long_def c in_int_def)
qed

theorem varint_conversions_witness:
  "php_driver_varint_init gmp_ref (varint_to_string gmp_ref (2 ^ 70)) = Ok (2 ^ 70) \<and>
   varint_to_long gmp_ref (2 ^ 70) = Throw RangeException"
  using varint_conversions [OF gmp_ref.gmp_lib_axioms, of "2 ^ 70"] by (simp add: in_int_def)

text \<open>
  Quotient and remainder of \<^verbatim>\<open>Varint\<close>s: the remainder lies between zero and the magnitude of the
  divisor, and the two recombine to the dividend exactly when the divisor is positive or divides it.
  For a negative divisor the quotient is rounded down while the remainder is taken modulo the
  magnitude, so the two do not belong together.
\<close>

theorem varint_div_mod:
  assumes "gmp_lib g" and "b \<noteq> 0"
  shows "\<exists>q r. varint_div g a (varint_obj b) = Ok q \<and> varint_mod g a (varint_obj b) = Ok r \<and>
    0 \<le> r \<and> r < \<bar>b\<bar> \<and> (q * b + r = a \<longleftrightarrow> 0 < b \<or> b dvd a)"
proof (intro exI conjI)
  have s: "mpz_sgn g b \<noteq> 0" using assms gmp_lib.sgn [OF assms(1), of b] by (simp add: sgn_if)
  show "varint_div g a (varint_obj b) = Ok (a div b)"
    using s assms by (simp add: varint_div_def gmp_lib.div_floor)
  show "varint_mod g a (varint_obj b) = Ok (a mod \<bar>b\<bar>)"
    using s assms by (simp add: varint_mod_def gmp_lib.mod_nonneg)
  show "0 \<le> a mod \<bar>b\<bar>" "a mod \<bar>b\<bar> < \<bar>b\<bar>" using assms(2) by simp_all
  have "a div b * b + a mod \<bar>b\<bar> = a \<longleftrightarrow> a mod \<bar>b\<bar> = a mod b"
    using div_mult_mod_eq [of a b] by linarith
  also have "\<dots> \<longleftrightarrow> 0 < b \<or> b dvd a"
  proof (cases "0 < b")
    case False
    then have b: "b < 0" using assms by simp
    have "a mod b \<le> 0" "0 \<le> a mod \<bar>b\<bar>" using b by simp_all
    then have "a mod \<bar>b\<bar> = a mod b \<longleftrightarrow> a mod \<bar>b\<bar> = 0 \<and> a mod b = 0" by auto
    also have "\<dots> \<longleftrightarrow> b dvd a" by (auto simp: mod_eq_0_iff_dvd)
    finally show ?thesis using False by simp
  qed simp
  finally show "a div b * b + a mod \<bar>b\<bar> = a \<longleftrightarrow> 0 < b \<or> b dvd a" .
qed

theorem varint_div_mod_witness:
  "\<exists>q r. varint_div gmp_ref 7 (varint_obj (- 2)) = Ok q \<and> varint_mod gmp_ref 7 (varint_obj (- 2)) = Ok r \<and>
    q * (- 2) + r \<noteq> 7"
  using varint_div_mod [OF gmp_ref.gmp_lib_axioms, of "- 2" 7] by fastforce

text \<open>
  Addition, subtraction and multiplication of \<^verbatim>\<open>Varint\<close>s never fail and form the arithmetic of
  the integers: sums and products commute, multiplication distributes over addition, and
  subtraction undoes addition.
\<close>

theorem varint_ring:
  assumes "gmp_lib g"
  shows "varint_add g a (varint_obj b) = Ok (a + b) \<and> varint_mul g a (varint_obj b) = Ok (a * b) \<and>
    varint_add g a (varint_obj b) = varint_add g b (varint_obj a) \<and>
    varint_mul g a (varint_obj b) = varint_mul g b (varint_obj a) \<and>
    varint_sub g (a + b) (varint_obj b) = Ok a \<and>
    varint_mul g a (varint_obj (b + c)) = varint_add g (a * b) (varint_obj (a * c))"
  by (rule gmp_lib.varint_laws [OF assms])

theorem varint_ring_witness:
  "varint_add gmp_ref 5 (varint_obj (- 8)) = Ok (- 3) \<and> varint_mul gmp_ref 5 (varint_obj (- 8)) = Ok (- 40)"
  using varint_ring [OF gmp_ref.gmp_lib_axioms, of 5 "- 8"] by simp

end
