(* ===== verification/Decimal.thy ===== *)
theory Decimal
  imports Complex_Main Numeric_Class Num_Decimal
begin

text \<open>
  \<^verbatim>\<open>ext/src/Decimal.c\<close>: the methods of \<^verbatim>\<open>Cassandra\Decimal\<close>. An instance is its unscaled value and its
  scale, a C \<^verbatim>\<open>long\<close>; it stands for the value times ten to the minus scale. \<open>align_decimals\<close> writes to
  its operands, so the methods that call it also return what they left in the two operands.
\<close>

unbundle bit_operations_syntax

type_synonym decimal = "int \<times> int"

abbreviation decimal_obj :: "decimal \<Rightarrow> zval" where
  "decimal_obj d \<equiv> ZObject (ONumeric (NDecimal (fst d) (snd d)))"

text \<open>The number a decimal stands for, and the number a finite double stands for.\<close>

definition dec_val :: "decimal \<Rightarrow> real" where
  "dec_val d = real_of_int (fst d) * 10 powi (- snd d)"

definition dbl_val :: "dbl \<Rightarrow> real" where
  "dbl_val d = (if dbl_neg d then - 1 else 1) * real_of_int (dbl_sig d) * 2 powi (dbl_pow d)"

section \<open>Decimals from doubles\<close>

text \<open>The loop that moves trailing zero bits of the mantissa to the exponent.\<close>

function strip_zeros :: "int \<Rightarrow> int \<Rightarrow> int \<times> int" where
  "strip_zeros mantissa exponent =
     (if exponent < 0 \<and> mantissa AND 1 = 0 then strip_zeros (drop_bit 1 mantissa) (exponent + 1)
      else (mantissa, exponent))"
  by auto
termination by (relation "measure (\<lambda>(m, e). nat (- e))") auto

declare strip_zeros.simps [simp del]

definition from_double :: "gmp \<Rightarrow> dbl \<Rightarrow> decimal" where
  "from_double g value =
     (let raw = sint value;
          mantissa = raw AND (2 ^ 52 - 1);
          exponent = drop_bit 52 raw AND (2 ^ 11 - 1);
          denormal = (exponent = 0);
          exponent = (if denormal then - 1022 else exponent - 1023);
          exponent = exponent - 52;
          mantissa = (if denormal then mantissa else mantissa OR 2 ^ 52);
          (mantissa, exponent) = strip_zeros mantissa exponent;
          number = (case mpz_set_str g (show_int mantissa) 10 of Some n \<Rightarrow> n | None \<Rightarrow> 0);
          number = (if raw < 0 then mpz_neg g number else number)
      in if exponent < 0
         then (mpz_mul g number (mpz_ui_pow_ui g 5 (nat (- exponent))), - exponent)
         else (mpz_mul_2exp g number (nat exponent), 0))"

definition php_driver_decimal_init :: "gmp \<Rightarrow> zval \<Rightarrow> decimal outcome" where
  "php_driver_decimal_init g value =
     (case value of
        ZLong l \<Rightarrow> Ok (sint l, 0)
      | ZDouble d \<Rightarrow>
          if dbl_isnan d \<or> dbl_isinf d then Throw InvalidArgumentException else Ok (from_double g d)
      | ZString s \<Rightarrow> php_driver_parse_decimal g s
      | ZObject (ONumeric (NDecimal v s)) \<Rightarrow> Ok (v, s)
      | _ \<Rightarrow> Throw InvalidArgumentException)"

definition decimal_to_string :: "gmp \<Rightarrow> decimal \<Rightarrow> zval outcome" where
  "decimal_to_string g d = bind_outcome (php_driver_format_decimal g (fst d) (snd d)) (\<lambda>s. Ok (ZString s))"

definition decimal_value :: "gmp \<Rightarrow> decimal \<Rightarrow> zval" where
  "decimal_value g d = ZString (php_driver_format_integer g (fst d))"

definition decimal_scale :: "decimal \<Rightarrow> zval" where
  "decimal_scale d = ZLong (word_of_int (snd d))"

section \<open>Arithmetic\<close>

text \<open>
  Both operands as they are afterwards: the unscaled value of the one with the smaller scale has been
  multiplied, its scale has not been changed. The difference of the scales may overflow a \<^verbatim>\<open>long\<close>.
\<close>

definition align_decimals :: "gmp \<Rightarrow> decimal \<Rightarrow> decimal \<Rightarrow> (decimal \<times> decimal) outcome" where
  "align_decimals g lhs rhs =
     (if snd lhs < snd rhs then
        (if \<not> in_int 64 (snd rhs - snd lhs) then UB
         else Ok ((mpz_mul g (fst lhs) (mpz_ui_pow_ui g 10 (nat (snd rhs - snd lhs))), snd lhs), rhs))
      else if snd lhs > snd rhs then
        (if \<not> in_int 64 (snd lhs - snd rhs) then UB
         else Ok (lhs, (mpz_mul g (fst rhs) (mpz_ui_pow_ui g 10 (nat (snd lhs - snd rhs))), snd rhs)))
      else Ok (lhs, rhs))"

text \<open>The result, and the receiver and the argument after the call.\<close>

definition decimal_add :: "gmp \<Rightarrow> decimal \<Rightarrow> zval \<Rightarrow> (decimal \<times> decimal \<times> decimal) outcome" where
  "decimal_add g self num =
     (case num of
        ZObject (ONumeric (NDecimal v s)) \<Rightarrow>
          bind_outcome (align_decimals g self (v, s)) (\<lambda>(self, decimal).
            Ok ((mpz_add g (fst self) (fst decimal), max (snd self) (snd decimal)), self, decimal))
      | _ \<Rightarrow> Throw InvalidArgumentException)"

definition decimal_sub :: "gmp \<Rightarrow> decimal \<Rightarrow> zval \<Rightarrow> (decimal \<times> decimal \<times> decimal) outcome" where
  "decimal_sub g self num =
     (case num of
        ZObject (ONumeric (NDecimal v s)) \<Rightarrow>
          bind_outcome (align_decimals g self (v, s)) (\<lambda>(self, decimal).
            Ok ((mpz_sub g (fst self) (fst decimal), max (snd self) (snd decimal)), self, decimal))
      | _ \<Rightarrow> Throw InvalidArgumentException)"

definition decimal_mul :: "gmp \<Rightarrow> decimal \<Rightarrow> zval \<Rightarrow> decimal outcome" where
  "decimal_mul g self num =
     (case num of
        ZObject (ONumeric (NDecimal v s)) \<Rightarrow>
          if in_int 64 (snd self + s) then Ok (mpz_mul g (fst self) v, snd self + s) else UB
      | _ \<Rightarrow> Throw InvalidArgumentException)"

definition decimal_div :: "decimal outcome" where
  "decimal_div = Throw RuntimeException"

definition decimal_mod :: "decimal outcome" where
  "decimal_mod = Throw RuntimeException"

definition decimal_abs :: "gmp \<Rightarrow> decimal \<Rightarrow> decimal" where
  "decimal_abs g self = (mpz_abs g (fst self), snd self)"

definition decimal_neg :: "gmp \<Rightarrow> decimal \<Rightarrow> decimal" where
  "decimal_neg g self = (mpz_neg g (fst self), snd self)"

definition decimal_sqrt :: "decimal outcome" where
  "decimal_sqrt = Throw RuntimeException"

section \<open>Values\<close>

lemma dec_val_shift: "dec_val (v * 10 ^ k, s + int k) = dec_val (v, s)"
  by (simp add: dec_val_def power_int_diff power_int_add power_int_minus field_simps)

lemma dec_val_align:
  assumes "s \<le> t"
  shows "dec_val (v * 10 ^ nat (t - s), t) = dec_val (v, s)"
  using dec_val_shift [of v "nat (t - s)" s] assms by simp

lemma dec_val_add: "dec_val (v + w, s) = dec_val (v, s) + dec_val (w, s)"
  by (simp add: dec_val_def algebra_simps)

lemma dec_val_diff: "dec_val (v - w, s) = dec_val (v, s) - dec_val (w, s)"
  by (simp add: dec_val_def algebra_simps)

lemma dec_val_mult: "dec_val (v * w, s + t) = dec_val (v, s) * dec_val (w, t)"
  by (simp add: dec_val_def power_int_diff power_int_minus power_int_add field_simps)

lemma dec_val_eq_iff: "dec_val (v, s) = dec_val (w, s) \<longleftrightarrow> v = w"
  by (simp add: dec_val_def)

text \<open>What \<open>align_decimals\<close> leaves in the operand with the smaller scale.\<close>

definition rescaled :: "decimal \<Rightarrow> int \<Rightarrow> decimal" where
  "rescaled d t = (fst d * 10 ^ nat (t - snd d), snd d)"

context gmp_lib
begin

lemma align_decimals_eq:
  assumes "in_int 64 (s - t)" and "in_int 64 (t - s)"
  shows "align_decimals g (v, s) (w, t) = Ok (rescaled (v, s) (max s t), rescaled (w, t) (max s t))"
  using assms by (auto simp: align_decimals_def rescaled_def mul ui_pow_ui max_def)

lemma decimal_add_eq:
  assumes "in_int 64 (s - t)" and "in_int 64 (t - s)"
  shows "decimal_add g (v, s) (decimal_obj (w, t)) =
    Ok ((v * 10 ^ nat (max s t - s) + w * 10 ^ nat (max s t - t), max s t),
        rescaled (v, s) (max s t), rescaled (w, t) (max s t))"
  using align_decimals_eq [OF assms] by (simp add: decimal_add_def add rescaled_def)

lemma decimal_sub_eq:
  assumes "in_int 64 (s - t)" and "in_int 64 (t - s)"
  shows "decimal_sub g (v, s) (decimal_obj (w, t)) =
    Ok ((v * 10 ^ nat (max s t - s) - w * 10 ^ nat (max s t - t), max s t),
        rescaled (v, s) (max s t), rescaled (w, t) (max s t))"
  using align_decimals_eq [OF assms] by (simp add: decimal_sub_def sub rescaled_def)

end

section \<open>Properties\<close>

text \<open>
  C13. Addition, subtraction and multiplication return decimals that stand for the exact sum,
  difference and product, as long as differences and sums of the two scales fit a \<^verbatim>\<open>long\<close>.
\<close>

theorem decimal_arith_exact:
  assumes "gmp_lib g"
    and "in_int 64 (snd a - snd b)" and "in_int 64 (snd b - snd a)" and "in_int 64 (snd a + snd b)"
  shows "(\<exists>r a' b'. decimal_add g a (decimal_obj b) = Ok (r, a', b') \<and> dec_val r = dec_val a + dec_val b) \<and>
    (\<exists>r a' b'. decimal_sub g a (decimal_obj b) = Ok (r, a', b') \<and> dec_val r = dec_val a - dec_val b) \<and>
    (\<exists>r. decimal_mul g a (decimal_obj b) = Ok r \<and> dec_val r = dec_val a * dec_val b)"
proof -
  obtain v s w t where ab: "a = (v, s)" "b = (w, t)" by (cases a; cases b)
  have al: "dec_val (v * 10 ^ nat (max s t - s), max s t) = dec_val (v, s)"
    "dec_val (w * 10 ^ nat (max s t - t), max s t) = dec_val (w, t)"
    by (rule dec_val_align; simp)+
  show ?thesis
    using assms gmp_lib.decimal_add_eq [OF assms(1), of s t v w] gmp_lib.decimal_sub_eq [OF assms(1), of s t v w]
    by (auto simp: ab al dec_val_add dec_val_diff decimal_mul_def gmp_lib.mul [OF assms(1)] dec_val_mult)
qed

theorem decimal_arith_exact_witness:
  "\<exists>r a' b'. decimal_add gmp_ref (15, 1) (decimal_obj (225, 2)) = Ok (r, a', b') \<and>
     dec_val r = dec_val (15, 1) + dec_val (225, 2)"
  using decimal_arith_exact [OF gmp_ref.gmp_lib_axioms, of "(15, 1)" "(225, 2)"] by (simp add: in_int_def)

text \<open>
  Addition and subtraction change their operands unless the scales agree or the operand with
  the smaller scale is zero: that operand comes out with its unscaled value multiplied but its
  scale as it was, so that it stands for a different number afterwards.
\<close>

theorem decimal_add_changes_operand:
  assumes "gmp_lib g" and "in_int 64 (snd a - snd b)" and "in_int 64 (snd b - snd a)"
    and "decimal_add g a (decimal_obj b) = Ok (r, a', b') \<or> decimal_sub g a (decimal_obj b) = Ok (r, a', b')"
  shows "(dec_val a' = dec_val a \<and> dec_val b' = dec_val b) \<longleftrightarrow>
      (snd a = snd b \<or> (snd a < snd b \<and> fst a = 0) \<or> (snd b < snd a \<and> fst b = 0))"
    (is "?same \<longleftrightarrow> ?cond")
proof -
  obtain v s w t where ab: "a = (v, s)" "b = (w, t)" by (cases a; cases b)
  have r: "a' = rescaled (v, s) (max s t)" "b' = rescaled (w, t) (max s t)"
    using assms(4) gmp_lib.decimal_add_eq [OF assms(1), of s t v w] gmp_lib.decimal_sub_eq [OF assms(1), of s t v w]
      assms(2,3) by (auto simp: ab)
  have ten: "(10::int) ^ n = 1 \<longleftrightarrow> n = 0" for n
    by (cases n) (auto simp: zmult_eq_1_iff)
  have one: "(10::int) ^ nat (max s t - x) = 1 \<longleftrightarrow> max s t = x" if "x \<le> max s t" for x
    using that by (auto simp: ten)
  show ?thesis
    using one [of s] one [of t] by (auto simp: r ab rescaled_def dec_val_eq_iff)
qed

theorem decimal_add_changes_operand_witness:
  "\<exists>r a' b'. decimal_add gmp_ref (15, 1) (decimal_obj (225, 2)) = Ok (r, a', b') \<and>
     \<not> (dec_val a' = dec_val (15, 1) \<and> dec_val b' = dec_val (225, 2))"
  using decimal_add_changes_operand [OF gmp_ref.gmp_lib_axioms, of "(15, 1)" "(225, 2)" "(375, 2)" "(150, 1)" "(225, 2)"]
    gmp_ref.decimal_add_eq [of 1 2 15 225]
  by (simp add: in_int_def rescaled_def)

section \<open>Doubles are converted exactly\<close>

lemma strip_zeros_val:
  "strip_zeros m e = (m', e') \<Longrightarrow> real_of_int m' * 2 powi e' = real_of_int m * 2 powi e"
proof (induction m e arbitrary: m' e' rule: strip_zeros.induct)
  case (1 m e)
  show ?case
  proof (cases "e < 0 \<and> m AND 1 = 0")
    case True
    then have "even m" by (simp add: and_one_eq even_iff_mod_2_eq_zero)
    then have half: "real_of_int m = 2 * real_of_int (drop_bit 1 m)"
      by (auto simp: drop_bit_eq_div elim!: evenE)
    have "strip_zeros (drop_bit 1 m) (e + 1) = (m', e')"
      using 1(2) True by (subst (asm) strip_zeros.simps) simp
    from 1(1) [OF True this] show ?thesis by (simp add: half power_int_add_1)
  next
    case False
    then show ?thesis using 1(2) by (subst (asm) strip_zeros.simps) auto
  qed
qed

lemma strip_zeros_nonneg: "0 \<le> m \<Longrightarrow> strip_zeros m e = (m', e') \<Longrightarrow> 0 \<le> m'"
proof (induction m e arbitrary: m' e' rule: strip_zeros.induct)
  case (1 m e)
  show ?case
  proof (cases "e < 0 \<and> m AND 1 = 0")
    case True
    have "strip_zeros (drop_bit 1 m) (e + 1) = (m', e')"
      using 1(3) True by (subst (asm) strip_zeros.simps) simp
    then show ?thesis using 1(1) [OF True] 1(2) by simp
  next
    case False
    then have "strip_zeros m e = (m, e)" by (subst strip_zeros.simps) auto
    then show ?thesis using 1(2,3) by simp
  qed
qed

lemma raw_fields:
  "sint (d :: dbl) AND (2 ^ 52 - 1) = dbl_man d"
  "drop_bit 52 (sint d) AND (2 ^ 11 - 1) = dbl_exp d"
  "sint d < 0 \<longleftrightarrow> dbl_neg d"
proof -
  have m: "x AND (2 ^ n - 1) = x mod 2 ^ n" for x :: int and n
    by (simp add: take_bit_eq_mod flip: mask_eq_exp_minus_1 take_bit_eq_mask)
  have s: "sint d = uint d - (if dbl_neg d then 2 ^ 64 else 0)"
    (is "_ = ?k")
  proof -
    have "d = word_of_int ?k" by (simp add: dbl_neg_def)
    moreover have "in_int 64 (u - (if 2 ^ 63 \<le> u then 2 ^ 64 else 0))" if "0 \<le> u" "u < 2 ^ 64" for u :: int
      using that by (auto simp: in_int_def)
    then have "in_int 64 ?k" using uint_lt2p [of d] by (simp add: dbl_neg_def)
    ultimately show ?thesis using sint_of_int_in [of ?k, where 'a = 64] by simp
  qed
  show "sint d < 0 \<longleftrightarrow> dbl_neg d" using s uint_lt2p [of d] by auto
  show "sint d AND (2 ^ 52 - 1) = dbl_man d"
    unfolding m s dbl_man_def by (simp add: mod_eq_dvd_iff)
  show "drop_bit 52 (sint d) AND (2 ^ 11 - 1) = dbl_exp d"
  proof -
    have "(u - 2 ^ 64) div 2 ^ 52 = u div 2 ^ 52 - 2 ^ 12" for u :: int
      using div_mult_self1 [of "2 ^ 52" u "- (2 ^ 12)"] by simp
    moreover have "(x - 2 ^ 12) mod 2 ^ 11 = x mod 2 ^ 11" for x :: int by (simp add: mod_eq_dvd_iff)
    ultimately show ?thesis unfolding m s dbl_exp_def drop_bit_eq_div by (simp only: diff_zero split: if_split) simp
  qed
qed

lemma man_or: "dbl_man d OR 2 ^ 52 = dbl_man d + 2 ^ 52"
proof -
  have "dbl_man d = take_bit 52 (uint d)" by (simp add: dbl_man_def take_bit_eq_mod)
  moreover have "take_bit n x AND 2 ^ n = 0" for n and x :: int
    by (rule bit_eqI) (auto simp: bit_simps)
  ultimately have "dbl_man d AND 2 ^ 52 = 0" by (simp only:)
  then show ?thesis by (simp only: disjunctive_add_eq_or)
qed

text \<open>The mantissa and exponent that enter the loop are those of the double.\<close>

lemma from_double_eq:
  "from_double g d =
     (let (mantissa, exponent) = strip_zeros (dbl_sig d) (dbl_pow d);
          number = (case mpz_set_str g (show_int mantissa) 10 of Some n \<Rightarrow> n | None \<Rightarrow> 0);
          number = (if dbl_neg d then mpz_neg g number else number)
      in if exponent < 0
         then (mpz_mul g number (mpz_ui_pow_ui g 5 (nat (- exponent))), - exponent)
         else (mpz_mul_2exp g number (nat exponent), 0))"
proof -
  have "(if dbl_exp d = 0 then dbl_man d else dbl_man d OR 2 ^ 52) = dbl_sig d"
    by (simp only: man_or dbl_sig_def)
  moreover have "(if dbl_exp d = 0 then - 1022 else dbl_exp d - 1023) - 52 = dbl_pow d"
    by (simp add: dbl_pow_def)
  ultimately show ?thesis unfolding from_double_def raw_fields Let_def by simp
qed

text \<open>
  C14. A finite double is converted to a decimal of exactly the same value, with a scale that is
  not negative.
\<close>

theorem from_double_exact:
  assumes "gmp_lib g" and "\<not> dbl_isnan d" and "\<not> dbl_isinf d"
  shows "\<exists>r. php_driver_decimal_init g (ZDouble d) = Ok r \<and> dec_val r = dbl_val d \<and> 0 \<le> snd r"
proof -
  obtain m e where st: "strip_zeros (dbl_sig d) (dbl_pow d) = (m, e)" by fastforce
  have sig: "0 \<le> dbl_sig d" by (simp add: dbl_sig_def dbl_man_def)
  have m: "0 \<le> m" using strip_zeros_nonneg [OF sig st] .
  have set: "mpz_set_str g (show_int m) 10 = Some m"
    using gmp_lib.set_str_signed [OF assms(1), of "show_nat 10 (nat m)" False] m
    by (simp add: show_int_def minus_sign_def apply_sign_def digits_value_show_nat show_nat_list_all)
  define n where "n = (if dbl_neg d then - m else m)"
  have r: "from_double g d = (if e < 0 then (n * 5 ^ nat (- e), - e) else (n * 2 ^ nat e, 0))"
    unfolding from_double_eq st using set
    by (simp add: n_def gmp_lib.mul [OF assms(1)] gmp_lib.ui_pow_ui [OF assms(1)]
        gmp_lib.mul_2exp [OF assms(1)] gmp_lib.neg [OF assms(1)])
  have val: "dbl_val d = real_of_int n * 2 powi e"
    using strip_zeros_val [OF st] by (simp add: dbl_val_def n_def mult.assoc)
  have "dec_val (from_double g d) = real_of_int n * 2 powi e"
  proof (cases "e < 0")
    case True
    then obtain k where k: "e = - int k" "0 < k" by (metis neg_int_cases)
    have "(5::real) ^ k * 10 powi (- int k) = 2 powi (- int k)"
      by (simp add: power_int_minus field_simps flip: power_mult_distrib)
    then show ?thesis using True k by (simp add: r dec_val_def mult.assoc)
  next
    case False
    then obtain k where "e = int k" by (metis nonneg_int_cases not_less)
    then show ?thesis by (simp add: r dec_val_def)
  qed
  moreover have "0 \<le> snd (from_double g d)" by (simp add: r)
  ultimately show ?thesis using val assms by (simp add: php_driver_decimal_init_def)
qed

theorem from_double_exact_witness:
  "\<exists>r. php_driver_decimal_init gmp_ref (ZDouble 0x3FB999999999999A) = Ok r \<and>
     dec_val r = dbl_val 0x3FB999999999999A \<and> 0 \<le> snd r"
  using from_double_exact [OF gmp_ref.gmp_lib_axioms, of "0x3FB999999999999A"]
  by (simp add: dbl_isnan_def dbl_isinf_def dbl_exp_def)

end
