(* ===== verification/Twos_Complement.thy ===== *)
theory Twos_Complement
  imports Gmp
begin

text \<open>
  \<^verbatim>\<open>ext/util/math.c\<close>: the wire encoding of varints. \<open>export_twos_complement\<close> writes an integer as
  big-endian two's complement bytes and \<open>import_twos_complement\<close> reads them back. The theorems
  say for which integers the encoding is read back unchanged.
\<close>

unbundle bit_operations_syntax

definition import_twos_complement :: "gmp \<Rightarrow> byte list \<Rightarrow> int" where
  "import_twos_complement g data =
     (let number = mpz_import g data
      in if hd data AND 0x80 = 0x80
         then (let temp = mpz_mul_2exp g 1 (8 * length data) in mpz_sub g number temp)
         else number)"

text \<open>
  The bytes returned and the value stored in \<^verbatim>\<open>*size\<close>. The comparison in the negative branch is
  done on \<^verbatim>\<open>size_t\<close>, where \<^verbatim>\<open>(8 * (n - 1)) - 1\<close> wraps around when \<open>n = 1\<close>.
\<close>

definition export_twos_complement :: "gmp \<Rightarrow> int \<Rightarrow> byte list \<times> nat" where
  "export_twos_complement g number =
     (if mpz_sgn g number = 0 then ([0], 1)
      else if mpz_sgn g number = -1 then
        (let n = mpz_sizeinbase2 g number div 8 + 1;
             n = (if int (mpz_scan1 g number) = (8 * (int n - 1) - 1) mod 2 ^ 64 then n - 1 else n);
             temp = mpz_add g number (mpz_mul_2exp g 1 (8 * n));
             bytes = mpz_export g temp
         in (bytes, length bytes))
      else (0 # mpz_export g number, (mpz_sizeinbase2 g number + 7) div 8 + 1))"

text \<open>
  The inputs on which the special case for \<open>-2 ^ (8 * n - 1)\<close> fires although the number is not
  such a power: \<open>-(2 * m + 1) * 2 ^ (8 * n - 1)\<close> with \<open>m > 0\<close>, whose magnitude still has \<open>n + 1\<close> bytes.
\<close>

definition misencoded :: "gmp \<Rightarrow> int \<Rightarrow> bool" where
  "misencoded g number \<longleftrightarrow>
     number < 0 \<and> 8 \<le> mpz_sizeinbase2 g number
     \<and> mpz_scan1 g number = 8 * (mpz_sizeinbase2 g number div 8) - 1
     \<and> number \<noteq> - (2 ^ mpz_scan1 g number)"

section \<open>Bytes and their leading bit\<close>

lemma top_bit_iff: "(b :: byte) AND 0x80 = 0x80 \<longleftrightarrow> 128 \<le> uint b"
proof -
  have "b AND 2 ^ n = (if bit b n then 2 ^ n else 0)" for n
    by (rule bit_eqI) (auto simp: bit_and_iff bit_exp_iff)
  from this [of 7] have "b AND 0x80 = 0x80 \<longleftrightarrow> bit b 7" by simp
  also have "\<dots> \<longleftrightarrow> odd (uint b div 2 ^ 7)"
    by (simp only: bit_uint_iff bit_iff_odd [symmetric]) simp
  also have "\<dots> \<longleftrightarrow> 128 \<le> uint b"
  proof -
    have "x div 2 ^ 7 = (if 128 \<le> x then 1 else 0)" if "0 \<le> x" "x < 256" for x :: int
      using that by (simp add: div_pos_geq div_pos_pos_trivial)
    from this [of "uint b"] show ?thesis using uint_byte [of b] by simp
  qed
  finally show ?thesis .
qed

text \<open>A byte list of \<open>k\<close> bytes has its top bit set iff its value is at least \<open>2 ^ (8 * k - 1)\<close>.\<close>

lemma top_bit_be_val:
  assumes "bs \<noteq> []"
  shows "128 \<le> uint (hd bs) \<longleftrightarrow> 128 * 256 ^ (length bs - 1) \<le> be_val bs"
proof -
  obtain b cs where bs: "bs = b # cs" using assms by (cases bs) auto
  let ?p = "(256::int) ^ length cs"
  have v: "be_val bs = uint b * ?p + be_val cs" "0 \<le> be_val cs" "be_val cs < ?p"
    using bs be_val_Cons be_val_nonneg be_val_less by auto
  show ?thesis
  proof
    assume "128 \<le> uint (hd bs)"
    then have "128 * ?p \<le> uint b * ?p" using bs by (intro mult_right_mono) auto
    with v have "128 * ?p \<le> be_val bs" by linarith
    then show "128 * 256 ^ (length bs - 1) \<le> be_val bs" using bs by simp
  next
    assume a: "128 * 256 ^ (length bs - 1) \<le> be_val bs"
    have "128 \<le> uint b"
    proof (rule ccontr)
      assume "\<not> 128 \<le> uint b"
      then have "uint b * ?p \<le> 127 * ?p" by (intro mult_right_mono) auto
      moreover have "128 * ?p \<le> be_val bs" using a bs by simp
      ultimately show False using v by linarith
    qed
    then show "128 \<le> uint (hd bs)" using bs by simp
  qed
qed

lemma pow256: "(256::int) ^ k = 2 ^ (8 * k)"
  by (simp add: power_mult)

lemma half256: "0 < k \<Longrightarrow> 128 * (256::int) ^ (k - 1) = 2 ^ (8 * k - 1)"
proof -
  assume "0 < k"
  then obtain j where "k = Suc j" by (cases k) auto
  then show ?thesis by (simp add: pow256 power_add)
qed

context gmp_lib
begin

lemma import_eq:
  assumes "bs \<noteq> []"
  shows "import_twos_complement g bs =
     be_val bs - (if 2 ^ (8 * length bs - 1) \<le> be_val bs then 2 ^ (8 * length bs) else 0)"
proof -
  have "hd bs AND 0x80 = 0x80 \<longleftrightarrow> 2 ^ (8 * length bs - 1) \<le> be_val bs"
    unfolding top_bit_iff top_bit_be_val [OF assms] using assms by (subst half256) auto
  then show ?thesis by (simp add: import_twos_complement_def import_val mul_2exp sub)
qed

text \<open>Exporting \<open>v\<close> with \<open>2 ^ (8 * k - 8) \<le> \<bar>v\<bar> < 2 ^ (8 * k)\<close> gives \<open>k\<close> bytes.\<close>

lemma export_length:
  assumes "v \<noteq> 0" and "2 ^ (8 * k - 8) \<le> \<bar>v\<bar>" and "\<bar>v\<bar> < 2 ^ (8 * k)"
  shows "length (mpz_export g v) = k"
proof -
  let ?s = "mpz_sizeinbase2 g v"
  have s: "0 < ?s" "2 ^ (?s - 1) \<le> \<bar>v\<bar>" "\<bar>v\<bar> < 2 ^ ?s" using sizeinbase2 [OF assms(1)] by auto
  from s(2) assms(3) have "(2::int) ^ (?s - 1) < 2 ^ (8 * k)" by linarith
  then have "?s - 1 < 8 * k" by (rule power_less_imp_less_exp [rotated]) simp
  moreover from s(3) assms(2) have "(2::int) ^ (8 * k - 8) < 2 ^ ?s" by linarith
  then have "8 * k - 8 < ?s" by (rule power_less_imp_less_exp [rotated]) simp
  moreover have "length (mpz_export g v) = (?s + 7) div 8" by (rule export_len [OF assms(1)])
  ultimately show ?thesis using s(1) by (cases k) auto
qed

text \<open>
  A negative number whose magnitude fits in \<open>k\<close> bytes of two's complement, written as
  \<open>number + 2 ^ (8 * k)\<close>, is read back unchanged.
\<close>

lemma import_export_negative:
  assumes "n < 0" and "- n \<le> 2 ^ (8 * k - 1)" and "0 < k"
  shows "import_twos_complement g (mpz_export g (n + 2 ^ (8 * k))) = n"
proof -
  let ?v = "n + 2 ^ (8 * k)"
  have dbl: "(2::int) ^ (8 * k) = 2 * 2 ^ (8 * k - 1)"
    using assms(3) by (metis power_Suc Suc_diff_1 nat_0_less_mult_iff zero_less_numeral)
  have le: "(2::int) ^ (8 * k - 8) \<le> 2 ^ (8 * k - 1)" by (rule power_increasing) auto
  have v: "2 ^ (8 * k - 1) \<le> ?v" "?v < 2 ^ (8 * k)" using assms dbl by linarith+
  have pos: "0 < ?v" using v(1) zero_less_power [of "2::int" "8 * k - 1"] by linarith
  have "2 ^ (8 * k - 8) \<le> \<bar>?v\<bar>" "\<bar>?v\<bar> < 2 ^ (8 * k)" using v le pos by linarith+
  then have len: "length (mpz_export g ?v) = k" using pos by (intro export_length) auto
  then have ne: "mpz_export g ?v \<noteq> []" using assms(3) by auto
  have "be_val (mpz_export g ?v) = ?v" using pos by (simp add: export_val)
  with import_eq [OF ne] len v show ?thesis by simp
qed

lemma import_export_positive:
  assumes "0 < n"
  shows "import_twos_complement g (0 # mpz_export g n) = n"
proof -
  let ?bs = "0 # mpz_export g n"
  have val: "be_val ?bs = n" using assms by (simp add: be_val_Cons export_val)
  have "be_val (mpz_export g n) < 256 ^ length (mpz_export g n)" by (rule be_val_less)
  then have "n < 2 ^ (8 * length (mpz_export g n))" using assms by (simp add: export_val pow256)
  also have "(2::int) ^ (8 * length (mpz_export g n)) \<le> 2 ^ (8 * length ?bs - 1)"
    by (rule power_increasing) auto
  finally show ?thesis using import_eq [of ?bs] val by simp
qed


lemma export_negative_cases:
  assumes "n < 0"
    and bound: "8 * (mpz_sizeinbase2 g n div 8) < 2 ^ 64" "mpz_scan1 g n < 2 ^ 64 - 1"
  shows "export_twos_complement g n =
    (let k = mpz_sizeinbase2 g n div 8 + 1;
         k = (if 8 \<le> mpz_sizeinbase2 g n \<and> mpz_scan1 g n = 8 * (mpz_sizeinbase2 g n div 8) - 1
              then k - 1 else k)
     in (mpz_export g (n + 2 ^ (8 * k)), length (mpz_export g (n + 2 ^ (8 * k)))))"
proof -
  let ?q = "mpz_sizeinbase2 g n div 8"
  have "int (mpz_scan1 g n) = (8 * (int (?q + 1) - 1) - 1) mod 2 ^ 64
      \<longleftrightarrow> 8 \<le> mpz_sizeinbase2 g n \<and> mpz_scan1 g n = 8 * ?q - 1"
  proof (cases "8 \<le> mpz_sizeinbase2 g n")
    case True
    then have q: "0 < ?q" by (simp add: div_greater_zero_iff)
    have "int (8 * ?q) < int (2 ^ 64)" using bound by (simp only: of_nat_less_iff)
    then have "(8 * int ?q - 1) mod 2 ^ 64 = 8 * int ?q - 1"
      using q by (intro mod_pos_pos_trivial) auto
    then show ?thesis using True q by (auto simp: of_nat_diff)
  next
    case False
    then have "?q = 0" by simp
    moreover have "(- 1 :: int) mod 2 ^ 64 = 2 ^ 64 - 1" by simp
    moreover have "int (mpz_scan1 g n) < int (2 ^ 64 - 1)" using bound by (simp only: of_nat_less_iff)
    ultimately show ?thesis using False by auto
  qed
  then show ?thesis using assms
    by (simp add: export_twos_complement_def sgn add mul_2exp Let_def add.commute)
qed

text \<open>Numbers of fewer than \<open>2 ^ 64\<close> bits, which is every number that fits in memory.\<close>

lemma scan1_less_size:
  assumes "n \<noteq> 0"
  shows "mpz_scan1 g n < mpz_sizeinbase2 g n"
proof -
  have "2 ^ mpz_scan1 g n \<le> \<bar>n\<bar>" using scan1 [OF assms] assms zdvd_imp_le [of "2 ^ mpz_scan1 g n" "\<bar>n\<bar>"] by simp
  with sizeinbase2 [OF assms] have "(2::int) ^ mpz_scan1 g n < 2 ^ mpz_sizeinbase2 g n" by linarith
  then show ?thesis by (rule power_less_imp_less_exp [rotated]) simp
qed

lemma roundtrip_if:
  assumes small: "mpz_sizeinbase2 g n < 2 ^ 64 - 1" and ok: "\<not> misencoded g n"
  shows "import_twos_complement g (fst (export_twos_complement g n)) = n"
proof -
  consider "n = 0" | "0 < n" | "n < 0" by linarith
  then show ?thesis
  proof cases
    case 1
    then show ?thesis
      by (simp add: export_twos_complement_def sgn import_twos_complement_def import_val be_val_Cons)
  next
    case 2
    then show ?thesis by (simp add: export_twos_complement_def sgn import_export_positive)
  next
    case 3
    let ?s = "mpz_sizeinbase2 g n" and ?c = "mpz_scan1 g n"
    let ?k = "if 8 \<le> ?s \<and> ?c = 8 * (?s div 8) - 1 then ?s div 8 else ?s div 8 + 1"
    have bound: "8 * (?s div 8) < 2 ^ 64" "?c < 2 ^ 64 - 1"
      using small scan1_less_size [of n] 3 by linarith+
    have s: "0 < ?s" "- n < 2 ^ ?s" using sizeinbase2 [of n] 3 by auto
    have "- n \<le> 2 ^ (8 * ?k - 1) \<and> 0 < ?k"
    proof (cases "8 \<le> ?s \<and> ?c = 8 * (?s div 8) - 1")
      case True
      then have "n = - (2 ^ ?c)" using ok 3 by (auto simp: misencoded_def)
      moreover have "0 < ?s div 8" using True by (simp add: div_greater_zero_iff)
      ultimately show ?thesis using True by simp
    next
      case False
      have "(2::int) ^ ?s \<le> 2 ^ (8 * (?s div 8 + 1) - 1)" by (rule power_increasing) auto
      with s(2) have "- n \<le> 2 ^ (8 * (?s div 8 + 1) - 1)" by linarith
      then show ?thesis using False by (simp only: if_False) simp
    qed
    then have "import_twos_complement g (mpz_export g (n + 2 ^ (8 * ?k))) = n"
      using 3 by (intro import_export_negative) auto
    then show ?thesis using export_negative_cases [OF 3 bound]
      by (auto simp: Let_def split: if_splits)
  qed
qed

text \<open>
  On a misencoded number \<open>temp\<close> is negative, \<^verbatim>\<open>mpz_export\<close> drops its sign, and the bytes are those
  of another number.
\<close>

lemma misencoded_differs:
  assumes small: "mpz_sizeinbase2 g n < 2 ^ 64 - 1" and bad: "misencoded g n"
  shows "import_twos_complement g (fst (export_twos_complement g n)) \<noteq> n"
proof -
  let ?s = "mpz_sizeinbase2 g n" and ?c = "mpz_scan1 g n" and ?k = "mpz_sizeinbase2 g n div 8"
  have n: "n < 0" "8 \<le> ?s" "?c = 8 * ?k - 1" "n \<noteq> - (2 ^ ?c)"
    using bad by (auto simp: misencoded_def)
  have k: "0 < ?k" using n by (simp add: div_greater_zero_iff)
  obtain m where m: "n = 2 ^ ?c * m" using scan1 [of n] n(1) by (auto elim: dvdE)
  have "odd m"
  proof
    assume "even m"
    then obtain j where "m = 2 * j" by auto
    with m have "n = 2 ^ Suc ?c * j" by simp
    then have "2 ^ Suc ?c dvd n" by (rule dvdI)
    with scan1 [of n] n(1) show False by simp
  qed
  moreover have "m < 0"
  proof -
    have "2 ^ ?c * m < 0" using m n(1) by metis
    then show ?thesis by (simp add: mult_less_0_iff)
  qed
  moreover have "m \<noteq> -1"
  proof
    assume "m = -1"
    with m have "n = - (2 ^ ?c)" by (metis mult_minus1_right)
    with n(4) show False by simp
  qed
  ultimately have m3: "m \<le> -3" by presburger
  have "- n < 2 ^ ?s" using sizeinbase2 [of n] n(1) by auto
  also have "(2::int) ^ ?s \<le> 2 ^ (?c + 8)" using n(3) k by (intro power_increasing) auto
  finally have "- (2 ^ ?c * m) < 2 ^ (?c + 8)" using m by metis
  then have "2 ^ ?c * (- m) < 2 ^ ?c * (256::int)" by (simp add: power_add)
  then have m256: "- m < 256"
    by (simp only: mult_less_cancel_left_pos zero_less_power zero_less_numeral)
  have bound: "8 * ?k < 2 ^ 64" "?c < 2 ^ 64 - 1"
    using small scan1_less_size [of n] n(1) by linarith+
  let ?v = "2 ^ ?c * (m + 2)"
  have c8: "8 * ?k = Suc ?c" using n(3) k by simp
  have "2 ^ ?c * m + 2 ^ Suc ?c = ?v" by (simp add: algebra_simps)
  then have v: "n + 2 ^ (8 * ?k) = ?v" using m c8 by metis
  have ex: "fst (export_twos_complement g n) = mpz_export g ?v"
    using export_negative_cases [OF n(1) bound] n v by (simp add: Let_def)
  have "?v < 0" using m3 by (simp add: mult_less_0_iff)
  then have val: "be_val (mpz_export g ?v) = - ?v" by (simp add: export_val)
  let ?L = "length (mpz_export g ?v)"
  have ne: "mpz_export g ?v \<noteq> []" using val \<open>?v < 0\<close> by auto
  show ?thesis
  proof
    assume "import_twos_complement g (fst (export_twos_complement g n)) = n"
    then have eq: "- ?v - (if 2 ^ (8 * ?L - 1) \<le> - ?v then 2 ^ (8 * ?L) else 0) = n"
      using ex import_eq [OF ne] val by simp
    then have p: "- ?v - n = 2 ^ (8 * ?L)" using \<open>?v < 0\<close> n(1) by (auto split: if_splits)
    have "- ?v - 2 ^ ?c * m = 2 ^ Suc ?c * (- m - 1)" by (simp add: algebra_simps)
    then have "- ?v - n = 2 ^ Suc ?c * (- m - 1)" using m by metis
    with p c8 have e: "2 ^ (8 * ?k) * (- m - 1) = (2::int) ^ (8 * ?L)" by simp
    have "?k < ?L"
    proof (rule ccontr)
      assume "\<not> ?k < ?L"
      then have "(2::int) ^ (8 * ?L) \<le> 2 ^ (8 * ?k) * 1" by (simp add: power_increasing)
      also have "\<dots> < 2 ^ (8 * ?k) * (- m - 1)" using m3 by (intro mult_strict_left_mono) auto
      finally show False using e by simp
    qed
    then have "(2::int) ^ (8 * ?k) * 256 \<le> 2 ^ (8 * ?L)"
      using power_increasing [of "8 * ?k + 8" "8 * ?L" "2::int"] by (simp add: power_add)
    with e have "2 ^ (8 * ?k) * 256 \<le> (2::int) ^ (8 * ?k) * (- m - 1)" by simp
    then have "256 \<le> - m - 1" by (simp add: mult_le_cancel_left)
    with m256 show False by simp
  qed
qed

lemma size_is_length:
  "snd (export_twos_complement g n) = length (fst (export_twos_complement g n))"
  by (simp add: export_twos_complement_def Let_def sgn export_len sgn_if split: if_splits)

end

lemma nine_bits:
  assumes "0 < s" and "2 ^ (s - 1) \<le> (384::int)" and "384 < (2::int) ^ s"
  shows "s = 9"
proof -
  have "(2::int) ^ (s - 1) < 2 ^ 9" using assms(2) by simp
  then have "s - 1 < 9" by (rule power_less_imp_less_exp [rotated]) simp
  moreover have "(2::int) ^ 8 < 2 ^ s" using assms(3) by simp
  then have "8 < s" by (rule power_less_imp_less_exp [rotated]) simp
  ultimately show ?thesis by simp
qed

lemma seven_zeros:
  assumes "2 ^ c dvd (384::int)" and "\<not> 2 ^ Suc c dvd (384::int)"
  shows "c = 7"
proof -
  have "\<not> 7 < c"
  proof
    assume "7 < c"
    then have "(2::int) ^ 8 dvd 2 ^ c" by (intro le_imp_power_dvd) simp
    with assms(1) have "(2::int) ^ 8 dvd 384" by (rule dvd_trans [rotated])
    then show False by simp
  qed
  moreover have "\<not> c < 7"
  proof
    assume "c < 7"
    then have "(2::int) ^ Suc c dvd 2 ^ 7" by (intro le_imp_power_dvd) simp
    moreover have "(2::int) ^ 7 dvd 384" by simp
    ultimately show False using assms(2) dvd_trans by blast
  qed
  ultimately show ?thesis by simp
qed

section \<open>Properties\<close>

text \<open>
  C10. A varint is encoded and decoded without loss exactly when it is not one of the numbers on
  which the special case of the negative branch fires by mistake: decoding the bytes that
  \<open>export_twos_complement\<close> produces gives back \<open>n\<close> if and only if \<open>n\<close> is not misencoded.
\<close>

theorem varint_encoding_roundtrip:
  assumes "gmp_lib g" and "mpz_sizeinbase2 g n < 2 ^ 64 - 1"
  shows "import_twos_complement g (fst (export_twos_complement g n)) = n \<longleftrightarrow> \<not> misencoded g n"
  using gmp_lib.roundtrip_if [OF assms] gmp_lib.misencoded_differs [OF assms] by blast

theorem varint_encoding_roundtrip_witness:
  "import_twos_complement gmp_ref (fst (export_twos_complement gmp_ref (- 129))) = - 129
   \<and> \<not> misencoded gmp_ref (- 129)"
proof -
  have small: "mpz_sizeinbase2 gmp_ref (- 129) < 2 ^ 64 - 1"
    by (simp add: gmp_ref_def sizeinbase2_ref_def nbits.simps)
  have "\<not> misencoded gmp_ref (- 129)"
    by (simp add: misencoded_def gmp_ref_def low_bit.simps sizeinbase2_ref_def nbits.simps)
  with varint_encoding_roundtrip [OF gmp_ref.gmp_lib_axioms small] show ?thesis by simp
qed

text \<open>
  The smallest misencoded number: \<open>-384\<close> is written as the single byte \<open>0x80\<close>, the encoding of
  \<open>-128\<close>, and is read back as \<open>-128\<close>.
\<close>

theorem minus_384_encoded_as_minus_128:
  assumes "gmp_lib g"
  shows "export_twos_complement g (- 384) = ([0x80], 1)
    \<and> import_twos_complement g (fst (export_twos_complement g (- 384))) = - 128"
proof -
  have len: "length (mpz_export g (- 128)) = 1"
    using gmp_lib.export_length [OF assms, of "- 128" 1] by simp
  then obtain b where b: "mpz_export g (- 128) = [b]" by (auto simp: length_Suc_conv)
  then have "uint b = 128" using gmp_lib.export_val [OF assms, of "- 128"] by (simp add: be_val_Cons)
  then have "b = 0x80" by (simp add: word_uint_eq_iff)
  moreover have s: "mpz_sizeinbase2 g (- 384) = 9"
    using gmp_lib.sizeinbase2 [OF assms, of "- 384"] by (intro nine_bits) auto
  moreover have "mpz_scan1 g (- 384) = 7"
    using gmp_lib.scan1 [OF assms, of "- 384"] by (intro seven_zeros) auto
  ultimately have e: "export_twos_complement g (- 384) = ([0x80], 1)"
    using b by (simp add: export_twos_complement_def gmp_lib.sgn [OF assms] gmp_lib.add [OF assms]
        gmp_lib.mul_2exp [OF assms])
  then show ?thesis using gmp_lib.import_eq [OF assms, of "[0x80]"] by (simp add: be_val_Cons)
qed

theorem minus_384_encoded_as_minus_128_witness:
  "export_twos_complement gmp_ref (- 384) = ([0x80], 1)"
  using minus_384_encoded_as_minus_128 [OF gmp_ref.gmp_lib_axioms] by simp

end
