(* ===== verification/Inet.thy ===== *)
theory Inet
  imports Prelude
begin

text \<open>
  \<^verbatim>\<open>ext/util/inet.c\<close> and \<^verbatim>\<open>ext/src/Inet.c\<close>: reading and writing IP addresses. The parser is a state machine over
  the tokens of the address; it first takes a decimal number for a 16-bit field and goes back over
  it when a dot follows. An address is its bytes, 4 or 16 of them. Writing outside the 16-byte
  buffer, moving the input pointer before the input and printing the buffer as a string when it has no
  terminating zero are \<open>UB\<close>.
\<close>

section \<open>Tokens\<close>

datatype token_type = TOKEN_END | TOKEN_COLON | TOKEN_DOT | TOKEN_HEX | TOKEN_DEC | TOKEN_ILLEGAL

datatype parser_state =
    STATE_START | STATE_FIELD | STATE_COMPRESSED | STATE_AFTERHEX | STATE_AFTERDEC
  | STATE_IPV4BYTE | STATE_IPV4DOT | STATE_AFTERCOLON | STATE_END

text \<open>The type, the text and the length of the token at a position; the end of the address counts as one character.\<close>

definition ip_address_tokenize :: "string \<Rightarrow> nat \<Rightarrow> token_type \<times> string \<times> nat" where
  "ip_address_tokenize s p =
     (let ch = cget s p
      in if isxdigit ch
         then (let digits = takeWhile isxdigit (take 4 (drop p s))
               in (if list_all isdigit digits then TOKEN_DEC else TOKEN_HEX, map tolower digits, length digits))
         else (if ch = NUL then TOKEN_END else if ch = CHR '':'' then TOKEN_COLON
               else if ch = CHR ''.'' then TOKEN_DOT else TOKEN_ILLEGAL, [ch], 1))"

section \<open>The parser\<close>

record ip_state =
  in_ptr :: nat
  token_len :: int
  prev_token_len :: int
  pstate :: parser_state
  pos :: int
  compress_pos :: int
  ipv4_pos :: int
  address :: "8 word list"
  domain :: int \<comment> \<open>1 when the address is known to be an IPv4 address, else 0\<close>

text \<open>An iteration continues with the next token, leaves the loop, throws, or is undefined.\<close>

datatype ip_result = Continue ip_state | Break ip_state | Fail | Undefined

definition put_byte :: "int \<Rightarrow> 8 word \<Rightarrow> 8 word list \<Rightarrow> 8 word list option" where
  "put_byte i b bs = (if 0 \<le> i \<and> i < int (length bs) then Some (bs[nat i := b]) else None)"

definition ip_compressed :: "token_type \<Rightarrow> ip_state \<Rightarrow> ip_result" where
  "ip_compressed type st =
     (if type \<noteq> TOKEN_COLON then Fail
      else if compress_pos st \<noteq> - 1 then Fail
      else Continue (st\<lparr>compress_pos := (if pos st = - 1 then 0 else pos st + 1), pstate := STATE_FIELD\<rparr>))"

definition ip_field :: "token_type \<Rightarrow> string \<Rightarrow> ip_state \<Rightarrow> ip_result" where
  "ip_field type token st =
     (if type = TOKEN_END \<and> pos st + 1 = compress_pos st then Break st
      else if type \<noteq> TOKEN_HEX \<and> type \<noteq> TOKEN_DEC then Fail
      else
        (let st = st\<lparr>pstate := (if type = TOKEN_HEX then STATE_AFTERHEX else STATE_AFTERDEC)\<rparr>
         in if pos st + 3 > 16 then Break (st\<lparr>pos := pos st + 2\<rparr>)
            else
              (let field = fst (scan_digits 16 0 token)
               in case Option.bind (put_byte (pos st + 1) (word_of_nat (field div 256)) (address st))
                         (put_byte (pos st + 2) (word_of_nat (field mod 256))) of
                    Some bs \<Rightarrow> Continue (st\<lparr>pos := pos st + 2, address := bs\<rparr>)
                  | None \<Rightarrow> Undefined)))"

definition ip_afterhex :: "token_type \<Rightarrow> ip_state \<Rightarrow> ip_result" where
  "ip_afterhex type st =
     (if type = TOKEN_END then Break st
      else if type = TOKEN_COLON then Continue (st\<lparr>pstate := STATE_AFTERCOLON\<rparr>)
      else Fail)"

definition ip_afterdec :: "token_type \<Rightarrow> ip_state \<Rightarrow> ip_result" where
  "ip_afterdec type st =
     (if type = TOKEN_END then Break st
      else if type = TOKEN_COLON then Continue (st\<lparr>pstate := STATE_AFTERCOLON\<rparr>)
      else if type = TOKEN_DOT then
        (case Option.bind (put_byte (pos st) 0 (address st)) (put_byte (pos st - 1) 0) of
           Some bs \<Rightarrow>
             if 0 \<le> int (in_ptr st) - (prev_token_len st + 1)
             then Continue (st\<lparr>address := bs, pos := pos st - 2,
                    in_ptr := nat (int (in_ptr st) - (prev_token_len st + 1)),
                    pstate := STATE_IPV4BYTE, ipv4_pos := 0\<rparr>)
             else Undefined
         | None \<Rightarrow> Undefined)
      else Fail)"

definition ip_ipv4byte :: "token_type \<Rightarrow> string \<Rightarrow> ip_state \<Rightarrow> ip_result" where
  "ip_ipv4byte type token st =
     (if type \<noteq> TOKEN_DEC then Fail
      else if token_len st > 1 \<and> hd token = CHR ''0'' then Fail
      else
        (let ipv4_byte = fst (scan_digits 10 0 token)
         in if ipv4_byte > 255 then Fail
            else if pos st + 2 > 16 then Break (st\<lparr>pos := pos st + 1\<rparr>)
            else
              (case put_byte (pos st + 1) (word_of_nat ipv4_byte) (address st) of
                 Some bs \<Rightarrow>
                   (let st = st\<lparr>ipv4_pos := ipv4_pos st + 1, pos := pos st + 1, address := bs\<rparr>
                    in if ipv4_pos st = 4
                       then Continue (st\<lparr>domain := (if compress_pos st = - 1 \<and> pos st + 1 = 4 then 1 else domain st),
                                         pstate := STATE_END\<rparr>)
                       else Continue (st\<lparr>pstate := STATE_IPV4DOT\<rparr>))
               | None \<Rightarrow> Undefined)))"

definition ip_ipv4dot :: "token_type \<Rightarrow> ip_state \<Rightarrow> ip_result" where
  "ip_ipv4dot type st = (if type = TOKEN_DOT then Continue (st\<lparr>pstate := STATE_IPV4BYTE\<rparr>) else Fail)"

definition ip_end :: "token_type \<Rightarrow> ip_state \<Rightarrow> ip_result" where
  "ip_end type st = (if type = TOKEN_END then Break st else Fail)"

text \<open>
  The handlers of the states, in the order of the loop body; the start state and the state after a
  colon pass the token on to another state.
\<close>

definition ip_dispatch :: "parser_state \<Rightarrow> token_type \<Rightarrow> string \<Rightarrow> ip_state \<Rightarrow> ip_result" where
  "ip_dispatch state type token st =
     (case state of
        STATE_COMPRESSED \<Rightarrow> ip_compressed type st
      | STATE_FIELD \<Rightarrow> ip_field type token st
      | STATE_AFTERHEX \<Rightarrow> ip_afterhex type st
      | STATE_AFTERDEC \<Rightarrow> ip_afterdec type st
      | STATE_IPV4BYTE \<Rightarrow> ip_ipv4byte type token st
      | STATE_IPV4DOT \<Rightarrow> ip_ipv4dot type st
      | STATE_END \<Rightarrow> ip_end type st
      | _ \<Rightarrow> Continue st)"

definition after_start :: "token_type \<Rightarrow> parser_state \<Rightarrow> parser_state" where
  "after_start type state =
     (case state of
        STATE_START \<Rightarrow> STATE_FIELD
      | STATE_AFTERCOLON \<Rightarrow> (if type = TOKEN_COLON then STATE_COMPRESSED else STATE_FIELD)
      | _ \<Rightarrow> state)"

definition next_token :: "string \<Rightarrow> ip_state \<Rightarrow> ip_state" where
  "next_token s st =
     (case ip_address_tokenize s (in_ptr st) of (type, token, len) \<Rightarrow>
        st\<lparr>prev_token_len := (if token_len st > - 1 then token_len st else prev_token_len st),
           token_len := int len, in_ptr := in_ptr st + len\<rparr>)"

definition ip_step :: "string \<Rightarrow> ip_state \<Rightarrow> ip_result" where
  "ip_step s st0 =
     (case ip_address_tokenize s (in_ptr st0) of (type, token, len) \<Rightarrow>
        (let st = next_token s st0
         in if type = TOKEN_ILLEGAL then Fail
            else if pstate st = STATE_START \<and> type = TOKEN_COLON then Continue (st\<lparr>pstate := STATE_COMPRESSED\<rparr>)
            else if pstate st = STATE_START \<and> type \<noteq> TOKEN_HEX \<and> type \<noteq> TOKEN_DEC then Fail
            else ip_dispatch (after_start type (pstate st)) type token st))"

section \<open>Termination\<close>

definition ipv4_phase :: "ip_state \<Rightarrow> bool" where
  "ipv4_phase st \<longleftrightarrow> pstate st \<in> {STATE_IPV4BYTE, STATE_IPV4DOT, STATE_END}"

lemma tokenize_cases:
  assumes "ip_address_tokenize s p = (type, token, len)"
  shows "1 \<le> len" and "type \<noteq> TOKEN_END \<Longrightarrow> p < length s \<and> p + len \<le> length s"
proof -
  have nx: "\<not> isxdigit NUL" by (simp add: ctype_defs)
  have "cget s p \<noteq> NUL \<Longrightarrow> p < length s" by (auto simp: cget_def split: if_splits)
  moreover have "1 \<le> length (takeWhile isxdigit (take 4 (drop p s))) \<and>
      p + length (takeWhile isxdigit (take 4 (drop p s))) \<le> length s" if x: "isxdigit (cget s p)"
  proof -
    have p: "p < length s" using x nx by (auto simp: cget_def split: if_splits)
    then obtain c cs where d: "drop p s = c # cs" by (cases "drop p s") auto
    have "c = cget s p" using d p by (metis cget_def nth_via_drop)
    then have "1 \<le> length (takeWhile isxdigit (take 4 (drop p s)))" using x d by simp
    moreover have "length (takeWhile isxdigit (take 4 (drop p s))) \<le> length (drop p s)"
      using length_takeWhile_le [of isxdigit "take 4 (drop p s)"] by simp
    ultimately show ?thesis using p by simp
  qed
  ultimately show "1 \<le> len" and "type \<noteq> TOKEN_END \<Longrightarrow> p < length s \<and> p + len \<le> length s"
    using assms nx by (auto simp: ip_address_tokenize_def Let_def split: if_splits)
qed

lemmas ip_handler_defs = ip_compressed_def ip_field_def ip_afterhex_def ip_afterdec_def ip_ipv4byte_def
  ip_ipv4dot_def ip_end_def

lemma next_token_same [simp]:
  "pstate (next_token s st) = pstate st" "pos (next_token s st) = pos st" "address (next_token s st) = address st"
  "compress_pos (next_token s st) = compress_pos st" "ipv4_pos (next_token s st) = ipv4_pos st"
  "domain (next_token s st) = domain st"
  by (auto simp: next_token_def split: prod.splits)

lemma next_token_len:
  "ip_address_tokenize s (in_ptr st) = (type, token, len) \<Longrightarrow>
    in_ptr (next_token s st) = in_ptr st + len \<and> token_len (next_token s st) = int len \<and>
    prev_token_len (next_token s st) = (if token_len st > - 1 then token_len st else prev_token_len st)"
  by (simp add: next_token_def)

text \<open>The handlers keep the input pointer, except for the step back, which enters the IPv4 states for good.\<close>

lemma ip_dispatch_progress:
  assumes "ip_dispatch state type token st = Continue st'" and "state \<notin> {STATE_START, STATE_AFTERCOLON}"
  shows "type \<noteq> TOKEN_END \<and>
    (if state \<in> {STATE_IPV4BYTE, STATE_IPV4DOT, STATE_END} then ipv4_phase st' \<and> in_ptr st' = in_ptr st
     else ipv4_phase st' \<or> in_ptr st' = in_ptr st)"
  using assms
  by (cases state) (auto simp: ip_dispatch_def ip_handler_defs ipv4_phase_def Let_def split: if_splits option.splits)

lemma ip_step_progress:
  assumes "ip_step s st = Continue st'"
  shows "in_ptr st < length s" and "ipv4_phase st \<Longrightarrow> ipv4_phase st' \<and> in_ptr st < in_ptr st'"
    and "\<not> ipv4_phase st \<Longrightarrow> ipv4_phase st' \<or> in_ptr st < in_ptr st'"
proof -
  obtain type token len where t: "ip_address_tokenize s (in_ptr st) = (type, token, len)" by (cases "ip_address_tokenize s (in_ptr st)") auto
  note nt = next_token_len [OF t]
  have len: "1 \<le> len" using tokenize_cases(1) [OF t] .
  let ?state = "after_start type (pstate st)"
  have ns: "?state \<notin> {STATE_START, STATE_AFTERCOLON}"
    by (auto simp: after_start_def split: parser_state.splits)
  have step: "ip_step s st =
      (if type = TOKEN_ILLEGAL then Fail
       else if pstate st = STATE_START \<and> type = TOKEN_COLON
       then Continue ((next_token s st)\<lparr>pstate := STATE_COMPRESSED\<rparr>)
       else if pstate st = STATE_START \<and> type \<noteq> TOKEN_HEX \<and> type \<noteq> TOKEN_DEC then Fail
       else ip_dispatch ?state type token (next_token s st))"
    by (simp add: ip_step_def Let_def t)
  have "(pstate st = STATE_START \<and> type = TOKEN_COLON \<and> (next_token s st)\<lparr>pstate := STATE_COMPRESSED\<rparr> = st') \<or>
      ip_dispatch ?state type token (next_token s st) = Continue st'"
    using assms unfolding step
    by (cases "type = TOKEN_ILLEGAL"; cases "pstate st = STATE_START"; cases "type = TOKEN_COLON") (simp_all split: if_splits)
  then consider (colon) "pstate st = STATE_START" "type = TOKEN_COLON" "(next_token s st)\<lparr>pstate := STATE_COMPRESSED\<rparr> = st'"
    | (disp) "ip_dispatch ?state type token (next_token s st) = Continue st'"
    by blast
  then have r: "type \<noteq> TOKEN_END \<and> (ipv4_phase st \<longrightarrow> ipv4_phase st' \<and> in_ptr st < in_ptr st') \<and>
      (\<not> ipv4_phase st \<longrightarrow> ipv4_phase st' \<or> in_ptr st < in_ptr st')"
  proof cases
    case colon
    then show ?thesis using nt len by (auto simp: ipv4_phase_def)
  next
    case disp
    show ?thesis
      using ip_dispatch_progress [OF disp ns] nt len
      by (cases "pstate st") (auto simp: ipv4_phase_def after_start_def split: if_splits)
  qed
  show "in_ptr st < length s" using tokenize_cases(2) [OF t] r by blast
  show "ipv4_phase st \<Longrightarrow> ipv4_phase st' \<and> in_ptr st < in_ptr st'"
    and "\<not> ipv4_phase st \<Longrightarrow> ipv4_phase st' \<or> in_ptr st < in_ptr st'"
    using r by blast+
qed

function ip_loop :: "string \<Rightarrow> ip_state \<Rightarrow> ip_state outcome" where
  "ip_loop s st =
     (case ip_step s st of
        Continue st' \<Rightarrow> ip_loop s st'
      | Break st' \<Rightarrow> Ok st'
      | Fail \<Rightarrow> Throw InvalidArgumentException
      | Undefined \<Rightarrow> UB)"
  by pat_completeness auto

termination
proof (relation "measures [\<lambda>(s, st). if ipv4_phase st then 0 else 1, \<lambda>(s, st). length s - in_ptr st]")
  fix s st st' assume "ip_step s st = Continue st'"
  from ip_step_progress [OF this]
  show "((s, st'), (s, st)) \<in> measures [\<lambda>(s, st). if ipv4_phase st then 0 else 1, \<lambda>(s, st). length s - in_ptr st]"
    by (cases "ipv4_phase st") auto
qed simp

declare ip_loop.simps [simp del]

section \<open>The result\<close>

text \<open>
  The loop that moves the bytes after the compressed block to the end of the buffer. An index outside the
  buffer, in the read or in either write, is undefined.
\<close>

definition move_byte :: "int \<Rightarrow> int \<Rightarrow> nat \<Rightarrow> 8 word list \<Rightarrow> 8 word list option" where
  "move_byte compress move_len i bs =
     (let src_pos = compress + move_len - int i - 1;
          dst_pos = 16 - int i - 1
      in if 0 \<le> src_pos \<and> src_pos < int (length bs)
         then Option.bind (put_byte dst_pos (bs ! nat src_pos) bs) (put_byte src_pos 0)
         else None)"

fun move_bytes :: "int \<Rightarrow> int \<Rightarrow> nat list \<Rightarrow> 8 word list \<Rightarrow> 8 word list option" where
  "move_bytes compress move_len [] bs = Some bs"
| "move_bytes compress move_len (i # is) bs =
     Option.bind (move_byte compress move_len i bs) (move_bytes compress move_len is)"

definition ip_finish :: "ip_state \<Rightarrow> 8 word list outcome" where
  "ip_finish st =
     (if domain st = 0 \<and> compress_pos st \<noteq> - 1 then
        (if pos st + 1 \<ge> 16 then (if 0 \<in> set (address st) then Throw InvalidArgumentException else UB)
         else
           (let move_len = pos st + 1 - compress_pos st
            in case move_bytes (compress_pos st) move_len [0..<nat move_len] (address st) of
                 Some bs \<Rightarrow> Ok bs
               | None \<Rightarrow> UB))
      else if domain st = 0 then
        (if pos st + 1 < 16 then Throw InvalidArgumentException
         else if pos st + 1 > 16 then Throw InvalidArgumentException
         else Ok (address st))
      else Ok (take 4 (address st)))"

definition ip_start :: ip_state where
  "ip_start = \<lparr>in_ptr = 0, token_len = - 1, prev_token_len = 0, pstate = STATE_START, pos = - 1, compress_pos = - 1,
     ipv4_pos = - 1, address = replicate 16 0, domain = 0\<rparr>"

definition php_driver_parse_ip_address :: "string \<Rightarrow> 8 word list outcome" where
  "php_driver_parse_ip_address in' =
     (let s = cstr in'
      in if length s > 49 then Throw InvalidArgumentException
         else bind_outcome (ip_loop s ip_start) ip_finish)"

text \<open>The text of an address of 4 or 16 bytes.\<close>

definition field_at :: "8 word list \<Rightarrow> nat \<Rightarrow> nat" where
  "field_at bs i = unat (bs ! i) * 256 + unat (bs ! (i + 1))"

fun join_colon :: "nat list \<Rightarrow> string" where
  "join_colon [] = []"
| "join_colon [n] = show_nat 16 n"
| "join_colon (n # ns) = show_nat 16 n @ '':'' @ join_colon ns"

definition php_driver_format_address :: "8 word list \<Rightarrow> string" where
  "php_driver_format_address bs =
     (if length bs > 4 then join_colon (map (field_at bs) [0, 2, 4, 6, 8, 10, 12, 14])
      else show_nat 10 (unat (bs ! 0)) @ ''.'' @ show_nat 10 (unat (bs ! 1)) @ ''.'' @
           show_nat 10 (unat (bs ! 2)) @ ''.'' @ show_nat 10 (unat (bs ! 3)))"

section \<open>Memory safety\<close>

definition ip_buf :: "ip_state \<Rightarrow> bool" where
  "ip_buf st \<longleftrightarrow> length (address st) = 16 \<and> - 1 \<le> pos st \<and> - 1 \<le> compress_pos st \<and> compress_pos st \<le> pos st + 1"

definition ip_inv :: "string \<Rightarrow> ip_state \<Rightarrow> bool" where
  "ip_inv s st \<longleftrightarrow> ip_buf st \<and> pos st \<le> 15 \<and> in_ptr st \<le> length s \<and>
     (pstate st = STATE_AFTERDEC \<longrightarrow>
        1 \<le> pos st \<and> compress_pos st \<le> pos st - 1 \<and> 0 \<le> token_len st \<and> token_len st \<le> int (in_ptr st))"

lemma put_byte_Some: "0 \<le> i \<Longrightarrow> i < int (length bs) \<Longrightarrow> put_byte i b bs = Some (bs[nat i := b])"
  by (simp add: put_byte_def)

definition result_ok :: "string \<Rightarrow> ip_result \<Rightarrow> bool" where
  "result_ok s r \<longleftrightarrow> (case r of Continue st \<Rightarrow> ip_inv s st | Break st \<Rightarrow> ip_buf st | Fail \<Rightarrow> True | Undefined \<Rightarrow> False)"

lemma ip_dispatch_ok:
  assumes buf: "ip_buf st" "pos st \<le> 15" and ptr: "type \<noteq> TOKEN_END \<Longrightarrow> in_ptr st \<le> length s"
    and tok: "0 \<le> token_len st" "token_len st \<le> int (in_ptr st)"
    and dec: "state = STATE_AFTERDEC \<Longrightarrow> 1 \<le> pos st \<and> compress_pos st \<le> pos st - 1 \<and>
      0 \<le> prev_token_len st \<and> prev_token_len st + 1 \<le> int (in_ptr st)"
    and state: "state \<notin> {STATE_START, STATE_AFTERCOLON}"
  shows "result_ok s (ip_dispatch state type token st)"
proof (cases state)
  case STATE_FIELD
  then show ?thesis using buf ptr tok
    by (auto simp: ip_dispatch_def ip_field_def result_ok_def ip_inv_def ip_buf_def Let_def put_byte_Some)
next
  case STATE_AFTERDEC
  have "nat (int (in_ptr st) - (prev_token_len st + 1)) \<le> in_ptr st" using dec STATE_AFTERDEC by linarith
  then show ?thesis using buf ptr dec [OF STATE_AFTERDEC] STATE_AFTERDEC
    by (auto simp: ip_dispatch_def ip_afterdec_def result_ok_def ip_inv_def ip_buf_def put_byte_Some)
next
  case STATE_IPV4BYTE
  then show ?thesis using buf ptr
    by (auto simp: ip_dispatch_def ip_ipv4byte_def result_ok_def ip_inv_def ip_buf_def Let_def put_byte_Some)
qed (use buf ptr state in \<open>auto simp: ip_dispatch_def ip_handler_defs result_ok_def ip_inv_def ip_buf_def\<close>)

lemma ip_step_ok:
  assumes inv: "ip_inv s st"
  shows "result_ok s (ip_step s st)"
proof -
  obtain type token len where t: "ip_address_tokenize s (in_ptr st) = (type, token, len)" by (cases "ip_address_tokenize s (in_ptr st)") auto
  let ?st = "next_token s st" and ?state = "after_start type (pstate st)"
  note nt = next_token_len [OF t]
  have len: "1 \<le> len" "type \<noteq> TOKEN_END \<Longrightarrow> in_ptr st + len \<le> length s"
    using tokenize_cases [OF t] by auto
  have buf: "ip_buf ?st" "pos ?st \<le> 15" using inv by (auto simp: ip_inv_def ip_buf_def)
  have st: "?state \<notin> {STATE_START, STATE_AFTERCOLON}"
    by (auto simp: after_start_def split: parser_state.splits)
  have "result_ok s (ip_dispatch ?state type token ?st)"
  proof (rule ip_dispatch_ok [OF buf _ _ _ _ st])
    show "in_ptr ?st \<le> length s" if "type \<noteq> TOKEN_END" using nt len that by simp
    show "0 \<le> token_len ?st" "token_len ?st \<le> int (in_ptr ?st)" using nt by simp_all
    assume "?state = STATE_AFTERDEC"
    then have "pstate st = STATE_AFTERDEC" by (auto simp: after_start_def split: parser_state.splits if_splits)
    then show "1 \<le> pos ?st \<and> compress_pos ?st \<le> pos ?st - 1 \<and> 0 \<le> prev_token_len ?st \<and>
        prev_token_len ?st + 1 \<le> int (in_ptr ?st)"
      using inv nt len(1) by (simp add: ip_inv_def)
  qed
  moreover have "result_ok s (Continue (?st\<lparr>pstate := STATE_COMPRESSED\<rparr>))" if "type = TOKEN_COLON"
    using inv nt len that by (simp add: result_ok_def ip_inv_def ip_buf_def)
  moreover have "result_ok s Fail" by (simp add: result_ok_def)
  ultimately show ?thesis by (simp add: ip_step_def Let_def t)
qed

lemma ip_loop_ok: "ip_inv s st \<Longrightarrow>
    (\<exists>st'. ip_loop s st = Ok st' \<and> ip_buf st') \<or> ip_loop s st = Throw InvalidArgumentException"
proof (induction s st rule: ip_loop.induct)
  case (1 s st)
  show ?case using ip_step_ok [OF 1(2)] 1(1)
    by (subst (1 2) ip_loop.simps) (auto simp: result_ok_def split: ip_result.splits)
qed

lemma ip_start_inv: "ip_inv s ip_start"
  by (simp add: ip_inv_def ip_buf_def ip_start_def)

text \<open>The bytes after the compressed block move to the end, leaving zeros in their place.\<close>

lemma move_bytes_append:
  "move_bytes c m (is @ js) bs = Option.bind (move_bytes c m is bs) (move_bytes c m js)"
proof (induction "is" arbitrary: bs)
  case (Cons i "is")
  then show ?case by (cases "move_byte c m i bs") simp_all
qed simp

lemma move_byte_all:
  assumes "length bs = 16" and "0 \<le> c" and "c + int m \<le> 15" and "k \<le> m"
    and "\<And>i. c + int m \<le> int i \<Longrightarrow> i < 16 \<Longrightarrow> bs ! i = 0"
  shows "move_bytes c (int m) [0..<k] bs =
    Some (map (\<lambda>i. if int i < c + int m - int k then bs ! i
             else if i < 16 - k then 0 else bs ! nat (c + int m - 16 + int i)) [0..<16])"
  using assms(4)
proof (induction k)
  case 0
  have "bs = map (\<lambda>i. if int i < c + int m - int 0 then bs ! i
             else if i < 16 - 0 then 0 else bs ! nat (c + int m - 16 + int i)) [0..<16]"
    using assms by (intro nth_equalityI) auto
  moreover have "move_bytes c (int m) [0..<0] bs = Some bs" by simp
  ultimately show ?case by (simp only: option.inject)
next
  case (Suc k)
  let ?f = "\<lambda>k i. if int i < c + int m - int k then bs ! i
             else if i < 16 - k then 0 else bs ! nat (c + int m - 16 + int i)"
  define src where "src = nat (c + int m - int k - 1)"
  define xs where "xs = map (?f k) [0..<16]"
  have src: "src < 16" "int src = c + int m - int k - 1" and d: "nat (15 - int k) = 15 - k"
    using Suc.prems assms(2,3) by (auto simp: src_def)
  have len: "length xs = 16" and at: "\<And>i. i < 16 \<Longrightarrow> xs ! i = ?f k i" by (simp_all add: xs_def)
  have "move_bytes c (int m) [0..<Suc k] bs = Option.bind (Some xs) (move_bytes c (int m) [k])"
    using Suc by (simp add: xs_def move_bytes_append)
  also have "\<dots> = move_byte c (int m) k xs" by (cases "move_byte c (int m) k xs") simp_all
  also have "\<dots> = Some ((xs[15 - k := bs ! src])[src := 0])"
    using src len at [OF src(1)] Suc.prems assms(2,3)
    by (simp add: move_byte_def Let_def put_byte_def src_def [symmetric] d)
  also have "(xs[15 - k := bs ! src])[src := 0] = map (?f (Suc k)) [0..<16]"
  proof (intro nth_equalityI)
    fix i assume "i < length ((xs[15 - k := bs ! src])[src := 0])"
    then have i: "i < 16" using len by simp
    have "(xs[15 - k := bs ! src])[src := 0] ! i = (if i = src then 0 else if i = 15 - k then bs ! src else ?f k i)"
      using i src(1) len at [OF i] by (auto simp: nth_list_update)
    also have "\<dots> = ?f (Suc k) i" using i Suc.prems assms(2,3) src
      by (auto intro!: arg_cong [where f = "(!) bs"])
    finally show "(xs[15 - k := bs ! src])[src := 0] ! i = map (?f (Suc k)) [0..<16] ! i" using i by simp
  qed (simp add: len)
  finally show ?case .
qed

section \<open>Reading what was written\<close>

lemma show_nat_digit_chars:
  assumes "2 \<le> b" and "b \<le> 36" and "c \<in> set (show_nat b n)"
  shows "\<exists>d < b. c = digit_char d"
  using assms(1,3)
proof (induction n rule: show_nat_induct)
  case (small n)
  then show ?case by (auto simp: show_nat_small)
next
  case (big n)
  then have "c \<in> set (show_nat b (n div b)) \<or> c = digit_char (n mod b)"
    using assms(1) by (auto simp: show_nat_big)
  moreover have "n mod b < b" using assms(1) by simp
  ultimately show ?case using big by blast
qed

lemma show_nat_lead:
  assumes "2 \<le> b" and "b \<le> 36" and "0 < n"
  shows "hd (show_nat b n) \<noteq> CHR ''0''"
  using assms(1,3)
proof (induction n rule: show_nat_induct)
  case (small n)
  then have "of_char (digit_char n) \<noteq> (48 :: nat)" using assms(2) by (simp add: of_char_digit_char)
  then show ?case using small by (auto simp: show_nat_small)
next
  case (big n)
  have "0 < n div b" using big assms(1) by (simp add: div_greater_zero_iff)
  then show ?case using big assms(1) by (simp add: show_nat_big)
qed

lemma digit_char_lower: "d < 16 \<Longrightarrow> tolower (digit_char d) = digit_char d"
  by (simp add: tolower_def ctype_defs of_char_digit_char)

lemma tokenize_digits:
  assumes ds: "ds \<noteq> []" "length ds \<le> 4" "\<And>c. c \<in> set ds \<Longrightarrow> isxdigit c \<and> tolower c = c"
    and rest: "rest = [] \<or> \<not> isxdigit (hd rest)"
  shows "ip_address_tokenize (pre @ ds @ rest) (length pre) =
    (if list_all isdigit ds then TOKEN_DEC else TOKEN_HEX, ds, length ds)"
proof -
  have "takeWhile isxdigit (take 4 (ds @ rest)) = ds @ takeWhile isxdigit (take (4 - length ds) rest)"
    using ds by (simp add: takeWhile_append2)
  also have "takeWhile isxdigit (take (4 - length ds) rest) = []" using rest by (cases rest; cases "4 - length ds") auto
  finally have tw: "takeWhile isxdigit (take 4 (ds @ rest)) = ds" by simp
  have "map tolower ds = ds" using ds by (simp add: map_idI)
  moreover have "isxdigit (cget (pre @ ds @ rest) (length pre))"
    using ds by (cases ds) (auto simp: cget_def nth_append)
  ultimately show ?thesis using tw by (simp add: ip_address_tokenize_def Let_def)
qed

lemma tokenize_sep:
  assumes "c = CHR '':'' \<or> c = CHR ''.''"
  shows "ip_address_tokenize (pre @ c # rest) (length pre) =
    (if c = CHR '':'' then TOKEN_COLON else TOKEN_DOT, [c], 1)"
  using assms by (auto simp: ip_address_tokenize_def cget_def nth_append ctype_defs)

lemma tokenize_end: "ip_address_tokenize s (length s) = (TOKEN_END, [NUL], 1)"
  by (simp add: ip_address_tokenize_def cget_def ctype_defs)

lemma tokenize_hex:
  assumes "n < 65536" and "rest = [] \<or> \<not> isxdigit (hd rest)"
  shows "\<exists>type. type \<in> {TOKEN_DEC, TOKEN_HEX} \<and>
    ip_address_tokenize (pre @ show_nat 16 n @ rest) (length pre) = (type, show_nat 16 n, length (show_nat 16 n))"
proof -
  have len: "length (show_nat 16 n) \<le> 4" using show_nat_length [of 16 n 4] assms(1) by simp
  have "isxdigit c \<and> tolower c = c" if "c \<in> set (show_nat 16 n)" for c
    using show_nat_digit_chars [of 16 c n] that digit_char_lower by auto
  then show ?thesis using tokenize_digits [OF show_nat_nonempty len _ assms(2)] by auto
qed

lemma tokenize_dec:
  assumes "n < 256" and "rest = [] \<or> \<not> isxdigit (hd rest)"
  shows "ip_address_tokenize (pre @ show_nat 10 n @ rest) (length pre) =
      (TOKEN_DEC, show_nat 10 n, length (show_nat 10 n))"
    and "length (show_nat 10 n) > 1 \<Longrightarrow> hd (show_nat 10 n) \<noteq> CHR ''0''"
proof -
  have len: "length (show_nat 10 n) \<le> 4" using show_nat_length [of 10 n 4] assms(1) by simp
  have dig: "isdigit c \<and> isxdigit c \<and> tolower c = c" if "c \<in> set (show_nat 10 n)" for c
    using show_nat_digit_chars [of 10 c n] that digit_char_lower by auto
  then show "ip_address_tokenize (pre @ show_nat 10 n @ rest) (length pre) =
      (TOKEN_DEC, show_nat 10 n, length (show_nat 10 n))"
    using tokenize_digits [OF show_nat_nonempty len _ assms(2)] by (auto simp: list_all_iff)
  show "hd (show_nat 10 n) \<noteq> CHR ''0''" if "length (show_nat 10 n) > 1"
  proof -
    have "n \<noteq> 0" using that by (cases "n = 0") (auto simp: show_nat_small)
    then show ?thesis using show_nat_lead [of 10 n] by simp
  qed
qed

lemma scan_show_hex [simp]: "fst (scan_digits 16 0 (show_nat 16 n)) = n"
  using scan_show_nat [of 16 n] by simp

lemma scan_show_dec [simp]: "fst (scan_digits 10 0 (show_nat 10 n)) = n"
  using scan_show_nat [of 10 n] by simp

text \<open>One field, and the colon after it.\<close>

lemma ip_step_field:
  assumes "n < 65536" and "rest = [] \<or> \<not> isxdigit (hd rest)" and "in_ptr st = length pre"
    and "pstate st \<in> {STATE_START, STATE_AFTERCOLON}"
    and "address st = got @ a # b # todo" and "pos st + 1 = int (length got)" and "pos st + 3 \<le> 16"
  shows "\<exists>st'. ip_step (pre @ show_nat 16 n @ rest) st = Continue st' \<and>
    in_ptr st' = length (pre @ show_nat 16 n) \<and> pstate st' \<in> {STATE_AFTERHEX, STATE_AFTERDEC} \<and>
    address st' = got @ word_of_nat (n div 256) # word_of_nat (n mod 256) # todo \<and> pos st' = pos st + 2 \<and>
    compress_pos st' = compress_pos st \<and> domain st' = domain st \<and>
    token_len st' = int (length (show_nat 16 n))"
proof -
  let ?s = "pre @ show_nat 16 n @ rest"
  obtain type where type: "type \<in> {TOKEN_DEC, TOKEN_HEX}"
    "ip_address_tokenize ?s (in_ptr st) = (type, show_nat 16 n, length (show_nat 16 n))"
    using tokenize_hex [OF assms(1,2)] assms(3) by auto
  note nt = next_token_len [OF type(2)]
  have state: "after_start type (pstate st) = STATE_FIELD" using type(1) assms(4) by (auto simp: after_start_def)
  have p: "nat (pos st + 1) = length got" "nat (pos st + 2) = Suc (length got)" using assms(6) by linarith+
  have "Option.bind (put_byte (pos st + 1) x (address st)) (put_byte (pos st + 2) y) = Some (got @ x # y # todo)" for x y
    using assms(5,6) p by (simp add: put_byte_def list_update_append)
  then have "ip_step ?s st = Continue ((next_token ?s st)\<lparr>
      pstate := (if type = TOKEN_HEX then STATE_AFTERHEX else STATE_AFTERDEC), pos := pos st + 2,
      address := got @ word_of_nat (n div 256) # word_of_nat (n mod 256) # todo\<rparr>)"
    using type assms(4,7) state by (auto simp: ip_step_def Let_def ip_dispatch_def ip_field_def)
  then show ?thesis using nt assms(3) by auto
qed

lemma ip_step_colon:
  assumes "in_ptr st = length pre" and "pstate st \<in> {STATE_AFTERHEX, STATE_AFTERDEC}"
  shows "ip_step (pre @ CHR '':'' # rest) st = Continue ((next_token (pre @ CHR '':'' # rest) st)\<lparr>pstate := STATE_AFTERCOLON\<rparr>)"
    and "in_ptr (next_token (pre @ CHR '':'' # rest) st) = length (pre @ '':'')"
  using assms tokenize_sep [of "CHR '':''" pre rest]
  by (auto simp: ip_step_def Let_def ip_dispatch_def after_start_def ip_afterhex_def ip_afterdec_def next_token_def)

lemma ip_step_last:
  assumes "in_ptr st = length s" and "pstate st \<in> {STATE_AFTERHEX, STATE_AFTERDEC, STATE_END}"
  shows "ip_step s st = Break (next_token s st)"
  using assms tokenize_end [of s]
  by (auto simp: ip_step_def Let_def ip_dispatch_def after_start_def ip_afterhex_def ip_afterdec_def ip_end_def)

definition fields_bytes :: "nat list \<Rightarrow> 8 word list" where
  "fields_bytes ns = concat (map (\<lambda>n. [word_of_nat (n div 256), word_of_nat (n mod 256)]) ns)"

lemma fields_bytes_Cons [simp]:
  "fields_bytes (n # ns) = word_of_nat (n div 256) # word_of_nat (n mod 256) # fields_bytes ns"
  by (simp add: fields_bytes_def)

text \<open>All fields of an uncompressed IPv6 address.\<close>

lemma ip_loop_fields:
  assumes "ns \<noteq> []" and "\<forall>n \<in> set ns. n < 65536" and "in_ptr st = length pre"
    and "pstate st \<in> {STATE_START, STATE_AFTERCOLON}"
    and "address st = got @ todo" and "length todo = 2 * length ns" and "length (address st) = 16"
    and "pos st + 1 = int (length got)" and "r = [] \<or> \<not> isxdigit (hd r)"
  shows "\<exists>st'. ip_loop (pre @ join_colon ns @ r) st = ip_loop (pre @ join_colon ns @ r) st' \<and>
    in_ptr st' = length (pre @ join_colon ns) \<and> pstate st' \<in> {STATE_AFTERHEX, STATE_AFTERDEC} \<and>
    address st' = got @ fields_bytes ns \<and>
    pos st' + 1 = 16 \<and> compress_pos st' = compress_pos st \<and> domain st' = domain st"
  using assms
proof (induction ns arbitrary: st pre got todo rule: join_colon.induct)
  case (2 n)
  obtain a b where todo: "todo = [a, b]" using 2(6) by (auto simp: length_Suc_conv numeral_2_eq_2)
  have p: "pos st + 3 \<le> 16" using 2 by simp
  obtain st1 where st1: "ip_step (pre @ show_nat 16 n @ r) st = Continue st1" "in_ptr st1 = length (pre @ show_nat 16 n)"
    "pstate st1 \<in> {STATE_AFTERHEX, STATE_AFTERDEC}" "address st1 = got @ [word_of_nat (n div 256), word_of_nat (n mod 256)]"
    "pos st1 = pos st + 2" "compress_pos st1 = compress_pos st" "domain st1 = domain st"
    using ip_step_field [OF _ 2(9) 2(3,4), of n "got" a b "[]"] 2(2,5,8) todo p by auto
  have "ip_loop (pre @ show_nat 16 n @ r) st = ip_loop (pre @ show_nat 16 n @ r) st1"
    using st1(1) by (simp add: ip_loop.simps [of _ st])
  then show ?case using st1 2(5,7,8) todo by (intro exI [of _ st1]) (auto simp: fields_bytes_def)
next
  case (3 n m ns)
  obtain a b todo' where todo: "todo = a # b # todo'" using 3(7)
    by (cases todo; cases "tl todo") auto
  have p: "pos st + 3 \<le> 16" using 3(6,7,8,9) by simp
  define rest where "rest = '':'' @ join_colon (m # ns) @ r"
  have colon: "\<not> isxdigit (hd rest)" by (simp add: rest_def ctype_defs)
  obtain st1 where st1: "ip_step (pre @ show_nat 16 n @ rest) st = Continue st1" "in_ptr st1 = length (pre @ show_nat 16 n)"
    "pstate st1 \<in> {STATE_AFTERHEX, STATE_AFTERDEC}"
    "address st1 = got @ word_of_nat (n div 256) # word_of_nat (n mod 256) # todo'"
    "pos st1 = pos st + 2" "compress_pos st1 = compress_pos st" "domain st1 = domain st"
    using ip_step_field [OF _ _ 3(4,5), of n rest "got" a b todo'] 3(3,6,9) todo p colon by auto
  let ?s = "(pre @ show_nat 16 n) @ CHR '':'' # join_colon (m # ns) @ r"
  define st2 where "st2 = (next_token ?s st1)\<lparr>pstate := STATE_AFTERCOLON\<rparr>"
  have st2: "ip_step ?s st1 = Continue st2" "in_ptr st2 = length (pre @ show_nat 16 n @ '':'')"
    using ip_step_colon [OF st1(2,3), of "join_colon (m # ns) @ r"] by (auto simp: st2_def)
  have same: "pstate st2 = STATE_AFTERCOLON" "address st2 = address st1" "pos st2 = pos st1"
    "compress_pos st2 = compress_pos st1" "domain st2 = domain st1"
    by (simp_all add: st2_def)
  have "ip_loop ?s st = ip_loop ?s st2"
    using st1(1) st2(1) by (simp add: rest_def ip_loop.simps [of _ st] ip_loop.simps [of _ st1])
  moreover have "\<exists>st'. ip_loop ((pre @ show_nat 16 n @ '':'') @ join_colon (m # ns) @ r) st2 =
        ip_loop ((pre @ show_nat 16 n @ '':'') @ join_colon (m # ns) @ r) st' \<and>
      in_ptr st' = length ((pre @ show_nat 16 n @ '':'') @ join_colon (m # ns)) \<and>
      pstate st' \<in> {STATE_AFTERHEX, STATE_AFTERDEC} \<and>
      address st' = (got @ [word_of_nat (n div 256), word_of_nat (n mod 256)]) @ fields_bytes (m # ns) \<and>
      pos st' + 1 = 16 \<and> compress_pos st' = compress_pos st2 \<and> domain st' = domain st2"
    using 3(3,6,7,8,9,10) st1 todo same by (intro 3(1) st2(2)) auto
  ultimately show ?case using st1 same by auto
qed simp

fun join_dot :: "nat list \<Rightarrow> string" where
  "join_dot [] = []"
| "join_dot [n] = show_nat 10 n"
| "join_dot (n # ns) = show_nat 10 n @ ''.'' @ join_dot ns"

text \<open>One byte of an IPv4 address.\<close>

lemma ip_step_byte:
  assumes "n < 256" and "rest = [] \<or> \<not> isxdigit (hd rest)" and "in_ptr st = length pre"
    and "pstate st = STATE_IPV4BYTE"
    and "address st = got @ a # todo" and "pos st + 1 = int (length got)" and "pos st + 2 \<le> 16"
  shows "\<exists>st'. ip_step (pre @ show_nat 10 n @ rest) st = Continue st' \<and>
    in_ptr st' = length (pre @ show_nat 10 n) \<and> address st' = got @ word_of_nat n # todo \<and> pos st' = pos st + 1 \<and>
    ipv4_pos st' = ipv4_pos st + 1 \<and> compress_pos st' = compress_pos st \<and>
    pstate st' = (if ipv4_pos st' = 4 then STATE_END else STATE_IPV4DOT) \<and>
    domain st' = (if ipv4_pos st' = 4 \<and> compress_pos st = - 1 \<and> pos st' + 1 = 4 then 1 else domain st)"
proof -
  let ?s = "pre @ show_nat 10 n @ rest"
  have t: "ip_address_tokenize ?s (in_ptr st) = (TOKEN_DEC, show_nat 10 n, length (show_nat 10 n))"
    using tokenize_dec(1) [OF assms(1,2)] assms(3) by simp
  note nt = next_token_len [OF t]
  have z: "\<not> (token_len (next_token ?s st) > 1 \<and> hd (show_nat 10 n) = CHR ''0'')"
    using tokenize_dec(2) [OF assms(1,2)] nt by auto
  have "nat (pos st + 1) = length got" using assms(6) by linarith
  then have "put_byte (pos st + 1) x (address st) = Some (got @ x # todo)" for x
    using assms(5,6) by (simp add: put_byte_def list_update_append)
  then show ?thesis
    using t nt z assms by (auto simp: ip_step_def Let_def ip_dispatch_def ip_ipv4byte_def after_start_def)
qed

lemma ip_step_dot:
  assumes "in_ptr st = length pre" and "pstate st = STATE_IPV4DOT"
  shows "ip_step (pre @ CHR ''.'' # rest) st = Continue ((next_token (pre @ CHR ''.'' # rest) st)\<lparr>pstate := STATE_IPV4BYTE\<rparr>)"
    and "in_ptr (next_token (pre @ CHR ''.'' # rest) st) = length (pre @ ''.'')"
  using assms tokenize_sep [of "CHR ''.''" pre rest]
  by (auto simp: ip_step_def Let_def ip_dispatch_def after_start_def ip_ipv4dot_def next_token_def)

lemma ip_loop_bytes:
  assumes "ns \<noteq> []" and "\<forall>n \<in> set ns. n < 256" and "in_ptr st = length pre" and "pstate st = STATE_IPV4BYTE"
    and "address st = got @ todo" and "length (address st) = 16"
    and "length got + length ns = 4" and "ipv4_pos st = int (length got)" and "pos st + 1 = int (length got)"
    and "compress_pos st = - 1"
  shows "\<exists>st'. ip_loop (pre @ join_dot ns) st = Ok st' \<and> take 4 (address st') = got @ map word_of_nat ns \<and> domain st' = 1"
  using assms
proof (induction ns arbitrary: st pre got todo rule: join_dot.induct)
  case (2 n)
  obtain a todo' where todo: "todo = a # todo'" using 2(5,6,7) by (cases todo) auto
  obtain st1 where st1: "ip_step (pre @ show_nat 10 n @ []) st = Continue st1" "in_ptr st1 = length (pre @ show_nat 10 n)"
    "pstate st1 = STATE_END" "address st1 = got @ word_of_nat n # todo'" "domain st1 = 1"
    using ip_step_byte [OF _ _ 2(3,4), of n "[]" got a todo'] 2(2,5,7,8,9,10) todo by auto
  have "ip_step (pre @ show_nat 10 n) st1 = Break (next_token (pre @ show_nat 10 n) st1)"
    using ip_step_last [OF st1(2)] st1(3) by auto
  then have "ip_loop (pre @ show_nat 10 n) st = Ok (next_token (pre @ show_nat 10 n) st1)"
    using st1(1) by (subst ip_loop.simps) (simp add: ip_loop.simps)
  then show ?case using st1 2(7) by simp
next
  case (3 n m ns)
  obtain a todo' where todo: "todo = a # todo'" using 3(6,7,8) by (cases todo) auto
  define rest where "rest = ''.'' @ join_dot (m # ns)"
  have dot: "\<not> isxdigit (hd rest)" by (simp add: rest_def ctype_defs)
  obtain st1 where st1: "ip_step (pre @ show_nat 10 n @ rest) st = Continue st1" "in_ptr st1 = length (pre @ show_nat 10 n)"
    "pstate st1 = STATE_IPV4DOT" "address st1 = got @ word_of_nat n # todo'" "pos st1 = pos st + 1"
    "ipv4_pos st1 = ipv4_pos st + 1" "compress_pos st1 = - 1"
    using ip_step_byte [OF _ _ 3(4,5), of n rest got a todo'] 3(3,6,8,9,10,11) todo dot by auto
  let ?s = "(pre @ show_nat 10 n) @ CHR ''.'' # join_dot (m # ns)"
  define st2 where "st2 = (next_token ?s st1)\<lparr>pstate := STATE_IPV4BYTE\<rparr>"
  have st2: "ip_step ?s st1 = Continue st2" "in_ptr st2 = length (pre @ show_nat 10 n @ ''.'')"
    using ip_step_dot [OF st1(2,3), of "join_dot (m # ns)"] by (auto simp: st2_def)
  have same: "pstate st2 = STATE_IPV4BYTE" "address st2 = address st1" "pos st2 = pos st1"
    "compress_pos st2 = compress_pos st1" "ipv4_pos st2 = ipv4_pos st1"
    by (simp_all add: st2_def)
  have "ip_loop ?s st = ip_loop ?s st2"
    using st1(1) st2(1) by (simp add: rest_def ip_loop.simps [of _ st] ip_loop.simps [of _ st1])
  moreover have "\<exists>st'. ip_loop ((pre @ show_nat 10 n @ ''.'') @ join_dot (m # ns)) st2 = Ok st' \<and>
      take 4 (address st') = (got @ [word_of_nat n]) @ map word_of_nat (m # ns) \<and> domain st' = 1"
    using 3(3,6,7,8,9,10,11) st1 todo same by (intro 3(1) [of _ _ _ todo'] st2(2)) auto
  ultimately show ?case by simp
qed simp

text \<open>The first number of an IPv4 address is read twice: as a field, then, after the step back, as a byte.\<close>

lemma ip_loop_dotted:
  assumes "length ns = 4" and "\<forall>n \<in> set ns. n < 256"
  shows "\<exists>st'. ip_loop (join_dot ns) ip_start = Ok st' \<and> take 4 (address st') = map word_of_nat ns \<and> domain st' = 1"
proof -
  obtain n m ns' where ns: "ns = n # m # ns'" using assms(1) by (cases ns; cases "tl ns") auto
  define rest where "rest = join_dot (m # ns')"
  let ?ds = "show_nat 10 n" and ?s = "show_nat 10 n @ CHR ''.'' # rest"
  have s: "join_dot ns = ?s" by (simp add: ns rest_def)
  have n: "n < 256" using assms(2) ns by simp
  have t: "ip_address_tokenize ?s 0 = (TOKEN_DEC, ?ds, length ?ds)"
    using tokenize_dec(1) [OF n, of "CHR ''.'' # rest" "[]"] by (simp add: ctype_defs)
  define f where "f = fst (scan_digits 16 0 ?ds)"
  define st1 where "st1 = (next_token ?s ip_start)\<lparr>pstate := STATE_AFTERDEC, pos := 1,
      address := word_of_nat (f div 256) # word_of_nat (f mod 256) # replicate 14 0\<rparr>"
  have r16: "replicate 16 (0 :: 8 word) = 0 # 0 # replicate 14 0" by (simp add: numeral_eq_Suc)
  have s1: "ip_step ?s ip_start = Continue st1"
    using t by (simp add: ip_step_def Let_def ip_dispatch_def after_start_def ip_field_def ip_start_def put_byte_def
        st1_def f_def r16)
  have nt1: "in_ptr st1 = length ?ds" "token_len st1 = int (length ?ds)" "prev_token_len st1 = 0"
    using next_token_len [of ?s ip_start] t by (simp_all add: st1_def ip_start_def)
  have t2: "ip_address_tokenize ?s (in_ptr st1) = (TOKEN_DOT, ''.'', 1)"
    using tokenize_sep [of "CHR ''.''" ?ds rest] nt1(1) by simp
  note nt2 = next_token_len [OF t2]
  define st2 where "st2 = (next_token ?s st1)\<lparr>address := replicate 16 0, pos := - 1, in_ptr := 0,
      pstate := STATE_IPV4BYTE, ipv4_pos := 0\<rparr>"
  have a1: "pstate st1 = STATE_AFTERDEC" "pos st1 = 1"
    and put: "Option.bind (put_byte 1 0 (address st1)) (put_byte 0 0) = Some (replicate 16 0)"
    by (simp_all add: st1_def put_byte_def r16)
  have "nat (int (in_ptr (next_token ?s st1)) - (prev_token_len (next_token ?s st1) + 1)) = 0"
    "0 \<le> int (in_ptr (next_token ?s st1)) - (prev_token_len (next_token ?s st1) + 1)"
    using nt1 nt2 by simp_all
  then have s2: "ip_step ?s st1 = Continue st2"
    using a1 put unfolding ip_step_def Let_def t2 by (simp add: ip_dispatch_def after_start_def ip_afterdec_def st2_def)
  have "\<exists>st'. ip_loop ([] @ join_dot ns) st2 = Ok st' \<and> take 4 (address st') = [] @ map word_of_nat ns \<and> domain st' = 1"
    using assms by (intro ip_loop_bytes [of _ _ _ _ "replicate 16 0"]) (auto simp: st2_def st1_def ip_start_def)
  then show ?thesis using s1 s2 by (simp add: s ip_loop.simps [of _ ip_start] ip_loop.simps [of _ st1])
qed

section \<open>Properties\<close>

lemma join_colon_length: "ns \<noteq> [] \<Longrightarrow> \<forall>n \<in> set ns. n < 65536 \<Longrightarrow> length (join_colon ns) < 5 * length ns"
proof (induction ns rule: join_colon.induct)
  case (2 n)
  then show ?case using show_nat_length [of 16 n 4] by simp
next
  case (3 n m ns)
  then show ?case using show_nat_length [of 16 n 4] by simp
qed simp

lemma join_no_nul: "NUL \<notin> set (join_colon ns)" "NUL \<notin> set (join_dot ns)"
  using show_nat_no_nul [of 16] show_nat_no_nul [of 10]
  by (induction ns rule: join_colon.induct) auto

lemma fields_of_bytes:
  assumes "length bs = 16"
  shows "fields_bytes (map (field_at bs) [0, 2, 4, 6, 8, 10, 12, 14]) = bs"
proof -
  have hi: "word_of_nat (field_at bs i div 256) = bs ! i" and lo: "word_of_nat (field_at bs i mod 256) = bs ! (i + 1)" for i
  proof -
    have u: "unat (bs ! (i + 1)) < 256" using unsigned_less [of "bs ! (i + 1)", where ?'a = nat] by simp
    then show "word_of_nat (field_at bs i div 256) = bs ! i" by (simp add: field_at_def)
    show "word_of_nat (field_at bs i mod 256) = bs ! (i + 1)" using u by (simp add: field_at_def)
  qed
  have u16: "[0..<16] = [0, 1, 2, 3, 4, 5, 6, 7, 8, 9, 10, 11, 12, 13, 14, 15]" by (simp add: upt_rec)
  have "fields_bytes (map (field_at bs) [0, 2, 4, 6, 8, 10, 12, 14]) = map ((!) bs) [0..<16]"
    unfolding u16 by (simp add: hi lo fields_bytes_def)
  then show ?thesis using assms map_nth [of bs] by simp
qed

lemma field_at_less: "field_at bs i < 65536"
  using unsigned_less [of "bs ! i", where ?'a = nat] unsigned_less [of "bs ! (i + 1)", where ?'a = nat]
  by (simp add: field_at_def)

text \<open>From the start, eight fields fill the buffer.\<close>

lemma ip_loop_address:
  assumes "\<forall>n \<in> set ns. n < 65536" and "r = [] \<or> \<not> isxdigit (hd r)" and "length ns = 8"
  shows "\<exists>st. ip_loop (join_colon ns @ r) ip_start = ip_loop (join_colon ns @ r) st \<and>
    in_ptr st = length (join_colon ns) \<and> pstate st \<in> {STATE_AFTERHEX, STATE_AFTERDEC} \<and>
    address st = fields_bytes ns \<and> pos st + 1 = 16 \<and> compress_pos st = - 1 \<and> domain st = 0"
proof -
  have "ns \<noteq> []" using assms(3) by auto
  then show ?thesis
    using ip_loop_fields [of ns ip_start "[]" "[]" "replicate 16 0" r] assms by (auto simp: ip_start_def)
qed

text \<open>
  C7. The text of an IPv4 or IPv6 address is parsed back to the same address.
\<close>

theorem parse_format_address:
  assumes "length bs = 4 \<or> length bs = 16"
  shows "php_driver_parse_ip_address (php_driver_format_address bs) = Ok bs"
proof (cases "length bs = 16")
  case True
  let ?ns = "map (field_at bs) [0, 2, 4, 6, 8, 10, 12, 14]"
  have lt: "\<forall>n \<in> set ?ns. n < 65536" by (simp add: field_at_less)
  obtain st1 where st1: "ip_loop (join_colon ?ns) ip_start = ip_loop (join_colon ?ns) st1"
    "in_ptr st1 = length (join_colon ?ns)" "pstate st1 \<in> {STATE_AFTERHEX, STATE_AFTERDEC}"
    "address st1 = fields_bytes ?ns" "pos st1 + 1 = 16" "compress_pos st1 = - 1" "domain st1 = 0"
    using ip_loop_address [OF lt, of "[]"] by fastforce
  define st where "st = next_token (join_colon ?ns) st1"
  have "ip_step (join_colon ?ns) st1 = Break st" using ip_step_last [OF st1(2)] st1(3) by (auto simp: st_def)
  then have st: "ip_loop (join_colon ?ns) ip_start = Ok st" "address st = fields_bytes ?ns"
    "pos st + 1 = 16" "compress_pos st = - 1" "domain st = 0"
    using st1 by (simp_all add: ip_loop.simps [of _ st1] st_def)
  have "length (join_colon ?ns) \<le> 49" using join_colon_length [of ?ns] lt by simp
  moreover have "ip_finish st = Ok bs" using st fields_of_bytes [OF True] by (simp add: ip_finish_def)
  ultimately show ?thesis
    using st(1) True join_no_nul(1) [of ?ns]
    by (simp add: php_driver_parse_ip_address_def php_driver_format_address_def cstr_id Let_def)
next
  case False
  then have len: "length bs = 4" using assms by simp
  let ?ns = "map unat bs"
  have lt: "\<forall>n \<in> set ?ns. n < 256"
    using unsigned_less [where ?'a = nat and ?'b = 8] by auto
  have bs: "bs = [bs ! 0, bs ! 1, bs ! 2, bs ! 3]"
    using len by (intro nth_equalityI) (auto simp: less_Suc_eq numeral_eq_Suc)
  have fmt: "php_driver_format_address bs = join_dot ?ns"
  proof -
    have "map unat bs = map unat [bs ! 0, bs ! 1, bs ! 2, bs ! 3]" using bs by (rule arg_cong)
    then show ?thesis using len by (simp add: php_driver_format_address_def)
  qed
  have l: "length (show_nat 10 (unat (bs ! i))) \<le> 3" for i
    using show_nat_length [of 10 "unat (bs ! i)" 3] unsigned_less [of "bs ! i", where ?'a = nat] by simp
  have "length (php_driver_format_address bs) \<le> 49"
    using len l [of 0] l [of 1] l [of 2] l [of 3] by (simp add: php_driver_format_address_def)
  moreover obtain st where "ip_loop (join_dot ?ns) ip_start = Ok st" "take 4 (address st) = map word_of_nat ?ns" "domain st = 1"
    using ip_loop_dotted [of ?ns] len lt by auto
  moreover have "map word_of_nat ?ns = bs" by (simp add: comp_def)
  ultimately show ?thesis
    using fmt join_no_nul(2) [of ?ns] by (simp add: php_driver_parse_ip_address_def cstr_id Let_def ip_finish_def)
qed

theorem parse_format_address_witness:
  "php_driver_parse_ip_address (php_driver_format_address [192, 168, 0, 1]) = Ok [192, 168, 0, 1]"
  using parse_format_address [of "[192, 168, 0, 1]"] by simp

text \<open>
  The parsing stops in a full buffer with a compressed block in the address and no zero byte in the
  buffer, which is then printed as a string.
\<close>

definition over_read :: "string \<Rightarrow> bool" where
  "over_read s \<longleftrightarrow> length (cstr s) \<le> 49 \<and>
     (case ip_loop (cstr s) ip_start of
        Ok st \<Rightarrow> domain st = 0 \<and> compress_pos st \<noteq> - 1 \<and> 16 \<le> pos st + 1 \<and> 0 \<notin> set (address st)
      | _ \<Rightarrow> False)"

lemma put_byte_length: "put_byte i b bs = Some bs' \<Longrightarrow> length bs' = length bs"
  by (auto simp: put_byte_def split: if_splits)

lemma move_byte_Some:
  assumes "length bs = 16" and "0 \<le> c" and "int i < m" and "c + m \<le> 16"
  shows "\<exists>bs'. move_byte c m i bs = Some bs' \<and> length bs' = 16"
  using assms by (simp add: move_byte_def Let_def put_byte_def)

lemma move_bytes_Some:
  assumes "length bs = 16" and "0 \<le> c" and "\<forall>i \<in> set is. int i < m" and "c + m \<le> 16"
  shows "\<exists>bs'. move_bytes c m is bs = Some bs' \<and> length bs' = 16"
  using assms
proof (induction "is" arbitrary: bs)
  case (Cons i "is")
  obtain bs' where "move_byte c m i bs = Some bs'" "length bs' = 16"
    using move_byte_Some [of bs c i m] Cons.prems by auto
  then show ?case using Cons.IH [of bs'] Cons.prems by simp
qed simp

text \<open>Decompression stays in the buffer, whatever the parser left.\<close>

lemma ip_finish_ok:
  assumes "ip_buf st"
  shows "case ip_finish st of
     Ok bs \<Rightarrow> length bs = 4 \<or> length bs = 16
   | Throw x \<Rightarrow> x = InvalidArgumentException
   | UB \<Rightarrow> domain st = 0 \<and> compress_pos st \<noteq> - 1 \<and> 16 \<le> pos st + 1 \<and> 0 \<notin> set (address st)"
proof (cases "domain st = 0 \<and> compress_pos st \<noteq> - 1 \<and> pos st + 1 < 16")
  case True
  let ?m = "pos st + 1 - compress_pos st"
  have "\<exists>bs'. move_bytes (compress_pos st) ?m [0..<nat ?m] (address st) = Some bs' \<and> length bs' = 16"
    using assms True by (intro move_bytes_Some) (auto simp: ip_buf_def)
  then show ?thesis using True by (auto simp: ip_finish_def Let_def)
next
  case False
  then show ?thesis using assms by (auto simp: ip_finish_def ip_buf_def)
qed

text \<open>
  C16. The parser terminates on every input: it returns an address of 4 or 16 bytes or throws an
  invalid argument exception, and all its reads and writes, of the fields and of the decompression, stay
  inside the buffer. It does something undefined exactly for an address that fills the buffer without a
  zero byte and also has a compressed block: the error message then prints the buffer beyond its end.
\<close>

theorem parse_ip_address_safe:
  "(case php_driver_parse_ip_address s of
      Ok bs \<Rightarrow> length bs = 4 \<or> length bs = 16
    | Throw x \<Rightarrow> x = InvalidArgumentException
    | UB \<Rightarrow> True) \<and>
   (php_driver_parse_ip_address s = UB \<longleftrightarrow> over_read s)"
proof (cases "length (cstr s) \<le> 49")
  case True
  then have p: "php_driver_parse_ip_address s = bind_outcome (ip_loop (cstr s) ip_start) ip_finish"
    by (simp add: php_driver_parse_ip_address_def Let_def)
  consider st where "ip_loop (cstr s) ip_start = Ok st" "ip_buf st"
    | "ip_loop (cstr s) ip_start = Throw InvalidArgumentException"
    using ip_loop_ok [OF ip_start_inv] by blast
  then show ?thesis
  proof cases
    case 1
    have "over_read s \<longrightarrow> ip_finish st = UB" using 1 by (auto simp: over_read_def ip_finish_def)
    moreover have "ip_finish st = UB \<Longrightarrow> over_read s" using ip_finish_ok [OF 1(2)] 1(1) True by (simp add: over_read_def)
    ultimately show ?thesis using ip_finish_ok [OF 1(2)] 1(1) by (cases "ip_finish st") (auto simp: p)
  next
    case 2
    then show ?thesis by (simp add: p over_read_def)
  qed
next
  case False
  then show ?thesis by (simp add: php_driver_parse_ip_address_def Let_def over_read_def)
qed

text \<open>Such an address: any 16 non-zero bytes, with an empty compressed block appended to their text.\<close>

lemma parse_ip_address_over_read:
  assumes "length bs = 16" and "0 \<notin> set bs"
  shows "php_driver_parse_ip_address (php_driver_format_address bs @ ''::'') = UB"
proof -
  let ?ns = "map (field_at bs) [0, 2, 4, 6, 8, 10, 12, 14]"
  let ?a = "join_colon ?ns" and ?s = "join_colon ?ns @ ''::''"
  have lt: "\<forall>n \<in> set ?ns. n < 65536" by (simp add: field_at_less)
  obtain st1 where st1: "ip_loop ?s ip_start = ip_loop ?s st1" "in_ptr st1 = length ?a"
    "pstate st1 \<in> {STATE_AFTERHEX, STATE_AFTERDEC}" "address st1 = fields_bytes ?ns" "pos st1 + 1 = 16"
    "compress_pos st1 = - 1" "domain st1 = 0"
    using ip_loop_address [OF lt, of "''::''"] by (fastforce simp: ctype_defs)
  define st2 where "st2 = (next_token ?s st1)\<lparr>pstate := STATE_AFTERCOLON\<rparr>"
  have st2: "ip_step ?s st1 = Continue st2" "in_ptr st2 = length (?a @ '':'')"
    using ip_step_colon [OF st1(2,3), of "'':''"] by (auto simp: st2_def)
  have t2: "ip_address_tokenize ?s (in_ptr st2) = (TOKEN_COLON, '':'', 1)"
    using tokenize_sep [of "CHR '':''" "?a @ '':''" "[]"] st2(2) by simp
  define st3 where "st3 = (next_token ?s st2)\<lparr>compress_pos := 16, pstate := STATE_FIELD\<rparr>"
  have same: "pos st2 + 1 = 16" "pos st2 \<noteq> - 1" "compress_pos st2 = - 1" "pstate st2 = STATE_AFTERCOLON"
    "address st2 = fields_bytes ?ns" "domain st2 = 0"
    using st1 by (auto simp: st2_def)
  have s3: "ip_step ?s st2 = Continue st3"
    using same unfolding ip_step_def t2 by (simp add: after_start_def ip_dispatch_def ip_compressed_def st3_def)
  have "in_ptr st3 = length ?s" using next_token_len [OF t2] st2(2) by (simp add: st3_def)
  then have t3: "ip_address_tokenize ?s (in_ptr st3) = (TOKEN_END, [NUL], 1)" using tokenize_end [of ?s] by simp
  have "ip_step ?s st3 = Break (next_token ?s st3)"
    using same unfolding ip_step_def t3 by (simp add: after_start_def ip_dispatch_def ip_field_def st3_def)
  then have l: "ip_loop ?s ip_start = Ok (next_token ?s st3)"
    using st1(1) st2(1) s3 by (simp add: ip_loop.simps [of _ st1] ip_loop.simps [of _ st2] ip_loop.simps [of _ st3])
  have "ip_finish (next_token ?s st3) = UB"
    using same assms(2) fields_of_bytes [OF assms(1)] by (simp add: ip_finish_def st3_def)
  moreover have "length ?s \<le> 49" using join_colon_length [of ?ns] lt by simp
  ultimately show ?thesis
    using l assms(1) join_no_nul(1) [of ?ns]
    by (simp add: php_driver_parse_ip_address_def php_driver_format_address_def cstr_id Let_def)
qed

text \<open>
  Decompression: when the parser stops with a compressed block at position \<open>c\<close> after fewer than 16
  bytes, the result has the bytes before the block at its start, the bytes after it at its end, and
  zeros in between.
\<close>

theorem ip_decompress:
  assumes "length bs + k = 16" and "0 < k" and "c \<le> length bs"
    and "domain st = 0" and "compress_pos st = int c" and "pos st + 1 = int (length bs)"
    and "address st = bs @ replicate k 0"
  shows "ip_finish st = Ok (take c bs @ replicate k 0 @ drop c bs)"
proof -
  define m where "m = length bs - c"
  have m: "pos st + 1 - int c = int m" using assms(3,6) by (simp add: m_def)
  have "ip_finish st = (case move_bytes (int c) (int m) [0..<m] (bs @ replicate k 0) of Some bs \<Rightarrow> Ok bs | None \<Rightarrow> UB)"
    using assms(1,2,4-7) m by (simp add: ip_finish_def Let_def)
  also have "move_bytes (int c) (int m) [0..<m] (bs @ replicate k 0) =
      Some (map (\<lambda>i. if int i < int c + int m - int m then (bs @ replicate k 0) ! i
               else if i < 16 - m then 0 else (bs @ replicate k 0) ! nat (int c + int m - 16 + int i)) [0..<16])"
    using assms(1-3) by (intro move_byte_all) (auto simp: m_def nth_append)
  also have "map (\<lambda>i. if int i < int c + int m - int m then (bs @ replicate k 0) ! i
               else if i < 16 - m then 0 else (bs @ replicate k 0) ! nat (int c + int m - 16 + int i)) [0..<16] =
      take c bs @ replicate k 0 @ drop c bs"
  proof (intro nth_equalityI)
    fix i assume "i < length (map (\<lambda>i. if int i < int c + int m - int m then (bs @ replicate k 0) ! i
               else if i < 16 - m then 0 else (bs @ replicate k 0) ! nat (int c + int m - 16 + int i)) [0..<16])"
    then have i: "i < 16" by simp
    have j: "nat (int c + int m - 16 + int i) = c + (i - c - k)" if "c + k \<le> i" using that assms(1,3) by (simp add: m_def)
    have m16: "16 - m = c + k" using assms(1,3) by (simp add: m_def)
    show "map (\<lambda>i. if int i < int c + int m - int m then (bs @ replicate k 0) ! i
               else if i < 16 - m then 0 else (bs @ replicate k 0) ! nat (int c + int m - 16 + int i)) [0..<16] ! i =
        (take c bs @ replicate k 0 @ drop c bs) ! i"
      using i assms(1,3) j m16 by (auto simp: nth_append)
  qed (use assms(1,3) in simp)
  finally show ?thesis by simp
qed

theorem ip_decompress_witness:
  "ip_finish (ip_start\<lparr>pos := 3, compress_pos := 2, address := [1, 2, 3, 4] @ replicate 12 0\<rparr>) =
    Ok ([1, 2] @ replicate 12 0 @ [3, 4])"
  using ip_decompress [of "[1, 2, 3, 4]" 12 2 "ip_start\<lparr>pos := 3, compress_pos := 2, address := [1, 2, 3, 4] @ replicate 12 0\<rparr>"]
  by (simp add: ip_start_def)

end
