(* ===== verification/Execution_Options.thy ===== *)
theory Execution_Options
  imports Zend_Hash Num_Parse
begin

text \<open>
  \<^verbatim>\<open>ext/util/consistency.c\<close> and \<^verbatim>\<open>ext/src/ExecutionOptions.c\<close>: the options of one execution, read from a PHP
  array and checked. The codes of \<^verbatim>\<open>CassConsistency\<close> are those of the native protocol.
\<close>

section \<open>Consistency levels\<close>

text \<open>\<^verbatim>\<open>ANY, ONE, TWO, THREE, QUORUM, ALL, LOCAL_QUORUM, EACH_QUORUM, SERIAL, LOCAL_SERIAL, LOCAL_ONE\<close>.\<close>

definition consistency_codes :: "int list" where
  "consistency_codes = [0, 1, 2, 3, 4, 5, 6, 7, 8, 9, 10]"

definition serial_codes :: "int list" where
  "serial_codes = [8, 9]"

fun php_driver_get_consistency :: "zval \<Rightarrow> 64 word outcome" where
  "php_driver_get_consistency (ZLong l) =
     (if sint l \<in> set consistency_codes then Ok l else Throw InvalidArgumentException)"
| "php_driver_get_consistency _ = Throw InvalidArgumentException"

fun php_driver_get_serial_consistency :: "zval \<Rightarrow> 64 word outcome" where
  "php_driver_get_serial_consistency (ZLong l) =
     (if sint l \<in> set serial_codes then Ok l else Throw InvalidArgumentException)"
| "php_driver_get_serial_consistency _ = Throw InvalidArgumentException"

section \<open>Options\<close>

record execution_options =
  eo_consistency :: "64 word"
  eo_serial_consistency :: "64 word"
  eo_page_size :: "32 word"
  eo_paging_state_token :: "string option"
  eo_timeout :: zval
  eo_arguments :: zval
  eo_retry_policy :: zval
  eo_timestamp :: "64 word"

definition init_execution_options :: execution_options where
  "init_execution_options =
     \<lparr>eo_consistency = - 1, eo_serial_consistency = - 1, eo_page_size = - 1, eo_paging_state_token = None,
      eo_timeout = ZUndef, eo_arguments = ZUndef, eo_retry_policy = ZUndef, eo_timestamp = word_of_int (- (2 ^ 63))\<rparr>"

text \<open>One block of \<^verbatim>\<open>build_from_array\<close>: if the option is given, it is checked and stored.\<close>

definition with_option :: "(zkey \<times> zval) list \<Rightarrow> string \<Rightarrow> (zval \<Rightarrow> 'a outcome) \<Rightarrow> ('a \<Rightarrow> 's \<Rightarrow> 's) \<Rightarrow> 's \<Rightarrow> 's outcome" where
  "with_option options name check store self =
     (case map_of options (KStr name) of
        None \<Rightarrow> Ok self
      | Some z \<Rightarrow> bind_outcome (check z) (\<lambda>v. Ok (store v self)))"

fun check_page_size :: "zval \<Rightarrow> 32 word outcome" where
  "check_page_size (ZLong l) = (if 0 < sint l then Ok (ucast l) else Throw InvalidArgumentException)"
| "check_page_size _ = Throw InvalidArgumentException"

fun check_paging_state_token :: "zval \<Rightarrow> string outcome" where
  "check_paging_state_token (ZString s) = Ok s"
| "check_paging_state_token _ = Throw InvalidArgumentException"

fun check_timeout :: "zval \<Rightarrow> zval outcome" where
  "check_timeout (ZLong l) = (if 0 < sint l then Ok (ZLong l) else Throw InvalidArgumentException)"
| "check_timeout (ZDouble d) = (if dbl_lt 0 d then Ok (ZDouble d) else Throw InvalidArgumentException)"
| "check_timeout ZNull = Ok ZNull"
| "check_timeout _ = Throw InvalidArgumentException"

fun check_arguments :: "zval \<Rightarrow> zval outcome" where
  "check_arguments (ZArray h) = Ok (ZArray h)"
| "check_arguments _ = Throw InvalidArgumentException"

text \<open>
  The condition is \<^verbatim>\<open>Z_TYPE_P(p) != IS_OBJECT && !instanceof_function(Z_OBJCE_P(p), ...)\<close>: an object of any class
  passes, and the class pointer of a value that is not an object is read.
\<close>

fun check_retry_policy :: "zval \<Rightarrow> zval outcome" where
  "check_retry_policy (ZObject obj) = Ok (ZObject obj)"
| "check_retry_policy _ = UB"

fun check_timestamp :: "zval \<Rightarrow> 64 word outcome" where
  "check_timestamp (ZLong l) = Ok l"
| "check_timestamp (ZString s) = php_driver_parse_bigint s"
| "check_timestamp _ = Throw InvalidArgumentException"

definition build_from_array :: "execution_options \<Rightarrow> (zkey \<times> zval) list \<Rightarrow> execution_options outcome" where
  "build_from_array self options =
     bind_outcome (with_option options ''consistency'' php_driver_get_consistency (\<lambda>v. eo_consistency_update (\<lambda>_. v)) self) (\<lambda>self.
     bind_outcome (with_option options ''serial_consistency'' php_driver_get_serial_consistency
       (\<lambda>v. eo_serial_consistency_update (\<lambda>_. v)) self) (\<lambda>self.
     bind_outcome (with_option options ''page_size'' check_page_size (\<lambda>v. eo_page_size_update (\<lambda>_. v)) self) (\<lambda>self.
     bind_outcome (with_option options ''paging_state_token'' check_paging_state_token
       (\<lambda>v. eo_paging_state_token_update (\<lambda>_. Some v)) self) (\<lambda>self.
     bind_outcome (with_option options ''timeout'' check_timeout (\<lambda>v. eo_timeout_update (\<lambda>_. v)) self) (\<lambda>self.
     bind_outcome (with_option options ''arguments'' check_arguments (\<lambda>v. eo_arguments_update (\<lambda>_. v)) self) (\<lambda>self.
     bind_outcome (with_option options ''retry_policy'' check_retry_policy (\<lambda>v. eo_retry_policy_update (\<lambda>_. v)) self) (\<lambda>self.
     with_option options ''timestamp'' check_timestamp (\<lambda>v. eo_timestamp_update (\<lambda>_. v)) self)))))))"

definition php_driver_execution_options_build_local_from_array :: "(zkey \<times> zval) list \<Rightarrow> execution_options outcome" where
  "php_driver_execution_options_build_local_from_array options = build_from_array init_execution_options options"

text \<open>The argument of the constructor: an array by its entries, or any other value.\<close>

definition execution_options_construct :: "(nat \<Rightarrow> (zkey \<times> zval) list) \<Rightarrow> zval \<Rightarrow> execution_options outcome" where
  "execution_options_construct arrays options =
     (case options of
        ZArray h \<Rightarrow> build_from_array init_execution_options (arrays h)
      | _ \<Rightarrow> Throw InvalidArgumentException)"

definition undef_null :: "zval \<Rightarrow> zval" where
  "undef_null z = (if z = ZUndef then ZNull else z)"

definition execution_options_get :: "execution_options \<Rightarrow> string \<Rightarrow> zval" where
  "execution_options_get self name =
     (if name = ''consistency'' then (if eo_consistency self = - 1 then ZNull else ZLong (eo_consistency self))
      else if name = ''serialConsistency'' then
        (if eo_serial_consistency self = - 1 then ZNull else ZLong (eo_serial_consistency self))
      else if name = ''pageSize'' then (if eo_page_size self = - 1 then ZNull else ZLong (scast (eo_page_size self)))
      else if name = ''pagingStateToken'' then
        (case eo_paging_state_token self of None \<Rightarrow> ZNull | Some s \<Rightarrow> ZString s)
      else if name = ''timeout'' then undef_null (eo_timeout self)
      else if name = ''arguments'' then undef_null (eo_arguments self)
      else if name = ''retryPolicy'' then undef_null (eo_retry_policy self)
      else if name = ''timestamp'' then
        (if eo_timestamp self = word_of_int (- (2 ^ 63)) then ZNull else ZString (show_int (sint (eo_timestamp self))))
      else ZNull)"

section \<open>What is stored\<close>

lemma with_option_Ok:
  "with_option options name check store self = Ok self' \<longleftrightarrow>
    (case map_of options (KStr name) of
       None \<Rightarrow> self' = self
     | Some z \<Rightarrow> \<exists>v. check z = Ok v \<and> self' = store v self)"
  by (cases "map_of options (KStr name)") (auto simp: with_option_def bind_outcome_Ok_iff)

lemma with_option_UB:
  "with_option options name check store self = UB \<longleftrightarrow> (\<exists>z. map_of options (KStr name) = Some z \<and> check z = UB)"
  by (cases "map_of options (KStr name)") (auto simp: with_option_def bind_outcome_UB_iff)

text \<open>The value an option is stored with: what the check returns for a given one, else the initial value.\<close>

definition stored_as :: "(zkey \<times> zval) list \<Rightarrow> string \<Rightarrow> (zval \<Rightarrow> 'a outcome) \<Rightarrow> 'b \<Rightarrow> ('a \<Rightarrow> 'b) \<Rightarrow> 'b \<Rightarrow> bool" where
  "stored_as options name check initial f x =
     (case map_of options (KStr name) of
        None \<Rightarrow> x = initial
      | Some z \<Rightarrow> \<exists>v. check z = Ok v \<and> x = f v)"

lemma with_option_stored:
  assumes "set_field initial self = self" and "\<And>v. store v self = set_field (f v) self"
  shows "with_option options name check store self = Ok self' \<longleftrightarrow>
    (\<exists>x. stored_as options name check initial f x \<and> self' = set_field x self)"
  using assms by (cases "map_of options (KStr name)") (auto simp: with_option_Ok stored_as_def)

lemma with_option_bind:
  assumes "set_field initial self = self" and "\<And>v. store v self = set_field (f v) self"
  shows "bind_outcome (with_option options name check store self) k = Ok y \<longleftrightarrow>
    (\<exists>x. stored_as options name check initial f x \<and> k (set_field x self) = Ok y)"
  using with_option_stored [of set_field initial self store f, OF assms] by (auto simp: bind_outcome_Ok_iff)

lemma build_from_array_Ok:
  "build_from_array init_execution_options options = Ok eo \<longleftrightarrow>
    stored_as options ''consistency'' php_driver_get_consistency (- 1) id (eo_consistency eo) \<and>
    stored_as options ''serial_consistency'' php_driver_get_serial_consistency (- 1) id (eo_serial_consistency eo) \<and>
    stored_as options ''page_size'' check_page_size (- 1) id (eo_page_size eo) \<and>
    stored_as options ''paging_state_token'' check_paging_state_token None Some (eo_paging_state_token eo) \<and>
    stored_as options ''timeout'' check_timeout ZUndef id (eo_timeout eo) \<and>
    stored_as options ''arguments'' check_arguments ZUndef id (eo_arguments eo) \<and>
    stored_as options ''retry_policy'' check_retry_policy ZUndef id (eo_retry_policy eo) \<and>
    stored_as options ''timestamp'' check_timestamp (word_of_int (- (2 ^ 63))) id (eo_timestamp eo)"
proof -
  note step = with_option_bind [where f = id and set_field = "\<lambda>x. eo_consistency_update (\<lambda>_. x)" and initial = "- 1"]
    with_option_bind [where f = id and set_field = "\<lambda>x. eo_serial_consistency_update (\<lambda>_. x)" and initial = "- 1"]
    with_option_bind [where f = id and set_field = "\<lambda>x. eo_page_size_update (\<lambda>_. x)" and initial = "- 1"]
    with_option_bind [where f = Some and set_field = "\<lambda>x. eo_paging_state_token_update (\<lambda>_. x)" and initial = None]
    with_option_bind [where f = id and set_field = "\<lambda>x. eo_timeout_update (\<lambda>_. x)" and initial = ZUndef]
    with_option_bind [where f = id and set_field = "\<lambda>x. eo_arguments_update (\<lambda>_. x)" and initial = ZUndef]
    with_option_bind [where f = id and set_field = "\<lambda>x. eo_retry_policy_update (\<lambda>_. x)" and initial = ZUndef]
    with_option_stored [where f = id and set_field = "\<lambda>x. eo_timestamp_update (\<lambda>_. x)"
      and initial = "word_of_int (- (2 ^ 63))"]
  show ?thesis
    by (cases eo) (auto simp: build_from_array_def init_execution_options_def step)
qed

section \<open>Which arrays are accepted\<close>

lemma in_consistency_codes: "k \<in> set consistency_codes \<longleftrightarrow> k \<in> {0..10}"
  unfolding consistency_codes_def by simp presburger

lemma consistency_Ok: "php_driver_get_consistency z = Ok l \<longleftrightarrow> z = ZLong l \<and> sint l \<in> {0..10}"
  by (cases z) (auto simp: in_consistency_codes)

lemma serial_Ok: "php_driver_get_serial_consistency z = Ok l \<longleftrightarrow> z = ZLong l \<and> sint l \<in> {8, 9}"
  by (cases z) (auto simp: serial_codes_def)

lemma check_timeout_Ok:
  "check_timeout z = Ok v \<longleftrightarrow> v = z \<and> (z = ZNull \<or> (\<exists>l. z = ZLong l \<and> 0 < sint l) \<or> (\<exists>d. z = ZDouble d \<and> dbl_lt 0 d))"
  by (cases z) auto

lemma check_arguments_Ok: "check_arguments z = Ok v \<longleftrightarrow> v = z \<and> (\<exists>h. z = ZArray h)"
  by (cases z) auto

lemma check_retry_policy_Ok: "check_retry_policy z = Ok v \<longleftrightarrow> v = z \<and> (\<exists>obj. z = ZObject obj)"
  by (cases z) auto

lemma check_token_Ok: "check_paging_state_token z = Ok s \<longleftrightarrow> z = ZString s"
  by (cases z) auto

lemmas check_Ok = consistency_Ok serial_Ok check_timeout_Ok check_arguments_Ok check_retry_policy_Ok check_token_Ok

lemma check_defined:
  "php_driver_get_consistency z \<noteq> UB" "php_driver_get_serial_consistency z \<noteq> UB" "check_page_size z \<noteq> UB"
  "check_paging_state_token z \<noteq> UB" "check_timeout z \<noteq> UB" "check_arguments z \<noteq> UB"
  "check_retry_policy z = UB \<longleftrightarrow> \<not> (\<exists>obj. z = ZObject obj)"
  by (cases z; simp)+

lemma page_size_kept:
  fixes l :: "64 word"
  assumes "0 < sint l" and "sint l < 2 ^ 31"
  shows "scast (ucast l :: 32 word) = l \<and> (ucast l :: 32 word) \<noteq> - 1"
proof -
  have l: "l = word_of_int (sint l)" by simp
  have "(ucast l :: 32 word) = word_of_int (sint l)"
    by (subst l) (simp add: unsigned_of_int word_of_int_eq_iff take_bit_take_bit del: of_int_sint)
  then have s: "sint (ucast l :: 32 word) = sint l"
    using sint_of_int_in [of "sint l", where 'a = 32] assms by (simp add: in_int_def del: of_int_sint)
  moreover have "(ucast l :: 32 word) \<noteq> - 1" using s assms(1) by auto
  ultimately show ?thesis by (simp add: scast_eq)
qed

section \<open>Properties\<close>

text \<open>
  An option array that is accepted can be read back: every property is \<^verbatim>\<open>null\<close> when its option was not
  given and otherwise the given value, except that the page size is cut to 32 bits and a timestamp is
  the text of the number. The consistency levels are among the eleven, respectively two, of the
  protocol and the timeout is \<^verbatim>\<open>null\<close> or positive.
\<close>

theorem execution_options_read_back:
  assumes "execution_options_construct arrays (ZArray h) = Ok eo"
  shows "let given = (\<lambda>name. case map_of (arrays h) (KStr name) of Some z \<Rightarrow> z | None \<Rightarrow> ZNull) in
    execution_options_get eo ''consistency'' = given ''consistency'' \<and>
    (given ''consistency'' \<noteq> ZNull \<longrightarrow> (\<exists>l. given ''consistency'' = ZLong l \<and> sint l \<in> {0..10})) \<and>
    execution_options_get eo ''serialConsistency'' = given ''serial_consistency'' \<and>
    (given ''serial_consistency'' \<noteq> ZNull \<longrightarrow> (\<exists>l. given ''serial_consistency'' = ZLong l \<and> sint l \<in> {8, 9})) \<and>
    (\<forall>l. given ''page_size'' = ZLong l \<longrightarrow> 0 < sint l \<and>
       (sint l < 2 ^ 31 \<longrightarrow> execution_options_get eo ''pageSize'' = ZLong l)) \<and>
    execution_options_get eo ''pagingStateToken'' = given ''paging_state_token'' \<and>
    execution_options_get eo ''timeout'' = given ''timeout'' \<and>
    (given ''timeout'' = ZNull \<or> (\<exists>l. given ''timeout'' = ZLong l \<and> 0 < sint l) \<or>
      (\<exists>d. given ''timeout'' = ZDouble d \<and> dbl_lt 0 d)) \<and>
    execution_options_get eo ''arguments'' = given ''arguments'' \<and>
    execution_options_get eo ''retryPolicy'' = given ''retry_policy'' \<and>
    (\<forall>l. given ''timestamp'' = ZLong l \<longrightarrow> - (2 ^ 63) < sint l \<longrightarrow>
       execution_options_get eo ''timestamp'' = ZString (show_int (sint l)))"
proof -
  define given where "given = (\<lambda>name. case map_of (arrays h) (KStr name) of Some z \<Rightarrow> z | None \<Rightarrow> ZNull)"
  have built: "build_from_array init_execution_options (arrays h) = Ok eo"
    using assms by (simp add: execution_options_construct_def)
  note st = build_from_array_Ok [THEN iffD1, OF built, THEN conjunct1]
    build_from_array_Ok [THEN iffD1, OF built, THEN conjunct2, THEN conjunct1]
    build_from_array_Ok [THEN iffD1, OF built, THEN conjunct2, THEN conjunct2]
  note st3 = st(3) [THEN conjunct1] st(3) [THEN conjunct2, THEN conjunct1] st(3) [THEN conjunct2, THEN conjunct2, THEN conjunct1]
  note st6 = st(3) [THEN conjunct2, THEN conjunct2, THEN conjunct2]
  note st = st(1,2) st3 st6 [THEN conjunct1] st6 [THEN conjunct2, THEN conjunct1] st6 [THEN conjunct2, THEN conjunct2]
  have "execution_options_get eo ''consistency'' = given ''consistency'' \<and>
      (given ''consistency'' \<noteq> ZNull \<longrightarrow> (\<exists>l. given ''consistency'' = ZLong l \<and> sint l \<in> {0..10}))"
    using st(1) by (auto simp: stored_as_def given_def execution_options_get_def check_Ok split: option.splits)
  moreover have "execution_options_get eo ''serialConsistency'' = given ''serial_consistency'' \<and>
      (given ''serial_consistency'' \<noteq> ZNull \<longrightarrow> (\<exists>l. given ''serial_consistency'' = ZLong l \<and> sint l \<in> {8, 9}))"
    using st(2) by (auto simp: stored_as_def given_def execution_options_get_def check_Ok split: option.splits)
  moreover have "0 < sint l \<and> (sint l < 2 ^ 31 \<longrightarrow> execution_options_get eo ''pageSize'' = ZLong l)"
    if "given ''page_size'' = ZLong l" for l
  proof -
    have g: "0 < sint l" "eo_page_size eo = ucast l"
      using st(3) that by (auto simp: stored_as_def given_def split: option.splits if_splits)
    show ?thesis using g page_size_kept [of l] by (auto simp: execution_options_get_def)
  qed
  moreover have "execution_options_get eo ''pagingStateToken'' = given ''paging_state_token''"
    using st(4) by (auto simp: stored_as_def given_def execution_options_get_def check_Ok split: option.splits)
  moreover have "execution_options_get eo ''timeout'' = given ''timeout'' \<and> (given ''timeout'' = ZNull \<or>
      (\<exists>l. given ''timeout'' = ZLong l \<and> 0 < sint l) \<or> (\<exists>d. given ''timeout'' = ZDouble d \<and> dbl_lt 0 d))"
    using st(5) by (auto simp: stored_as_def given_def execution_options_get_def check_Ok undef_null_def split: option.splits)
  moreover have "execution_options_get eo ''arguments'' = given ''arguments''"
    using st(6) by (auto simp: stored_as_def given_def execution_options_get_def check_Ok undef_null_def split: option.splits)
  moreover have "execution_options_get eo ''retryPolicy'' = given ''retry_policy''"
    using st(7) by (auto simp: stored_as_def given_def execution_options_get_def check_Ok undef_null_def split: option.splits)
  moreover have "execution_options_get eo ''timestamp'' = ZString (show_int (sint l))"
    if "given ''timestamp'' = ZLong l" "- (2 ^ 63) < sint l" for l
  proof -
    have "eo_timestamp eo = l" using st(8) that by (auto simp: stored_as_def given_def split: option.splits)
    then show ?thesis using that(2) by (auto simp: execution_options_get_def)
  qed
  ultimately show ?thesis unfolding given_def [symmetric] Let_def by blast
qed

theorem execution_options_read_back_witness:
  "\<exists>eo. execution_options_construct (\<lambda>_. [(KStr ''page_size'', ZLong 100)]) (ZArray 1) = Ok eo \<and>
     execution_options_get eo ''pageSize'' = ZLong 100 \<and> execution_options_get eo ''timeout'' = ZNull"
proof -
  have "\<exists>eo. execution_options_construct (\<lambda>_. [(KStr ''page_size'', ZLong 100)]) (ZArray 1) = Ok eo"
    by (simp add: execution_options_construct_def build_from_array_def with_option_def)
  then obtain eo where eo: "execution_options_construct (\<lambda>_. [(KStr ''page_size'', ZLong 100)]) (ZArray 1) = Ok eo" ..
  from execution_options_read_back [OF eo] eo show ?thesis by (auto simp: Let_def)
qed

text \<open>
  The check of the retry policy is wrong both ways: reading the array is undefined when the option is
  not an object, and an object of an unrelated class is accepted.
\<close>

lemma retry_policy_unchecked:
  "execution_options_construct (\<lambda>_. [(KStr ''retry_policy'', ZLong 1)]) (ZArray h) = UB \<and>
   (\<exists>eo. execution_options_construct (\<lambda>_. [(KStr ''retry_policy'', ZObject (OOther ''stdClass'' 1))]) (ZArray h) = Ok eo \<and>
      eo_retry_policy eo = ZObject (OOther ''stdClass'' 1))"
  by (simp add: execution_options_construct_def build_from_array_def with_option_def)

end
