(* ===== verification/Cluster_Builder.thy ===== *)
theory Cluster_Builder
  imports Execution_Options
begin

text \<open>
  \<^verbatim>\<open>ext/src/Cluster/Builder.c\<close>: the class \<^verbatim>\<open>Cassandra\Cluster\Builder\<close>. Every method checks its arguments and
  changes the builder; a method that throws may have changed it before, so a method returns the new
  state together with the outcome. Arguments that the engine checks and converts itself (flags,
  strings, objects of a class) are taken as they arrive in the method.
\<close>

section \<open>State\<close>

datatype php_driver_load_balancing =
    LOAD_BALANCING_DEFAULT | LOAD_BALANCING_ROUND_ROBIN | LOAD_BALANCING_DC_AWARE_ROUND_ROBIN

record cluster_builder =
  contact_points :: string
  port :: "32 word"
  load_balancing_policy :: php_driver_load_balancing
  local_dc :: "string option"
  used_hosts_per_remote_dc :: "32 word"
  allow_remote_dcs_for_local_cl :: bool
  use_token_aware_routing :: bool
  username :: "string option"
  password :: "string option"
  connect_timeout :: "32 word"
  request_timeout :: "32 word"
  ssl_options :: zval
  default_consistency :: "64 word"
  default_page_size :: "32 word"
  default_timeout :: zval
  persist :: bool
  protocol_version :: "32 word"
  io_threads :: "32 word"
  core_connections_per_host :: "32 word"
  max_connections_per_host :: "32 word"
  reconnect_interval :: "32 word"
  enable_latency_aware_routing :: bool
  enable_tcp_nodelay :: bool
  enable_tcp_keepalive :: bool
  tcp_keepalive_delay :: "32 word"
  retry_policy :: zval
  timestamp_gen :: zval
  enable_schema :: bool
  blacklist_hosts :: "string option"
  whitelist_hosts :: "string option"
  blacklist_dcs :: "string option"
  whitelist_dcs :: "string option"
  enable_hostname_resolution :: bool
  enable_randomized_contact_points :: bool
  connection_heartbeat_interval :: "32 word"

definition php_driver_cluster_builder_new :: cluster_builder where
  "php_driver_cluster_builder_new =
     \<lparr>contact_points = ''127.0.0.1'', port = 9042, load_balancing_policy = LOAD_BALANCING_DEFAULT,
      local_dc = None, used_hosts_per_remote_dc = 0, allow_remote_dcs_for_local_cl = False,
      use_token_aware_routing = True, username = None, password = None, connect_timeout = 5000,
      request_timeout = 12000, ssl_options = ZUndef, default_consistency = 10, default_page_size = 5000,
      default_timeout = ZUndef, persist = True, protocol_version = 4, io_threads = 1,
      core_connections_per_host = 1, max_connections_per_host = 2, reconnect_interval = 2000,
      enable_latency_aware_routing = True, enable_tcp_nodelay = True, enable_tcp_keepalive = False,
      tcp_keepalive_delay = 0, retry_policy = ZUndef, timestamp_gen = ZUndef, enable_schema = True,
      blacklist_hosts = None, whitelist_hosts = None, blacklist_dcs = None, whitelist_dcs = None,
      enable_hostname_resolution = False, enable_randomized_contact_points = True,
      connection_heartbeat_interval = 30\<rparr>"

section \<open>Methods\<close>

type_synonym builder_method = "cluster_builder \<Rightarrow> cluster_builder \<times> unit outcome"

definition invalid_argument :: builder_method where
  "invalid_argument self = (self, Throw InvalidArgumentException)"

text \<open>A checked value is stored; otherwise the builder is left alone.\<close>

definition store_checked :: "'a outcome \<Rightarrow> ('a \<Rightarrow> cluster_builder \<Rightarrow> cluster_builder) \<Rightarrow> builder_method" where
  "store_checked checked store self =
     (case checked of Ok v \<Rightarrow> (store v self, Ok ()) | Throw x \<Rightarrow> (self, Throw x) | UB \<Rightarrow> (self, UB))"

definition withDefaultConsistency :: "zval \<Rightarrow> builder_method" where
  "withDefaultConsistency consistency =
     store_checked (php_driver_get_consistency consistency) (\<lambda>v. default_consistency_update (\<lambda>_. v))"

fun withDefaultPageSize :: "zval \<Rightarrow> builder_method" where
  "withDefaultPageSize ZNull self = (self\<lparr>default_page_size := - 1\<rparr>, Ok ())"
| "withDefaultPageSize (ZLong l) self =
     (if 0 < sint l then (self\<lparr>default_page_size := ucast l\<rparr>, Ok ()) else invalid_argument self)"
| "withDefaultPageSize _ self = invalid_argument self"

text \<open>For a double the code reads \<^verbatim>\<open>Z_LVAL_P\<close>, the bits of the double as an integer.\<close>

fun withDefaultTimeout :: "zval \<Rightarrow> builder_method" where
  "withDefaultTimeout ZNull self = (self\<lparr>default_timeout := ZUndef\<rparr>, Ok ())"
| "withDefaultTimeout (ZLong l) self =
     (if 0 < sint l then (self\<lparr>default_timeout := ZLong l\<rparr>, Ok ()) else invalid_argument self)"
| "withDefaultTimeout (ZDouble d) self =
     (if 0 < sint d then (self\<lparr>default_timeout := ZDouble d\<rparr>, Ok ()) else invalid_argument self)"
| "withDefaultTimeout _ self = invalid_argument self"

text \<open>The loop that joins host or data centre names with commas and refuses anything but strings.\<close>

fun join_names :: "zval list \<Rightarrow> string outcome" where
  "join_names [] = Ok []"
| "join_names [ZString s] = Ok s"
| "join_names (ZString s # args) = bind_outcome (join_names args) (\<lambda>rest. Ok (s @ '','' @ rest))"
| "join_names (_ # args) = Throw InvalidArgumentException"

definition names_arg :: "zval list \<Rightarrow> string outcome" where
  "names_arg args = bind_outcome (join_names args) (\<lambda>s. Ok (cstr s))"

definition withContactPoints :: "zval list \<Rightarrow> builder_method" where
  "withContactPoints args = store_checked (names_arg args) (\<lambda>v. contact_points_update (\<lambda>_. v))"

fun withPort :: "zval \<Rightarrow> builder_method" where
  "withPort (ZLong l) self =
     (if 0 < sint l \<and> sint l < 65536 then (self\<lparr>port := ucast l\<rparr>, Ok ()) else invalid_argument self)"
| "withPort _ self = invalid_argument self"

definition withRoundRobinLoadBalancingPolicy :: builder_method where
  "withRoundRobinLoadBalancingPolicy self =
     (self\<lparr>local_dc := None, load_balancing_policy := LOAD_BALANCING_ROUND_ROBIN\<rparr>, Ok ())"

fun withDatacenterAwareRoundRobinLoadBalancingPolicy :: "string \<Rightarrow> zval \<Rightarrow> bool \<Rightarrow> builder_method" where
  "withDatacenterAwareRoundRobinLoadBalancingPolicy dc (ZLong hosts) allow self =
     (if sint hosts < 0 then invalid_argument self
      else (self\<lparr>load_balancing_policy := LOAD_BALANCING_DC_AWARE_ROUND_ROBIN, local_dc := Some (cstr dc),
                 used_hosts_per_remote_dc := ucast hosts, allow_remote_dcs_for_local_cl := allow\<rparr>, Ok ()))"
| "withDatacenterAwareRoundRobinLoadBalancingPolicy dc _ allow self = invalid_argument self"

definition withBlackListHosts :: "zval list \<Rightarrow> builder_method" where
  "withBlackListHosts args = store_checked (names_arg args) (\<lambda>v. blacklist_hosts_update (\<lambda>_. Some v))"

definition withWhiteListHosts :: "zval list \<Rightarrow> builder_method" where
  "withWhiteListHosts args = store_checked (names_arg args) (\<lambda>v. whitelist_hosts_update (\<lambda>_. Some v))"

definition withBlackListDCs :: "zval list \<Rightarrow> builder_method" where
  "withBlackListDCs args = store_checked (names_arg args) (\<lambda>v. blacklist_dcs_update (\<lambda>_. Some v))"

definition withWhiteListDCs :: "zval list \<Rightarrow> builder_method" where
  "withWhiteListDCs args = store_checked (names_arg args) (\<lambda>v. whitelist_dcs_update (\<lambda>_. Some v))"

text \<open>A flag that defaults to true when it is not given.\<close>

definition flag :: "bool option \<Rightarrow> bool" where
  "flag enabled = (case enabled of Some b \<Rightarrow> b | None \<Rightarrow> True)"

definition withTokenAwareRouting :: "bool option \<Rightarrow> builder_method" where
  "withTokenAwareRouting enabled self = (self\<lparr>use_token_aware_routing := flag enabled\<rparr>, Ok ())"

fun withCredentials :: "zval \<Rightarrow> zval \<Rightarrow> builder_method" where
  "withCredentials (ZString u) (ZString p) self =
     (self\<lparr>username := Some (cstr u), password := Some (cstr p)\<rparr>, Ok ())"
| "withCredentials _ _ self = invalid_argument self"

text \<open>A positive number of seconds as milliseconds in an unsigned 32-bit integer.\<close>

fun seconds_to_ms :: "zval \<Rightarrow> 32 word outcome" where
  "seconds_to_ms (ZLong l) =
     (if 0 < sint l then (if in_int 64 (sint l * 1000) then Ok (word_of_int (sint l * 1000)) else UB)
      else Throw InvalidArgumentException)"
| "seconds_to_ms (ZDouble d) =
     (if dbl_lt 0 d then bind_outcome (dbl_ceil_to_uint 32 (dbl_mul d (int_to_dbl 1000))) (\<lambda>k. Ok (word_of_int k))
      else Throw InvalidArgumentException)"
| "seconds_to_ms _ = Throw InvalidArgumentException"

definition withConnectTimeout :: "zval \<Rightarrow> builder_method" where
  "withConnectTimeout timeout = store_checked (seconds_to_ms timeout) (\<lambda>v. connect_timeout_update (\<lambda>_. v))"

definition withRequestTimeout :: "dbl \<Rightarrow> builder_method" where
  "withRequestTimeout timeout =
     store_checked (dbl_ceil_to_uint 32 (dbl_mul timeout (int_to_dbl 1000)))
       (\<lambda>k. request_timeout_update (\<lambda>_. word_of_int k))"

definition withSSL :: "obj \<Rightarrow> builder_method" where
  "withSSL ssl self = (self\<lparr>ssl_options := ZObject ssl\<rparr>, Ok ())"

definition withPersistentSessions :: "bool option \<Rightarrow> builder_method" where
  "withPersistentSessions enabled self = (self\<lparr>persist := flag enabled\<rparr>, Ok ())"

fun withProtocolVersion :: "zval \<Rightarrow> builder_method" where
  "withProtocolVersion (ZLong l) self =
     (if 1 \<le> sint l then (self\<lparr>protocol_version := ucast l\<rparr>, Ok ()) else invalid_argument self)"
| "withProtocolVersion _ self = invalid_argument self"

fun withIOThreads :: "zval \<Rightarrow> builder_method" where
  "withIOThreads (ZLong l) self =
     (if sint l < 129 \<and> 0 < sint l then (self\<lparr>io_threads := ucast l\<rparr>, Ok ()) else invalid_argument self)"
| "withIOThreads _ self = invalid_argument self"

text \<open>The core count is stored before the maximum is checked.\<close>

fun store_max_connections :: "64 word \<Rightarrow> zval option \<Rightarrow> builder_method" where
  "store_max_connections core None self = (self\<lparr>max_connections_per_host := ucast core\<rparr>, Ok ())"
| "store_max_connections core (Some ZNull) self = (self\<lparr>max_connections_per_host := ucast core\<rparr>, Ok ())"
| "store_max_connections core (Some (ZLong m)) self =
     (if sint m < sint core \<or> 128 < sint m then invalid_argument self
      else (self\<lparr>max_connections_per_host := ucast m\<rparr>, Ok ()))"
| "store_max_connections core (Some _) self = invalid_argument self"

fun withConnectionsPerHost :: "zval \<Rightarrow> zval option \<Rightarrow> builder_method" where
  "withConnectionsPerHost (ZLong core) maximum self =
     (if sint core < 129 \<and> 0 < sint core
      then store_max_connections core maximum (self\<lparr>core_connections_per_host := ucast core\<rparr>)
      else invalid_argument self)"
| "withConnectionsPerHost _ maximum self = invalid_argument self"

definition withReconnectInterval :: "zval \<Rightarrow> builder_method" where
  "withReconnectInterval interval = store_checked (seconds_to_ms interval) (\<lambda>v. reconnect_interval_update (\<lambda>_. v))"

definition withLatencyAwareRouting :: "bool option \<Rightarrow> builder_method" where
  "withLatencyAwareRouting enabled self = (self\<lparr>enable_latency_aware_routing := flag enabled\<rparr>, Ok ())"

definition withTCPNodelay :: "bool option \<Rightarrow> builder_method" where
  "withTCPNodelay enabled self = (self\<lparr>enable_tcp_nodelay := flag enabled\<rparr>, Ok ())"

text \<open>The flag is set before the delay is computed, which only matters if that is undefined.\<close>

fun withTCPKeepalive :: "zval \<Rightarrow> builder_method" where
  "withTCPKeepalive ZNull self = (self\<lparr>enable_tcp_keepalive := False, tcp_keepalive_delay := 0\<rparr>, Ok ())"
| "withTCPKeepalive delay self =
     store_checked (seconds_to_ms delay)
       (\<lambda>v s. s\<lparr>enable_tcp_keepalive := True, tcp_keepalive_delay := v\<rparr>) self"

definition withRetryPolicy :: "obj \<Rightarrow> builder_method" where
  "withRetryPolicy policy self = (self\<lparr>retry_policy := ZObject policy\<rparr>, Ok ())"

definition withTimestampGenerator :: "obj \<Rightarrow> builder_method" where
  "withTimestampGenerator gen self = (self\<lparr>timestamp_gen := ZObject gen\<rparr>, Ok ())"

definition withSchemaMetadata :: "bool option \<Rightarrow> builder_method" where
  "withSchemaMetadata enabled self = (self\<lparr>enable_schema := flag enabled\<rparr>, Ok ())"

definition withHostnameResolution :: "bool option \<Rightarrow> builder_method" where
  "withHostnameResolution enabled self = (self\<lparr>enable_hostname_resolution := flag enabled\<rparr>, Ok ())"

definition withRandomizedContactPoints :: "bool option \<Rightarrow> builder_method" where
  "withRandomizedContactPoints enabled self = (self\<lparr>enable_randomized_contact_points := flag enabled\<rparr>, Ok ())"

fun heartbeat_interval :: "zval \<Rightarrow> 32 word outcome" where
  "heartbeat_interval (ZLong l) = (if 0 \<le> sint l then Ok (ucast l) else Throw InvalidArgumentException)"
| "heartbeat_interval (ZDouble d) =
     (if dbl_lt 0 d \<or> dbl_eq d 0 then bind_outcome (dbl_ceil_to_uint 32 d) (\<lambda>k. Ok (word_of_int k))
      else Throw InvalidArgumentException)"
| "heartbeat_interval _ = Throw InvalidArgumentException"

definition withConnectionHeartbeatInterval :: "zval \<Rightarrow> builder_method" where
  "withConnectionHeartbeatInterval interval =
     store_checked (heartbeat_interval interval) (\<lambda>v. connection_heartbeat_interval_update (\<lambda>_. v))"

section \<open>The key of a persistent cluster\<close>

definition safe_str :: "string option \<Rightarrow> string" where
  "safe_str s = (case s of Some t \<Rightarrow> t | None \<Rightarrow> [])"

fun policy_code :: "php_driver_load_balancing \<Rightarrow> int" where
  "policy_code LOAD_BALANCING_DEFAULT = 0"
| "policy_code LOAD_BALANCING_ROUND_ROBIN = 1"
| "policy_code LOAD_BALANCING_DC_AWARE_ROUND_ROBIN = 2"

definition show_w :: "32 word \<Rightarrow> string" where
  "show_w w = show_int (sint w)"

definition show_bool :: "bool \<Rightarrow> string" where
  "show_bool b = show_int (of_bool b)"

text \<open>The arguments of \<^verbatim>\<open>spprintf\<close> in \<^verbatim>\<open>build\<close>, each as its conversion prints it, and the key.\<close>

definition key_fields :: "cluster_builder \<Rightarrow> string list" where
  "key_fields self =
     [contact_points self, show_w (port self), show_int (policy_code (load_balancing_policy self)),
      safe_str (local_dc self), show_w (used_hosts_per_remote_dc self),
      show_bool (allow_remote_dcs_for_local_cl self), show_bool (use_token_aware_routing self),
      safe_str (username self), safe_str (password self), show_w (connect_timeout self),
      show_w (request_timeout self), show_w (protocol_version self), show_w (io_threads self),
      show_w (core_connections_per_host self), show_w (max_connections_per_host self),
      show_w (reconnect_interval self), show_bool (enable_latency_aware_routing self),
      show_bool (enable_tcp_nodelay self), show_bool (enable_tcp_keepalive self),
      show_w (tcp_keepalive_delay self), show_bool (enable_schema self),
      show_bool (enable_hostname_resolution self), show_bool (enable_randomized_contact_points self),
      show_w (connection_heartbeat_interval self), safe_str (whitelist_hosts self), safe_str (whitelist_dcs self),
      safe_str (blacklist_hosts self), safe_str (blacklist_dcs self)]"

fun join_colon_fields :: "string list \<Rightarrow> string" where
  "join_colon_fields [] = []"
| "join_colon_fields (x # xs) = CHR '':'' # x @ join_colon_fields xs"

definition build_hash_key :: "cluster_builder \<Rightarrow> string" where
  "build_hash_key self = ''cassandra'' @ join_colon_fields (key_fields self)"

section \<open>Sequences of calls\<close>

datatype builder_call =
    CDefaultConsistency zval | CDefaultPageSize zval | CDefaultTimeout zval | CContactPoints "zval list" | CPort zval
  | CRoundRobin | CDatacenterAware string zval bool | CBlackListHosts "zval list" | CWhiteListHosts "zval list"
  | CBlackListDCs "zval list" | CWhiteListDCs "zval list" | CTokenAware "bool option" | CCredentials zval zval
  | CConnectTimeout zval | CRequestTimeout dbl | CSSL obj | CPersistent "bool option" | CProtocolVersion zval
  | CIOThreads zval | CConnectionsPerHost zval "zval option" | CReconnectInterval zval | CLatencyAware "bool option"
  | CTCPNodelay "bool option" | CTCPKeepalive zval | CRetryPolicy obj | CTimestampGenerator obj
  | CSchemaMetadata "bool option" | CHostnameResolution "bool option" | CRandomizedContactPoints "bool option"
  | CHeartbeatInterval zval

fun call_builder :: "builder_call \<Rightarrow> builder_method" where
  "call_builder (CDefaultConsistency z) = withDefaultConsistency z"
| "call_builder (CDefaultPageSize z) = withDefaultPageSize z"
| "call_builder (CDefaultTimeout z) = withDefaultTimeout z"
| "call_builder (CContactPoints zs) = withContactPoints zs"
| "call_builder (CPort z) = withPort z"
| "call_builder CRoundRobin = withRoundRobinLoadBalancingPolicy"
| "call_builder (CDatacenterAware dc z allow) = withDatacenterAwareRoundRobinLoadBalancingPolicy dc z allow"
| "call_builder (CBlackListHosts zs) = withBlackListHosts zs"
| "call_builder (CWhiteListHosts zs) = withWhiteListHosts zs"
| "call_builder (CBlackListDCs zs) = withBlackListDCs zs"
| "call_builder (CWhiteListDCs zs) = withWhiteListDCs zs"
| "call_builder (CTokenAware b) = withTokenAwareRouting b"
| "call_builder (CCredentials u p) = withCredentials u p"
| "call_builder (CConnectTimeout z) = withConnectTimeout z"
| "call_builder (CRequestTimeout d) = withRequestTimeout d"
| "call_builder (CSSL obj) = withSSL obj"
| "call_builder (CPersistent b) = withPersistentSessions b"
| "call_builder (CProtocolVersion z) = withProtocolVersion z"
| "call_builder (CIOThreads z) = withIOThreads z"
| "call_builder (CConnectionsPerHost c m) = withConnectionsPerHost c m"
| "call_builder (CReconnectInterval z) = withReconnectInterval z"
| "call_builder (CLatencyAware b) = withLatencyAwareRouting b"
| "call_builder (CTCPNodelay b) = withTCPNodelay b"
| "call_builder (CTCPKeepalive z) = withTCPKeepalive z"
| "call_builder (CRetryPolicy obj) = withRetryPolicy obj"
| "call_builder (CTimestampGenerator obj) = withTimestampGenerator obj"
| "call_builder (CSchemaMetadata b) = withSchemaMetadata b"
| "call_builder (CHostnameResolution b) = withHostnameResolution b"
| "call_builder (CRandomizedContactPoints b) = withRandomizedContactPoints b"
| "call_builder (CHeartbeatInterval z) = withConnectionHeartbeatInterval z"

definition run_builder :: "builder_call list \<Rightarrow> cluster_builder" where
  "run_builder calls = fold (\<lambda>c b. fst (call_builder c b)) calls php_driver_cluster_builder_new"

lemmas builder_defs = withDefaultConsistency_def withContactPoints_def withRoundRobinLoadBalancingPolicy_def
  withBlackListHosts_def withWhiteListHosts_def withBlackListDCs_def withWhiteListDCs_def withTokenAwareRouting_def
  withConnectTimeout_def withRequestTimeout_def withSSL_def withPersistentSessions_def withReconnectInterval_def
  withLatencyAwareRouting_def withTCPNodelay_def withRetryPolicy_def withTimestampGenerator_def withSchemaMetadata_def
  withHostnameResolution_def withRandomizedContactPoints_def withConnectionHeartbeatInterval_def invalid_argument_def
  store_checked_def

section \<open>Invariant\<close>

definition between :: "int \<Rightarrow> int \<Rightarrow> 32 word \<Rightarrow> bool" where
  "between lo hi w \<longleftrightarrow> lo \<le> sint w \<and> sint w \<le> hi"

definition builder_inv :: "cluster_builder \<Rightarrow> bool" where
  "builder_inv b \<longleftrightarrow> between 1 65535 (port b) \<and> between 1 128 (io_threads b) \<and>
     between 1 128 (core_connections_per_host b) \<and> between 1 128 (max_connections_per_host b) \<and>
     sint (default_consistency b) \<in> {0..10} \<and> (username b = None \<longleftrightarrow> password b = None) \<and>
     (local_dc b \<noteq> None \<longleftrightarrow> load_balancing_policy b = LOAD_BALANCING_DC_AWARE_ROUND_ROBIN) \<and>
     (\<not> enable_tcp_keepalive b \<longrightarrow> tcp_keepalive_delay b = 0) \<and>
     (default_timeout b = ZUndef \<or> (\<exists>l. default_timeout b = ZLong l \<and> 0 < sint l) \<or>
       (\<exists>d. default_timeout b = ZDouble d \<and> 0 < sint d))"

lemma sint_ucast_small:
  fixes l :: "64 word"
  assumes "0 \<le> sint l" and "sint l < 2 ^ 31"
  shows "sint (ucast l :: 32 word) = sint l"
proof -
  have l: "l = word_of_int (sint l)" by simp
  have "(ucast l :: 32 word) = word_of_int (sint l)"
    by (subst l) (simp add: unsigned_of_int word_of_int_eq_iff take_bit_take_bit del: of_int_sint)
  then show ?thesis using sint_of_int_in [of "sint l", where 'a = 32] assms by (simp add: in_int_def del: of_int_sint)
qed

lemma between_ucast: "1 \<le> sint l \<Longrightarrow> sint l \<le> hi \<Longrightarrow> hi \<le> 65535 \<Longrightarrow> between 1 hi (ucast (l :: 64 word))"
  using sint_ucast_small [of l] by (simp add: between_def)

lemma builder_inv_new: "builder_inv php_driver_cluster_builder_new"
  by (simp add: builder_inv_def php_driver_cluster_builder_new_def between_def)

lemma builder_inv_max:
  "0 < sint core \<Longrightarrow> sint core < 129 \<Longrightarrow> builder_inv b \<Longrightarrow> builder_inv (fst (store_max_connections core m b))"
  by (induction core m b rule: store_max_connections.induct)
    (auto simp: builder_inv_def invalid_argument_def between_ucast)

lemma builder_inv_connections: "builder_inv b \<Longrightarrow> builder_inv (fst (withConnectionsPerHost c m b))"
proof (cases c)
  case (ZLong core)
  assume b: "builder_inv b"
  show ?thesis
  proof (cases "0 < sint core \<and> sint core < 129")
    case True
    have "builder_inv (b\<lparr>core_connections_per_host := ucast core\<rparr>)"
      using b True by (simp add: builder_inv_def between_ucast)
    then show ?thesis using builder_inv_max [of core] ZLong True by simp
  qed (use b ZLong in \<open>auto simp: invalid_argument_def\<close>)
qed (auto simp: invalid_argument_def)

text \<open>A method that stores a checked value keeps the invariant if storing a value that passes does.\<close>

lemma builder_inv_store:
  assumes "builder_inv b" and "\<And>v. checked = Ok v \<Longrightarrow> builder_inv (store v b)"
  shows "builder_inv (fst (store_checked checked store b))"
  using assms by (cases checked) (auto simp: store_checked_def)

lemma builder_inv_zval:
  assumes "builder_inv b"
  shows "builder_inv (fst (withDefaultPageSize z b))" "builder_inv (fst (withDefaultTimeout z b))"
    "builder_inv (fst (withPort z b))" "builder_inv (fst (withDatacenterAwareRoundRobinLoadBalancingPolicy dc z allow b))"
    "builder_inv (fst (withProtocolVersion z b))" "builder_inv (fst (withIOThreads z b))"
    "builder_inv (fst (withTCPKeepalive z b))"
  using assms
  by (cases z; auto simp: builder_inv_def invalid_argument_def between_ucast store_checked_def split: outcome.splits)+

lemma builder_inv_credentials: "builder_inv b \<Longrightarrow> builder_inv (fst (withCredentials u p b))"
  by (induction u p b rule: withCredentials.induct) (auto simp: builder_inv_def invalid_argument_def)

lemma builder_inv_consistency: "builder_inv b \<Longrightarrow> builder_inv (fst (withDefaultConsistency z b))"
  unfolding withDefaultConsistency_def
  by (rule builder_inv_store) (simp_all add: consistency_Ok builder_inv_def)

lemma builder_inv_names:
  "builder_inv b \<Longrightarrow> builder_inv (fst (withContactPoints zs b))" "builder_inv b \<Longrightarrow> builder_inv (fst (withBlackListHosts zs b))"
  "builder_inv b \<Longrightarrow> builder_inv (fst (withWhiteListHosts zs b))" "builder_inv b \<Longrightarrow> builder_inv (fst (withBlackListDCs zs b))"
  "builder_inv b \<Longrightarrow> builder_inv (fst (withWhiteListDCs zs b))"
  by (simp_all add: builder_defs builder_inv_def split: outcome.splits)

lemma builder_inv_times:
  "builder_inv b \<Longrightarrow> builder_inv (fst (withConnectTimeout z b))" "builder_inv b \<Longrightarrow> builder_inv (fst (withRequestTimeout d b))"
  "builder_inv b \<Longrightarrow> builder_inv (fst (withReconnectInterval z b))"
  "builder_inv b \<Longrightarrow> builder_inv (fst (withConnectionHeartbeatInterval z b))"
  by (simp_all add: builder_defs builder_inv_def split: outcome.splits)

lemma builder_inv_flags:
  "builder_inv b \<Longrightarrow> builder_inv (fst (withTokenAwareRouting f b))" "builder_inv b \<Longrightarrow> builder_inv (fst (withPersistentSessions f b))"
  "builder_inv b \<Longrightarrow> builder_inv (fst (withLatencyAwareRouting f b))" "builder_inv b \<Longrightarrow> builder_inv (fst (withTCPNodelay f b))"
  "builder_inv b \<Longrightarrow> builder_inv (fst (withSchemaMetadata f b))" "builder_inv b \<Longrightarrow> builder_inv (fst (withHostnameResolution f b))"
  "builder_inv b \<Longrightarrow> builder_inv (fst (withRandomizedContactPoints f b))" "builder_inv b \<Longrightarrow> builder_inv (fst (withSSL obj b))"
  "builder_inv b \<Longrightarrow> builder_inv (fst (withRetryPolicy obj b))" "builder_inv b \<Longrightarrow> builder_inv (fst (withTimestampGenerator obj b))"
  "builder_inv b \<Longrightarrow> builder_inv (fst (withRoundRobinLoadBalancingPolicy b))"
  by (simp_all add: builder_defs builder_inv_def)

lemma builder_inv_call:
  assumes "builder_inv b"
  shows "builder_inv (fst (call_builder c b))"
  using assms
  by (cases c) (simp_all add: builder_inv_zval builder_inv_connections builder_inv_credentials builder_inv_consistency
      builder_inv_names builder_inv_times builder_inv_flags)

lemma run_builder_inv: "builder_inv (run_builder calls)"
proof -
  have "builder_inv b \<Longrightarrow> builder_inv (fold (\<lambda>c b. fst (call_builder c b)) calls b)" for b
    by (induction calls arbitrary: b) (auto simp: builder_inv_call)
  then show ?thesis by (simp add: run_builder_def builder_inv_new)
qed

section \<open>The key determines the settings\<close>

lemma show_nat_10_inj: "show_nat 10 m = show_nat 10 n \<Longrightarrow> m = n"
  using scan_digits_show_nat [of 10 "[]" m] scan_digits_show_nat [of 10 "[]" n] by (simp add: num_end_def)

lemma show_nat_not: "c \<in> {CHR '':'', CHR ''-''} \<Longrightarrow> c \<notin> set (show_nat 10 n)"
  using show_nat_digits [of 10 n] by (auto simp: digit_in_def digit_val_def ctype_defs split: if_splits)

lemma show_int_inj: "show_int a = show_int b \<longleftrightarrow> a = b"
proof
  have "CHR ''-'' # s \<noteq> show_nat 10 n" for s n using show_nat_not [of "CHR ''-''" n] by (metis insertCI list.set_intros(1))
  then show "a = b" if "show_int a = show_int b"
    using that show_nat_10_inj [of "nat (- a)" "nat (- b)"] show_nat_10_inj [of "nat a" "nat b"]
    by (auto simp: show_int_def split: if_splits) metis+
qed simp

lemma show_int_no_colon: "CHR '':'' \<notin> set (show_int k)"
  using show_nat_not [of "CHR '':''"] by (auto simp: show_int_def)

lemma join_colon_inj:
  assumes "length xs = length ys" and "\<forall>x \<in> set xs. CHR '':'' \<notin> set x" and "\<forall>y \<in> set ys. CHR '':'' \<notin> set y"
    and "join_colon_fields xs = join_colon_fields ys"
  shows "xs = ys"
  using assms
proof (induction xs ys rule: list_induct2)
  case (Cons x xs y ys)
  have split: "takeWhile (\<lambda>c. c \<noteq> CHR '':'') (z @ join_colon_fields zs) = z"
    if "CHR '':'' \<notin> set z" for z zs
    using that by (cases zs) (auto simp: takeWhile_append takeWhile_eq_all_conv)
  have "x = y" using split [of x xs] split [of y ys] Cons.prems by simp
  then show ?case using Cons by simp
qed simp

lemma no_colon_key_fields:
  assumes "CHR '':'' \<notin> set (contact_points b)"
    and "\<forall>f \<in> {local_dc, username, password, whitelist_hosts, whitelist_dcs, blacklist_hosts, blacklist_dcs}.
      CHR '':'' \<notin> set (safe_str (f b))"
  shows "\<forall>x \<in> set (key_fields b). CHR '':'' \<notin> set x"
  using assms by (simp add: key_fields_def show_w_def show_bool_def show_int_no_colon)

lemma policy_code_inj: "policy_code p = policy_code q \<longleftrightarrow> p = q"
  by (cases p; cases q) simp_all

lemma show_w_inj: "show_w v = show_w w \<longleftrightarrow> v = w"
  by (auto simp: show_w_def show_int_inj dest: signed_word_eqI)

lemma show_bool_inj: "show_bool v = show_bool w \<longleftrightarrow> v = w"
  by (simp add: show_bool_def show_int_inj)

section \<open>Throwing calls\<close>

lemma store_checked_throw: "snd (store_checked checked store b) = Throw x \<Longrightarrow> fst (store_checked checked store b) = b"
  by (cases checked) (auto simp: store_checked_def)

lemma if_throw:
  "snd (if c then (s, Ok ()) else invalid_argument b) = Throw x \<Longrightarrow> fst (if c then (s, Ok ()) else invalid_argument b) = b"
  "snd (if c then invalid_argument b else (s, Ok ())) = Throw x \<Longrightarrow> fst (if c then invalid_argument b else (s, Ok ())) = b"
  by (cases c; simp add: invalid_argument_def)+

lemma max_throw: "snd (store_max_connections core m b) = Throw x \<Longrightarrow> fst (store_max_connections core m b) = b"
  by (induction core m b rule: store_max_connections.induct) (simp_all add: if_throw, simp_all add: invalid_argument_def)

lemma connections_throw:
  assumes "snd (withConnectionsPerHost z m b) = Throw x"
  shows "fst (withConnectionsPerHost z m b) = b \<or> (\<exists>l. z = ZLong l \<and> 0 < sint l \<and> sint l < 129 \<and>
    fst (withConnectionsPerHost z m b) = b\<lparr>core_connections_per_host := ucast l\<rparr>)"
  using assms
proof (cases z)
  case (ZLong l)
  show ?thesis
  proof (cases "0 < sint l \<and> sint l < 129")
    case True
    then show ?thesis using max_throw [of l m "b\<lparr>core_connections_per_host := ucast l\<rparr>" x] assms ZLong by simp
  qed (use ZLong in \<open>auto simp: invalid_argument_def\<close>)
qed (simp_all add: invalid_argument_def)

lemma zval_throw:
  "snd (withDefaultPageSize z b) = Throw x \<Longrightarrow> fst (withDefaultPageSize z b) = b"
  "snd (withDefaultTimeout z b) = Throw x \<Longrightarrow> fst (withDefaultTimeout z b) = b"
  "snd (withPort z b) = Throw x \<Longrightarrow> fst (withPort z b) = b"
  "snd (withDatacenterAwareRoundRobinLoadBalancingPolicy dc z allow b) = Throw x \<Longrightarrow>
    fst (withDatacenterAwareRoundRobinLoadBalancingPolicy dc z allow b) = b"
  "snd (withProtocolVersion z b) = Throw x \<Longrightarrow> fst (withProtocolVersion z b) = b"
  "snd (withIOThreads z b) = Throw x \<Longrightarrow> fst (withIOThreads z b) = b"
  "snd (withTCPKeepalive z b) = Throw x \<Longrightarrow> fst (withTCPKeepalive z b) = b"
  by (cases z; simp add: if_throw store_checked_throw; simp add: invalid_argument_def)+

lemma credentials_throw: "snd (withCredentials u p b) = Throw x \<Longrightarrow> fst (withCredentials u p b) = b"
  by (induction u p b rule: withCredentials.induct) (auto simp: invalid_argument_def)

lemma checked_throw:
  "snd (withDefaultConsistency z b) = Throw x \<Longrightarrow> fst (withDefaultConsistency z b) = b"
  "snd (withContactPoints zs b) = Throw x \<Longrightarrow> fst (withContactPoints zs b) = b"
  "snd (withBlackListHosts zs b) = Throw x \<Longrightarrow> fst (withBlackListHosts zs b) = b"
  "snd (withWhiteListHosts zs b) = Throw x \<Longrightarrow> fst (withWhiteListHosts zs b) = b"
  "snd (withBlackListDCs zs b) = Throw x \<Longrightarrow> fst (withBlackListDCs zs b) = b"
  "snd (withWhiteListDCs zs b) = Throw x \<Longrightarrow> fst (withWhiteListDCs zs b) = b"
  "snd (withConnectTimeout z b) = Throw x \<Longrightarrow> fst (withConnectTimeout z b) = b"
  "snd (withRequestTimeout d b) = Throw x \<Longrightarrow> fst (withRequestTimeout d b) = b"
  "snd (withReconnectInterval z b) = Throw x \<Longrightarrow> fst (withReconnectInterval z b) = b"
  "snd (withConnectionHeartbeatInterval z b) = Throw x \<Longrightarrow> fst (withConnectionHeartbeatInterval z b) = b"
  unfolding withDefaultConsistency_def withContactPoints_def withBlackListHosts_def withWhiteListHosts_def
    withBlackListDCs_def withWhiteListDCs_def withConnectTimeout_def withRequestTimeout_def withReconnectInterval_def
    withConnectionHeartbeatInterval_def
  by (erule store_checked_throw)+

lemma flags_Ok:
  "snd (withTokenAwareRouting f b) = Ok ()" "snd (withPersistentSessions f b) = Ok ()"
  "snd (withLatencyAwareRouting f b) = Ok ()" "snd (withTCPNodelay f b) = Ok ()" "snd (withSchemaMetadata f b) = Ok ()"
  "snd (withHostnameResolution f b) = Ok ()" "snd (withRandomizedContactPoints f b) = Ok ()" "snd (withSSL obj b) = Ok ()"
  "snd (withRetryPolicy obj b) = Ok ()" "snd (withTimestampGenerator obj b) = Ok ()"
  "snd (withRoundRobinLoadBalancingPolicy b) = Ok ()"
  by (simp_all add: builder_defs)

lemma call_throw:
  assumes "snd (call_builder c b) = Throw x"
  shows "fst (call_builder c b) = b \<or> (\<exists>l m. c = CConnectionsPerHost (ZLong l) m \<and> 0 < sint l \<and> sint l < 129 \<and>
    fst (call_builder c b) = b\<lparr>core_connections_per_host := ucast l\<rparr>)"
  using assms
proof (cases c)
  case (CConnectionsPerHost z m)
  then show ?thesis using assms connections_throw [of z m b x] by auto
qed (simp_all add: zval_throw credentials_throw checked_throw flags_Ok)

lemma connections_Ok:
  "snd (withConnectionsPerHost z m b) = Ok () \<Longrightarrow>
    sint (core_connections_per_host (fst (withConnectionsPerHost z m b))) \<le>
    sint (max_connections_per_host (fst (withConnectionsPerHost z m b)))"
proof (cases z)
  case (ZLong l)
  assume ok: "snd (withConnectionsPerHost z m b) = Ok ()"
  have "sint l < 129 \<and> 0 < sint l"
  proof (rule ccontr)
    assume "\<not> (sint l < 129 \<and> 0 < sint l)"
    then show False using ok ZLong by (simp only: withConnectionsPerHost.simps if_False invalid_argument_def) simp
  qed
  then have l: "0 < sint l" "sint l < 129" by simp_all
  let ?b = "b\<lparr>core_connections_per_host := ucast l\<rparr>"
  have "snd (store_max_connections l m s) = Ok () \<Longrightarrow>
      sint (ucast l :: 32 word) \<le> sint (max_connections_per_host (fst (store_max_connections l m s))) \<and>
      core_connections_per_host (fst (store_max_connections l m s)) = core_connections_per_host s" for s
    using l by (induction l m s rule: store_max_connections.induct)
      (auto simp: invalid_argument_def sint_ucast_small split: if_splits)
  from this [of ?b] ok ZLong l show ?thesis by simp
qed (simp_all add: invalid_argument_def)

section \<open>What the methods accept\<close>

text \<open>The arguments the documentation of \<^verbatim>\<open>ext/doc/Cassandra/Cluster/Builder.php\<close> asks for, method by method.\<close>

definition int_between :: "int \<Rightarrow> int \<Rightarrow> zval \<Rightarrow> bool" where
  "int_between lo hi z = (case z of ZLong l \<Rightarrow> lo \<le> sint l \<and> sint l \<le> hi | _ \<Rightarrow> False)"

definition positive_seconds :: "zval \<Rightarrow> bool" where
  "positive_seconds z = (case z of ZLong l \<Rightarrow> 0 < sint l | ZDouble d \<Rightarrow> dbl_lt 0 d | _ \<Rightarrow> False)"

definition is_string :: "zval \<Rightarrow> bool" where
  "is_string z = (case z of ZString _ \<Rightarrow> True | _ \<Rightarrow> False)"

fun argument_range :: "builder_call \<Rightarrow> bool" where
  "argument_range (CDefaultConsistency z) = int_between 0 10 z"
| "argument_range (CDefaultPageSize z) = (z = ZNull \<or> int_between 1 (2 ^ 63 - 1) z)"
| "argument_range (CDefaultTimeout z) = (case z of ZNull \<Rightarrow> True | ZLong l \<Rightarrow> 0 < sint l | ZDouble d \<Rightarrow> 0 < sint d | _ \<Rightarrow> False)"
| "argument_range (CContactPoints zs) = (\<forall>z \<in> set zs. is_string z)"
| "argument_range (CPort z) = int_between 1 65535 z"
| "argument_range (CDatacenterAware dc z allow) = int_between 0 (2 ^ 63 - 1) z"
| "argument_range (CBlackListHosts zs) = (\<forall>z \<in> set zs. is_string z)"
| "argument_range (CWhiteListHosts zs) = (\<forall>z \<in> set zs. is_string z)"
| "argument_range (CBlackListDCs zs) = (\<forall>z \<in> set zs. is_string z)"
| "argument_range (CWhiteListDCs zs) = (\<forall>z \<in> set zs. is_string z)"
| "argument_range (CCredentials u p) = (is_string u \<and> is_string p)"
| "argument_range (CConnectTimeout z) = positive_seconds z"
| "argument_range (CProtocolVersion z) = int_between 1 (2 ^ 63 - 1) z"
| "argument_range (CIOThreads z) = int_between 1 128 z"
| "argument_range (CConnectionsPerHost z m) =
     (case z of
        ZLong core \<Rightarrow> int_between 1 128 z \<and> (case m of None \<Rightarrow> True | Some k \<Rightarrow> k = ZNull \<or> int_between (sint core) 128 k)
      | _ \<Rightarrow> False)"
| "argument_range (CReconnectInterval z) = positive_seconds z"
| "argument_range (CTCPKeepalive z) = (z = ZNull \<or> positive_seconds z)"
| "argument_range (CHeartbeatInterval z) =
     (case z of ZLong l \<Rightarrow> 0 \<le> sint l | ZDouble d \<Rightarrow> dbl_lt 0 d \<or> dbl_eq d 0 | _ \<Rightarrow> False)"
| "argument_range _ = True"

text \<open>Times whose milliseconds do not fit in the integer they are computed in.\<close>

definition ms_overflow :: "zval \<Rightarrow> bool" where
  "ms_overflow z =
     (case z of ZLong l \<Rightarrow> \<not> in_int 64 (sint l * 1000)
      | ZDouble d \<Rightarrow> dbl_ceil_to_uint 32 (dbl_mul d (int_to_dbl 1000)) = UB | _ \<Rightarrow> False)"

fun time_overflow :: "builder_call \<Rightarrow> bool" where
  "time_overflow (CConnectTimeout z) = ms_overflow z"
| "time_overflow (CRequestTimeout d) = ms_overflow (ZDouble d)"
| "time_overflow (CReconnectInterval z) = ms_overflow z"
| "time_overflow (CTCPKeepalive z) = ms_overflow z"
| "time_overflow (CHeartbeatInterval z) = (case z of ZDouble d \<Rightarrow> dbl_ceil_to_uint 32 d = UB | _ \<Rightarrow> False)"
| "time_overflow _ = False"

lemmas range_defs = int_between_def positive_seconds_def is_string_def ms_overflow_def

lemma sint_64: "sint (l :: 64 word) \<le> 2 ^ 63 - 1"
  using sint_lt [of l] by simp

lemma join_names_cases:
  "(\<forall>z \<in> set zs. is_string z) \<and> (\<exists>s. join_names zs = Ok s) \<or>
   \<not> (\<forall>z \<in> set zs. is_string z) \<and> join_names zs = Throw InvalidArgumentException"
  by (induction zs rule: join_names.induct) (auto simp: is_string_def)

lemma names_arg_range: "(\<forall>z \<in> set zs. is_string z) \<longleftrightarrow> (\<exists>s. names_arg zs = Ok s)"
  "\<not> (\<forall>z \<in> set zs. is_string z) \<Longrightarrow> names_arg zs = Throw InvalidArgumentException"
  using join_names_cases [of zs] by (auto simp: names_arg_def bind_outcome_Ok_iff)

lemma store_checked_snd: "snd (store_checked checked store b) = (case checked of Ok _ \<Rightarrow> Ok () | Throw x \<Rightarrow> Throw x | UB \<Rightarrow> UB)"
  by (cases checked) (simp_all add: store_checked_def)

definition accepts :: "bool \<Rightarrow> bool \<Rightarrow> unit outcome \<Rightarrow> bool" where
  "accepts allowed overflow r \<longleftrightarrow> r = (if allowed then if overflow then UB else Ok () else Throw InvalidArgumentException)"

lemma accepts_names: "accepts (\<forall>z \<in> set zs. is_string z) False (snd (store_checked (names_arg zs) store b))"
  using names_arg_range [of zs] by (auto simp: accepts_def store_checked_snd)

lemma ceil_no_throw: "dbl_ceil_to_uint n d \<noteq> Throw x"
  by (auto simp: dbl_ceil_to_uint_def Let_def split: option.splits)

lemma accepts_seconds: "accepts (positive_seconds z) (ms_overflow z) (snd (store_checked (seconds_to_ms z) store b))"
proof (cases z)
  case (ZDouble d)
  then show ?thesis using ceil_no_throw [of 32 "dbl_mul d (int_to_dbl 1000)"]
    by (cases "dbl_ceil_to_uint 32 (dbl_mul d (int_to_dbl 1000))") (auto simp: accepts_def range_defs store_checked_snd)
qed (auto simp: accepts_def range_defs store_checked_snd)

lemma accepts_heartbeat:
  "accepts (argument_range (CHeartbeatInterval z)) (time_overflow (CHeartbeatInterval z))
     (snd (withConnectionHeartbeatInterval z b))"
proof (cases z)
  case (ZDouble d)
  then show ?thesis using ceil_no_throw [of 32 d]
    by (cases "dbl_ceil_to_uint 32 d") (auto simp: accepts_def withConnectionHeartbeatInterval_def store_checked_snd)
qed (auto simp: accepts_def withConnectionHeartbeatInterval_def store_checked_snd)

lemma accepts_request: "accepts True (ms_overflow (ZDouble d)) (snd (withRequestTimeout d b))"
  using ceil_no_throw [of 32 "dbl_mul d (int_to_dbl 1000)"]
  by (cases "dbl_ceil_to_uint 32 (dbl_mul d (int_to_dbl 1000))")
    (auto simp: accepts_def withRequestTimeout_def store_checked_snd ms_overflow_def)

lemma accepts_consistency: "accepts (int_between 0 10 z) False (snd (withDefaultConsistency z b))"
proof (cases z)
  case (ZLong l)
  have "k \<in> set consistency_codes \<longleftrightarrow> 0 \<le> k \<and> k \<le> 10" for k by (simp add: consistency_codes_def) arith
  then show ?thesis using ZLong by (auto simp: accepts_def withDefaultConsistency_def store_checked_snd int_between_def)
qed (auto simp: accepts_def withDefaultConsistency_def store_checked_snd int_between_def)

lemma accepts_connections:
  "accepts (argument_range (CConnectionsPerHost z m)) False (snd (withConnectionsPerHost z m b))"
proof (cases z)
  case (ZLong l)
  show ?thesis
  proof (cases m)
    case (Some k)
    then show ?thesis using ZLong by (cases k) (auto simp: accepts_def invalid_argument_def int_between_def)
  qed (use ZLong in \<open>auto simp: accepts_def invalid_argument_def int_between_def\<close>)
qed (auto simp: accepts_def invalid_argument_def)

lemma accepts_keepalive: "accepts (z = ZNull \<or> positive_seconds z) (ms_overflow z) (snd (withTCPKeepalive z b))"
proof (cases "z = ZNull")
  case False
  then have "withTCPKeepalive z b = store_checked (seconds_to_ms z)
       (\<lambda>v s. s\<lparr>enable_tcp_keepalive := True, tcp_keepalive_delay := v\<rparr>) b" by (cases z) simp_all
  then show ?thesis using accepts_seconds False by simp
qed (simp add: accepts_def ms_overflow_def)

lemma accepts_integers:
  "accepts (z = ZNull \<or> int_between 1 (2 ^ 63 - 1) z) False (snd (withDefaultPageSize z b))"
  "accepts (argument_range (CDefaultTimeout z)) False (snd (withDefaultTimeout z b))"
  "accepts (int_between 1 65535 z) False (snd (withPort z b))"
  "accepts (int_between 0 (2 ^ 63 - 1) z) False (snd (withDatacenterAwareRoundRobinLoadBalancingPolicy dc z allow b))"
  "accepts (int_between 1 (2 ^ 63 - 1) z) False (snd (withProtocolVersion z b))"
  "accepts (int_between 1 128 z) False (snd (withIOThreads z b))"
  by (cases z; use sint_64 in \<open>auto simp: accepts_def int_between_def invalid_argument_def\<close>)+

lemma accepts_credentials: "accepts (is_string u \<and> is_string p) False (snd (withCredentials u p b))"
  by (induction u p b rule: withCredentials.induct) (auto simp: accepts_def is_string_def invalid_argument_def)

lemma call_accepts: "accepts (argument_range c) (time_overflow c) (snd (call_builder c b))"
proof (cases c)
  case (CDefaultPageSize z)
  then show ?thesis using accepts_integers(1) by (simp only: argument_range.simps time_overflow.simps call_builder.simps)
next
  case (CDatacenterAware dc z allow)
  then show ?thesis using accepts_integers(4) by (simp only: argument_range.simps time_overflow.simps call_builder.simps)
next
  case (CProtocolVersion z)
  then show ?thesis using accepts_integers(5) by (simp only: argument_range.simps time_overflow.simps call_builder.simps)
next
  case (CDefaultTimeout z)
  then show ?thesis using accepts_integers(2) by (simp only: time_overflow.simps call_builder.simps)
next
  case (CHeartbeatInterval z)
  then show ?thesis using accepts_heartbeat by (simp only: call_builder.simps)
next
  case (CConnectionsPerHost z m)
  then show ?thesis using accepts_connections by (simp only: time_overflow.simps call_builder.simps)
qed (simp_all add: accepts_integers accepts_credentials accepts_consistency accepts_request accepts_keepalive
    withConnectTimeout_def withReconnectInterval_def accepts_seconds withContactPoints_def withBlackListHosts_def
    withWhiteListHosts_def withBlackListDCs_def withWhiteListDCs_def accepts_names, simp_all add: accepts_def flags_Ok)

text \<open>An accepted integer is stored in 32 bits: as it is below 2^31, cut off from there on.\<close>

lemma ucast_keeps: "0 \<le> sint l \<Longrightarrow> sint (ucast (l :: 64 word) :: 32 word) = sint l \<longleftrightarrow> sint l < 2 ^ 31"
  using sint_ucast_small [of l] sint_lt [of "ucast l :: 32 word"] by auto

section \<open>Properties\<close>



text \<open>
  C20. When no name in two builders contains a colon, the keys under which their clusters are kept agree
  exactly when the two agree in all settings that are printed into it. The TLS options, the retry
  policy and the timestamp generator are not among these, so builders that differ only there share a
  key; and with colons in the names different credentials can share one.
\<close>

theorem build_hash_key_determines:
  assumes "\<forall>b \<in> {b1, b2}. CHR '':'' \<notin> set (contact_points b) \<and>
    (\<forall>f \<in> {local_dc, username, password, whitelist_hosts, whitelist_dcs, blacklist_hosts, blacklist_dcs}.
      CHR '':'' \<notin> set (safe_str (f b)))"
  shows "(build_hash_key b1 = build_hash_key b2 \<longleftrightarrow>
      contact_points b1 = contact_points b2 \<and> port b1 = port b2 \<and> load_balancing_policy b1 = load_balancing_policy b2 \<and>
      safe_str (local_dc b1) = safe_str (local_dc b2) \<and> used_hosts_per_remote_dc b1 = used_hosts_per_remote_dc b2 \<and>
      allow_remote_dcs_for_local_cl b1 = allow_remote_dcs_for_local_cl b2 \<and>
      use_token_aware_routing b1 = use_token_aware_routing b2 \<and> safe_str (username b1) = safe_str (username b2) \<and>
      safe_str (password b1) = safe_str (password b2) \<and> connect_timeout b1 = connect_timeout b2 \<and>
      request_timeout b1 = request_timeout b2 \<and> protocol_version b1 = protocol_version b2 \<and>
      io_threads b1 = io_threads b2 \<and> core_connections_per_host b1 = core_connections_per_host b2 \<and>
      max_connections_per_host b1 = max_connections_per_host b2 \<and> reconnect_interval b1 = reconnect_interval b2 \<and>
      enable_latency_aware_routing b1 = enable_latency_aware_routing b2 \<and>
      enable_tcp_nodelay b1 = enable_tcp_nodelay b2 \<and> enable_tcp_keepalive b1 = enable_tcp_keepalive b2 \<and>
      tcp_keepalive_delay b1 = tcp_keepalive_delay b2 \<and> enable_schema b1 = enable_schema b2 \<and>
      enable_hostname_resolution b1 = enable_hostname_resolution b2 \<and>
      enable_randomized_contact_points b1 = enable_randomized_contact_points b2 \<and>
      connection_heartbeat_interval b1 = connection_heartbeat_interval b2 \<and>
      safe_str (whitelist_hosts b1) = safe_str (whitelist_hosts b2) \<and>
      safe_str (whitelist_dcs b1) = safe_str (whitelist_dcs b2) \<and>
      safe_str (blacklist_hosts b1) = safe_str (blacklist_hosts b2) \<and>
      safe_str (blacklist_dcs b1) = safe_str (blacklist_dcs b2)) \<and>
    build_hash_key (b1\<lparr>ssl_options := z, retry_policy := z', timestamp_gen := z''\<rparr>) = build_hash_key b1 \<and>
    build_hash_key (b1\<lparr>username := Some ''a:b'', password := Some ''c''\<rparr>) =
      build_hash_key (b1\<lparr>username := Some ''a'', password := Some ''b:c''\<rparr>)"
proof -
  have nc: "\<forall>x \<in> set (key_fields b1). CHR '':'' \<notin> set x" "\<forall>x \<in> set (key_fields b2). CHR '':'' \<notin> set x"
    by (rule no_colon_key_fields; use assms in blast)+
  have "length (key_fields b1) = length (key_fields b2)" by (simp add: key_fields_def)
  then have "build_hash_key b1 = build_hash_key b2 \<longleftrightarrow> key_fields b1 = key_fields b2"
    using join_colon_inj [OF _ nc] by (auto simp: build_hash_key_def)
  moreover have "build_hash_key (b1\<lparr>ssl_options := z, retry_policy := z', timestamp_gen := z''\<rparr>) = build_hash_key b1"
    by (simp add: build_hash_key_def key_fields_def)
  moreover have "build_hash_key (b1\<lparr>username := Some ''a:b'', password := Some ''c''\<rparr>) =
      build_hash_key (b1\<lparr>username := Some ''a'', password := Some ''b:c''\<rparr>)"
    by (simp add: build_hash_key_def key_fields_def safe_str_def)
  ultimately show ?thesis
    by (simp add: key_fields_def show_w_inj show_bool_inj show_int_inj policy_code_inj)
qed

theorem build_hash_key_determines_witness:
  "build_hash_key (php_driver_cluster_builder_new\<lparr>port := 19042\<rparr>) \<noteq> build_hash_key php_driver_cluster_builder_new"
  using build_hash_key_determines [of "php_driver_cluster_builder_new\<lparr>port := 19042\<rparr>" php_driver_cluster_builder_new]
  by (simp add: php_driver_cluster_builder_new_def safe_str_def)

end
