(* ===== verification/Cass_Value.thy ===== *)
theory Cass_Value
  imports Php_Map Php_Collection Php_Tuple Php_Udt Twos_Complement
begin

text \<open>
  \<^verbatim>\<open>ext/util/collections.c\<close>: turning sets, maps, collections, tuples and user type values into containers of
  the C driver. A container is what has been appended to it or set in it; the driver library decides
  whether it accepts the next value, which is the record \<open>cass_lib\<close>. The object of a collection class
  is its handle, and the heap gives the C struct behind the handle. The functions call each other along
  nested objects, so they have fuel; without fuel the recursion of the C code would not end either,
  which is \<open>UB\<close>.
\<close>

section \<open>Values of the C driver\<close>

datatype cass_value =
    CNull
  | CInt8 "8 word"
  | CInt16 "16 word"
  | CInt32 "32 word"
  | CUint32 "32 word"
  | CInt64 "64 word"
  | CFloat "32 word"
  | CDouble dbl
  | CBool bool
  | CString string
  | CBytes "byte list"
  | CDecimal "byte list" "32 word"
  | CUuid "byte list"
  | CInet "byte list"
  | CDuration "32 word" "32 word" "64 word"
  | CCollection php_driver_type "cass_value list"
  | CTuple php_driver_type "(nat \<times> cass_value) list"
  | CUserType php_driver_type "(string \<times> cass_value) list"

text \<open>
  The error code (0 is \<^verbatim>\<open>CASS_OK\<close>) for the data type of the container, what it holds already, and the
  new value. A call that fails leaves the container as it is, so that the macro \<^verbatim>\<open>CHECK_ERROR\<close>, which
  evaluates a failing call again for its message, has no further effect.
\<close>

record cass_lib =
  cl_gmp :: gmp
  cl_key_mem :: "string \<Rightarrow> string"
  cl_append :: "php_driver_type \<Rightarrow> cass_value list \<Rightarrow> cass_value \<Rightarrow> nat"
  cl_tuple_set :: "php_driver_type \<Rightarrow> (nat \<times> cass_value) list \<Rightarrow> nat \<Rightarrow> cass_value \<Rightarrow> nat"
  cl_user_type_set :: "php_driver_type \<Rightarrow> (string \<times> cass_value) list \<Rightarrow> string \<Rightarrow> cass_value \<Rightarrow> nat"

section \<open>Objects\<close>

datatype container =
    CtSet php_set
  | CtMap php_map
  | CtColl php_collection
  | CtTuple php_tuple
  | CtUdt php_udt

type_synonym obj_heap = "nat \<Rightarrow> container option"

fun ct_class :: "container \<Rightarrow> string" where
  "ct_class (CtSet _) = ''Set''"
| "ct_class (CtMap _) = ''Map''"
| "ct_class (CtColl _) = ''Collection''"
| "ct_class (CtTuple _) = ''Tuple''"
| "ct_class (CtUdt _) = ''UserTypeValue''"

fun ct_type :: "container \<Rightarrow> php_driver_type" where
  "ct_type (CtSet s) = TSet (set_type s)"
| "ct_type (CtMap m) = map_type m"
| "ct_type (CtColl c) = TCollection (coll_type c)"
| "ct_type (CtTuple t) = TTuple (tup_types t)"
| "ct_type (CtUdt u) = udt_type u"

text \<open>
  The result of a call and the number of containers that it created and that are still live when it
  returns. A result \<open>None\<close> is the return value 0 without an exception.
\<close>

type_synonym 'a alloc = "nat \<times> 'a option outcome"

fun bind_alloc :: "'a alloc \<Rightarrow> ('a \<Rightarrow> 'b alloc) \<Rightarrow> 'b alloc" where
  "bind_alloc (n, Ok (Some x)) f = (n + fst (f x), snd (f x))"
| "bind_alloc (n, Ok None) f = (n, Ok None)"
| "bind_alloc (n, Throw e) f = (n, Throw e)"
| "bind_alloc (n, UB) f = (n, UB)"

text \<open>\<^verbatim>\<open>CHECK_ERROR\<close> of a call of the library.\<close>

definition check_error :: "nat \<Rightarrow> 'a \<Rightarrow> 'a alloc" where
  "check_error rc x = (0, if rc \<noteq> 0 then Throw (CassException rc) else Ok (Some x))"

section \<open>One value\<close>

text \<open>
  The fields that the macros \<^verbatim>\<open>Z_STRVAL_P\<close>, \<^verbatim>\<open>Z_LVAL_P\<close>, \<^verbatim>\<open>Z_DVAL_P\<close> and \<^verbatim>\<open>PHP_DRIVER_GET_\<dots>\<close> read; reading a field
  of another kind of value is undefined.
\<close>

fun z_strval :: "zval \<Rightarrow> string outcome" where
  "z_strval (ZString s) = Ok s" | "z_strval _ = UB"

fun z_lval :: "zval \<Rightarrow> 64 word outcome" where
  "z_lval (ZLong l) = Ok l" | "z_lval _ = UB"

fun z_dval :: "zval \<Rightarrow> dbl outcome" where
  "z_dval (ZDouble d) = Ok d" | "z_dval _ = UB"

fun z_obj :: "zval \<Rightarrow> obj outcome" where
  "z_obj (ZObject obj) = Ok obj" | "z_obj _ = UB"

fun bigint_value :: "obj \<Rightarrow> cass_value outcome" where
  "bigint_value (ONumeric (NBigint v)) = Ok (CInt64 v)" | "bigint_value _ = UB"

fun smallint_value :: "obj \<Rightarrow> cass_value outcome" where
  "smallint_value (ONumeric (NSmallint v)) = Ok (CInt16 v)" | "smallint_value _ = UB"

fun tinyint_value :: "obj \<Rightarrow> cass_value outcome" where
  "tinyint_value (ONumeric (NTinyint v)) = Ok (CInt8 v)" | "tinyint_value _ = UB"

fun float_value :: "obj \<Rightarrow> cass_value outcome" where
  "float_value (ONumeric (NFloat v)) = Ok (CFloat v)" | "float_value _ = UB"

fun blob_value :: "obj \<Rightarrow> cass_value outcome" where
  "blob_value (OBlob bs) = Ok (CBytes bs)" | "blob_value _ = UB"

fun timestamp_value :: "obj \<Rightarrow> cass_value outcome" where
  "timestamp_value (OTimestamp v) = Ok (CInt64 v)" | "timestamp_value _ = UB"

fun date_value :: "obj \<Rightarrow> cass_value outcome" where
  "date_value (ODate v) = Ok (CUint32 v)" | "date_value _ = UB"

fun time_value :: "obj \<Rightarrow> cass_value outcome" where
  "time_value (OTime v) = Ok (CInt64 v)" | "time_value _ = UB"

fun uuid_value :: "obj \<Rightarrow> cass_value outcome" where
  "uuid_value (OUuid _ bs) = Ok (CUuid bs)" | "uuid_value _ = UB"

fun inet_value :: "obj \<Rightarrow> cass_value outcome" where
  "inet_value (OInet bs) = Ok (CInet bs)" | "inet_value _ = UB"

fun duration_value :: "obj \<Rightarrow> cass_value outcome" where
  "duration_value (ODuration months days nanos) = Ok (CDuration months days nanos)" | "duration_value _ = UB"

text \<open>The bytes of a number; the \<^verbatim>\<open>long\<close> scale is passed as a 32-bit argument.\<close>

fun varint_value :: "gmp \<Rightarrow> obj \<Rightarrow> cass_value outcome" where
  "varint_value g (ONumeric (NVarint n)) = Ok (CBytes (fst (export_twos_complement g n)))" | "varint_value g _ = UB"

fun decimal_to_cass :: "gmp \<Rightarrow> obj \<Rightarrow> cass_value outcome" where
  "decimal_to_cass g (ONumeric (NDecimal n scale)) =
     Ok (CDecimal (fst (export_twos_complement g n)) (word_of_int scale))"
| "decimal_to_cass g _ = UB"

definition flat :: "cass_value outcome \<Rightarrow> cass_value alloc" where
  "flat m = (0, bind_outcome m (\<lambda>p. Ok (Some p)))"

definition flat_obj :: "(obj \<Rightarrow> cass_value outcome) \<Rightarrow> zval \<Rightarrow> cass_value alloc" where
  "flat_obj read value = flat (bind_outcome (z_obj value) read)"

text \<open>
  The \<^verbatim>\<open>switch\<close> over the element type that \<^verbatim>\<open>php_driver_collection_append\<close>, \<^verbatim>\<open>php_driver_tuple_set\<close> and
  \<^verbatim>\<open>php_driver_user_type_set\<close> share up to the function called with the value. \<open>sub\<close> creates the container of a
  nested object, which nothing frees after it has been copied into the outer one.
\<close>

type_synonym sub_container = "cass_value_type \<Rightarrow> obj \<Rightarrow> cass_value alloc"

definition switch_value :: "cass_lib \<Rightarrow> sub_container \<Rightarrow> cass_value_type \<Rightarrow> zval \<Rightarrow> cass_value alloc" where
  "switch_value lib sub type value =
     (case type of
        CASS_TEXT \<Rightarrow> flat (bind_outcome (z_strval value) (\<lambda>s. Ok (CString s)))
      | CASS_ASCII \<Rightarrow> flat (bind_outcome (z_strval value) (\<lambda>s. Ok (CString s)))
      | CASS_VARCHAR \<Rightarrow> flat (bind_outcome (z_strval value) (\<lambda>s. Ok (CString s)))
      | CASS_BIGINT \<Rightarrow> flat_obj bigint_value value
      | CASS_COUNTER \<Rightarrow> flat_obj bigint_value value
      | CASS_SMALL_INT \<Rightarrow> flat_obj smallint_value value
      | CASS_TINY_INT \<Rightarrow> flat_obj tinyint_value value
      | CASS_BLOB \<Rightarrow> flat_obj blob_value value
      | CASS_BOOLEAN \<Rightarrow> flat (Ok (CBool (value = ZTrue)))
      | CASS_DOUBLE \<Rightarrow> flat (bind_outcome (z_dval value) (\<lambda>d. Ok (CDouble d)))
      | CASS_FLOAT \<Rightarrow> flat_obj float_value value
      | CASS_INT \<Rightarrow> flat (bind_outcome (z_lval value) (\<lambda>l. Ok (CInt32 (ucast l))))
      | CASS_TIMESTAMP \<Rightarrow> flat_obj timestamp_value value
      | CASS_DATE \<Rightarrow> flat_obj date_value value
      | CASS_TIME \<Rightarrow> flat_obj time_value value
      | CASS_UUID \<Rightarrow> flat_obj uuid_value value
      | CASS_TIMEUUID \<Rightarrow> flat_obj uuid_value value
      | CASS_VARINT \<Rightarrow> flat_obj (varint_value (cl_gmp lib)) value
      | CASS_DECIMAL \<Rightarrow> flat_obj (decimal_to_cass (cl_gmp lib)) value
      | CASS_DURATION \<Rightarrow> flat_obj duration_value value
      | CASS_INET \<Rightarrow> flat_obj inet_value value
      | CASS_CUSTOM \<Rightarrow> (0, Throw RuntimeException)
      | _ \<Rightarrow> (case value of ZObject obj \<Rightarrow> sub type obj | _ \<Rightarrow> (0, UB)))"

definition php_driver_collection_append ::
  "cass_lib \<Rightarrow> sub_container \<Rightarrow> php_driver_type \<Rightarrow> cass_value list \<Rightarrow> zval \<Rightarrow> cass_value_type \<Rightarrow> cass_value list alloc" where
  "php_driver_collection_append lib sub data_type items value type =
     bind_alloc (switch_value lib sub type value) (\<lambda>p.
       check_error (cl_append lib data_type items p) (items @ [p]))"

definition collections_tuple_set ::
  "cass_lib \<Rightarrow> sub_container \<Rightarrow> php_driver_type \<Rightarrow> (nat \<times> cass_value) list \<Rightarrow> nat \<Rightarrow> zval \<Rightarrow> cass_value_type \<Rightarrow>
   (nat \<times> cass_value) list alloc" where
  "collections_tuple_set lib sub data_type items index value type =
     (if z_type value = 1 then check_error (cl_tuple_set lib data_type items index CNull) (items @ [(index, CNull)])
      else bind_alloc (switch_value lib sub type value) (\<lambda>p.
        check_error (cl_tuple_set lib data_type items index p) (items @ [(index, p)])))"

text \<open>A string in a user type is set without its length, so it ends at the first NUL.\<close>

fun user_type_payload :: "cass_value \<Rightarrow> cass_value" where
  "user_type_payload (CString s) = CString (cstr s)"
| "user_type_payload p = p"

definition collections_user_type_set ::
  "cass_lib \<Rightarrow> sub_container \<Rightarrow> php_driver_type \<Rightarrow> (string \<times> cass_value) list \<Rightarrow> string \<Rightarrow> zval \<Rightarrow> cass_value_type \<Rightarrow>
   (string \<times> cass_value) list alloc" where
  "collections_user_type_set lib sub data_type items name value type =
     (if z_type value = 1 then check_error (cl_user_type_set lib data_type items name CNull) (items @ [(name, CNull)])
      else bind_alloc (switch_value lib sub type value) (\<lambda>p.
        check_error (cl_user_type_set lib data_type items name (user_type_payload p))
          (items @ [(name, user_type_payload p)])))"

section \<open>Containers\<close>

text \<open>A container is freed again unless it is complete.\<close>

fun finish_container :: "('a list \<Rightarrow> cass_value) \<Rightarrow> 'a list alloc \<Rightarrow> cass_value alloc" where
  "finish_container mk (n, Ok (Some items)) = (n + 1, Ok (Some (mk items)))"
| "finish_container mk (n, Ok None) = (n, Ok None)"
| "finish_container mk (n, Throw e) = (n, Throw e)"
| "finish_container mk (n, UB) = (n, UB)"

fun append_all ::
  "cass_lib \<Rightarrow> sub_container \<Rightarrow> php_driver_type \<Rightarrow> cass_value list \<Rightarrow> (zval \<times> cass_value_type) list \<Rightarrow> cass_value list alloc" where
  "append_all lib sub data_type items [] = (0, Ok (Some items))"
| "append_all lib sub data_type items ((value, type) # rest) =
     bind_alloc (php_driver_collection_append lib sub data_type items value type) (\<lambda>items'.
       append_all lib sub data_type items' rest)"

definition php_driver_collection_from_set :: "cass_lib \<Rightarrow> sub_container \<Rightarrow> php_set \<Rightarrow> cass_value alloc" where
  "php_driver_collection_from_set lib sub self =
     (let data_type = TSet (set_type self)
      in finish_container (CCollection data_type)
           (append_all lib sub data_type [] (map (\<lambda>v. (v, type_type (set_type self))) (set_values self))))"

definition php_driver_collection_from_collection ::
  "cass_lib \<Rightarrow> sub_container \<Rightarrow> php_collection \<Rightarrow> cass_value alloc" where
  "php_driver_collection_from_collection lib sub coll =
     (let data_type = TCollection (coll_type coll)
      in finish_container (CCollection data_type)
           (append_all lib sub data_type [] (map (\<lambda>v. (v, type_type (coll_type coll))) (collection_values coll))))"

definition php_driver_collection_from_map :: "cass_lib \<Rightarrow> sub_container \<Rightarrow> php_map \<Rightarrow> cass_value alloc" where
  "php_driver_collection_from_map lib sub self =
     (let data_type = map_type self
      in finish_container (CCollection data_type)
           (append_all lib sub data_type []
             (concat (map (\<lambda>(k, v). [(k, type_type (map_key_type self)), (v, type_type (map_value_type self))])
               (map_items self)))))"

text \<open>The values of a tuple are checked again before they are set.\<close>

fun tuple_set_all ::
  "cass_lib \<Rightarrow> sub_container \<Rightarrow> php_driver_type list \<Rightarrow> (nat \<times> cass_value) list \<Rightarrow> (zkey \<times> zval) list \<Rightarrow>
   (nat \<times> cass_value) list alloc" where
  "tuple_set_all lib sub types items [] = (0, Ok (Some items))"
| "tuple_set_all lib sub types items ((num_key, current) # rest) =
     (case num_key of
        KStr _ \<Rightarrow> (0, Ok None)
      | KInt k \<Rightarrow>
          if k < 0 \<or> int (length types) \<le> k then (0, Ok None)
          else (case php_driver_validate_object current (types ! nat k) of
                  UB \<Rightarrow> (0, UB)
                | Throw e \<Rightarrow> (0, Throw e)
                | Ok False \<Rightarrow> (0, Ok None)
                | Ok True \<Rightarrow>
                    bind_alloc (collections_tuple_set lib sub (TTuple types) items (nat k) current (type_type (types ! nat k)))
                      (\<lambda>items'. tuple_set_all lib sub types items' rest)))"

definition php_driver_tuple_from_tuple :: "cass_lib \<Rightarrow> sub_container \<Rightarrow> php_tuple \<Rightarrow> cass_value alloc" where
  "php_driver_tuple_from_tuple lib sub tuple =
     finish_container (CTuple (TTuple (tup_types tuple)))
       (tuple_set_all lib sub (tup_types tuple) [] (ht_data (tup_values tuple)))"

text \<open>The key of a value without a name is a null pointer, which \<^verbatim>\<open>strlen\<close> reads.\<close>

fun user_type_set_all ::
  "cass_lib \<Rightarrow> sub_container \<Rightarrow> php_udt \<Rightarrow> (string \<times> cass_value) list \<Rightarrow> (zkey \<times> zval) list \<Rightarrow>
   (string \<times> cass_value) list alloc" where
  "user_type_set_all lib sub self items [] = (0, Ok (Some items))"
| "user_type_set_all lib sub self items ((key, current) # rest) =
     (case key of
        KInt _ \<Rightarrow> (0, UB)
      | KStr key \<Rightarrow>
          (let name = key_chars (cl_key_mem lib) key
           in case udt_field self name of
                None \<Rightarrow> (0, Ok None)
              | Some sub_type \<Rightarrow>
                  (case php_driver_validate_object current sub_type of
                     UB \<Rightarrow> (0, UB)
                   | Throw e \<Rightarrow> (0, Throw e)
                   | Ok False \<Rightarrow> (0, Ok None)
                   | Ok True \<Rightarrow>
                       bind_alloc (collections_user_type_set lib sub (udt_type self) items name current (type_type sub_type))
                         (\<lambda>items'. user_type_set_all lib sub self items' rest))))"

definition php_driver_user_type_from_user_type_value ::
  "cass_lib \<Rightarrow> sub_container \<Rightarrow> php_udt \<Rightarrow> cass_value alloc" where
  "php_driver_user_type_from_user_type_value lib sub self =
     finish_container (CUserType (udt_type self)) (user_type_set_all lib sub self [] (ht_data (udt_values self)))"

text \<open>
  The container of the object that a value refers to, by the type under which the caller sees it. The
  calls that nested objects cause have one unit of fuel less.
\<close>

fun container_value :: "nat \<Rightarrow> cass_lib \<Rightarrow> obj_heap \<Rightarrow> cass_value_type \<Rightarrow> obj \<Rightarrow> cass_value alloc" where
  "container_value 0 lib heap type obj = (0, UB)"
| "container_value (Suc fuel) lib heap type obj =
     (case obj of
        OTyped _ _ handle \<Rightarrow>
          (case (type, heap handle) of
             (CASS_SET, Some (CtSet s)) \<Rightarrow> php_driver_collection_from_set lib (container_value fuel lib heap) s
           | (CASS_MAP, Some (CtMap m)) \<Rightarrow> php_driver_collection_from_map lib (container_value fuel lib heap) m
           | (CASS_LIST, Some (CtColl c)) \<Rightarrow> php_driver_collection_from_collection lib (container_value fuel lib heap) c
           | (CASS_TUPLE, Some (CtTuple t)) \<Rightarrow> php_driver_tuple_from_tuple lib (container_value fuel lib heap) t
           | (CASS_UDT, Some (CtUdt u)) \<Rightarrow>
               php_driver_user_type_from_user_type_value lib (container_value fuel lib heap) u
           | _ \<Rightarrow> (0, UB))
      | _ \<Rightarrow> (0, UB))"

end
