(* ===== verification/Cass_Typed.thy ===== *)
theory Cass_Typed
  imports Cass_Value
begin

text \<open>
  What \<^verbatim>\<open>ext/util/collections.c\<close> promises of the containers it builds: on a heap of objects whose components
  keep their invariants, the container of an object has the type of the object, the functions return,
  and the calls of the library are the only source of errors.
\<close>

section \<open>Specification\<close>

text \<open>
  The values a column of a type can hold, for types with the names that comparison ignores removed.
\<close>

fun scalar_payload :: "cass_value_type \<Rightarrow> cass_value \<Rightarrow> bool" where
  "scalar_payload t (CString _) = (t \<in> {CASS_TEXT, CASS_ASCII, CASS_VARCHAR})"
| "scalar_payload t (CInt64 _) = (t \<in> {CASS_BIGINT, CASS_COUNTER, CASS_TIMESTAMP, CASS_TIME})"
| "scalar_payload t (CInt32 _) = (t = CASS_INT)"
| "scalar_payload t (CInt16 _) = (t = CASS_SMALL_INT)"
| "scalar_payload t (CInt8 _) = (t = CASS_TINY_INT)"
| "scalar_payload t (CUint32 _) = (t = CASS_DATE)"
| "scalar_payload t (CFloat _) = (t = CASS_FLOAT)"
| "scalar_payload t (CDouble _) = (t = CASS_DOUBLE)"
| "scalar_payload t (CBool _) = (t = CASS_BOOLEAN)"
| "scalar_payload t (CBytes _) = (t \<in> {CASS_BLOB, CASS_VARINT})"
| "scalar_payload t (CDecimal _ _) = (t = CASS_DECIMAL)"
| "scalar_payload t (CUuid _) = (t \<in> {CASS_UUID, CASS_TIMEUUID})"
| "scalar_payload t (CInet _) = (t = CASS_INET)"
| "scalar_payload t (CDuration _ _ _) = (t = CASS_DURATION)"
| "scalar_payload t _ = False"

inductive cql_value :: "php_driver_type \<Rightarrow> cass_value \<Rightarrow> bool" where
  cql_scalar: "scalar_payload t p \<Longrightarrow> cql_value (TScalar t) p"
| cql_list: "type_norm dt = TCollection t \<Longrightarrow> \<forall>p \<in> set ps. cql_value t p \<Longrightarrow> cql_value (TCollection t) (CCollection dt ps)"
| cql_set: "type_norm dt = TSet t \<Longrightarrow> \<forall>p \<in> set ps. cql_value t p \<Longrightarrow> cql_value (TSet t) (CCollection dt ps)"
| cql_map: "type_norm dt = TMap k v \<Longrightarrow> \<forall>(a, b) \<in> set kvs. cql_value k a \<and> cql_value v b \<Longrightarrow>
    cql_value (TMap k v) (CCollection dt (concat (map (\<lambda>(a, b). [a, b]) kvs)))"
| cql_tuple: "type_norm dt = TTuple ts \<Longrightarrow> distinct (map fst ps) \<Longrightarrow>
    \<forall>(i, p) \<in> set ps. i < length ts \<and> (p = CNull \<or> cql_value (ts ! i) p) \<Longrightarrow> cql_value (TTuple ts) (CTuple dt ps)"
| cql_udt: "type_norm dt = TUdt None None fs \<Longrightarrow>
    \<forall>(n, p) \<in> set ps. \<exists>t. (n, t) \<in> set fs \<and> (p = CNull \<or> cql_value t p) \<Longrightarrow> cql_value (TUdt None None fs) (CUserType dt ps)"

text \<open>The containers in a value, itself included.\<close>

fun containers :: "cass_value \<Rightarrow> nat" where
  "containers (CCollection _ ps) = Suc (sum_list (map containers ps))"
| "containers (CTuple _ ps) = Suc (sum_list (map (\<lambda>(i, p). containers p) ps))"
| "containers (CUserType _ ps) = Suc (sum_list (map (\<lambda>(n, p). containers p) ps))"
| "containers _ = 0"

fun type_depth :: "php_driver_type \<Rightarrow> nat" where
  "type_depth (TCollection t) = Suc (type_depth t)"
| "type_depth (TSet t) = Suc (type_depth t)"
| "type_depth (TMap k v) = Suc (max (type_depth k) (type_depth v))"
| "type_depth (TTuple ts) = Suc (fold max (map type_depth ts) 0)"
| "type_depth (TUdt _ _ fs) = Suc (fold max (map (\<lambda>(n, t). type_depth t) fs) 0)"
| "type_depth _ = 0"

lemma type_depth_norm: "type_depth (type_norm t) = type_depth t"
  by (induction t rule: type_depth.induct) (auto simp: comp_def split_def intro!: arg_cong [where f = "\<lambda>xs. fold max xs 0"])

lemma fold_max_ge: "x \<in> set xs \<or> x \<le> a \<Longrightarrow> x \<le> fold max xs (a :: nat)"
  by (induction xs arbitrary: a) (auto simp: le_max_iff_disj)

lemma depth_tuple: "t \<in> set ts \<Longrightarrow> type_depth t < type_depth (TTuple ts)"
  by (simp add: fold_max_ge less_Suc_eq_le)

lemma depth_udt: "(n, t) \<in> set fs \<Longrightarrow> type_depth t < type_depth (TUdt a b fs)"
  by (force simp add: less_Suc_eq_le intro!: fold_max_ge)

text \<open>
  A value whose object is the one of its class and type on the heap, and a heap whose containers
  satisfy the invariants of their components.
\<close>

fun value_ok :: "obj_heap \<Rightarrow> zval \<Rightarrow> bool" where
  "value_ok heap (ZObject (OTyped c ty handle)) =
     (\<exists>ct. heap handle = Some ct \<and> ct_class ct = c \<and> ct_type ct = ty)"
| "value_ok heap (ZObject (OUuid c _)) = (c \<in> {''Uuid'', ''Timeuuid''})"
| "value_ok heap _ = True"

fun ct_elems :: "container \<Rightarrow> zval list" where
  "ct_elems (CtSet s) = set_values s"
| "ct_elems (CtMap m) = map fst (map_items m) @ map snd (map_items m)"
| "ct_elems (CtColl c) = collection_values c"
| "ct_elems (CtTuple t) = ht_values (tup_values t)"
| "ct_elems (CtUdt u) = ht_values (udt_values u)"

fun ct_inv :: "engine \<Rightarrow> (obj \<Rightarrow> bool) \<Rightarrow> container \<Rightarrow> bool" where
  "ct_inv e obj_ok (CtSet s) = set_inv e obj_ok s"
| "ct_inv e obj_ok (CtMap m) = map_inv e obj_ok m"
| "ct_inv e obj_ok (CtColl c) = collection_inv c"
| "ct_inv e obj_ok (CtTuple t) = tuple_inv t"
| "ct_inv e obj_ok (CtUdt u) = udt_inv u"

definition heap_inv :: "engine \<Rightarrow> (obj \<Rightarrow> bool) \<Rightarrow> obj_heap \<Rightarrow> bool" where
  "heap_inv e obj_ok heap \<longleftrightarrow>
     (\<forall>handle ct. heap handle = Some ct \<longrightarrow>
        ct_inv e obj_ok ct \<and> type_wf (ct_type ct) \<and> (\<forall>v \<in> set (ct_elems ct). value_ok heap v))"

section \<open>Results of a call\<close>

text \<open>
  What every call guarantees: it is defined, throws only the errors of the library, answers 0
  without an exception only if \<open>silent\<close>, and a result is related to the number of live containers.
\<close>

definition sound :: "bool \<Rightarrow> (nat \<Rightarrow> 'a \<Rightarrow> bool) \<Rightarrow> 'a alloc \<Rightarrow> bool" where
  "sound silent R r \<longleftrightarrow>
     snd r \<noteq> UB \<and> (\<forall>x. snd r = Throw x \<longrightarrow> (\<exists>rc. rc \<noteq> 0 \<and> x = CassException rc)) \<and>
     (snd r = Ok None \<longrightarrow> silent) \<and> (\<forall>p. snd r = Ok (Some p) \<longrightarrow> R (fst r) p)"

lemma sound_Ok: "sound silent R (n, Ok (Some p)) \<longleftrightarrow> R n p"
  by (simp add: sound_def)

lemma sound_None: "sound silent R (n, Ok None) \<longleftrightarrow> silent"
  by (simp add: sound_def)

lemma sound_mono: "sound silent R r \<Longrightarrow> (\<And>n p. R n p \<Longrightarrow> S n p) \<Longrightarrow> sound silent S r"
  by (simp add: sound_def)

lemma sound_check_error: "R 0 x \<Longrightarrow> sound silent R (check_error rc x)"
  by (simp add: sound_def check_error_def)

lemma sound_bind:
  assumes "sound silent R r" and "\<And>n x. R n x \<Longrightarrow> sound silent (\<lambda>m. S (n + m)) (f x)"
  shows "sound silent S (bind_alloc r f)"
  using assms by (cases "(r, f)" rule: bind_alloc.cases) (auto simp: sound_def)

lemma sound_finish:
  assumes "sound silent R r" and "\<And>n xs. R n xs \<Longrightarrow> S (n + 1) (mk xs)"
  shows "sound silent S (finish_container mk r)"
  using assms by (cases "(mk, r)" rule: finish_container.cases) (auto simp: sound_def)

text \<open>A payload of a type whose containers are the live ones.\<close>

definition typed :: "php_driver_type \<Rightarrow> nat \<Rightarrow> cass_value \<Rightarrow> bool" where
  "typed ty n p \<longleftrightarrow> cql_value (type_norm ty) p \<and> n = containers p"

section \<open>Elements\<close>

lemma class_shape:
  assumes ok: "value_ok heap v" and c: "instance_of v c"
  obtains (numeric) n where "v = ZObject (ONumeric n)" "c = obj_class (ONumeric n)"
  | (timestamp) x where "v = ZObject (OTimestamp x)" "c = ''Timestamp''"
  | (date) x where "v = ZObject (ODate x)" "c = ''Date''"
  | (time) x where "v = ZObject (OTime x)" "c = ''Time''"
  | (blob) x where "v = ZObject (OBlob x)" "c = ''Blob''"
  | (uuid) x where "v = ZObject (OUuid c x)" "c \<in> {''Uuid'', ''Timeuuid''}"
  | (inet) x where "v = ZObject (OInet x)" "c = ''Inet''"
  | (duration) x y z where "v = ZObject (ODuration x y z)" "c = ''Duration''"
  | (container) ct where "c = ct_class ct"
proof -
  obtain obj where v: "v = ZObject obj" and o: "obj_class obj = c" "\<And>d h. obj \<noteq> OOther d h"
    using c by (auto simp: instance_of_def split: zval.splits obj.splits)
  show thesis using that ok o v by (cases obj) auto
qed

lemma validated_scalar:
  assumes t: "type_wf (TScalar t)" and v: "php_driver_validate_object v (TScalar t) = Ok True" "z_type v \<noteq> 1"
  obtains (plain) "t \<in> {CASS_TEXT, CASS_ASCII, CASS_VARCHAR} \<and> z_type v = 6 \<or> t = CASS_INT \<and> z_type v = 4 \<or>
        t = CASS_DOUBLE \<and> z_type v = 5 \<or> t = CASS_BOOLEAN \<and> z_type v \<in> {2, 3}"
  | (obj) c where "instance_of v c" "(t, c) \<in> {(CASS_FLOAT, ''Float''), (CASS_COUNTER, ''Bigint''),
      (CASS_BIGINT, ''Bigint''), (CASS_SMALL_INT, ''Smallint''), (CASS_TINY_INT, ''Tinyint''), (CASS_BLOB, ''Blob''),
      (CASS_DECIMAL, ''Decimal''), (CASS_DURATION, ''Duration''), (CASS_TIMESTAMP, ''Timestamp''), (CASS_DATE, ''Date''),
      (CASS_TIME, ''Time''), (CASS_UUID, ''Uuid''), (CASS_VARINT, ''Varint''), (CASS_TIMEUUID, ''Timeuuid''), (CASS_INET, ''Inet'')}"
proof -
  have "t \<notin> {CASS_LIST, CASS_MAP, CASS_SET, CASS_UDT, CASS_TUPLE, CASS_CUSTOM}"
    using t by (auto simp: scalar_types_def)
  then show thesis using that v by (cases t) (auto simp: php_driver_validate_object_def expecting_def split: if_splits)
qed

lemma scalar_sound:
  assumes t: "type_wf (TScalar t)" and v: "php_driver_validate_object v (TScalar t) = Ok True" "z_type v \<noteq> 1"
    and ok: "value_ok heap v"
  shows "sound silent (typed (TScalar t)) (switch_value lib sub t v)"
proof -
  have c: "scalar_payload t p \<Longrightarrow> cql_value (type_norm (TScalar t)) p \<and> containers p = 0" for p
    using t by (cases p) (auto intro!: cql_scalar split: if_splits)
  note defs = switch_value_def flat_def flat_obj_def
  have "\<exists>p. switch_value lib sub t v = (0, Ok (Some p)) \<and> scalar_payload t p"
    using t v
  proof (cases rule: validated_scalar)
    case plain
    then show ?thesis by (cases v) (auto simp: defs)
  next
    case (obj c)
    from class_shape [OF ok obj(1)] show ?thesis
    proof cases
      case (1 n)
      then show ?thesis using obj(2) by (cases n) (auto simp: defs)
    next
      case (9 ct)
      then show ?thesis using obj(2) by (cases ct) auto
    qed (use obj(2) in \<open>auto simp: defs\<close>)
  qed
  then obtain p where "switch_value lib sub t v = (0, Ok (Some p))" "scalar_payload t p" by blast
  then show ?thesis using c by (simp add: sound_Ok typed_def)
qed

text \<open>The calls for nested objects are sound up to a depth of their types.\<close>

definition sub_sound :: "bool \<Rightarrow> obj_heap \<Rightarrow> nat \<Rightarrow> sub_container \<Rightarrow> bool" where
  "sub_sound silent heap d sub \<longleftrightarrow>
     (\<forall>c ty handle ct. heap handle = Some ct \<longrightarrow> type_depth (ct_type ct) < d \<longrightarrow>
        sound silent (typed (ct_type ct)) (sub (type_type (ct_type ct)) (OTyped c ty handle)))"

definition elem_ok :: "obj_heap \<Rightarrow> php_driver_type \<Rightarrow> zval \<Rightarrow> bool" where
  "elem_ok heap ty v \<longleftrightarrow> type_wf ty \<and> php_driver_validate_object v ty = Ok True \<and> value_ok heap v"

lemma nested_type:
  assumes "type_norm ty' = type_norm ty" and "\<And>t. ty \<noteq> TScalar t"
  shows "type_type ty' = type_type ty"
  using assms by (cases ty; cases ty') auto

lemma expecting_typed_Ok:
  "expecting_typed v c ty = Ok True \<Longrightarrow> \<exists>ty' h. v = ZObject (OTyped c ty' h) \<and> php_driver_type_compare ty' ty = 0"
  by (cases v) (simp_all add: expecting_typed_def split: obj.splits if_splits)

text \<open>An element that is not a scalar is the object of a container of the same type.\<close>

lemma elem_nested:
  assumes v: "elem_ok heap ty v" "z_type v \<noteq> 1" and heap: "heap_inv e obj_ok heap"
    and nested: "\<not> (\<exists>t. ty = TScalar t)"
  obtains c h ct where "heap h = Some ct" "type_norm (ct_type ct) = type_norm ty" "type_type (ct_type ct) = type_type ty"
    "\<And>sub. switch_value lib sub (type_type ty) v = sub (type_type ty) (OTyped c (ct_type ct) h)"
proof -
  have ok: "type_wf ty" "php_driver_validate_object v ty = Ok True" "value_ok heap v" using v by (auto simp: elem_ok_def)
  have t: "\<not> (\<exists>m. ty = TCustom m)" using ok(2) v(2) by (auto simp: php_driver_validate_object_def)
  have "\<exists>c. expecting_typed v c ty = Ok True"
    using ok(2) v(2) t nested by (cases ty) (auto simp: php_driver_validate_object_def)
  then obtain c ty' h where o: "v = ZObject (OTyped c ty' h)" "php_driver_type_compare ty' ty = 0"
    using expecting_typed_Ok by blast
  then obtain ct where ct: "heap h = Some ct" "ct_type ct = ty'" using ok(3) by auto
  then have n: "type_norm ty' = type_norm ty"
    using heap o(2) type_compare_0(1) [of ty' ty] ok(1) unfolding heap_inv_def by blast
  have "type_type ty' = type_type ty" using nested_type [OF n] nested by blast
  moreover have "switch_value lib sub (type_type ty) v = sub (type_type ty) (OTyped c ty' h)" for sub
    using nested t by (cases ty) (simp_all add: switch_value_def o(1))
  ultimately show thesis using that ct n by blast
qed

lemma elem_sound:
  assumes v: "elem_ok heap ty v" "z_type v \<noteq> 1" and d: "type_depth ty < d"
    and sub: "sub_sound silent heap d sub" and heap: "heap_inv e obj_ok heap"
  shows "sound silent (typed ty) (switch_value lib sub (type_type ty) v)"
proof (cases "\<exists>t. ty = TScalar t")
  case True
  then show ?thesis using v scalar_sound by (auto simp: elem_ok_def)
next
  case False
  from elem_nested [OF v heap False, of lib] obtain c h ct where ct: "heap h = Some ct"
    and n: "type_norm (ct_type ct) = type_norm ty" and t: "type_type (ct_type ct) = type_type ty"
    and s: "switch_value lib sub (type_type ty) v = sub (type_type ty) (OTyped c (ct_type ct) h)" by metis
  have "type_depth (ct_type ct) < d" using d n type_depth_norm by metis
  then have "sound silent (typed (ct_type ct)) (sub (type_type ty) (OTyped c (ct_type ct) h))"
    using sub ct t unfolding sub_sound_def by metis
  then show ?thesis using n s by (simp add: typed_def [abs_def])
qed

section \<open>Containers\<close>

lemma append_all_sound:
  assumes "\<forall>(v, t) \<in> set xs. sound silent (\<lambda>n p. P (v, t) p \<and> n = containers p) (switch_value lib sub t v)"
  shows "sound silent (\<lambda>n ps. \<exists>qs. ps = items @ qs \<and> list_all2 P xs qs \<and> n = sum_list (map containers qs))
    (append_all lib sub dt items xs)"
  using assms
proof (induction xs arbitrary: items)
  case Nil
  then show ?case by (simp add: sound_Ok)
next
  case (Cons x xs)
  obtain v t where x: "x = (v, t)" by fastforce
  have "sound silent (\<lambda>n ps. \<exists>p. ps = items @ [p] \<and> P x p \<and> n = containers p)
      (php_driver_collection_append lib sub dt items v t)"
    unfolding php_driver_collection_append_def
    by (rule sound_bind [where R = "\<lambda>n p. P x p \<and> n = containers p"])
      (use Cons.prems x in \<open>auto intro: sound_check_error\<close>)
  then show ?case unfolding x append_all.simps
  proof (rule sound_bind)
    fix n items' assume "\<exists>p. items' = items @ [p] \<and> P (v, t) p \<and> n = containers p"
    then obtain p where p: "items' = items @ [p]" "P (v, t) p" "n = containers p" by blast
    have IH: "sound silent (\<lambda>m ps. \<exists>qs. ps = items' @ qs \<and> list_all2 P xs qs \<and> m = sum_list (map containers qs))
        (append_all lib sub dt items' xs)"
      using Cons.IH Cons.prems by simp
    show "sound silent (\<lambda>m ps. \<exists>qs. ps = items @ qs \<and> list_all2 P ((v, t) # xs) qs \<and> n + m = sum_list (map containers qs))
        (append_all lib sub dt items' xs)"
    proof (rule sound_mono [OF IH])
      fix m ps assume "\<exists>qs. ps = items' @ qs \<and> list_all2 P xs qs \<and> m = sum_list (map containers qs)"
      then obtain qs where "ps = items' @ qs" "list_all2 P xs qs" "m = sum_list (map containers qs)" by blast
      then show "\<exists>qs. ps = items @ qs \<and> list_all2 P ((v, t) # xs) qs \<and> n + m = sum_list (map containers qs)"
        using p by (intro exI [where x = "p # qs"]) simp
    qed
  qed
qed

lemma heap_invD:
  "heap_inv e obj_ok heap \<Longrightarrow> heap h = Some ct \<Longrightarrow>
    ct_inv e obj_ok ct \<and> type_wf (ct_type ct) \<and> (\<forall>v \<in> set (ct_elems ct). value_ok heap v)"
  by (simp add: heap_inv_def)

lemma elem_sound_all:
  assumes v: "elem_ok heap ty v" "z_type v \<noteq> 1" and d: "type_depth ty < d"
    and sub: "sub_sound silent heap d sub" and heap: "heap_inv e obj_ok heap"
  shows "sound silent (\<lambda>n p. (\<forall>ty'. elem_ok heap ty' v \<longrightarrow> type_type ty' = type_type ty \<longrightarrow> type_depth ty' < d \<longrightarrow>
      cql_value (type_norm ty') p) \<and> n = containers p) (switch_value lib sub (type_type ty) v)"
proof -
  have s: "sound silent (typed ty') (switch_value lib sub (type_type ty) v)"
    if "elem_ok heap ty' v" "type_type ty' = type_type ty" "type_depth ty' < d" for ty'
    using elem_sound [OF that(1) v(2) that(3) sub heap, of lib] that(2) by simp
  from s [OF v(1) refl d] show ?thesis using s unfolding sound_def typed_def by blast
qed

definition payload_of :: "obj_heap \<Rightarrow> nat \<Rightarrow> zval \<times> cass_value_type \<Rightarrow> cass_value \<Rightarrow> bool" where
  "payload_of heap d = (\<lambda>(v, t) p. \<forall>ty. elem_ok heap ty v \<longrightarrow> type_type ty = t \<longrightarrow> type_depth ty < d \<longrightarrow>
     cql_value (type_norm ty) p)"

lemma append_elems_sound:
  assumes "\<forall>(v, t) \<in> set xs. \<exists>ty. elem_ok heap ty v \<and> z_type v \<noteq> 1 \<and> t = type_type ty \<and> type_depth ty < d"
    and sub: "sub_sound silent heap d sub" and heap: "heap_inv e obj_ok heap"
  shows "sound silent (\<lambda>n ps. list_all2 (payload_of heap d) xs ps \<and> n = sum_list (map containers ps))
    (append_all lib sub dt [] xs)"
proof -
  have "sound silent (\<lambda>n p. payload_of heap d (v, t) p \<and> n = containers p) (switch_value lib sub t v)"
    if vt: "(v, t) \<in> set xs" for v t
  proof -
    obtain ty where "elem_ok heap ty v" "z_type v \<noteq> 1" "t = type_type ty" "type_depth ty < d" using assms(1) vt by blast
    then show ?thesis using elem_sound_all [OF _ _ _ sub heap] by (simp add: payload_of_def)
  qed
  then have "\<forall>(v, t) \<in> set xs. sound silent (\<lambda>n p. payload_of heap d (v, t) p \<and> n = containers p) (switch_value lib sub t v)"
    by blast
  from append_all_sound [OF this, of "[]" dt] show ?thesis by (rule sound_mono) simp
qed

lemma append_uniform_sound:
  assumes ok: "\<forall>v \<in> set vs. elem_ok heap ty v \<and> z_type v \<noteq> 1" and d: "type_depth ty < d"
    and sub: "sub_sound silent heap d sub" and heap: "heap_inv e obj_ok heap"
  shows "sound silent (\<lambda>n ps. (\<forall>p \<in> set ps. cql_value (type_norm ty) p) \<and> n = sum_list (map containers ps))
    (append_all lib sub dt [] (map (\<lambda>v. (v, type_type ty)) vs))"
proof -
  have "sound silent (\<lambda>n p. cql_value (type_norm ty) p \<and> n = containers p) (switch_value lib sub (type_type ty) v)"
    if "v \<in> set vs" for v
    using elem_sound [OF _ _ d sub heap, of v lib] ok that by (simp add: typed_def [abs_def])
  then have "\<forall>(v, t) \<in> set (map (\<lambda>v. (v, type_type ty)) vs).
      sound silent (\<lambda>n p. (\<lambda>_ p. cql_value (type_norm ty) p) (v, t) p \<and> n = containers p) (switch_value lib sub t v)"
    by auto
  from append_all_sound [OF this, of "[]" dt] show ?thesis
    by (rule sound_mono) (auto simp: list_all2_conv_all_nth in_set_conv_nth)
qed

lemma collection_sound:
  assumes heap: "heap_inv e obj_ok heap" and h: "heap h = Some (CtColl c)"
    and d: "type_depth (coll_type c) < d" and sub: "sub_sound silent heap d sub"
  shows "sound silent (typed (TCollection (coll_type c))) (php_driver_collection_from_collection lib sub c)"
proof -
  have "\<forall>v \<in> set (collection_values c). elem_ok heap (coll_type c) v \<and> z_type v \<noteq> 1"
    using heap_invD [OF heap h] z_type_null by (simp add: elem_ok_def collection_inv_def)
  from append_uniform_sound [OF this d sub heap] show ?thesis
    unfolding php_driver_collection_from_collection_def Let_def
    by (rule sound_finish) (auto simp: typed_def intro: cql_list)
qed

lemma set_sound:
  assumes heap: "heap_inv e obj_ok heap" and h: "heap h = Some (CtSet s)"
    and d: "type_depth (set_type s) < d" and sub: "sub_sound silent heap d sub"
  shows "sound silent (typed (TSet (set_type s))) (php_driver_collection_from_set lib sub s)"
proof -
  have "\<forall>v \<in> set (set_values s). elem_ok heap (set_type s) v \<and> z_type v \<noteq> 1"
    using heap_invD [OF heap h] by (simp add: elem_ok_def set_inv_def)
  from append_uniform_sound [OF this d sub heap] show ?thesis
    unfolding php_driver_collection_from_set_def Let_def
    by (rule sound_finish) (auto simp: typed_def intro: cql_set)
qed

lemma pairs_payload:
  "list_all2 P (concat (map (\<lambda>(k, v). [(k, a), (v, b)]) kvs)) ps \<Longrightarrow>
    \<exists>qs. ps = concat (map (\<lambda>(p, q). [p, q]) qs) \<and> list_all2 (\<lambda>(k, v) (p, q). P (k, a) p \<and> P (v, b) q) kvs qs"
proof (induction kvs arbitrary: ps)
  case (Cons kv kvs)
  obtain k v where kv: "kv = (k, v)" by fastforce
  from Cons.prems obtain p q rest where ps: "ps = p # q # rest" and pq: "P (k, a) p" "P (v, b) q"
    and r: "list_all2 P (concat (map (\<lambda>(k, v). [(k, a), (v, b)]) kvs)) rest"
    by (auto simp: kv list_all2_Cons1)
  from Cons.IH [OF r] obtain qs where "rest = concat (map (\<lambda>(p, q). [p, q]) qs)"
    "list_all2 (\<lambda>(k, v) (p, q). P (k, a) p \<and> P (v, b) q) kvs qs" by blast
  then show ?case using ps pq kv by (intro exI [where x = "(p, q) # qs"]) simp
qed simp

lemma map_item_ok:
  assumes heap: "heap_inv e obj_ok heap" and h: "heap h = Some (CtMap m)" and kv: "(k, v) \<in> set (map_items m)"
  shows "elem_ok heap (map_key_type m) k \<and> z_type k \<noteq> 1 \<and> elem_ok heap (map_value_type m) v \<and> z_type v \<noteq> 1"
proof -
  have "map_inv e obj_ok m" and wf: "type_wf (map_type m)" and "\<forall>v \<in> set (ct_elems (CtMap m)). value_ok heap v"
    using heap_invD [OF heap h] by simp_all
  moreover have "k \<in> set (ct_elems (CtMap m))" "v \<in> set (ct_elems (CtMap m))" using kv by force+
  ultimately show ?thesis using kv by (auto simp: elem_ok_def map_inv_def map_type_def)
qed

lemma map_sound:
  assumes heap: "heap_inv e obj_ok heap" and h: "heap h = Some (CtMap m)"
    and d: "type_depth (map_key_type m) < d" "type_depth (map_value_type m) < d" and sub: "sub_sound silent heap d sub"
  shows "sound silent (typed (map_type m)) (php_driver_collection_from_map lib sub m)"
proof -
  let ?xs = "concat (map (\<lambda>(k, v). [(k, type_type (map_key_type m)), (v, type_type (map_value_type m))]) (map_items m))"
  note ok = map_item_ok [OF heap h]
  have "sound silent (\<lambda>n ps. list_all2 (payload_of heap d) ?xs ps \<and> n = sum_list (map containers ps))
      (append_all lib sub (map_type m) [] ?xs)"
    by (rule append_elems_sound [OF _ sub heap]) (use ok d in fastforce)
  then show ?thesis unfolding php_driver_collection_from_map_def Let_def
  proof (rule sound_finish)
    fix n ps assume ps: "list_all2 (payload_of heap d) ?xs ps \<and> n = sum_list (map containers ps)"
    from pairs_payload [OF conjunct1 [OF this]] obtain qs where qs: "ps = concat (map (\<lambda>(p, q). [p, q]) qs)"
      "list_all2 (\<lambda>(k, v) (p, q). payload_of heap d (k, type_type (map_key_type m)) p \<and>
        payload_of heap d (v, type_type (map_value_type m)) q) (map_items m) qs" by blast
    have "\<forall>(p, q) \<in> set qs. cql_value (type_norm (map_key_type m)) p \<and> cql_value (type_norm (map_value_type m)) q"
    proof (clarify)
      fix p q assume "(p, q) \<in> set qs"
      then obtain i where i: "i < length qs" "qs ! i = (p, q)" by (auto simp: in_set_conv_nth)
      then obtain k v where kv: "(k, v) \<in> set (map_items m)" and "payload_of heap d (k, type_type (map_key_type m)) p"
          "payload_of heap d (v, type_type (map_value_type m)) q"
        using list_all2_nthD2 [OF qs(2) i(1)] list_all2_lengthD [OF qs(2)]
        by (cases "map_items m ! i") (auto simp: in_set_conv_nth)
      then show "cql_value (type_norm (map_key_type m)) p \<and> cql_value (type_norm (map_value_type m)) q"
        using ok [OF kv] d by (simp add: payload_of_def)
    qed
    then show "typed (map_type m) (n + 1) (CCollection (map_type m) ps)"
      using ps by (simp add: typed_def map_type_def qs(1) cql_map)
  qed
qed

lemma sum_containers_snoc: "sum_list (map f (xs @ [(i, p)])) = sum_list (map f xs) + f (i, p)"
  by simp

lemma tuple_set_sound:
  assumes v: "elem_ok heap ty v" and d: "type_depth ty < d"
    and sub: "sub_sound silent heap d sub" and heap: "heap_inv e obj_ok heap"
  shows "sound silent (\<lambda>n ps. \<exists>p. ps = items @ [(i, p)] \<and> (p = CNull \<or> cql_value (type_norm ty) p) \<and> n = containers p)
    (collections_tuple_set lib sub dt items i v (type_type ty))"
proof (cases "z_type v = 1")
  case True
  then show ?thesis by (auto simp: collections_tuple_set_def intro!: sound_check_error)
next
  case False
  show ?thesis using False unfolding collections_tuple_set_def
    by (auto intro!: sound_bind [OF elem_sound [OF v False d sub heap]] sound_check_error simp: typed_def)
qed

lemma payload_user_type:
  "cql_value ty p \<Longrightarrow> cql_value ty (user_type_payload p)" "containers (user_type_payload p) = containers p"
  by (cases p; auto elim!: cql_value.cases intro!: cql_scalar)+

lemma user_type_set_sound:
  assumes v: "elem_ok heap ty v" and d: "type_depth ty < d"
    and sub: "sub_sound silent heap d sub" and heap: "heap_inv e obj_ok heap"
  shows "sound silent (\<lambda>n ps. \<exists>p. ps = items @ [(i, p)] \<and> (p = CNull \<or> cql_value (type_norm ty) p) \<and> n = containers p)
    (collections_user_type_set lib sub dt items i v (type_type ty))"
proof (cases "z_type v = 1")
  case True
  then show ?thesis by (auto simp: collections_user_type_set_def intro!: sound_check_error)
next
  case False
  show ?thesis using False unfolding collections_user_type_set_def
    by (auto intro!: sound_bind [OF elem_sound [OF v False d sub heap]] sound_check_error
        simp: typed_def payload_user_type)
qed

lemma tuple_set_all_sound:
  assumes xs: "\<forall>(k, v) \<in> set xs. \<exists>i < length types. k = KInt (int i) \<and> elem_ok heap (types ! i) v"
    and d: "\<forall>t \<in> set types. type_depth t < d"
    and sub: "sub_sound silent heap d sub" and heap: "heap_inv e obj_ok heap"
  shows "sound silent (\<lambda>n ps. \<exists>qs. ps = items @ qs \<and> map (\<lambda>(i, _). KInt (int i)) qs = map fst xs \<and>
      (\<forall>(i, p) \<in> set qs. i < length types \<and> (p = CNull \<or> cql_value (type_norm (types ! i)) p)) \<and>
      n = sum_list (map (\<lambda>(i, p). containers p) qs))
    (tuple_set_all lib sub types items xs)"
  using xs
proof (induction xs arbitrary: items)
  case Nil
  then show ?case by (simp add: sound_Ok)
next
  case (Cons x xs)
  obtain k v where x: "x = (k, v)" by fastforce
  from Cons.prems x obtain i where i: "i < length types" "k = KInt (int i)" "elem_ok heap (types ! i) v" by auto
  have di: "type_depth (types ! i) < d" using d i(1) by simp
  have valid: "php_driver_validate_object v (types ! i) = Ok True" using i(3) by (simp add: elem_ok_def)
  have step: "tuple_set_all lib sub types items (x # xs) =
      bind_alloc (collections_tuple_set lib sub (TTuple types) items i v (type_type (types ! i)))
        (\<lambda>items'. tuple_set_all lib sub types items' xs)"
    using i valid by (simp add: x)
  show ?case unfolding step
  proof (rule sound_bind [OF tuple_set_sound [OF i(3) di sub heap]])
    fix n items'
    assume "\<exists>p. items' = items @ [(i, p)] \<and> (p = CNull \<or> cql_value (type_norm (types ! i)) p) \<and> n = containers p"
    then obtain p where p: "items' = items @ [(i, p)]" "p = CNull \<or> cql_value (type_norm (types ! i)) p" "n = containers p"
      by blast
    have "\<forall>(k, v) \<in> set xs. \<exists>i < length types. k = KInt (int i) \<and> elem_ok heap (types ! i) v" using Cons.prems by simp
    from Cons.IH [OF this, of items']
    show "sound silent (\<lambda>m ps. \<exists>qs. ps = items @ qs \<and> map (\<lambda>(i, _). KInt (int i)) qs = map fst (x # xs) \<and>
        (\<forall>(i, p) \<in> set qs. i < length types \<and> (p = CNull \<or> cql_value (type_norm (types ! i)) p)) \<and>
        n + m = sum_list (map (\<lambda>(i, p). containers p) qs)) (tuple_set_all lib sub types items' xs)"
    proof (rule sound_mono, elim exE conjE)
      fix m ps qs
      assume "ps = items' @ qs" "map (\<lambda>(i, _). KInt (int i)) qs = map fst xs"
        "\<forall>(i, p) \<in> set qs. i < length types \<and> (p = CNull \<or> cql_value (type_norm (types ! i)) p)"
        "m = sum_list (map (\<lambda>(i, p). containers p) qs)"
      then show "\<exists>qs. ps = items @ qs \<and> map (\<lambda>(i, _). KInt (int i)) qs = map fst (x # xs) \<and>
          (\<forall>(i, p) \<in> set qs. i < length types \<and> (p = CNull \<or> cql_value (type_norm (types ! i)) p)) \<and>
          n + m = sum_list (map (\<lambda>(i, p). containers p) qs)"
        using p i(1,2) by (intro exI [where x = "(i, p) # qs"]) (simp add: x)
    qed
  qed
qed

lemma ht_inv_entry: "ht_inv h \<Longrightarrow> (k, v) \<in> set (ht_data h) \<Longrightarrow> ht_find h k = Some v"
  by (simp add: ht_inv_def ht_find_def)

lemma tuple_sound:
  assumes heap: "heap_inv e obj_ok heap" and h: "heap h = Some (CtTuple t)"
    and d: "\<forall>ty \<in> set (tup_types t). type_depth ty < d" and sub: "sub_sound silent heap d sub"
  shows "sound silent (typed (TTuple (tup_types t))) (php_driver_tuple_from_tuple lib sub t)"
proof -
  have inv: "tuple_inv t" and wf: "\<forall>ty \<in> set (tup_types t). type_wf ty"
    and vals: "\<forall>v \<in> set (ht_values (tup_values t)). value_ok heap v"
    using heap_invD [OF heap h] by simp_all
  have xs: "\<forall>(k, v) \<in> set (ht_data (tup_values t)). \<exists>i < length (tup_types t).
      k = KInt (int i) \<and> elem_ok heap (tup_types t ! i) v"
  proof (clarify)
    fix k v assume kv: "(k, v) \<in> set (ht_data (tup_values t))"
    have ht: "ht_inv (tup_values t)" using inv by (simp add: tuple_inv_def)
    from inv ht_inv_entry [OF ht kv] obtain i where "i < length (tup_types t)" "k = KInt (int i)"
      "php_driver_validate_object v (tup_types t ! i) = Ok True" unfolding tuple_inv_def by blast
    moreover have "value_ok heap v" using vals kv by (force simp: ht_values_def)
    ultimately show "\<exists>i < length (tup_types t). k = KInt (int i) \<and> elem_ok heap (tup_types t ! i) v"
      using wf by (auto simp: elem_ok_def)
  qed
  from tuple_set_all_sound [OF xs d sub heap, where lib = lib and items = "[]"]
  show ?thesis unfolding php_driver_tuple_from_tuple_def
  proof (rule sound_finish)
    fix n ps
    assume "\<exists>qs. ps = [] @ qs \<and> map (\<lambda>(i, _). KInt (int i)) qs = map fst (ht_data (tup_values t)) \<and>
      (\<forall>(i, p) \<in> set qs. i < length (tup_types t) \<and> (p = CNull \<or> cql_value (type_norm (tup_types t ! i)) p)) \<and>
      n = sum_list (map (\<lambda>(i, p). containers p) qs)"
    then have ps: "map (\<lambda>(i, _). KInt (int i)) ps = map fst (ht_data (tup_values t))"
      "\<forall>(i, p) \<in> set ps. i < length (tup_types t) \<and> (p = CNull \<or> cql_value (type_norm (tup_types t ! i)) p)"
      "n = sum_list (map (\<lambda>(i, p). containers p) ps)" by simp_all
    have "distinct (map (\<lambda>(i, _). KInt (int i)) ps)" using inv ps(1) by (simp add: tuple_inv_def ht_inv_def)
    then have "distinct (map (\<lambda>i. KInt (int i)) (map fst ps))" by (simp add: comp_def split_def)
    then have dist: "distinct (map fst ps)" using distinct_map by blast
    have "cql_value (TTuple (map type_norm (tup_types t))) (CTuple (TTuple (tup_types t)) ps)"
      by (rule cql_tuple) (use ps(2) dist in auto)
    then show "typed (TTuple (tup_types t)) (n + 1) (CTuple (TTuple (tup_types t)) ps)"
      using ps(3) by (simp add: typed_def)
  qed
qed

text \<open>
  How the field names are read: as they are, or as nothing that names a field; only in the second
  case a user type value fails without an exception.
\<close>

definition names_read :: "(string \<Rightarrow> string) \<Rightarrow> bool \<Rightarrow> obj_heap \<Rightarrow> bool" where
  "names_read key_mem silent heap \<longleftrightarrow>
     (\<forall>h u. heap h = Some (CtUdt u) \<longrightarrow> (\<forall>n \<in> fst ` set (udt_types u).
        key_chars key_mem n = n \<or> silent \<and> udt_field u (key_chars key_mem n) = None))"

lemma user_type_set_all_sound:
  assumes xs: "\<forall>(k, v) \<in> set xs. \<exists>n t. k = KStr n \<and> udt_field u n = Some t \<and> elem_ok heap t v"
    and names: "\<forall>n \<in> fst ` set (udt_types u). key_chars (cl_key_mem lib) n = n \<or>
      silent \<and> udt_field u (key_chars (cl_key_mem lib) n) = None"
    and d: "\<forall>(n, t) \<in> set (udt_types u). type_depth t < d"
    and sub: "sub_sound silent heap d sub" and heap: "heap_inv e obj_ok heap"
  shows "sound silent (\<lambda>n ps. \<exists>qs. ps = items @ qs \<and>
      (\<forall>(i, p) \<in> set qs. \<exists>t. (i, t) \<in> set (udt_types u) \<and> (p = CNull \<or> cql_value (type_norm t) p)) \<and>
      n = sum_list (map (\<lambda>(i, p). containers p) qs))
    (user_type_set_all lib sub u items xs)"
  using xs
proof (induction xs arbitrary: items)
  case Nil
  then show ?case by (simp add: sound_Ok)
next
  case (Cons x xs)
  obtain k v where x: "x = (k, v)" by fastforce
  from Cons.prems x obtain i t where i: "k = KStr i" "udt_field u i = Some t" "elem_ok heap t v" by auto
  have mem: "(i, t) \<in> set (udt_types u)" using i(2) by (simp add: udt_field_def map_of_SomeD)
  have valid: "php_driver_validate_object v t = Ok True" using i(3) by (simp add: elem_ok_def)
  show ?case
  proof (cases "key_chars (cl_key_mem lib) i = i")
    case False
    then have "silent" "udt_field u (key_chars (cl_key_mem lib) i) = None" using names mem by force+
    then show ?thesis by (simp add: x i(1) sound_None)
  next
    case True
    have step: "user_type_set_all lib sub u items (x # xs) =
        bind_alloc (collections_user_type_set lib sub (udt_type u) items i v (type_type t))
          (\<lambda>items'. user_type_set_all lib sub u items' xs)"
      using i(2) valid True by (simp add: x i(1))
    have dt: "type_depth t < d" using d mem by blast
    show ?thesis unfolding step
    proof (rule sound_bind [OF user_type_set_sound [OF i(3) dt sub heap]])
      fix n items'
      assume "\<exists>p. items' = items @ [(i, p)] \<and> (p = CNull \<or> cql_value (type_norm t) p) \<and> n = containers p"
      then obtain p where p: "items' = items @ [(i, p)]" "p = CNull \<or> cql_value (type_norm t) p" "n = containers p"
        by blast
      have "\<forall>(k, v) \<in> set xs. \<exists>n t. k = KStr n \<and> udt_field u n = Some t \<and> elem_ok heap t v" using Cons.prems by simp
      from Cons.IH [OF this, of items']
      show "sound silent (\<lambda>m ps. \<exists>qs. ps = items @ qs \<and>
          (\<forall>(i, p) \<in> set qs. \<exists>t. (i, t) \<in> set (udt_types u) \<and> (p = CNull \<or> cql_value (type_norm t) p)) \<and>
          n + m = sum_list (map (\<lambda>(i, p). containers p) qs)) (user_type_set_all lib sub u items' xs)"
      proof (rule sound_mono, elim exE conjE)
        fix m ps qs
        assume "ps = items' @ qs"
          "\<forall>(i, p) \<in> set qs. \<exists>t. (i, t) \<in> set (udt_types u) \<and> (p = CNull \<or> cql_value (type_norm t) p)"
          "m = sum_list (map (\<lambda>(i, p). containers p) qs)"
        then show "\<exists>qs. ps = items @ qs \<and>
            (\<forall>(i, p) \<in> set qs. \<exists>t. (i, t) \<in> set (udt_types u) \<and> (p = CNull \<or> cql_value (type_norm t) p)) \<and>
            n + m = sum_list (map (\<lambda>(i, p). containers p) qs)"
          using p mem by (intro exI [where x = "(i, p) # qs"]) auto
      qed
    qed
  qed
qed

lemma udt_sound:
  assumes heap: "heap_inv e obj_ok heap" and h: "heap h = Some (CtUdt u)"
    and names: "names_read (cl_key_mem lib) silent heap"
    and d: "\<forall>(n, t) \<in> set (udt_types u). type_depth t < d" and sub: "sub_sound silent heap d sub"
  shows "sound silent (typed (udt_type u)) (php_driver_user_type_from_user_type_value lib sub u)"
proof -
  have inv: "udt_inv u" and wf: "\<forall>(n, t) \<in> set (udt_types u). type_wf t"
    and vals: "\<forall>v \<in> set (ht_values (udt_values u)). value_ok heap v"
    using heap_invD [OF heap h] by (simp_all add: udt_type_def)
  have xs: "\<forall>(k, v) \<in> set (ht_data (udt_values u)). \<exists>n t. k = KStr n \<and> udt_field u n = Some t \<and> elem_ok heap t v"
  proof (clarify)
    fix k v assume kv: "(k, v) \<in> set (ht_data (udt_values u))"
    have ht: "ht_inv (udt_values u)" using inv by (simp add: udt_inv_def)
    from inv ht_inv_entry [OF ht kv] obtain n t where nt: "k = KStr n" "udt_field u n = Some t"
      "php_driver_validate_object v t = Ok True" unfolding udt_inv_def by blast
    moreover have "(n, t) \<in> set (udt_types u)" using nt(2) by (simp add: udt_field_def map_of_SomeD)
    moreover have "value_ok heap v" using vals kv by (force simp: ht_values_def)
    ultimately show "\<exists>n t. k = KStr n \<and> udt_field u n = Some t \<and> elem_ok heap t v"
      using wf by (auto simp: elem_ok_def)
  qed
  have names': "\<forall>n \<in> fst ` set (udt_types u). key_chars (cl_key_mem lib) n = n \<or>
      silent \<and> udt_field u (key_chars (cl_key_mem lib) n) = None"
    by (rule names [unfolded names_read_def, THEN spec, THEN spec, THEN mp, OF h])
  from user_type_set_all_sound [OF xs names' d sub heap, where items = "[]"]
  show ?thesis unfolding php_driver_user_type_from_user_type_value_def
  proof (rule sound_finish)
    fix n ps
    assume "\<exists>qs. ps = [] @ qs \<and> (\<forall>(i, p) \<in> set qs. \<exists>t. (i, t) \<in> set (udt_types u) \<and> (p = CNull \<or> cql_value (type_norm t) p)) \<and>
      n = sum_list (map (\<lambda>(i, p). containers p) qs)"
    then have ps: "\<forall>(i, p) \<in> set ps. \<exists>t. (i, t) \<in> set (udt_types u) \<and> (p = CNull \<or> cql_value (type_norm t) p)"
      "n = sum_list (map (\<lambda>(i, p). containers p) ps)" by simp_all
    have "cql_value (TUdt None None (map (\<lambda>(n, t). (n, type_norm t)) (udt_types u))) (CUserType (udt_type u) ps)"
    proof (rule cql_udt)
      show "\<forall>(n, p) \<in> set ps. \<exists>t. (n, t) \<in> set (map (\<lambda>(n, t). (n, type_norm t)) (udt_types u)) \<and> (p = CNull \<or> cql_value t p)"
        using ps(1) by force
    qed (simp add: udt_type_def)
    then show "typed (udt_type u) (n + 1) (CUserType (udt_type u) ps)"
      using ps(2) by (simp add: typed_def udt_type_def)
  qed
qed

lemma sub_sound_mono: "sub_sound silent heap d sub \<Longrightarrow> d' \<le> d \<Longrightarrow> sub_sound silent heap d' sub"
  by (auto simp: sub_sound_def)

lemma container_sound:
  assumes heap: "heap_inv e obj_ok heap" and names: "names_read (cl_key_mem lib) silent heap"
  shows "sub_sound silent heap fuel (container_value fuel lib heap)"
proof (induction fuel)
  case 0
  then show ?case by (simp add: sub_sound_def)
next
  case (Suc fuel)
  show ?case unfolding sub_sound_def
  proof (intro allI impI)
    fix c ty h ct assume h: "heap h = Some ct" and d: "type_depth (ct_type ct) < Suc fuel"
    show "sound silent (typed (ct_type ct)) (container_value (Suc fuel) lib heap (type_type (ct_type ct)) (OTyped c ty h))"
    proof (cases ct)
      case (CtSet s)
      then show ?thesis using set_sound [OF heap h [unfolded CtSet] _ Suc.IH] h d by simp
    next
      case (CtMap m)
      then show ?thesis using map_sound [OF heap h [unfolded CtMap] _ _ Suc.IH] h d by (simp add: map_type_def)
    next
      case (CtColl c)
      then show ?thesis using collection_sound [OF heap h [unfolded CtColl] _ Suc.IH] h d by simp
    next
      case (CtTuple t)
      have "\<forall>ty \<in> set (tup_types t). type_depth ty < fuel" using d CtTuple depth_tuple by fastforce
      from tuple_sound [OF heap h [unfolded CtTuple] this Suc.IH] show ?thesis using CtTuple h by simp
    next
      case (CtUdt u)
      have "\<forall>(n, t) \<in> set (udt_types u). type_depth t < fuel" using d CtUdt depth_udt by (fastforce simp: udt_type_def)
      from udt_sound [OF heap h [unfolded CtUdt] names this Suc.IH] show ?thesis
        using CtUdt h by (simp add: udt_type_def)
    qed
  qed
qed

section \<open>Fuel\<close>

text \<open>With fuel above the depth of the type the result does not depend on it.\<close>

definition sub_eq :: "obj_heap \<Rightarrow> nat \<Rightarrow> sub_container \<Rightarrow> sub_container \<Rightarrow> bool" where
  "sub_eq heap d sub sub' \<longleftrightarrow>
     (\<forall>c ty handle ct. heap handle = Some ct \<longrightarrow> type_depth (ct_type ct) < d \<longrightarrow>
        sub (type_type (ct_type ct)) (OTyped c ty handle) = sub' (type_type (ct_type ct)) (OTyped c ty handle))"

lemma elem_eq:
  assumes v: "elem_ok heap ty v" "z_type v \<noteq> 1" and d: "type_depth ty < d"
    and sub: "sub_eq heap d sub sub'" and heap: "heap_inv e obj_ok heap"
  shows "switch_value lib sub (type_type ty) v = switch_value lib sub' (type_type ty) v"
proof (cases "\<exists>t. ty = TScalar t")
  case True
  then obtain t where "ty = TScalar t" "t \<notin> {CASS_LIST, CASS_MAP, CASS_SET, CASS_UDT, CASS_TUPLE}"
    using v(1) by (auto simp: elem_ok_def scalar_types_def)
  then show ?thesis by (cases t) (simp_all add: switch_value_def)
next
  case False
  from elem_nested [OF v heap False, of lib] obtain c h ct where ct: "heap h = Some ct"
    and n: "type_norm (ct_type ct) = type_norm ty" and t: "type_type (ct_type ct) = type_type ty"
    and s: "\<And>sub. switch_value lib sub (type_type ty) v = sub (type_type ty) (OTyped c (ct_type ct) h)" by metis
  have "type_depth (ct_type ct) < d" using d n type_depth_norm by metis
  then show ?thesis using sub ct t s unfolding sub_eq_def by metis
qed

lemma append_all_cong:
  "\<forall>(v, t) \<in> set xs. switch_value lib sub t v = switch_value lib sub' t v \<Longrightarrow>
    append_all lib sub dt items xs = append_all lib sub' dt items xs"
  by (induction xs arbitrary: items) (auto simp: php_driver_collection_append_def)

lemma tuple_set_all_cong:
  "\<forall>(k, v) \<in> set xs. \<forall>t \<in> set types. php_driver_validate_object v t = Ok True \<longrightarrow> z_type v \<noteq> 1 \<longrightarrow>
      switch_value lib sub (type_type t) v = switch_value lib sub' (type_type t) v \<Longrightarrow>
    tuple_set_all lib sub types items xs = tuple_set_all lib sub' types items xs"
proof (induction xs arbitrary: items)
  case (Cons x xs)
  obtain k v where x: "x = (k, v)" by fastforce
  have IH: "tuple_set_all lib sub types items xs = tuple_set_all lib sub' types items xs" for items
    using Cons.IH Cons.prems by simp
  have "collections_tuple_set lib sub dt items i v (type_type t) = collections_tuple_set lib sub' dt items i v (type_type t)"
    if "t \<in> set types" "php_driver_validate_object v t = Ok True" for dt i t
    using Cons.prems that x by (auto simp: collections_tuple_set_def)
  then show ?case by (auto simp: x IH split: zkey.splits outcome.splits bool.splits)
qed simp

lemma user_type_set_all_cong:
  "\<forall>(k, v) \<in> set xs. \<forall>t \<in> snd ` set (udt_types u). php_driver_validate_object v t = Ok True \<longrightarrow> z_type v \<noteq> 1 \<longrightarrow>
      switch_value lib sub (type_type t) v = switch_value lib sub' (type_type t) v \<Longrightarrow>
    user_type_set_all lib sub u items xs = user_type_set_all lib sub' u items xs"
proof (induction xs arbitrary: items)
  case (Cons x xs)
  obtain k v where x: "x = (k, v)" by fastforce
  have IH: "user_type_set_all lib sub u items xs = user_type_set_all lib sub' u items xs" for items
    using Cons.IH Cons.prems by simp
  have "collections_user_type_set lib sub dt items i v (type_type t) = collections_user_type_set lib sub' dt items i v (type_type t)"
    if "udt_field u n = Some t" "php_driver_validate_object v t = Ok True" for dt i t n
  proof -
    have "t \<in> snd ` set (udt_types u)" using that(1) by (force simp: udt_field_def dest: map_of_SomeD)
    then show ?thesis using Cons.prems that(2) x by (auto simp: collections_user_type_set_def)
  qed
  then show ?case by (auto simp: x IH Let_def split: zkey.splits outcome.splits bool.splits option.splits)
qed simp

lemma container_fuel:
  assumes heap: "heap_inv e obj_ok heap" and "fuel \<le> fuel'"
  shows "sub_eq heap fuel (container_value fuel lib heap) (container_value fuel' lib heap)"
  using assms(2)
proof (induction fuel arbitrary: fuel')
  case 0
  then show ?case by (simp add: sub_eq_def)
next
  case (Suc fuel)
  then obtain f where f: "fuel' = Suc f" "fuel \<le> f" by (cases fuel') auto
  let ?s = "container_value fuel lib heap" and ?s' = "container_value f lib heap"
  have eq: "switch_value lib ?s (type_type ty) v = switch_value lib ?s' (type_type ty) v"
    if "elem_ok heap ty v" "z_type v \<noteq> 1" "type_depth ty < fuel" for ty v
    by (rule elem_eq [OF that Suc.IH [OF f(2)] heap])
  show ?case unfolding sub_eq_def f(1)
  proof (intro allI impI)
    fix c ty h ct assume h: "heap h = Some ct" and d: "type_depth (ct_type ct) < Suc fuel"
    have inv: "ct_inv e obj_ok ct" and wf: "type_wf (ct_type ct)" and vals: "\<forall>v \<in> set (ct_elems ct). value_ok heap v"
      using heap_invD [OF heap h] by simp_all
    show "container_value (Suc fuel) lib heap (type_type (ct_type ct)) (OTyped c ty h) =
        container_value (Suc f) lib heap (type_type (ct_type ct)) (OTyped c ty h)"
    proof (cases ct)
      case (CtSet s)
      have "append_all lib ?s dt items (map (\<lambda>v. (v, type_type (set_type s))) (set_values s)) =
          append_all lib ?s' dt items (map (\<lambda>v. (v, type_type (set_type s))) (set_values s))" for dt items
        by (rule append_all_cong) (use inv wf vals d CtSet in \<open>auto simp: set_inv_def elem_ok_def intro!: eq\<close>)
      then show ?thesis using h CtSet by (simp add: php_driver_collection_from_set_def)
    next
      case (CtMap m)
      have "append_all lib ?s dt items (concat (map (\<lambda>(k, v). [(k, type_type (map_key_type m)), (v, type_type (map_value_type m))]) (map_items m))) =
          append_all lib ?s' dt items (concat (map (\<lambda>(k, v). [(k, type_type (map_key_type m)), (v, type_type (map_value_type m))]) (map_items m)))" for dt items
      proof (rule append_all_cong)
        have "switch_value lib ?s (type_type (map_key_type m)) k = switch_value lib ?s' (type_type (map_key_type m)) k \<and>
            switch_value lib ?s (type_type (map_value_type m)) v = switch_value lib ?s' (type_type (map_value_type m)) v"
          if kv: "(k, v) \<in> set (map_items m)" for k v
          using map_item_ok [OF heap h [unfolded CtMap] kv] d CtMap
          by (intro conjI eq) (simp_all add: map_type_def)
        then show "\<forall>(v, t) \<in> set (concat (map (\<lambda>(k, v). [(k, type_type (map_key_type m)), (v, type_type (map_value_type m))]) (map_items m))).
            switch_value lib ?s t v = switch_value lib ?s' t v" by auto
      qed
      then show ?thesis using h CtMap by (simp add: php_driver_collection_from_map_def map_type_def)
    next
      case (CtColl cl)
      have "append_all lib ?s dt items (map (\<lambda>v. (v, type_type (coll_type cl))) (collection_values cl)) =
          append_all lib ?s' dt items (map (\<lambda>v. (v, type_type (coll_type cl))) (collection_values cl))" for dt items
        by (rule append_all_cong) (use inv wf vals d CtColl z_type_null in \<open>auto simp: collection_inv_def elem_ok_def intro!: eq\<close>)
      then show ?thesis using h CtColl by (simp add: php_driver_collection_from_collection_def)
    next
      case (CtTuple t)
      have "\<forall>ty \<in> set (tup_types t). type_depth ty < fuel" using d CtTuple depth_tuple by fastforce
      then have "tuple_set_all lib ?s (tup_types t) items (ht_data (tup_values t)) =
          tuple_set_all lib ?s' (tup_types t) items (ht_data (tup_values t))" for items
        by (intro tuple_set_all_cong) (use wf vals CtTuple in \<open>auto simp: elem_ok_def ht_values_def intro!: eq\<close>)
      then show ?thesis using h CtTuple by (simp add: php_driver_tuple_from_tuple_def)
    next
      case (CtUdt u)
      have "\<forall>(n, t) \<in> set (udt_types u). type_depth t < fuel" using d CtUdt depth_udt by (fastforce simp: udt_type_def)
      then have "user_type_set_all lib ?s u items (ht_data (udt_values u)) =
          user_type_set_all lib ?s' u items (ht_data (udt_values u))" for items
        by (intro user_type_set_all_cong)
          (use wf vals CtUdt in \<open>fastforce simp: elem_ok_def ht_values_def udt_type_def intro!: eq\<close>)
      then show ?thesis using h CtUdt by (simp add: php_driver_user_type_from_user_type_value_def udt_type_def)
    qed
  qed
qed

text \<open>
  C21. On a heap of objects that keep their invariants, turning an object into a container of the driver
  library ends with fuel above the depth of its type, and the result does not depend on the fuel. It
  is never undefined, throws no error but those of the library, and a container has the type of the
  object. The containers left allocated are those in the result: the nested ones are not freed. It
  answers 0 without an exception only if the field names of a user type are misread.
\<close>

theorem container_typed:
  assumes "heap_inv e obj_ok heap" and "names_read (cl_key_mem lib) silent heap"
    and "heap h = Some ct" and "type_depth (ct_type ct) < fuel"
  shows "let r = container_value fuel lib heap (type_type (ct_type ct)) (OTyped (ct_class ct) (ct_type ct) h) in
    snd r \<noteq> UB \<and> (\<forall>x. snd r = Throw x \<longrightarrow> (\<exists>rc. rc \<noteq> 0 \<and> x = CassException rc)) \<and> (snd r = Ok None \<longrightarrow> silent) \<and>
    (\<forall>p. snd r = Ok (Some p) \<longrightarrow> cql_value (type_norm (ct_type ct)) p \<and> fst r = containers p) \<and>
    (\<forall>fuel' \<ge> fuel. container_value fuel' lib heap (type_type (ct_type ct)) (OTyped (ct_class ct) (ct_type ct) h) = r)"
proof -
  have "sound silent (typed (ct_type ct)) (container_value fuel lib heap (type_type (ct_type ct)) (OTyped (ct_class ct) (ct_type ct) h))"
    using container_sound [OF assms(1,2), of fuel] assms(3,4) unfolding sub_sound_def by blast
  moreover have "container_value fuel' lib heap (type_type (ct_type ct)) (OTyped (ct_class ct) (ct_type ct) h) =
      container_value fuel lib heap (type_type (ct_type ct)) (OTyped (ct_class ct) (ct_type ct) h)" if "fuel \<le> fuel'" for fuel'
    using container_fuel [OF assms(1) that, of lib] assms(3,4) unfolding sub_eq_def by metis
  ultimately show ?thesis unfolding sound_def typed_def Let_def by blast
qed

text \<open>A list of sets of integers with one empty set, and a library that accepts everything.\<close>

definition lib_accepting :: "(string \<Rightarrow> string) \<Rightarrow> cass_lib" where
  "lib_accepting key_mem =
     \<lparr>cl_gmp = gmp_ref, cl_key_mem = key_mem, cl_append = (\<lambda>_ _ _. 0), cl_tuple_set = (\<lambda>_ _ _ _. 0),
      cl_user_type_set = (\<lambda>_ _ _ _. 0)\<rparr>"

definition nested_heap :: obj_heap where
  "nested_heap =
     [0 \<mapsto> CtColl (php_driver_collection_add (php_driver_collection_new (TSet (TScalar CASS_INT)))
             (ZObject (OTyped ''Set'' (TSet (TScalar CASS_INT)) 1))),
      1 \<mapsto> CtSet (php_driver_set_new (TScalar CASS_INT))]"

lemma nested_heap_inv: "heap_inv engine_ref (\<lambda>_. True) nested_heap"
proof -
  have "php_driver_validate_object (ZObject (OTyped ''Set'' (TSet (TScalar CASS_INT)) 1)) (TSet (TScalar CASS_INT)) = Ok True"
    by (simp add: php_driver_validate_object_def expecting_typed_def type_compare_0(1) scalar_types_def)
  then show ?thesis
    by (auto simp: heap_inv_def nested_heap_def set_inv_new collection_inv_def php_driver_collection_add_def
        php_driver_collection_new_def ht_next_insert_inv collection_values_def ht_values_def ht_next_insert_data
        ht_new_def [symmetric] ht_new_inv scalar_types_def set_values_def ut_keys_def hash_iter_def php_driver_set_new_def
        split: if_splits) (simp_all add: ht_new_def ht_next_insert_def ht_update_def
        set_inv_new [unfolded php_driver_set_new_def])
qed

theorem container_typed_witness:
  "cql_value (TCollection (TSet (TScalar CASS_INT)))
     (CCollection (TCollection (TSet (TScalar CASS_INT))) [CCollection (TSet (TScalar CASS_INT)) []]) \<and>
   container_value 3 (lib_accepting (\<lambda>_. [])) nested_heap CASS_LIST
     (OTyped ''Collection'' (TCollection (TSet (TScalar CASS_INT))) 0) =
     (2, Ok (Some (CCollection (TCollection (TSet (TScalar CASS_INT))) [CCollection (TSet (TScalar CASS_INT)) []])))"
proof -
  let ?ct = "the (nested_heap 0)"
  have v: "container_value 3 (lib_accepting (\<lambda>_. [])) nested_heap CASS_LIST
     (OTyped ''Collection'' (TCollection (TSet (TScalar CASS_INT))) 0) =
     (2, Ok (Some (CCollection (TCollection (TSet (TScalar CASS_INT))) [CCollection (TSet (TScalar CASS_INT)) []])))"
    by (simp add: numeral_3_eq_3 nested_heap_def php_driver_collection_from_collection_def php_driver_collection_add_def
        php_driver_collection_new_def collection_values_def ht_values_def ht_next_insert_def ht_update_def ht_new_def
        php_driver_collection_append_def switch_value_def php_driver_collection_from_set_def php_driver_set_new_def
        set_values_def ut_keys_def hash_iter_def check_error_def lib_accepting_def)
  have names: "names_read (cl_key_mem (lib_accepting (\<lambda>_. []))) True nested_heap"
    by (simp add: names_read_def nested_heap_def)
  have h: "nested_heap 0 = Some ?ct" "type_depth (ct_type ?ct) < 3" "ct_type ?ct = TCollection (TSet (TScalar CASS_INT))"
    "ct_class ?ct = ''Collection''"
    by (simp_all add: nested_heap_def php_driver_collection_add_def php_driver_collection_new_def)
  from container_typed [OF nested_heap_inv names h(1,2)] v show ?thesis by (simp add: h(3,4) Let_def)
qed

end
