(* ===== verification/Cass_Result.thy ===== *)
theory Cass_Result
  imports Cass_Typed
begin

text \<open>
  \<^verbatim>\<open>ext/util/result.c\<close>, with the part of \<^verbatim>\<open>ext/util/types.c\<close> that turns a data type of the driver library into a
  type of the extension: reading values of the library back into PHP values. The values of the library
  are of a type of their own, on which the record \<open>reader\<close> gives the library's functions. New objects are
  added to the heap of containers.
\<close>

section \<open>Data types\<close>

text \<open>A \<^verbatim>\<open>CassDataType\<close>; the name of a user type is preceded by its keyspace.\<close>

datatype cass_data_type =
    DScalar cass_value_type
  | DCustom string
  | DList cass_data_type
  | DMap cass_data_type cass_data_type
  | DSet cass_data_type
  | DTuple "cass_data_type list"
  | DUdt string string "(string \<times> cass_data_type) list"

text \<open>What the driver library answers; \<open>Inl\<close> is an error code.\<close>

record 'v reader =
  rd_gmp :: gmp
  rd_is_null :: "'v \<Rightarrow> bool"
  rd_string :: "'v \<Rightarrow> nat + string"
  rd_int8 :: "'v \<Rightarrow> nat + 8 word"
  rd_int16 :: "'v \<Rightarrow> nat + 16 word"
  rd_int32 :: "'v \<Rightarrow> nat + 32 word"
  rd_uint32 :: "'v \<Rightarrow> nat + 32 word"
  rd_int64 :: "'v \<Rightarrow> nat + 64 word"
  rd_float :: "'v \<Rightarrow> nat + 32 word"
  rd_double :: "'v \<Rightarrow> nat + dbl"
  rd_bool :: "'v \<Rightarrow> nat + bool"
  rd_bytes :: "'v \<Rightarrow> nat + byte list"
  rd_uuid :: "'v \<Rightarrow> nat + byte list"
  rd_inet :: "'v \<Rightarrow> nat + byte list"
  rd_decimal :: "'v \<Rightarrow> nat + (byte list \<times> 32 word)"
  rd_duration :: "'v \<Rightarrow> nat + (32 word \<times> 32 word \<times> 64 word)"
  rd_items :: "'v \<Rightarrow> 'v list option"
  rd_pairs :: "'v \<Rightarrow> ('v \<times> 'v) list option"
  rd_fields :: "'v \<Rightarrow> (string \<times> 'v) list option"
  rd_tuple_add :: "php_driver_type list \<Rightarrow> php_driver_type \<Rightarrow> bool"
  rd_udt_add :: "udt_fields \<Rightarrow> string \<Rightarrow> php_driver_type \<Rightarrow> bool"

definition php_driver_type_tuple_add ::
  "('t list \<Rightarrow> 't \<Rightarrow> bool) \<Rightarrow> 't list \<Rightarrow> 't \<Rightarrow> 't list" where
  "php_driver_type_tuple_add cass_add types sub_type =
     (if cass_add types sub_type then types @ [sub_type] else types)"

definition php_driver_tuple_from_data_type :: "'v reader \<Rightarrow> php_driver_type list \<Rightarrow> php_driver_type" where
  "php_driver_tuple_from_data_type rd sub_types =
     TTuple (fold (\<lambda>sub_type types. php_driver_type_tuple_add (rd_tuple_add rd) types sub_type) sub_types [])"

text \<open>The names are copied and from then on read as C strings.\<close>

definition php_driver_user_type_from_data_type ::
  "'v reader \<Rightarrow> string \<Rightarrow> string \<Rightarrow> (string \<times> php_driver_type) list \<Rightarrow> php_driver_type" where
  "php_driver_user_type_from_data_type rd keyspace type_name sub_types =
     TUdt (Some (cstr keyspace)) (Some (cstr type_name))
       (fold (\<lambda>(name, sub_type) types. fst (php_driver_type_user_type_add (rd_udt_add rd) types name sub_type)) sub_types [])"

fun php_driver_type_from_data_type :: "'v reader \<Rightarrow> cass_data_type \<Rightarrow> php_driver_type" where
  "php_driver_type_from_data_type rd (DScalar t) = TScalar t"
| "php_driver_type_from_data_type rd (DCustom class_name) = TCustom class_name"
| "php_driver_type_from_data_type rd (DList t) = TCollection (php_driver_type_from_data_type rd t)"
| "php_driver_type_from_data_type rd (DMap k t) =
     TMap (php_driver_type_from_data_type rd k) (php_driver_type_from_data_type rd t)"
| "php_driver_type_from_data_type rd (DSet t) = TSet (php_driver_type_from_data_type rd t)"
| "php_driver_type_from_data_type rd (DTuple ts) =
     php_driver_tuple_from_data_type rd (map (php_driver_type_from_data_type rd) ts)"
| "php_driver_type_from_data_type rd (DUdt keyspace type_name fs) =
     php_driver_user_type_from_data_type rd keyspace type_name
       (map (\<lambda>(n, t). (n, php_driver_type_from_data_type rd t)) fs)"

section \<open>Values\<close>

text \<open>\<^verbatim>\<open>ASSERT_SUCCESS_BLOCK\<close> of a function that reads a value.\<close>

fun got :: "nat + 'a \<Rightarrow> ('a \<Rightarrow> 'b outcome) \<Rightarrow> 'b outcome" where
  "got (Inl rc) f = Throw (CassException rc)"
| "got (Inr x) f = f x"

text \<open>Without any bytes the first one, which has the sign, is read from outside of the buffer.\<close>

definition import_number :: "gmp \<Rightarrow> byte list \<Rightarrow> int outcome" where
  "import_number g bs = (if bs = [] then UB else Ok (import_twos_complement g bs))"

definition read_scalar :: "'v reader \<Rightarrow> cass_value_type \<Rightarrow> 'v \<Rightarrow> zval outcome" where
  "read_scalar rd type value =
     (case type of
        CASS_ASCII \<Rightarrow> got (rd_string rd value) (\<lambda>s. Ok (ZString s))
      | CASS_TEXT \<Rightarrow> got (rd_string rd value) (\<lambda>s. Ok (ZString s))
      | CASS_VARCHAR \<Rightarrow> got (rd_string rd value) (\<lambda>s. Ok (ZString s))
      | CASS_INT \<Rightarrow> got (rd_int32 rd value) (\<lambda>i. Ok (ZLong (scast i)))
      | CASS_COUNTER \<Rightarrow> got (rd_int64 rd value) (\<lambda>i. Ok (ZObject (ONumeric (NBigint i))))
      | CASS_BIGINT \<Rightarrow> got (rd_int64 rd value) (\<lambda>i. Ok (ZObject (ONumeric (NBigint i))))
      | CASS_SMALL_INT \<Rightarrow> got (rd_int16 rd value) (\<lambda>i. Ok (ZObject (ONumeric (NSmallint i))))
      | CASS_TINY_INT \<Rightarrow> got (rd_int8 rd value) (\<lambda>i. Ok (ZObject (ONumeric (NTinyint i))))
      | CASS_TIMESTAMP \<Rightarrow> got (rd_int64 rd value) (\<lambda>i. Ok (ZObject (OTimestamp i)))
      | CASS_DATE \<Rightarrow> got (rd_uint32 rd value) (\<lambda>i. Ok (ZObject (ODate i)))
      | CASS_TIME \<Rightarrow> got (rd_int64 rd value) (\<lambda>i. Ok (ZObject (OTime i)))
      | CASS_BLOB \<Rightarrow> got (rd_bytes rd value) (\<lambda>bs. Ok (ZObject (OBlob bs)))
      | CASS_VARINT \<Rightarrow> got (rd_bytes rd value) (\<lambda>bs.
          bind_outcome (import_number (rd_gmp rd) bs) (\<lambda>n. Ok (ZObject (ONumeric (NVarint n)))))
      | CASS_UUID \<Rightarrow> got (rd_uuid rd value) (\<lambda>bs. Ok (ZObject (OUuid ''Uuid'' bs)))
      | CASS_TIMEUUID \<Rightarrow> got (rd_uuid rd value) (\<lambda>bs. Ok (ZObject (OUuid ''Timeuuid'' bs)))
      | CASS_BOOLEAN \<Rightarrow> got (rd_bool rd value) (\<lambda>b. Ok (if b then ZTrue else ZFalse))
      | CASS_INET \<Rightarrow> got (rd_inet rd value) (\<lambda>bs. Ok (ZObject (OInet bs)))
      | CASS_DECIMAL \<Rightarrow> got (rd_decimal rd value) (\<lambda>(bs, scale).
          bind_outcome (import_number (rd_gmp rd) bs) (\<lambda>n. Ok (ZObject (ONumeric (NDecimal n (sint scale))))))
      | CASS_DURATION \<Rightarrow> got (rd_duration rd value) (\<lambda>(months, days, nanos). Ok (ZObject (ODuration months days nanos)))
      | CASS_DOUBLE \<Rightarrow> got (rd_double rd value) (\<lambda>d. Ok (ZDouble d))
      | CASS_FLOAT \<Rightarrow> got (rd_float rd value) (\<lambda>f. Ok (ZObject (ONumeric (NFloat f))))
      | _ \<Rightarrow> Ok ZNull)"

text \<open>
  The heap and the handle of the next object. An exception of an element that a set or a map refuses
  ends the conversion here; the code goes on with the other elements, which cannot be seen after the
  exception.
\<close>

type_synonym heap_state = "obj_heap \<times> nat"

fun each :: "('x \<Rightarrow> 'c \<Rightarrow> heap_state \<Rightarrow> ('c \<times> heap_state) outcome) \<Rightarrow> 'x list \<Rightarrow> 'c \<Rightarrow> heap_state \<Rightarrow> ('c \<times> heap_state) outcome" where
  "each step [] c st = Ok (c, st)"
| "each step (x # xs) c st = bind_outcome (step x c st) (\<lambda>(c', st'). each step xs c' st')"

definition object_of :: "nat \<Rightarrow> container \<Rightarrow> zval" where
  "object_of handle ct = ZObject (OTyped (ct_class ct) (ct_type ct) handle)"

text \<open>A new object that is filled by a loop; without an iterator the loop reads a null pointer.\<close>

definition filled ::
  "('c \<Rightarrow> container) \<Rightarrow> 'c \<Rightarrow> ('x \<Rightarrow> 'c \<Rightarrow> heap_state \<Rightarrow> ('c \<times> heap_state) outcome) \<Rightarrow> 'x list option \<Rightarrow>
   heap_state \<Rightarrow> (zval \<times> heap_state) outcome" where
  "filled con new step items st =
     (case items of
        None \<Rightarrow> UB
      | Some xs \<Rightarrow>
          bind_outcome (each step xs new (fst st, Suc (snd st))) (\<lambda>(c, (heap, next_handle)).
            Ok (object_of (snd st) (con c), (heap(snd st \<mapsto> con c), next_handle))))"

type_synonym 'v value_reader = "'v \<Rightarrow> heap_state \<Rightarrow> (zval \<times> heap_state) outcome"

definition list_step :: "'v value_reader \<Rightarrow> 'v \<Rightarrow> php_collection \<Rightarrow> heap_state \<Rightarrow> (php_collection \<times> heap_state) outcome" where
  "list_step read v c st =
     bind_outcome (read v st) (\<lambda>(z, st'). Ok (php_driver_collection_add c z, st'))"

definition set_step :: "engine \<Rightarrow> 'v value_reader \<Rightarrow> 'v \<Rightarrow> php_set \<Rightarrow> heap_state \<Rightarrow> (php_set \<times> heap_state) outcome" where
  "set_step e read v c st =
     bind_outcome (read v st) (\<lambda>(z, st').
     bind_outcome (php_driver_set_add e c z) (\<lambda>(c', _). Ok (c', st')))"

definition map_step ::
  "engine \<Rightarrow> 'v value_reader \<Rightarrow> 'v value_reader \<Rightarrow> 'v \<times> 'v \<Rightarrow> php_map \<Rightarrow> heap_state \<Rightarrow> (php_map \<times> heap_state) outcome" where
  "map_step e read_key read_value kv c st =
     bind_outcome (read_key (fst kv) st) (\<lambda>(k, st').
     bind_outcome (read_value (snd kv) st') (\<lambda>(v, st'').
     bind_outcome (php_driver_map_set e c k v) (\<lambda>(c', _). Ok (c', st''))))"

text \<open>The data type of an element beyond the last one is a null pointer.\<close>

definition tuple_step ::
  "('v \<Rightarrow> bool) \<Rightarrow> 'v value_reader list \<Rightarrow> nat \<times> 'v \<Rightarrow> php_tuple \<Rightarrow> heap_state \<Rightarrow> (php_tuple \<times> heap_state) outcome" where
  "tuple_step is_null read iv c st =
     (let (i, v) = iv
      in if is_null v then Ok (c, st)
         else if length read \<le> i then UB
         else bind_outcome ((read ! i) v st) (\<lambda>(z, st'). Ok (php_driver_tuple_set c (of_nat i) z, st')))"

definition udt_step ::
  "('v \<Rightarrow> bool) \<Rightarrow> 'v value_reader list \<Rightarrow> nat \<times> string \<times> 'v \<Rightarrow> php_udt \<Rightarrow> heap_state \<Rightarrow> (php_udt \<times> heap_state) outcome" where
  "udt_step is_null read field c st =
     (let (i, name, v) = field
      in if is_null v then Ok (c, st)
         else if length read \<le> i then UB
         else bind_outcome ((read ! i) v st) (\<lambda>(z, st'). Ok (php_driver_user_type_value_set c name z, st')))"

definition unless_null :: "'v reader \<Rightarrow> 'v value_reader \<Rightarrow> 'v value_reader" where
  "unless_null rd read v st = (if rd_is_null rd v then Ok (ZNull, st) else read v st)"

definition new_tuple :: "php_driver_type \<Rightarrow> php_tuple" where
  "new_tuple ty = php_driver_tuple_new (case ty of TTuple types \<Rightarrow> types | _ \<Rightarrow> [])"

definition new_udt :: "php_driver_type \<Rightarrow> php_udt" where
  "new_udt ty =
     (case ty of
        TUdt keyspace type_name types \<Rightarrow> php_driver_user_type_value_new keyspace type_name types
      | _ \<Rightarrow> php_driver_user_type_value_new None None [])"

fun php_driver_value :: "engine \<Rightarrow> 'v reader \<Rightarrow> cass_data_type \<Rightarrow> 'v value_reader" where
  "php_driver_value e rd (DScalar t) =
     unless_null rd (\<lambda>v st. bind_outcome (read_scalar rd t v) (\<lambda>z. Ok (z, st)))"
| "php_driver_value e rd (DCustom _) = (\<lambda>v st. Ok (ZNull, st))"
| "php_driver_value e rd (DList t) =
     unless_null rd (\<lambda>v. filled CtColl (php_driver_collection_new (php_driver_type_from_data_type rd t))
       (list_step (php_driver_value e rd t)) (rd_items rd v))"
| "php_driver_value e rd (DMap k t) =
     unless_null rd (\<lambda>v. filled CtMap
       (php_driver_map_new (php_driver_type_from_data_type rd k) (php_driver_type_from_data_type rd t))
       (map_step e (php_driver_value e rd k) (php_driver_value e rd t)) (rd_pairs rd v))"
| "php_driver_value e rd (DSet t) =
     unless_null rd (\<lambda>v. filled CtSet (php_driver_set_new (php_driver_type_from_data_type rd t))
       (set_step e (php_driver_value e rd t)) (rd_items rd v))"
| "php_driver_value e rd (DTuple ts) =
     unless_null rd (\<lambda>v. filled CtTuple (new_tuple (php_driver_type_from_data_type rd (DTuple ts)))
       (tuple_step (rd_is_null rd) (map (php_driver_value e rd) ts)) (map_option (enumerate 0) (rd_items rd v)))"
| "php_driver_value e rd (DUdt keyspace type_name fs) =
     unless_null rd (\<lambda>v. filled CtUdt (new_udt (php_driver_type_from_data_type rd (DUdt keyspace type_name fs)))
       (udt_step (rd_is_null rd) (map (\<lambda>(n, t). php_driver_value e rd t) fs))
       (map_option (enumerate 0) (rd_fields rd v)))"

section \<open>Rows\<close>

record 'v cass_result =
  cr_columns :: "(string \<times> cass_data_type) list"
  cr_rows :: "'v list list"

text \<open>One row, which has a value for each column under the array key of its name: a name ends at its first NUL, and of two columns with the same name the last one stays.\<close>

definition row_step ::
  "engine \<Rightarrow> 'v reader \<Rightarrow> (string \<times> cass_data_type) \<times> 'v \<Rightarrow> zval htable \<Rightarrow> heap_state \<Rightarrow> (zval htable \<times> heap_state) outcome" where
  "row_step e rd column row st =
     bind_outcome (php_driver_value e rd (snd (fst column)) (snd column) st) (\<lambda>(z, st').
       Ok (ht_update row (symtable_key (cstr (fst (fst column)))) z, st'))"

definition rows_step ::
  "engine \<Rightarrow> 'v reader \<Rightarrow> (string \<times> cass_data_type) list \<Rightarrow> 'v list \<Rightarrow> zval htable list \<Rightarrow> heap_state \<Rightarrow>
   (zval htable list \<times> heap_state) outcome" where
  "rows_step e rd columns values rows st =
     bind_outcome (each (row_step e rd) (zip columns values) ht_new st) (\<lambda>(row, st'). Ok (rows @ [row], st'))"

definition php_driver_get_result ::
  "engine \<Rightarrow> 'v reader \<Rightarrow> 'v cass_result \<Rightarrow> heap_state \<Rightarrow> (zval htable list \<times> heap_state) outcome" where
  "php_driver_get_result e rd result = each (rows_step e rd (cr_columns result)) (cr_rows result) []"

text \<open>A field of the schema metadata, of a keyspace, a table or a column.\<close>

definition metadata_field ::
  "engine \<Rightarrow> 'v reader \<Rightarrow> (string \<Rightarrow> 'v option) \<Rightarrow> ('v \<Rightarrow> cass_data_type) \<Rightarrow> string \<Rightarrow> heap_state \<Rightarrow> (zval \<times> heap_state) outcome" where
  "metadata_field e rd field_by_name data_type field_name st =
     (case field_by_name field_name of
        None \<Rightarrow> Ok (ZNull, st)
      | Some value \<Rightarrow>
          if rd_is_null rd value then Ok (ZNull, st) else php_driver_value e rd (data_type value) value st)"

section \<open>Values of a column\<close>

text \<open>
  A value of a data type all of whose scalars satisfy \<open>ok\<close>; a null value has none. What the
  documentation of the library promises of the others is that a collection can be iterated and has no
  null elements, and that a tuple or a user type has at most one value per field.
\<close>

fun is_custom :: "cass_data_type \<Rightarrow> bool" where
  "is_custom (DCustom _) = True"
| "is_custom _ = False"

fun column_with :: "(cass_value_type \<Rightarrow> 'v \<Rightarrow> bool) \<Rightarrow> 'v reader \<Rightarrow> cass_data_type \<Rightarrow> 'v \<Rightarrow> bool" where
  "column_with ok rd (DScalar t) = (\<lambda>v. rd_is_null rd v \<or> ok t v)"
| "column_with ok rd (DCustom _) = (\<lambda>v. True)"
| "column_with ok rd (DList t) = (\<lambda>v. rd_is_null rd v \<or>
     (\<exists>vs. rd_items rd v = Some vs \<and> (\<forall>x \<in> set vs. \<not> rd_is_null rd x \<and> column_with ok rd t x)))"
| "column_with ok rd (DMap k t) = (\<lambda>v. rd_is_null rd v \<or>
     (\<exists>kvs. rd_pairs rd v = Some kvs \<and>
        (\<forall>(x, y) \<in> set kvs. \<not> rd_is_null rd x \<and> column_with ok rd k x \<and> \<not> rd_is_null rd y \<and> column_with ok rd t y)))"
| "column_with ok rd (DSet t) = (\<lambda>v. rd_is_null rd v \<or>
     (\<exists>vs. rd_items rd v = Some vs \<and> (\<forall>x \<in> set vs. \<not> rd_is_null rd x \<and> column_with ok rd t x)))"
| "column_with ok rd (DTuple ts) = (\<lambda>v. rd_is_null rd v \<or>
     (\<exists>vs. rd_items rd v = Some vs \<and> length vs \<le> length ts \<and> length ts < 2 ^ 31 \<and>
        (\<forall>(f, x) \<in> set (zip (map (column_with ok rd) ts) vs). f x)))"
| "column_with ok rd (DUdt _ _ fs) = (\<lambda>v. rd_is_null rd v \<or>
     (\<exists>vs. rd_fields rd v = Some vs \<and> length vs \<le> length fs \<and> map fst vs = take (length vs) (map fst fs) \<and>
        (\<forall>(f, n, x) \<in> set (zip (map (\<lambda>(n, t). column_with ok rd t) fs) vs). f x)))"

abbreviation shape_ok :: "'v reader \<Rightarrow> cass_data_type \<Rightarrow> 'v \<Rightarrow> bool" where
  "shape_ok \<equiv> column_with (\<lambda>_ _. True)"

text \<open>
  A scalar that the function of its type reads, with at least one byte if it is a number; and a scalar
  that is at least not a number without bytes.
\<close>

definition scalar_ok :: "'v reader \<Rightarrow> cass_value_type \<Rightarrow> 'v \<Rightarrow> bool" where
  "scalar_ok rd t v \<longleftrightarrow>
     (t \<in> {CASS_ASCII, CASS_TEXT, CASS_VARCHAR} \<longrightarrow> \<not> isl (rd_string rd v)) \<and>
     (t = CASS_INT \<longrightarrow> \<not> isl (rd_int32 rd v)) \<and>
     (t \<in> {CASS_COUNTER, CASS_BIGINT, CASS_TIMESTAMP, CASS_TIME} \<longrightarrow> \<not> isl (rd_int64 rd v)) \<and>
     (t = CASS_SMALL_INT \<longrightarrow> \<not> isl (rd_int16 rd v)) \<and>
     (t = CASS_TINY_INT \<longrightarrow> \<not> isl (rd_int8 rd v)) \<and>
     (t = CASS_DATE \<longrightarrow> \<not> isl (rd_uint32 rd v)) \<and>
     (t = CASS_BLOB \<longrightarrow> \<not> isl (rd_bytes rd v)) \<and>
     (t = CASS_VARINT \<longrightarrow> (\<exists>b bs. rd_bytes rd v = Inr (b # bs))) \<and>
     (t \<in> {CASS_UUID, CASS_TIMEUUID} \<longrightarrow> \<not> isl (rd_uuid rd v)) \<and>
     (t = CASS_BOOLEAN \<longrightarrow> \<not> isl (rd_bool rd v)) \<and>
     (t = CASS_INET \<longrightarrow> \<not> isl (rd_inet rd v)) \<and>
     (t = CASS_DECIMAL \<longrightarrow> (\<exists>b bs scale. rd_decimal rd v = Inr (b # bs, scale))) \<and>
     (t = CASS_DURATION \<longrightarrow> \<not> isl (rd_duration rd v)) \<and>
     (t = CASS_DOUBLE \<longrightarrow> \<not> isl (rd_double rd v)) \<and>
     (t = CASS_FLOAT \<longrightarrow> \<not> isl (rd_float rd v))"

definition number_ok :: "'v reader \<Rightarrow> cass_value_type \<Rightarrow> 'v \<Rightarrow> bool" where
  "number_ok rd t v \<longleftrightarrow>
     (t = CASS_VARINT \<longrightarrow> rd_bytes rd v \<noteq> Inr []) \<and> (t = CASS_DECIMAL \<longrightarrow> (\<forall>scale. rd_decimal rd v \<noteq> Inr ([], scale)))"

abbreviation column_ok :: "'v reader \<Rightarrow> cass_data_type \<Rightarrow> 'v \<Rightarrow> bool" where
  "column_ok rd \<equiv> column_with (scalar_ok rd) rd"

abbreviation numbers_ok :: "'v reader \<Rightarrow> cass_data_type \<Rightarrow> 'v \<Rightarrow> bool" where
  "numbers_ok rd \<equiv> column_with (number_ok rd) rd"

text \<open>Data types without an element of a custom type, and those whose sets and maps have plain PHP values as keys.\<close>

fun dt_wf :: "cass_data_type \<Rightarrow> bool" where
  "dt_wf (DScalar t) = (t \<in> snd ` set scalar_types)"
| "dt_wf (DCustom _) = True"
| "dt_wf (DList t) = (dt_wf t \<and> \<not> is_custom t)"
| "dt_wf (DMap k t) = (dt_wf k \<and> \<not> is_custom k \<and> dt_wf t \<and> \<not> is_custom t)"
| "dt_wf (DSet t) = (dt_wf t \<and> \<not> is_custom t)"
| "dt_wf (DTuple ts) = (\<forall>t \<in> set ts. dt_wf t)"
| "dt_wf (DUdt _ _ fs) = (distinct (map fst fs) \<and> (\<forall>(n, t) \<in> set fs. dt_wf t))"

fun plain_type :: "cass_data_type \<Rightarrow> bool" where
  "plain_type (DScalar t) = (t \<in> {CASS_ASCII, CASS_TEXT, CASS_VARCHAR, CASS_INT, CASS_DOUBLE, CASS_BOOLEAN})"
| "plain_type _ = False"

fun keys_plain :: "cass_data_type \<Rightarrow> bool" where
  "keys_plain (DList t) = keys_plain t"
| "keys_plain (DMap k t) = (plain_type k \<and> keys_plain t)"
| "keys_plain (DSet t) = plain_type t"
| "keys_plain (DTuple ts) = (\<forall>t \<in> set ts. keys_plain t)"
| "keys_plain (DUdt _ _ fs) = (\<forall>(n, t) \<in> set fs. keys_plain t)"
| "keys_plain _ = True"

lemma zip_enumerate:
  assumes "length xs \<le> length ts"
  shows "(\<forall>(f, x) \<in> set (zip (map Q ts) xs). P f x) \<longleftrightarrow> (\<forall>(i, x) \<in> set (enumerate 0 xs). P (Q (ts ! i)) x)"
proof -
  have "zip (map Q ts) xs = map (\<lambda>(i, x). (Q (ts ! i), x)) (enumerate 0 xs)"
    using assms by (auto intro!: nth_equalityI simp: enumerate_eq_zip)
  then show ?thesis by (simp add: split_def)
qed

text \<open>The driver library takes every sub type.\<close>

definition adds_types :: "'v reader \<Rightarrow> bool" where
  "adds_types rd \<longleftrightarrow> (\<forall>types ty. rd_tuple_add rd types ty) \<and> (\<forall>types name ty. rd_udt_add rd types name ty)"

lemma fold_tuple_add:
  "adds_types rd \<Longrightarrow> fold (\<lambda>t types. php_driver_type_tuple_add (rd_tuple_add rd) types t) ts types = types @ ts"
  by (induction ts arbitrary: types) (simp_all add: php_driver_type_tuple_add_def adds_types_def)

lemma fold_udt_add:
  "adds_types rd \<Longrightarrow> distinct (map fst types @ map fst fs) \<Longrightarrow>
    fold (\<lambda>(n, t) types. fst (php_driver_type_user_type_add (rd_udt_add rd) types n t)) fs types = types @ fs"
proof (induction fs arbitrary: types)
  case (Cons f fs)
  obtain n t where f: "f = (n, t)" by fastforce
  have "fst (php_driver_type_user_type_add (rd_udt_add rd) types n t) = types @ [(n, t)]"
    using Cons.prems f by (auto simp: php_driver_type_user_type_add_def adds_types_def)
  then show ?case using Cons.IH [of "types @ [(n, t)]"] Cons.prems f by simp
qed simp

lemma from_data_type_tuple:
  "adds_types rd \<Longrightarrow> php_driver_type_from_data_type rd (DTuple ts) = TTuple (map (php_driver_type_from_data_type rd) ts)"
  by (simp add: php_driver_tuple_from_data_type_def fold_tuple_add)

lemma from_data_type_udt:
  "adds_types rd \<Longrightarrow> distinct (map fst fs) \<Longrightarrow> php_driver_type_from_data_type rd (DUdt ks tn fs) =
    TUdt (Some (cstr ks)) (Some (cstr tn)) (map (\<lambda>(n, t). (n, php_driver_type_from_data_type rd t)) fs)"
  using fold_udt_add [of rd "[]" "map (\<lambda>(n, t). (n, php_driver_type_from_data_type rd t)) fs"]
  by (simp add: php_driver_user_type_from_data_type_def comp_def split_def)

lemma from_data_type_wf: "adds_types rd \<Longrightarrow> dt_wf dt \<Longrightarrow> type_wf (php_driver_type_from_data_type rd dt)"
proof (induction dt)
  case (DTuple ts)
  then show ?case by (simp only: from_data_type_tuple) simp
next
  case (DUdt ks tn fs)
  have "type_wf (php_driver_type_from_data_type rd t)" if "(n, t) \<in> set fs" for n t
    by (rule DUdt.IH [of "(n, t)" t]) (use that DUdt.prems in \<open>auto\<close>)
  then have "\<forall>(n, t) \<in> set (map (\<lambda>(n, t). (n, php_driver_type_from_data_type rd t)) fs). type_wf t" by auto
  then show ?case using DUdt.prems by (simp only: from_data_type_udt dt_wf.simps type_wf.simps)
qed simp_all

section \<open>Growing heaps\<close>

definition state_ok :: "engine \<Rightarrow> (obj \<Rightarrow> bool) \<Rightarrow> heap_state \<Rightarrow> bool" where
  "state_ok e obj_ok st \<longleftrightarrow> heap_inv e obj_ok (fst st) \<and> (\<forall>h \<ge> snd st. fst st h = None)"

definition grows :: "heap_state \<Rightarrow> heap_state \<Rightarrow> bool" where
  "grows st st' \<longleftrightarrow> snd st \<le> snd st' \<and> (\<forall>h < snd st. fst st' h = fst st h)"

lemma grows_refl: "grows st st"
  by (simp add: grows_def)

lemma grows_trans: "grows st st' \<Longrightarrow> grows st' st'' \<Longrightarrow> grows st st''"
  by (auto simp: grows_def)

lemma value_ok_flat: "\<nexists>c ty h. z = ZObject (OTyped c ty h) \<Longrightarrow> value_ok heap z = value_ok heap' z"
  by (cases "(heap, z)" rule: value_ok.cases) auto

lemma value_ok_grows:
  assumes "value_ok (fst st) z" and "grows st st'" and "state_ok e obj_ok st"
  shows "value_ok (fst st') z"
proof (cases "\<exists>c ty h. z = ZObject (OTyped c ty h)")
  case True
  then obtain c ty h where z: "z = ZObject (OTyped c ty h)" by blast
  then have "h < snd st" using assms(1,3) unfolding state_ok_def by (metis linorder_not_le option.distinct(1) value_ok.simps(1))
  then show ?thesis using assms(1,2) z by (simp add: grows_def)
next
  case False
  then show ?thesis using assms(1) value_ok_flat [of z] by blast
qed

text \<open>A value that has been read: it is in the heap and has the type of its column.\<close>

definition read_as :: "php_driver_type \<Rightarrow> zval \<Rightarrow> heap_state \<Rightarrow> bool" where
  "read_as ty z st \<longleftrightarrow> value_ok (fst st) z \<and> php_driver_validate_object z ty = Ok True"

lemma read_as_grows: "read_as ty z st \<Longrightarrow> grows st st' \<Longrightarrow> state_ok e obj_ok st \<Longrightarrow> read_as ty z st'"
  by (auto simp: read_as_def intro: value_ok_grows)

lemma read_as_null: "read_as ty ZNull st"
  by (simp add: read_as_def php_driver_validate_object_def)

section \<open>Outcomes of reading\<close>

text \<open>
  A call succeeds exactly if \<open>good\<close>, with a result that satisfies \<open>R\<close>, and fails with an error of the
  library otherwise; it is undefined only if \<open>fine\<close> does not hold.
\<close>

definition reads :: "bool \<Rightarrow> bool \<Rightarrow> ('a \<Rightarrow> heap_state \<Rightarrow> bool) \<Rightarrow> ('a \<times> heap_state) outcome \<Rightarrow> bool" where
  "reads good fine R r \<longleftrightarrow>
     (case r of
        Ok (x, st) \<Rightarrow> good \<and> R x st
      | Throw x \<Rightarrow> \<not> good \<and> (\<exists>rc. x = CassException rc)
      | UB \<Rightarrow> \<not> good \<and> \<not> fine)"

lemma reads_Ok: "reads good fine R (Ok (x, st)) \<longleftrightarrow> good \<and> R x st"
  by (simp add: reads_def)

lemma reads_bind:
  assumes "reads good fine R r" and "\<And>x st. good \<Longrightarrow> R x st \<Longrightarrow> reads good' fine' S (f (x, st))"
  shows "reads (good \<and> good') (fine \<and> fine') S (bind_outcome r f)"
proof (cases r)
  case (Ok xst)
  obtain x st where "xst = (x, st)" by (cases xst)
  then have r: "r = Ok (x, st)" using Ok by simp
  then have g: "good" "R x st" using assms(1) by (simp_all add: reads_def)
  from assms(2) [OF g] show ?thesis using g(1) r by (cases "f (x, st)") (auto simp: reads_def)
qed (use assms(1) in \<open>simp_all add: reads_def\<close>)

lemma reads_mono: "reads good fine R r \<Longrightarrow> (\<And>x st. R x st \<Longrightarrow> S x st) \<Longrightarrow> reads good fine S r"
  by (auto simp: reads_def split: outcome.splits)

lemma reads_map:
  assumes "reads good fine R r" and "\<And>x st. R x st \<Longrightarrow> \<exists>y. f (x, st) = Ok (y, st) \<and> S y st"
  shows "reads good fine S (bind_outcome r f)"
proof -
  have "reads (good \<and> True) (fine \<and> True) S (bind_outcome r f)"
    by (rule reads_bind [OF assms(1)]) (use assms(2) in \<open>fastforce simp: reads_def\<close>)
  then show ?thesis by simp
qed

text \<open>A loop keeps an invariant of the new object that survives the growth of the heap.\<close>

lemma each_reads:
  assumes step: "\<And>x c st. x \<in> set xs \<Longrightarrow> J c st \<Longrightarrow> state_ok e obj_ok st \<Longrightarrow>
      reads (G x) (D x) (\<lambda>c' st'. J c' st' \<and> state_ok e obj_ok st' \<and> grows st st') (step x c st)"
    and "J c st" and "state_ok e obj_ok st"
  shows "reads (\<forall>x \<in> set xs. G x) (\<forall>x \<in> set xs. D x)
    (\<lambda>c' st'. J c' st' \<and> state_ok e obj_ok st' \<and> grows st st') (each step xs c st)"
  using assms
proof (induction xs arbitrary: c st)
  case Nil
  then show ?case by (simp add: reads_def grows_refl)
next
  case (Cons x xs)
  have s: "reads (G x) (D x) (\<lambda>c' st'. J c' st' \<and> state_ok e obj_ok st' \<and> grows st st') (step x c st)"
    using Cons.prems(1) [of x c st] Cons.prems(2,3) by auto
  have "reads (G x \<and> (\<forall>x \<in> set xs. G x)) (D x \<and> (\<forall>x \<in> set xs. D x))
      (\<lambda>c' st'. J c' st' \<and> state_ok e obj_ok st' \<and> grows st st') (bind_outcome (step x c st) (\<lambda>(c', st'). each step xs c' st'))"
  proof (rule reads_bind [OF s])
    fix c' st'
    assume c': "J c' st' \<and> state_ok e obj_ok st' \<and> grows st st'"
    have "reads (\<forall>x \<in> set xs. G x) (\<forall>x \<in> set xs. D x)
        (\<lambda>c'' st''. J c'' st'' \<and> state_ok e obj_ok st'' \<and> grows st' st'') (each step xs c' st')"
      by (rule Cons.IH) (use Cons.prems(1) c' in auto)
    then have "reads (\<forall>x \<in> set xs. G x) (\<forall>x \<in> set xs. D x)
        (\<lambda>c'' st''. J c'' st'' \<and> state_ok e obj_ok st'' \<and> grows st st'') (each step xs c' st')"
      by (rule reads_mono) (use c' grows_trans in blast)
    then show "reads (\<forall>x \<in> set xs. G x) (\<forall>x \<in> set xs. D x)
        (\<lambda>c'' st''. J c'' st'' \<and> state_ok e obj_ok st'' \<and> grows st st'') (case (c', st') of (c', st') \<Rightarrow> each step xs c' st')"
      by simp
  qed
  then show ?case by simp
qed

text \<open>The invariant of a container that is being filled.\<close>

definition filling :: "engine \<Rightarrow> (obj \<Rightarrow> bool) \<Rightarrow> ('c \<Rightarrow> container) \<Rightarrow> php_driver_type \<Rightarrow> 'c \<Rightarrow> heap_state \<Rightarrow> bool" where
  "filling e obj_ok con ty c st \<longleftrightarrow>
     ct_inv e obj_ok (con c) \<and> ct_type (con c) = ty \<and> (\<forall>v \<in> set (ct_elems (con c)). value_ok (fst st) v)"

lemma filling_grows:
  "filling e obj_ok con ty c st \<Longrightarrow> grows st st' \<Longrightarrow> state_ok e obj_ok st \<Longrightarrow> filling e obj_ok con ty c st'"
  by (auto simp: filling_def intro: value_ok_grows)

lemma typed_object:
  assumes "type_wf ty" and "(c, type_type ty) \<in> {(''Set'', CASS_SET), (''Map'', CASS_MAP), (''Collection'', CASS_LIST),
     (''Tuple'', CASS_TUPLE), (''UserTypeValue'', CASS_UDT)}"
  shows "php_driver_validate_object (ZObject (OTyped c ty h)) ty = Ok True"
proof -
  have "php_driver_type_compare ty ty = 0" using type_compare_0(1) [OF assms(1) assms(1)] by simp
  then show ?thesis using assms(2) by (auto simp: php_driver_validate_object_def expecting_typed_def)
qed

lemma ct_kind: "(ct_class ct, type_type (ct_type ct)) \<in> {(''Set'', CASS_SET), (''Map'', CASS_MAP), (''Collection'', CASS_LIST),
     (''Tuple'', CASS_TUPLE), (''UserTypeValue'', CASS_UDT)}"
  by (cases ct) (simp_all add: map_type_def udt_type_def)

text \<open>The object of a filled container is put into the heap.\<close>

lemma put_object:
  assumes fil: "filling e obj_ok con ty c st'" and ok: "state_ok e obj_ok st'" and gr: "grows (fst st, Suc (snd st)) st'"
    and wf: "type_wf ty" and st: "state_ok e obj_ok st"
  shows "state_ok e obj_ok ((fst st')(snd st \<mapsto> con c), snd st') \<and> grows st ((fst st')(snd st \<mapsto> con c), snd st') \<and>
    read_as ty (object_of (snd st) (con c)) ((fst st')(snd st \<mapsto> con c), snd st')"
proof -
  obtain heap n where st': "st' = (heap, n)" by fastforce
  have free: "heap (snd st) = None" using gr st st' by (simp add: grows_def state_ok_def)
  have vok: "value_ok (heap(snd st \<mapsto> con c)) v" if "value_ok heap v" for v
  proof (cases "\<exists>c ty h. v = ZObject (OTyped c ty h)")
    case True
    then show ?thesis using that free by auto
  next
    case False
    then show ?thesis using that value_ok_flat [of v] by blast
  qed
  have "ct_inv e obj_ok (con c) \<and> type_wf (ct_type (con c)) \<and> (\<forall>v \<in> set (ct_elems (con c)). value_ok heap v)"
    using fil wf st' by (simp add: filling_def)
  then have "heap_inv e obj_ok (heap(snd st \<mapsto> con c))"
    using ok vok st' unfolding heap_inv_def state_ok_def by (simp add: heap_inv_def)
  then have "state_ok e obj_ok (heap(snd st \<mapsto> con c), n)" using ok gr st' by (auto simp: state_ok_def grows_def)
  moreover have "grows st (heap(snd st \<mapsto> con c), n)" using gr st' by (auto simp: grows_def)
  moreover have "read_as ty (object_of (snd st) (con c)) (heap(snd st \<mapsto> con c), n)"
    using fil typed_object [OF wf, of "ct_class (con c)"] ct_kind [of "con c"]
    by (simp add: read_as_def object_of_def filling_def)
  ultimately show ?thesis by (simp add: st')
qed

lemma filled_reads:
  assumes step: "\<And>x c st. x \<in> set xs \<Longrightarrow> filling e obj_ok con ty c st \<Longrightarrow> state_ok e obj_ok st \<Longrightarrow>
      reads (G x) (D x) (\<lambda>c' st'. filling e obj_ok con ty c' st' \<and> state_ok e obj_ok st' \<and> grows st st') (step x c st)"
    and new: "\<And>st. filling e obj_ok con ty new st" and wf: "type_wf ty" and st: "state_ok e obj_ok st"
  shows "reads (\<forall>x \<in> set xs. G x) (\<forall>x \<in> set xs. D x)
    (\<lambda>z st'. z \<noteq> ZNull \<and> read_as ty z st' \<and> state_ok e obj_ok st' \<and> grows st st') (filled con new step (Some xs) st)"
proof -
  let ?st = "(fst st, Suc (snd st))"
  have "state_ok e obj_ok ?st" using st by (simp add: state_ok_def)
  then have "reads (\<forall>x \<in> set xs. G x) (\<forall>x \<in> set xs. D x)
      (\<lambda>c st'. filling e obj_ok con ty c st' \<and> state_ok e obj_ok st' \<and> grows ?st st') (each step xs new ?st)"
    by (intro each_reads [where J = "filling e obj_ok con ty"] step new)
  then have "reads ((\<forall>x \<in> set xs. G x) \<and> True) ((\<forall>x \<in> set xs. D x) \<and> True)
      (\<lambda>z st'. z \<noteq> ZNull \<and> read_as ty z st' \<and> state_ok e obj_ok st' \<and> grows st st')
      (bind_outcome (each step xs new ?st) (\<lambda>(c, (heap, next_handle)).
         Ok (object_of (snd st) (con c), (heap(snd st \<mapsto> con c), next_handle))))"
  proof (rule reads_bind)
    fix c st'
    assume c: "filling e obj_ok con ty c st' \<and> state_ok e obj_ok st' \<and> grows ?st st'"
    obtain heap n where st': "st' = (heap, n)" by fastforce
    have "object_of (snd st) (con c) \<noteq> ZNull" by (simp add: object_of_def)
    with put_object [of e obj_ok con ty c st' st] c wf st
    show "reads True True (\<lambda>z st'. z \<noteq> ZNull \<and> read_as ty z st' \<and> state_ok e obj_ok st' \<and> grows st st')
        (case (c, st') of (c, (heap, next_handle)) \<Rightarrow>
           Ok (object_of (snd st) (con c), (heap(snd st \<mapsto> con c), next_handle)))"
      by (simp add: reads_Ok st')
  qed
  then show ?thesis by (simp add: filled_def)
qed

section \<open>Reading values\<close>

text \<open>
  Reading a value of the shape of its data type succeeds exactly if all of its scalars are readable,
  with a value of the type, and is undefined only for a number without bytes.
\<close>

definition cell_read :: "'v reader \<Rightarrow> cass_data_type \<Rightarrow> 'v \<Rightarrow> zval \<Rightarrow> heap_state \<Rightarrow> bool" where
  "cell_read rd dt v z st \<longleftrightarrow>
     (z = ZNull \<longleftrightarrow> rd_is_null rd v \<or> is_custom dt) \<and> read_as (php_driver_type_from_data_type rd dt) z st"

lemma cell_read_grows:
  "cell_read rd dt v z st \<Longrightarrow> grows st st' \<Longrightarrow> state_ok e obj_ok st \<Longrightarrow> cell_read rd dt v z st'"
  unfolding cell_read_def using read_as_grows by blast

definition readable :: "engine \<Rightarrow> (obj \<Rightarrow> bool) \<Rightarrow> 'v reader \<Rightarrow> cass_data_type \<Rightarrow> bool" where
  "readable e obj_ok rd dt \<longleftrightarrow>
     (\<forall>v st. shape_ok rd dt v \<longrightarrow> state_ok e obj_ok st \<longrightarrow>
        reads (column_ok rd dt v) (numbers_ok rd dt v)
          (\<lambda>z st'. cell_read rd dt v z st' \<and> state_ok e obj_ok st' \<and> grows st st') (php_driver_value e rd dt v st))"

lemma readableD:
  assumes "readable e obj_ok rd dt" and "shape_ok rd dt v" and "state_ok e obj_ok st"
  shows "reads (column_ok rd dt v) (numbers_ok rd dt v)
    (\<lambda>z st'. cell_read rd dt v z st' \<and> state_ok e obj_ok st' \<and> grows st st') (php_driver_value e rd dt v st)"
  using assms unfolding readable_def by blast

lemma got_cases: "got r f = (case r of Inl rc \<Rightarrow> Throw (CassException rc) | Inr x \<Rightarrow> f x)"
  by (cases r) simp_all

lemma read_scalar_reads:
  assumes "t \<in> snd ` set scalar_types"
  shows "reads (scalar_ok rd t v) (number_ok rd t v) (\<lambda>z st'. z \<noteq> ZNull \<and> read_as (TScalar t) z st' \<and> st' = st)
    (bind_outcome (read_scalar rd t v) (\<lambda>z. Ok (z, st)))"
proof -
  have t: "t \<notin> {CASS_LIST, CASS_MAP, CASS_SET, CASS_UDT, CASS_TUPLE, CASS_CUSTOM}"
    using assms by (auto simp: scalar_types_def)
  note defs = scalar_ok_def number_ok_def read_scalar_def got_cases import_number_def reads_def read_as_def
    php_driver_validate_object_def expecting_def instance_of_def
  show ?thesis
    using t by (cases t) (auto simp: defs neq_Nil_conv split: sum.splits prod.splits)
qed

lemma elem_ready: "read_as ty z st \<Longrightarrow> z \<noteq> ZNull \<Longrightarrow> z \<noteq> ZUndef \<and> (\<forall>h. z \<noteq> ZArray h) \<and> z_type z \<noteq> 1"
  using validate_shape [of z ty] z_type_null [of z] unfolding read_as_def by blast

lemma key_hashable:
  assumes "plain_type dt" and "read_as (php_driver_type_from_data_type rd dt) z st" and "z \<noteq> ZNull"
  shows "hashable obj_ok z"
proof -
  obtain t where dt: "dt = DScalar t" and t: "t \<in> {CASS_ASCII, CASS_TEXT, CASS_VARCHAR, CASS_INT, CASS_DOUBLE, CASS_BOOLEAN}"
    using assms(1) by (cases dt) auto
  have "php_driver_validate_object z (TScalar t) = Ok True" "z_type z \<noteq> 1"
    using assms(2) elem_ready [OF assms(2,3)] by (simp_all add: dt read_as_def)
  then show ?thesis using t
    by (cases z) (auto simp: php_driver_validate_object_def expecting_def instance_of_def split: if_splits)
qed

lemma plain_readable:
  assumes "plain_type dt" and "adds_types rd"
  shows "dt_wf dt" and "\<not> is_custom dt"
  using assms by (cases dt; auto simp: scalar_types_def)+

text \<open>An element is read and then put into the container.\<close>

abbreviation step_reads ::
  "engine \<Rightarrow> (obj \<Rightarrow> bool) \<Rightarrow> bool \<Rightarrow> bool \<Rightarrow> ('c \<Rightarrow> container) \<Rightarrow> php_driver_type \<Rightarrow> heap_state \<Rightarrow> ('c \<times> heap_state) outcome \<Rightarrow> bool" where
  "step_reads e obj_ok good fine con ty st r \<equiv>
     reads good fine (\<lambda>c' st'. filling e obj_ok con ty c' st' \<and> state_ok e obj_ok st' \<and> grows st st') r"

lemma list_step_reads:
  assumes r: "readable e obj_ok rd t" and x: "shape_ok rd t x" "\<not> rd_is_null rd x" "\<not> is_custom t"
    and c: "filling e obj_ok CtColl (TCollection (php_driver_type_from_data_type rd t)) c st" and st: "state_ok e obj_ok st"
  shows "step_reads e obj_ok (column_ok rd t x) (numbers_ok rd t x) CtColl (TCollection (php_driver_type_from_data_type rd t)) st
    (list_step (php_driver_value e rd t) x c st)"
  unfolding list_step_def
proof (rule reads_map [OF readableD [OF r x(1) st]])
  fix z st'
  assume z: "cell_read rd t x z st' \<and> state_ok e obj_ok st' \<and> grows st st'"
  then have z': "z \<noteq> ZNull" "read_as (php_driver_type_from_data_type rd t) z st'" using x by (simp_all add: cell_read_def)
  have c': "filling e obj_ok CtColl (TCollection (php_driver_type_from_data_type rd t)) c st'"
    by (rule filling_grows [OF c _ st]) (use z in blast)
  have inv: "collection_inv c" and ty: "coll_type c = php_driver_type_from_data_type rd t"
    using c by (simp_all add: filling_def)
  have "ht_inv (coll_values c)" using inv by (simp add: collection_inv_def)
  from add_all [OF this, of "[z]"]
  have add: "ht_inv (coll_values (php_driver_collection_add c z))" "coll_type (php_driver_collection_add c z) = coll_type c"
    "collection_values (php_driver_collection_add c z) = collection_values c @ [z]"
    by (simp_all add: Let_def collection_values_def ht_values_def)
  have "collection_inv (php_driver_collection_add c z)"
    using inv add z' ty by (simp add: collection_inv_def read_as_def)
  then have "filling e obj_ok CtColl (TCollection (php_driver_type_from_data_type rd t)) (php_driver_collection_add c z) st'"
    using c' z'(2) add by (auto simp: filling_def read_as_def)
  then show "\<exists>y. (case (z, st') of (z, st') \<Rightarrow> Ok (php_driver_collection_add c z, st')) = Ok (y, st') \<and>
      (filling e obj_ok CtColl (TCollection (php_driver_type_from_data_type rd t)) y st' \<and> state_ok e obj_ok st' \<and> grows st st')"
    using z by simp
qed

lemma set_step_reads:
  assumes e: "engine_lib e obj_ok"
    and r: "readable e obj_ok rd t" and x: "shape_ok rd t x" "\<not> rd_is_null rd x" "plain_type t" "\<not> is_custom t"
    and c: "filling e obj_ok CtSet (TSet (php_driver_type_from_data_type rd t)) c st" and st: "state_ok e obj_ok st"
  shows "step_reads e obj_ok (column_ok rd t x) (numbers_ok rd t x) CtSet (TSet (php_driver_type_from_data_type rd t)) st
    (set_step e (php_driver_value e rd t) x c st)"
  unfolding set_step_def
proof (rule reads_map [OF readableD [OF r x(1) st]])
  fix z st'
  assume z: "cell_read rd t x z st' \<and> state_ok e obj_ok st' \<and> grows st st'"
  then have z': "z \<noteq> ZNull" "read_as (php_driver_type_from_data_type rd t) z st'" using x by (simp_all add: cell_read_def)
  have c': "filling e obj_ok CtSet (TSet (php_driver_type_from_data_type rd t)) c st'"
    by (rule filling_grows [OF c _ st]) (use z in blast)
  have inv: "set_inv e obj_ok c" and ty: "set_type c = php_driver_type_from_data_type rd t"
    using c by (simp_all add: filling_def)
  have "php_driver_validate_object z (set_type c) = Ok True" using z'(2) ty by (simp add: read_as_def)
  from engine_lib.set_add_spec [OF e inv key_hashable [OF x(3) z'(2,1)] _ this] elem_ready [OF z'(2,1)]
  obtain s' where s': "php_driver_set_add e c z = Ok (s', True)" "set_inv e obj_ok s'" "set_type s' = set_type c"
    "set_values s' = set_values c \<or> set_values s' = set_values c @ [z]"
    by metis
  have "filling e obj_ok CtSet (TSet (php_driver_type_from_data_type rd t)) s' st'"
    using c' z'(2) s' by (auto simp: filling_def read_as_def)
  then show "\<exists>y. (case (z, st') of (z, st') \<Rightarrow> bind_outcome (php_driver_set_add e c z) (\<lambda>(c', _). Ok (c', st'))) = Ok (y, st') \<and>
      (filling e obj_ok CtSet (TSet (php_driver_type_from_data_type rd t)) y st' \<and> state_ok e obj_ok st' \<and> grows st st')"
    using z s' by simp
qed

lemma abs_put_elems: "set (map fst (abs_put e m k v)) \<subseteq> insert k (set (map fst m))"
    "set (map snd (abs_put e m k v)) \<subseteq> insert v (set (map snd m))"
  by (force simp: abs_put_def split: if_splits prod.splits)+

lemma map_put_filling:
  assumes e: "engine_lib e obj_ok" and k: "plain_type k"
    and c: "filling e obj_ok CtMap (TMap (php_driver_type_from_data_type rd k) (php_driver_type_from_data_type rd t)) c st"
    and z: "z \<noteq> ZNull" "read_as (php_driver_type_from_data_type rd k) z st"
    and w: "w \<noteq> ZNull" "read_as (php_driver_type_from_data_type rd t) w st"
  shows "\<exists>s'. php_driver_map_set e c z w = Ok (s', True) \<and>
    filling e obj_ok CtMap (TMap (php_driver_type_from_data_type rd k) (php_driver_type_from_data_type rd t)) s' st"
proof -
  have inv: "map_inv e obj_ok c" and ty: "map_key_type c = php_driver_type_from_data_type rd k"
      "map_value_type c = php_driver_type_from_data_type rd t"
    using c by (simp_all add: filling_def map_type_def)
  have "php_driver_validate_object z (map_key_type c) = Ok True" "php_driver_validate_object w (map_value_type c) = Ok True"
    using z(2) w(2) ty by (simp_all add: read_as_def)
  from engine_lib.map_set_spec [OF e inv key_hashable [OF k z(2,1)] _ this(1) _ this(2)]
    elem_ready [OF z(2,1)] elem_ready [OF w(2,1)]
  obtain s' where s': "php_driver_map_set e c z w = Ok (s', True)" "map_inv e obj_ok s'"
    "map_key_type s' = map_key_type c" "map_value_type s' = map_value_type c" "map_items s' = abs_put e (map_items c) z w"
    by auto
  have el: "set (ct_elems (CtMap s')) \<subseteq> {z, w} \<union> set (ct_elems (CtMap c))"
    using abs_put_elems [of e "map_items c" z w] s'(5) by auto
  have "\<forall>v \<in> set (ct_elems (CtMap s')). value_ok (fst st) v"
    using el c z(2) w(2) unfolding filling_def read_as_def by blast
  then show ?thesis using s' ty by (simp add: filling_def map_type_def)
qed

lemma map_step_reads:
  assumes e: "engine_lib e obj_ok"
    and r: "readable e obj_ok rd k" "readable e obj_ok rd t"
    and x: "shape_ok rd k (fst x)" "\<not> rd_is_null rd (fst x)" "plain_type k" "\<not> is_custom k"
    and y: "shape_ok rd t (snd x)" "\<not> rd_is_null rd (snd x)" "\<not> is_custom t"
    and c: "filling e obj_ok CtMap (TMap (php_driver_type_from_data_type rd k) (php_driver_type_from_data_type rd t)) c st"
    and st: "state_ok e obj_ok st"
  shows "step_reads e obj_ok (column_ok rd k (fst x) \<and> column_ok rd t (snd x)) (numbers_ok rd k (fst x) \<and> numbers_ok rd t (snd x))
    CtMap (TMap (php_driver_type_from_data_type rd k) (php_driver_type_from_data_type rd t)) st
    (map_step e (php_driver_value e rd k) (php_driver_value e rd t) x c st)"
  unfolding map_step_def
proof (rule reads_bind [OF readableD [OF r(1) x(1) st]], unfold prod.case)
  fix z st'
  assume z: "cell_read rd k (fst x) z st' \<and> state_ok e obj_ok st' \<and> grows st st'"
  then have z': "z \<noteq> ZNull" "read_as (php_driver_type_from_data_type rd k) z st'" using x by (simp_all add: cell_read_def)
  have st': "state_ok e obj_ok st'" using z by blast
  show "step_reads e obj_ok (column_ok rd t (snd x)) (numbers_ok rd t (snd x)) CtMap
      (TMap (php_driver_type_from_data_type rd k) (php_driver_type_from_data_type rd t)) st
      (bind_outcome (php_driver_value e rd t (snd x) st') (\<lambda>(v, st'').
         bind_outcome (php_driver_map_set e c z v) (\<lambda>(c', _). Ok (c', st''))))"
  proof (rule reads_map [OF readableD [OF r(2) y(1) st']])
    fix w st''
    assume w: "cell_read rd t (snd x) w st'' \<and> state_ok e obj_ok st'' \<and> grows st' st''"
    then have w': "w \<noteq> ZNull" "read_as (php_driver_type_from_data_type rd t) w st''" using y by (simp_all add: cell_read_def)
    have gr: "grows st st''" using z w grows_trans by blast
    have z'': "read_as (php_driver_type_from_data_type rd k) z st''" using read_as_grows [OF z'(2) _ st'] w by blast
    have c': "filling e obj_ok CtMap (TMap (php_driver_type_from_data_type rd k) (php_driver_type_from_data_type rd t)) c st''"
      by (rule filling_grows [OF c gr st])
    from map_put_filling [OF e x(3) c' z'(1) z'' w'] obtain s' where "php_driver_map_set e c z w = Ok (s', True)"
      "filling e obj_ok CtMap (TMap (php_driver_type_from_data_type rd k) (php_driver_type_from_data_type rd t)) s' st''"
      by blast
    then show "\<exists>y. (case (w, st'') of (v, st'') \<Rightarrow> bind_outcome (php_driver_map_set e c z v) (\<lambda>(c', _). Ok (c', st''))) = Ok (y, st'') \<and>
        (filling e obj_ok CtMap (TMap (php_driver_type_from_data_type rd k) (php_driver_type_from_data_type rd t)) y st'' \<and>
         state_ok e obj_ok st'' \<and> grows st st'')"
      using w gr by simp
  qed
qed

lemma tuple_step_reads:
  assumes r: "\<forall>t \<in> set ts. readable e obj_ok rd t" and len: "length ts < 2 ^ 31"
    and i: "fst x < length ts" and x: "shape_ok rd (ts ! fst x) (snd x)"
    and c: "filling e obj_ok CtTuple (TTuple (map (php_driver_type_from_data_type rd) ts)) c st" and st: "state_ok e obj_ok st"
    and null: "\<And>ok dt v. rd_is_null rd v \<Longrightarrow> column_with ok rd dt v"
  shows "step_reads e obj_ok (column_ok rd (ts ! fst x) (snd x)) (numbers_ok rd (ts ! fst x) (snd x)) CtTuple
    (TTuple (map (php_driver_type_from_data_type rd) ts)) st (tuple_step (rd_is_null rd) (map (php_driver_value e rd) ts) x c st)"
proof (cases "rd_is_null rd (snd x)")
  case True
  then show ?thesis using c st null by (simp add: tuple_step_def split_def grows_refl reads_Ok)
next
  case False
  obtain j v where jv: "x = (j, v)" by fastforce
  have "readable e obj_ok rd (ts ! j)" using r i jv by simp
  then have "reads (column_ok rd (ts ! j) v) (numbers_ok rd (ts ! j) v)
      (\<lambda>z st'. cell_read rd (ts ! j) v z st' \<and> state_ok e obj_ok st' \<and> grows st st') (php_driver_value e rd (ts ! j) v st)"
    by (rule readableD [OF _ _ st]) (use x jv in simp)
  then have "step_reads e obj_ok (column_ok rd (ts ! j) v) (numbers_ok rd (ts ! j) v) CtTuple
      (TTuple (map (php_driver_type_from_data_type rd) ts)) st
      (bind_outcome (php_driver_value e rd (ts ! j) v st) (\<lambda>(z, st'). Ok (php_driver_tuple_set c (of_nat j) z, st')))"
  proof (rule reads_map)
    fix z st'
    assume zz: "cell_read rd (ts ! j) v z st' \<and> state_ok e obj_ok st' \<and> grows st st'"
    then have z: "read_as (php_driver_type_from_data_type rd (ts ! j)) z st'" by (simp add: cell_read_def)
    have c': "filling e obj_ok CtTuple (TTuple (map (php_driver_type_from_data_type rd) ts)) c st'"
      by (rule filling_grows [OF c _ st]) (use zz in blast)
    have inv: "tuple_inv c" and ty: "tup_types c = map (php_driver_type_from_data_type rd) ts"
      using c by (simp_all add: filling_def)
    have s: "sint (of_nat j :: 64 word) = int j" by (rule sint_of_nat) (use i len jv in simp)
    have inv': "tuple_inv (php_driver_tuple_set c (of_nat j) z)"
      by (rule tuple_inv_put [OF inv s]) (use i jv ty z in \<open>simp_all add: read_as_def\<close>)
    have "set (ht_values (ht_update h k z)) \<subseteq> insert z (set (ht_values h))" for h :: "zval htable" and k
      by (auto simp: ht_values_def ht_update_def split: if_splits)
    then have "\<forall>v \<in> set (ct_elems (CtTuple (php_driver_tuple_set c (of_nat j) z))). value_ok (fst st') v"
      using c' z by (fastforce simp: filling_def read_as_def php_driver_tuple_set_def)
    then have "filling e obj_ok CtTuple (TTuple (map (php_driver_type_from_data_type rd) ts)) (php_driver_tuple_set c (of_nat j) z) st'"
      using inv' ty by (simp add: filling_def) (simp add: php_driver_tuple_set_def)
    then show "\<exists>y. (case (z, st') of (z, st') \<Rightarrow> Ok (php_driver_tuple_set c (of_nat j) z, st')) = Ok (y, st') \<and>
        (filling e obj_ok CtTuple (TTuple (map (php_driver_type_from_data_type rd) ts)) y st' \<and> state_ok e obj_ok st' \<and> grows st st')"
      using zz by simp
  qed
  then show ?thesis using False i jv by (simp add: tuple_step_def)
qed

lemma udt_step_reads:
  assumes r: "\<forall>(n, t) \<in> set fs. readable e obj_ok rd t" and dist: "distinct (map fst fs)"
    and i: "fst x < length fs" "fst (snd x) = fst (fs ! fst x)" and x: "shape_ok rd (snd (fs ! fst x)) (snd (snd x))"
    and c: "filling e obj_ok CtUdt (TUdt ks tn (map (\<lambda>(n, t). (n, php_driver_type_from_data_type rd t)) fs)) c st"
    and st: "state_ok e obj_ok st" and null: "\<And>ok dt v. rd_is_null rd v \<Longrightarrow> column_with ok rd dt v"
  shows "step_reads e obj_ok (column_ok rd (snd (fs ! fst x)) (snd (snd x))) (numbers_ok rd (snd (fs ! fst x)) (snd (snd x))) CtUdt
    (TUdt ks tn (map (\<lambda>(n, t). (n, php_driver_type_from_data_type rd t)) fs)) st
    (udt_step (rd_is_null rd) (map (\<lambda>(n, t). php_driver_value e rd t) fs) x c st)"
proof (cases "rd_is_null rd (snd (snd x))")
  case True
  then show ?thesis using c st null by (simp add: udt_step_def split_def grows_refl reads_Ok)
next
  case False
  obtain j n v where jv: "x = (j, n, v)" by (metis surj_pair)
  obtain t where t: "fs ! j = (n, t)" using i jv by (cases "fs ! j") simp
  then have mem: "(n, t) \<in> set fs" using i jv nth_mem [of j fs] by simp
  then have "readable e obj_ok rd t" using r by auto
  then have rd: "reads (column_ok rd t v) (numbers_ok rd t v)
      (\<lambda>z st'. cell_read rd t v z st' \<and> state_ok e obj_ok st' \<and> grows st st') (php_driver_value e rd t v st)"
    by (rule readableD [OF _ _ st]) (use x jv t in simp)
  let ?fs = "map (\<lambda>(n, t). (n, php_driver_type_from_data_type rd t)) fs"
  have "step_reads e obj_ok (column_ok rd t v) (numbers_ok rd t v) CtUdt (TUdt ks tn ?fs) st
      (bind_outcome (php_driver_value e rd t v st) (\<lambda>(z, st'). Ok (php_driver_user_type_value_set c n z, st')))"
    using rd
  proof (rule reads_map)
    fix z st'
    assume zz: "cell_read rd t v z st' \<and> state_ok e obj_ok st' \<and> grows st st'"
    then have z: "read_as (php_driver_type_from_data_type rd t) z st'" by (simp add: cell_read_def)
    have c': "filling e obj_ok CtUdt (TUdt ks tn ?fs) c st'" by (rule filling_grows [OF c _ st]) (use zz in blast)
    have inv: "udt_inv c" and ty: "udt_type c = TUdt ks tn ?fs"
      using c by (simp_all add: filling_def)
    have "udt_field c n = Some (php_driver_type_from_data_type rd t)"
      using ty mem dist by (force simp: udt_field_def udt_type_def comp_def split_def intro!: map_of_is_SomeI)
    then have inv': "udt_inv (php_driver_user_type_value_set c n z)"
      using udt_inv_put [OF inv] z by (simp add: read_as_def)
    have "set (ht_values (ht_update h k z)) \<subseteq> insert z (set (ht_values h))" for h :: "zval htable" and k
      by (auto simp: ht_values_def ht_update_def split: if_splits)
    then have "\<forall>v \<in> set (ct_elems (CtUdt (php_driver_user_type_value_set c n z))). value_ok (fst st') v"
      using c' z by (fastforce simp: filling_def read_as_def php_driver_user_type_value_set_def)
    then have "filling e obj_ok CtUdt (TUdt ks tn ?fs) (php_driver_user_type_value_set c n z) st'"
      using inv' ty by (simp add: filling_def) (simp add: php_driver_user_type_value_set_def udt_type_def)
    then show "\<exists>y. (case (z, st') of (z, st') \<Rightarrow> Ok (php_driver_user_type_value_set c n z, st')) = Ok (y, st') \<and>
        (filling e obj_ok CtUdt (TUdt ks tn ?fs) y st' \<and> state_ok e obj_ok st' \<and> grows st st')"
      using zz by simp
  qed
  then show ?thesis using False i jv t by (simp add: udt_step_def)
qed

lemma new_containers:
  "set_values (php_driver_set_new ty) = []" "set_type (php_driver_set_new ty) = ty"
  "map_items (php_driver_map_new kt vt) = []" "map_type (php_driver_map_new kt vt) = TMap kt vt"
  "collection_values (php_driver_collection_new ty) = []" "coll_type (php_driver_collection_new ty) = ty"
  "ht_values (tup_values (php_driver_tuple_new ts)) = []" "tup_types (php_driver_tuple_new ts) = ts"
  "ht_values (udt_values (php_driver_user_type_value_new ks tn fs)) = []"
  "udt_type (php_driver_user_type_value_new ks tn fs) = TUdt ks tn fs"
  by (simp_all add: set_values_def php_driver_set_new_def ut_keys_def hash_iter_def map_items_def php_driver_map_new_def map_type_def
      collection_values_def php_driver_collection_new_def php_driver_tuple_new_def php_driver_user_type_value_new_def udt_type_def
      ht_values_def ht_new_def)

lemma collection_inv_new: "collection_inv (php_driver_collection_new ty)"
  using new_containers(5) [of ty]
  by (simp add: collection_inv_def) (simp add: php_driver_collection_new_def)

lemma new_filling:
  "filling e obj_ok CtColl (TCollection ty) (php_driver_collection_new ty) st"
  "filling e obj_ok CtSet (TSet ty) (php_driver_set_new ty) st"
  "filling e obj_ok CtMap (TMap kt vt) (php_driver_map_new kt vt) st"
  "filling e obj_ok CtTuple (TTuple ts) (php_driver_tuple_new ts) st"
  "distinct (map fst fs) \<Longrightarrow> filling e obj_ok CtUdt (TUdt ks tn fs) (php_driver_user_type_value_new ks tn fs) st"
  by (simp_all add: filling_def new_containers set_inv_new map_inv_new collection_inv_new tuple_inv_new udt_inv_new)

lemma column_with_null: "rd_is_null rd v \<Longrightarrow> column_with ok rd dt v"
  by (cases dt) simp_all

text \<open>Reading a value that is not scalar: the null value is read as such, any other fills a container.\<close>

lemma readable_filled:
  assumes val: "php_driver_value e rd dt = unless_null rd (\<lambda>v. filled con new step (items v))" and nc: "\<not> is_custom dt"
    and ty: "php_driver_type_from_data_type rd dt = ty" "type_wf ty"
    and new: "\<And>st. filling e obj_ok con ty new st"
    and items: "\<And>v. shape_ok rd dt v \<Longrightarrow> \<not> rd_is_null rd v \<Longrightarrow> \<exists>xs. items v = Some xs \<and> (\<forall>x \<in> set xs. P x) \<and>
      column_ok rd dt v = (\<forall>x \<in> set xs. G x) \<and> numbers_ok rd dt v = (\<forall>x \<in> set xs. D x)"
    and step: "\<And>x c st. P x \<Longrightarrow> filling e obj_ok con ty c st \<Longrightarrow> state_ok e obj_ok st \<Longrightarrow>
      step_reads e obj_ok (G x) (D x) con ty st (step x c st)"
  shows "readable e obj_ok rd dt"
  unfolding readable_def
proof (intro allI impI)
  fix v st
  assume v: "shape_ok rd dt v" and st: "state_ok e obj_ok st"
  show "reads (column_ok rd dt v) (numbers_ok rd dt v)
      (\<lambda>z st'. cell_read rd dt v z st' \<and> state_ok e obj_ok st' \<and> grows st st') (php_driver_value e rd dt v st)"
  proof (cases "rd_is_null rd v")
    case True
    then show ?thesis
      using st by (simp add: val unless_null_def read_as_null grows_refl reads_Ok cell_read_def column_with_null)
  next
    case False
    then obtain xs where xs: "items v = Some xs" "\<forall>x \<in> set xs. P x" "column_ok rd dt v = (\<forall>x \<in> set xs. G x)"
      "numbers_ok rd dt v = (\<forall>x \<in> set xs. D x)" using items v by blast
    have "reads (\<forall>x \<in> set xs. G x) (\<forall>x \<in> set xs. D x)
        (\<lambda>z st'. z \<noteq> ZNull \<and> read_as ty z st' \<and> state_ok e obj_ok st' \<and> grows st st') (filled con new step (Some xs) st)"
      by (rule filled_reads [OF _ new ty(2) st], rule step) (use xs(2) in auto)
    then have "reads (column_ok rd dt v) (numbers_ok rd dt v)
        (\<lambda>z st'. z \<noteq> ZNull \<and> read_as ty z st' \<and> state_ok e obj_ok st' \<and> grows st st') (filled con new step (Some xs) st)"
      by (simp only: xs(3,4))
    then have "reads (column_ok rd dt v) (numbers_ok rd dt v)
        (\<lambda>z st'. cell_read rd dt v z st' \<and> state_ok e obj_ok st' \<and> grows st st') (filled con new step (Some xs) st)"
      by (rule reads_mono) (use False nc in \<open>simp add: cell_read_def ty(1)\<close>)
    then show ?thesis using False by (simp add: val unless_null_def xs(1))
  qed
qed

lemma all_readable:
  assumes e: "engine_lib e obj_ok" and rd: "adds_types rd"
  shows "dt_wf dt \<Longrightarrow> keys_plain dt \<Longrightarrow> readable e obj_ok rd dt"
proof (induction dt)
  case (DScalar t)
  have t: "t \<in> snd ` set scalar_types" using DScalar by simp
  show ?case unfolding readable_def
  proof (intro allI impI)
    fix v st
    assume v: "shape_ok rd (DScalar t) v" and st: "state_ok e obj_ok st"
    show "reads (column_ok rd (DScalar t) v) (numbers_ok rd (DScalar t) v)
        (\<lambda>z st'. cell_read rd (DScalar t) v z st' \<and> state_ok e obj_ok st' \<and> grows st st') (php_driver_value e rd (DScalar t) v st)"
    proof (cases "rd_is_null rd v")
      case True
      then show ?thesis using st by (simp add: unless_null_def read_as_null grows_refl reads_Ok cell_read_def)
    next
      case False
      have "reads (scalar_ok rd t v) (number_ok rd t v)
          (\<lambda>z st'. cell_read rd (DScalar t) v z st' \<and> state_ok e obj_ok st' \<and> grows st st')
          (bind_outcome (read_scalar rd t v) (\<lambda>z. Ok (z, st)))"
        by (rule reads_mono [OF read_scalar_reads [OF t]]) (use False st in \<open>auto simp: cell_read_def grows_refl\<close>)
      then show ?thesis using False by (simp add: unless_null_def)
    qed
  qed
next
  case (DCustom c)
  then show ?case by (simp add: readable_def read_as_null grows_refl reads_Ok cell_read_def)
next
  case (DList t)
  then have r: "readable e obj_ok rd t" and nc: "\<not> is_custom t" by simp_all
  have wf: "type_wf (TCollection (php_driver_type_from_data_type rd t))" using DList.prems from_data_type_wf [OF rd, of t] by simp
  show ?case
    by (rule readable_filled [where P = "\<lambda>x. \<not> rd_is_null rd x \<and> shape_ok rd t x" and G = "column_ok rd t" and D = "numbers_ok rd t",
          OF php_driver_value.simps(3) _ php_driver_type_from_data_type.simps(3) wf new_filling(1)])
      (use list_step_reads [OF r _ _ nc] in auto)
next
  case (DSet t)
  then have p: "plain_type t" by simp
  have "keys_plain t" using p by (cases t) simp_all
  then have r: "readable e obj_ok rd t" and nc: "\<not> is_custom t" using DSet by simp_all
  have wf: "type_wf (TSet (php_driver_type_from_data_type rd t))" using DSet.prems from_data_type_wf [OF rd, of t] by simp
  show ?case
    by (rule readable_filled [where P = "\<lambda>x. \<not> rd_is_null rd x \<and> shape_ok rd t x" and G = "column_ok rd t" and D = "numbers_ok rd t",
          OF php_driver_value.simps(5) _ php_driver_type_from_data_type.simps(5) wf new_filling(2)])
      (use set_step_reads [OF e r _ _ p nc] in auto)
next
  case (DMap k t)
  then have p: "plain_type k" by simp
  have "keys_plain k" using p by (cases k) simp_all
  then have r: "readable e obj_ok rd k" "readable e obj_ok rd t" and nc: "\<not> is_custom k" "\<not> is_custom t"
    using DMap by simp_all
  have wf: "type_wf (TMap (php_driver_type_from_data_type rd k) (php_driver_type_from_data_type rd t))"
    using DMap.prems from_data_type_wf [OF rd, of k] from_data_type_wf [OF rd, of t] by simp
  show ?case
    by (rule readable_filled [where P = "\<lambda>(x, y). \<not> rd_is_null rd x \<and> shape_ok rd k x \<and> \<not> rd_is_null rd y \<and> shape_ok rd t y"
          and G = "\<lambda>x. column_ok rd k (fst x) \<and> column_ok rd t (snd x)"
          and D = "\<lambda>x. numbers_ok rd k (fst x) \<and> numbers_ok rd t (snd x)",
          OF php_driver_value.simps(4) _ php_driver_type_from_data_type.simps(4) wf new_filling(3)])
      (use map_step_reads [OF e r _ _ p nc(1) _ _ nc(2)] in fastforce)+
next
  case (DTuple ts)
  have r: "\<forall>t \<in> set ts. readable e obj_ok rd t" using DTuple by simp
  have wf: "type_wf (TTuple (map (php_driver_type_from_data_type rd) ts))"
    using from_data_type_wf [OF rd DTuple.prems(1)] from_data_type_tuple [OF rd, of ts] by simp
  have new: "filling e obj_ok CtTuple (TTuple (map (php_driver_type_from_data_type rd) ts))
      (new_tuple (php_driver_type_from_data_type rd (DTuple ts))) st" for st
    using new_filling(4) by (simp only: from_data_type_tuple [OF rd] new_tuple_def php_driver_type.case)
  show ?case
  proof (rule readable_filled [where P = "\<lambda>x. length ts < 2 ^ 31 \<and> fst x < length ts \<and> shape_ok rd (ts ! fst x) (snd x)"
          and G = "\<lambda>x. column_ok rd (ts ! fst x) (snd x)" and D = "\<lambda>x. numbers_ok rd (ts ! fst x) (snd x)",
          OF php_driver_value.simps(6) _ from_data_type_tuple [OF rd] wf new])
    fix v
    assume v: "shape_ok rd (DTuple ts) v" "\<not> rd_is_null rd v"
    then obtain vs where vs: "rd_items rd v = Some vs" "length vs \<le> length ts" "length ts < 2 ^ 31" by auto
    have all: "column_with ok rd (DTuple ts) v \<longleftrightarrow> (\<forall>x \<in> set (enumerate 0 vs). column_with ok rd (ts ! fst x) (snd x))" for ok
      using v(2) vs zip_enumerate [OF vs(2), where P = "\<lambda>f x. f x" and Q = "column_with ok rd"] by (simp add: split_def)
    have "\<forall>x \<in> set (enumerate 0 vs). length ts < 2 ^ 31 \<and> fst x < length ts \<and> shape_ok rd (ts ! fst x) (snd x)"
      using v(1) vs(2,3) unfolding all by (auto simp: in_set_enumerate_eq)
    then show "\<exists>xs. map_option (enumerate 0) (rd_items rd v) = Some xs \<and>
        (\<forall>x \<in> set xs. length ts < 2 ^ 31 \<and> fst x < length ts \<and> shape_ok rd (ts ! fst x) (snd x)) \<and>
        column_ok rd (DTuple ts) v = (\<forall>x \<in> set xs. column_ok rd (ts ! fst x) (snd x)) \<and>
        numbers_ok rd (DTuple ts) v = (\<forall>x \<in> set xs. numbers_ok rd (ts ! fst x) (snd x))"
      unfolding all by (simp add: vs(1))
  next
    fix x c st
    assume x: "length ts < 2 ^ 31 \<and> fst x < length ts \<and> shape_ok rd (ts ! fst x) (snd x)"
      and c: "filling e obj_ok CtTuple (TTuple (map (php_driver_type_from_data_type rd) ts)) c st" and st: "state_ok e obj_ok st"
    show "step_reads e obj_ok (column_ok rd (ts ! fst x) (snd x)) (numbers_ok rd (ts ! fst x) (snd x)) CtTuple
        (TTuple (map (php_driver_type_from_data_type rd) ts)) st (tuple_step (rd_is_null rd) (map (php_driver_value e rd) ts) x c st)"
      using x by (intro tuple_step_reads [OF r _ _ _ c st column_with_null]) simp_all
  qed simp
next
  case (DUdt ks tn fs)
  have r: "\<forall>(n, t) \<in> set fs. readable e obj_ok rd t"
  proof clarify
    fix n t
    assume "(n, t) \<in> set fs"
    then show "readable e obj_ok rd t" by (intro DUdt.IH [of "(n, t)" t]) (use DUdt.prems in auto)
  qed
  have d: "distinct (map fst fs)" using DUdt.prems by simp
  let ?fs = "map (\<lambda>(n, t). (n, php_driver_type_from_data_type rd t)) fs"
  have wf: "type_wf (TUdt (Some (cstr ks)) (Some (cstr tn)) ?fs)"
    using from_data_type_wf [OF rd DUdt.prems(1)] from_data_type_udt [OF rd d, of ks tn] by simp
  have d': "distinct (map fst ?fs)" using d by (simp add: comp_def split_def)
  have new: "filling e obj_ok CtUdt (TUdt (Some (cstr ks)) (Some (cstr tn)) ?fs)
      (new_udt (php_driver_type_from_data_type rd (DUdt ks tn fs))) st" for st
    using new_filling(5) [OF d'] by (simp only: from_data_type_udt [OF rd d] new_udt_def php_driver_type.case)
  show ?case
  proof (rule readable_filled [where P = "\<lambda>x. fst x < length fs \<and> fst (snd x) = fst (fs ! fst x) \<and>
          shape_ok rd (snd (fs ! fst x)) (snd (snd x))"
          and G = "\<lambda>x. column_ok rd (snd (fs ! fst x)) (snd (snd x))" and D = "\<lambda>x. numbers_ok rd (snd (fs ! fst x)) (snd (snd x))",
          OF php_driver_value.simps(7) _ from_data_type_udt [OF rd d] wf new])
    fix v
    assume v: "shape_ok rd (DUdt ks tn fs) v" "\<not> rd_is_null rd v"
    then obtain vs where vs: "rd_fields rd v = Some vs" "length vs \<le> length fs" "map fst vs = take (length vs) (map fst fs)"
      by auto
    have all: "column_with ok rd (DUdt ks tn fs) v \<longleftrightarrow>
        (\<forall>x \<in> set (enumerate 0 vs). column_with ok rd (snd (fs ! fst x)) (snd (snd x)))" for ok
      using v(2) vs zip_enumerate [OF vs(2), where P = "\<lambda>f (n, x). f x" and Q = "\<lambda>(n, t). column_with ok rd t"] by (simp add: split_def)
    have "fst x < length fs \<and> fst (snd x) = fst (fs ! fst x)" if x: "x \<in> set (enumerate 0 vs)" for x
    proof -
      obtain i where i: "i < length vs" "x = (i, vs ! i)"
        using x by (auto simp: in_set_enumerate_eq intro!: exI [where x = "fst x"] prod_eqI)
      have "fst (vs ! i) = fst (fs ! i)" using i(1) vs(2) arg_cong [OF vs(3), of "\<lambda>xs. xs ! i"] by simp
      then show ?thesis using i vs(2) by simp
    qed
    then show "\<exists>xs. map_option (enumerate 0) (rd_fields rd v) = Some xs \<and>
        (\<forall>x \<in> set xs. fst x < length fs \<and> fst (snd x) = fst (fs ! fst x) \<and> shape_ok rd (snd (fs ! fst x)) (snd (snd x))) \<and>
        column_ok rd (DUdt ks tn fs) v = (\<forall>x \<in> set xs. column_ok rd (snd (fs ! fst x)) (snd (snd x))) \<and>
        numbers_ok rd (DUdt ks tn fs) v = (\<forall>x \<in> set xs. numbers_ok rd (snd (fs ! fst x)) (snd (snd x)))"
      using v(1) unfolding all by (simp add: vs(1))
  next
    fix x c st
    assume x: "fst x < length fs \<and> fst (snd x) = fst (fs ! fst x) \<and> shape_ok rd (snd (fs ! fst x)) (snd (snd x))"
      and c: "filling e obj_ok CtUdt (TUdt (Some (cstr ks)) (Some (cstr tn)) ?fs) c st" and st: "state_ok e obj_ok st"
    show "step_reads e obj_ok (column_ok rd (snd (fs ! fst x)) (snd (snd x))) (numbers_ok rd (snd (fs ! fst x)) (snd (snd x))) CtUdt
        (TUdt (Some (cstr ks)) (Some (cstr tn)) ?fs) st
        (udt_step (rd_is_null rd) (map (\<lambda>(n, t). php_driver_value e rd t) fs) x c st)"
      using x by (intro udt_step_reads [OF r d _ _ _ c st column_with_null]) simp_all
  qed simp
qed

section \<open>Reading rows\<close>

definition column_key :: "string \<times> cass_data_type \<Rightarrow> zkey" where
  "column_key column = symtable_key (cstr (fst column))"

text \<open>A column's value that is now in the heap, and the table that values under their keys make, the last one of a key staying.\<close>

definition cell_value :: "engine \<Rightarrow> (obj \<Rightarrow> bool) \<Rightarrow> 'v reader \<Rightarrow> heap_state \<Rightarrow> (string \<times> cass_data_type) \<times> 'v \<Rightarrow> zval \<Rightarrow> bool" where
  "cell_value e obj_ok rd st cell z \<longleftrightarrow>
     cell_read rd (snd (fst cell)) (snd cell) z st \<and>
     (\<exists>st1 st2. state_ok e obj_ok st1 \<and> php_driver_value e rd (snd (fst cell)) (snd cell) st1 = Ok (z, st2) \<and> grows st2 st)"

lemma cell_value_grows:
  "cell_value e obj_ok rd st cell z \<Longrightarrow> grows st st' \<Longrightarrow> state_ok e obj_ok st \<Longrightarrow> cell_value e obj_ok rd st' cell z"
  unfolding cell_value_def by (intro conjI) (erule conjE, erule (2) cell_read_grows, metis grows_trans)

definition put_all :: "zval htable \<Rightarrow> (zkey \<times> zval) list \<Rightarrow> zval htable" where
  "put_all row xs = fold (\<lambda>(k, z) row. ht_update row k z) xs row"

lemma put_all_Cons: "put_all row ((k, z) # xs) = put_all (ht_update row k z) xs"
  by (simp add: put_all_def)

lemma put_all_find:
  "ht_find (put_all row xs) k = (case map_of (rev xs) k of Some z \<Rightarrow> Some z | None \<Rightarrow> ht_find row k)"
proof (induction xs arbitrary: row)
  case (Cons x xs)
  obtain k' z where x: "x = (k', z)" by fastforce
  show ?case by (simp add: x put_all_Cons Cons.IH ht_find_update map_add_def split: option.splits)
qed (simp add: put_all_def)

lemma put_all_last:
  assumes "j < length keys" and "length zs = length keys" and "\<forall>i. j < i \<and> i < length keys \<longrightarrow> keys ! i \<noteq> keys ! j"
  shows "ht_find (put_all row (zip keys zs)) (keys ! j) = Some (zs ! j)"
  using assms
proof (induction keys zs arbitrary: row j rule: list_induct2')
  case (4 k keys z zs)
  show ?case
  proof (cases j)
    case 0
    have "k \<notin> set keys"
    proof
      assume "k \<in> set keys"
      then obtain i where "i < length keys" "keys ! i = k" by (auto simp: in_set_conv_nth)
      then show False using "4.prems"(3) 0 by (auto dest!: spec [of _ "Suc i"])
    qed
    then have "k \<notin> fst ` set (zip keys zs)" by (auto dest: set_zip_leftD)
    then have "map_of (rev (zip keys zs)) k = None" by (simp add: map_of_eq_None_iff)
    then show ?thesis using 0 by (simp add: put_all_Cons put_all_find ht_find_update)
  next
    case (Suc i)
    have "\<forall>l. i < l \<and> l < length keys \<longrightarrow> keys ! l \<noteq> keys ! i"
    proof (intro allI impI)
      fix l
      assume "i < l \<and> l < length keys"
      then show "keys ! l \<noteq> keys ! i" using "4.prems"(3) [rule_format, of "Suc l"] Suc by simp
    qed
    then have "ht_find (put_all (ht_update row k z) (zip keys zs)) (keys ! i) = Some (zs ! i)"
      using "4.IH" "4.prems"(1,2) Suc by simp
    then show ?thesis using Suc by (simp add: put_all_Cons)
  qed
qed simp_all

lemma put_all_keys:
  assumes "ht_inv row" and "length zs = length keys"
  shows "ht_inv (put_all row (zip keys zs)) \<and>
    fst ` set (ht_data (put_all row (zip keys zs))) = fst ` set (ht_data row) \<union> set keys"
  using assms
proof (induction keys zs arbitrary: row rule: list_induct2')
  case (4 k keys z zs)
  have "fst ` set (ht_data (ht_update row k z)) = insert k (fst ` set (ht_data row))"
    by (force simp: ht_update_def)
  moreover have "ht_inv (ht_update row k z)" by (rule ht.upd_inv [OF "4.prems"(1)])
  ultimately show ?case using "4.IH" [of "ht_update row k z"] "4.prems"(2) by (simp add: put_all_Cons)
qed (simp_all add: put_all_def)

lemma row_reads:
  assumes e: "engine_lib e obj_ok" and rd: "adds_types rd"
    and cells: "\<forall>(column, v) \<in> set cells. dt_wf (snd column) \<and> keys_plain (snd column) \<and> shape_ok rd (snd column) v"
    and st: "state_ok e obj_ok st"
  shows "reads (\<forall>(column, v) \<in> set cells. column_ok rd (snd column) v) (\<forall>(column, v) \<in> set cells. numbers_ok rd (snd column) v)
    (\<lambda>row' st'. (\<exists>zs. row' = put_all row (zip (map (\<lambda>c. column_key (fst c)) cells) zs) \<and>
        list_all2 (cell_value e obj_ok rd st') cells zs) \<and> state_ok e obj_ok st' \<and> grows st st')
    (each (row_step e rd) cells row st)"
  using cells st
proof (induction cells arbitrary: row st)
  case Nil
  then show ?case by (simp add: grows_refl reads_Ok put_all_def)
next
  case (Cons cell cells)
  obtain column v where cell: "cell = (column, v)" by fastforce
  have wf: "dt_wf (snd column)" "keys_plain (snd column)" and ok: "shape_ok rd (snd column) v" using Cons.prems(1) cell by auto
  let ?row = "\<lambda>z. ht_update row (column_key column) z"
  let ?R = "\<lambda>cells row st row' st'. (\<exists>zs. row' = put_all row (zip (map (\<lambda>c. column_key (fst c)) cells) zs) \<and>
        list_all2 (cell_value e obj_ok rd st') cells zs) \<and> state_ok e obj_ok st' \<and> grows st st'"
  note val = readableD [OF all_readable [OF e rd wf] ok Cons.prems(2)]
  have one: "reads (column_ok rd (snd column) v) (numbers_ok rd (snd column) v)
      (\<lambda>row' st'. (\<exists>z. row' = ?row z \<and> cell_value e obj_ok rd st' cell z) \<and> state_ok e obj_ok st' \<and> grows st st') (row_step e rd cell row st)"
  proof (cases "php_driver_value e rd (snd column) v st")
    case (Ok x)
    obtain z st' where x: "x = (z, st')" by (cases x)
    have r: "column_ok rd (snd column) v" "cell_read rd (snd column) v z st'" "state_ok e obj_ok st'" "grows st st'"
      using val Ok x by (simp_all add: reads_Ok)
    then have "cell_value e obj_ok rd st' cell z"
      using Cons.prems(2) Ok grows_refl [of st'] unfolding cell_value_def cell x fst_conv snd_conv by blast
    then show ?thesis using r Ok x cell by (auto simp: row_step_def column_key_def reads_Ok)
  qed (use val cell in \<open>simp_all add: row_step_def reads_def\<close>)
  have "reads (column_ok rd (snd column) v \<and> (\<forall>(column, v) \<in> set cells. column_ok rd (snd column) v))
      (numbers_ok rd (snd column) v \<and> (\<forall>(column, v) \<in> set cells. numbers_ok rd (snd column) v))
      (?R (cell # cells) row st) (bind_outcome (row_step e rd cell row st) (\<lambda>(row', st'). each (row_step e rd) cells row' st'))"
  proof (rule reads_bind [OF one], unfold prod.case)
    fix row1 st1
    assume s: "(\<exists>z. row1 = ?row z \<and> cell_value e obj_ok rd st1 cell z) \<and> state_ok e obj_ok st1 \<and> grows st st1"
    then obtain z where z: "row1 = ?row z" "cell_value e obj_ok rd st1 cell z" by blast
    have "reads (\<forall>(column, v) \<in> set cells. column_ok rd (snd column) v) (\<forall>(column, v) \<in> set cells. numbers_ok rd (snd column) v)
        (?R cells row1 st1) (each (row_step e rd) cells row1 st1)"
      by (rule Cons.IH) (use Cons.prems(1) s in auto)
    then show "reads (\<forall>(column, v) \<in> set cells. column_ok rd (snd column) v) (\<forall>(column, v) \<in> set cells. numbers_ok rd (snd column) v)
        (?R (cell # cells) row st) (each (row_step e rd) cells row1 st1)"
    proof (rule reads_mono)
      fix row' st'
      assume "?R cells row1 st1 row' st'"
      then obtain zs where zs: "row' = put_all row1 (zip (map (\<lambda>c. column_key (fst c)) cells) zs)"
        "list_all2 (cell_value e obj_ok rd st') cells zs" "state_ok e obj_ok st'" "grows st1 st'" by blast
      have "row' = put_all row (zip (map (\<lambda>c. column_key (fst c)) (cell # cells)) (z # zs))"
        using zs(1) z(1) cell by (simp add: put_all_Cons)
      moreover have "list_all2 (cell_value e obj_ok rd st') (cell # cells) (z # zs)"
        using cell_value_grows [OF z(2) zs(4)] s zs(2) by simp
      moreover have "grows st st'" using s zs(4) grows_trans by blast
      ultimately show "?R (cell # cells) row st row' st'" using zs(3) by blast
    qed
  qed
  then show ?case by (simp add: cell)
qed

definition row_read ::
  "engine \<Rightarrow> (obj \<Rightarrow> bool) \<Rightarrow> 'v reader \<Rightarrow> (string \<times> cass_data_type) list \<Rightarrow> heap_state \<Rightarrow> 'v list \<Rightarrow> zval htable \<Rightarrow> bool" where
  "row_read e obj_ok rd columns st values row \<longleftrightarrow>
     (\<exists>zs. row = put_all ht_new (zip (map column_key columns) zs) \<and>
        list_all2 (cell_value e obj_ok rd st) (zip columns values) zs)"

lemma row_read_grows:
  "row_read e obj_ok rd columns st vs row \<Longrightarrow> grows st st' \<Longrightarrow> state_ok e obj_ok st \<Longrightarrow> row_read e obj_ok rd columns st' vs row"
  unfolding row_read_def by (elim exE conjE, intro exI conjI) (assumption, erule list_all2_mono, erule cell_value_grows)

definition row_all :: "('t \<Rightarrow> 'v \<Rightarrow> bool) \<Rightarrow> (string \<times> 't) list \<Rightarrow> 'v list \<Rightarrow> bool" where
  "row_all ok columns vs \<longleftrightarrow> list_all2 (\<lambda>(_, dt) v. ok dt v) columns vs"

lemma row_all_zip:
  "length columns = length vs \<Longrightarrow> row_all ok columns vs \<longleftrightarrow> (\<forall>(column, v) \<in> set (zip columns vs). ok (snd column) v)"
  by (auto simp: row_all_def list_all2_iff split_def)

lemma rows_read:
  assumes e: "engine_lib e obj_ok" and rd: "adds_types rd"
    and wf: "\<forall>(n, t) \<in> set columns. dt_wf t \<and> keys_plain t"
    and vals: "\<forall>vs \<in> set vals. row_all (shape_ok rd) columns vs" and st: "state_ok e obj_ok st"
  shows "reads (\<forall>vs \<in> set vals. row_all (column_ok rd) columns vs) (\<forall>vs \<in> set vals. row_all (numbers_ok rd) columns vs)
    (\<lambda>rows' st'. (\<exists>new. rows' = rows @ new \<and> list_all2 (row_read e obj_ok rd columns st') vals new) \<and>
       state_ok e obj_ok st' \<and> grows st st')
    (each (rows_step e rd columns) vals rows st)"
  using vals st
proof (induction vals arbitrary: rows st)
  case Nil
  then show ?case by (simp add: grows_refl reads_Ok)
next
  case (Cons vs vals)
  let ?R = "\<lambda>vals rows st rows' st'. (\<exists>new. rows' = rows @ new \<and> list_all2 (row_read e obj_ok rd columns st') vals new) \<and>
       state_ok e obj_ok st' \<and> grows st st'"
  have v: "row_all (shape_ok rd) columns vs" using Cons.prems(1) by simp
  then have len: "length columns = length vs" by (simp add: row_all_def list_all2_lengthD)
  have "\<forall>(column, v) \<in> set (zip columns vs). dt_wf (snd column) \<and> keys_plain (snd column) \<and> shape_ok rd (snd column) v"
    using v wf row_all_zip [OF len, of "shape_ok rd"] by (fastforce dest: set_zip_leftD)
  from row_reads [OF e rd this Cons.prems(2), of ht_new]
  have row: "reads (row_all (column_ok rd) columns vs) (row_all (numbers_ok rd) columns vs)
      (\<lambda>row st'. row_read e obj_ok rd columns st' vs row \<and> state_ok e obj_ok st' \<and> grows st st')
      (each (row_step e rd) (zip columns vs) ht_new st)"
    using map_fst_zip [OF len] map_map [of column_key fst "zip columns vs"]
    unfolding row_all_zip [OF len] row_read_def comp_def by metis
  have one: "reads (row_all (column_ok rd) columns vs) (row_all (numbers_ok rd) columns vs) (?R [vs] rows st) (rows_step e rd columns vs rows st)"
    unfolding rows_step_def by (rule reads_map [OF row]) auto
  have "reads (row_all (column_ok rd) columns vs \<and> (\<forall>vs \<in> set vals. row_all (column_ok rd) columns vs))
      (row_all (numbers_ok rd) columns vs \<and> (\<forall>vs \<in> set vals. row_all (numbers_ok rd) columns vs))
      (?R (vs # vals) rows st) (bind_outcome (rows_step e rd columns vs rows st) (\<lambda>(rows', st'). each (rows_step e rd columns) vals rows' st'))"
  proof (rule reads_bind [OF one], unfold prod.case)
    fix rows1 st1
    assume "?R [vs] rows st rows1 st1"
    then obtain row where r: "rows1 = rows @ [row]" "row_read e obj_ok rd columns st1 vs row" "state_ok e obj_ok st1" "grows st st1"
      by (auto simp: list_all2_Cons1)
    have "reads (\<forall>vs \<in> set vals. row_all (column_ok rd) columns vs) (\<forall>vs \<in> set vals. row_all (numbers_ok rd) columns vs)
        (?R vals rows1 st1) (each (rows_step e rd columns) vals rows1 st1)"
      by (rule Cons.IH) (use Cons.prems(1) r(3) in simp_all)
    then show "reads (\<forall>vs \<in> set vals. row_all (column_ok rd) columns vs) (\<forall>vs \<in> set vals. row_all (numbers_ok rd) columns vs)
        (?R (vs # vals) rows st) (each (rows_step e rd columns) vals rows1 st1)"
    proof (rule reads_mono)
      fix rows' st'
      assume "?R vals rows1 st1 rows' st'"
      then obtain new where n: "rows' = rows1 @ new" "list_all2 (row_read e obj_ok rd columns st') vals new" "state_ok e obj_ok st'" "grows st1 st'"
        by blast
      have "rows' = rows @ (row # new)" using n(1) r(1) by simp
      moreover have "list_all2 (row_read e obj_ok rd columns st') (vs # vals) (row # new)"
        using n(2) row_read_grows [OF r(2) n(4) r(3)] by simp
      ultimately show "?R (vs # vals) rows st rows' st'" using n(3) grows_trans [OF r(4) n(4)] by blast
    qed
  qed
  then show ?case by simp
qed

text \<open>The keys and the entries of a row that has been read.\<close>

lemma row_read_keys:
  assumes "row_read e obj_ok rd columns st vs row" and "length columns = length vs"
  shows "distinct (map fst (ht_data row))" and "fst ` set (ht_data row) = set (map column_key columns)"
proof -
  obtain zs where zs: "row = put_all ht_new (zip (map column_key columns) zs)" "list_all2 (cell_value e obj_ok rd st) (zip columns vs) zs"
    using assms(1) unfolding row_read_def by blast
  have "length zs = length (map column_key columns)" using list_all2_lengthD [OF zs(2)] assms(2) by simp
  from put_all_keys [OF ht_new_inv this] show "distinct (map fst (ht_data row))" "fst ` set (ht_data row) = set (map column_key columns)"
    by (simp_all add: zs(1) ht_inv_def) (simp add: ht_new_def)
qed

lemma row_read_entry:
  assumes "row_read e obj_ok rd columns st vs row" and "length columns = length vs" and j: "j < length columns"
    and last: "\<forall>i. j < i \<and> i < length columns \<longrightarrow> column_key (columns ! i) \<noteq> column_key (columns ! j)"
  shows "\<exists>z. ht_find row (column_key (columns ! j)) = Some z \<and> cell_value e obj_ok rd st (columns ! j, vs ! j) z"
proof -
  obtain zs where zs: "row = put_all ht_new (zip (map column_key columns) zs)" "list_all2 (cell_value e obj_ok rd st) (zip columns vs) zs"
    using assms(1) unfolding row_read_def by blast
  have len: "length zs = length (map column_key columns)" using list_all2_lengthD [OF zs(2)] assms(2) by simp
  have "ht_find row (map column_key columns ! j) = Some (zs ! j)"
    unfolding zs(1) by (rule put_all_last [OF _ len]) (use j last in auto)
  moreover have "cell_value e obj_ok rd st (zip columns vs ! j) (zs ! j)"
    using list_all2_nthD [OF zs(2), of j] j assms(2) by simp
  ultimately show ?thesis using j assms(2) by simp
qed


section \<open>Sending and reading\<close>

context gmp_lib
begin

lemma export_nonempty: "v \<noteq> 0 \<Longrightarrow> mpz_export g v \<noteq> []"
  using export_val [of v] by auto

lemma twos_complement_nonempty:
  assumes small: "mpz_sizeinbase2 g n < 2 ^ 64 - 1"
  shows "fst (export_twos_complement g n) \<noteq> []"
proof -
  consider "n = 0" | "0 < n" | "n < 0" by linarith
  then show ?thesis
  proof cases
    case 3
    let ?s = "mpz_sizeinbase2 g n" and ?c = "mpz_scan1 g n"
    have bound: "8 * (?s div 8) < 2 ^ 64" "?c < 2 ^ 64 - 1"
      using small scan1_less_size [of n] 3 by linarith+
    have "n + 2 ^ (8 * (?s div 8)) \<noteq> 0" if "8 \<le> ?s" "?c = 8 * (?s div 8) - 1"
    proof
      assume "n + 2 ^ (8 * (?s div 8)) = 0"
      then have "n = - (2 ^ (8 * (?s div 8)))" by linarith
      moreover have "8 * (?s div 8) = Suc ?c" using that by (simp add: div_greater_zero_iff)
      ultimately have "2 ^ Suc ?c dvd n" by (metis dvd_minus_iff dvd_refl)
      then show False using scan1 [of n] 3 by simp
    qed
    moreover have "n + 2 ^ (8 * (?s div 8 + 1)) \<noteq> 0"
    proof -
      have "- n < 2 ^ ?s" using sizeinbase2 [of n] 3 by simp
      also have "(2 :: int) ^ ?s \<le> 2 ^ (8 * (?s div 8 + 1))" by (rule power_increasing) auto
      finally show ?thesis by linarith
    qed
    ultimately show ?thesis
      using export_nonempty by (auto simp: export_negative_cases [OF 3 bound] Let_def)
  qed (simp_all add: export_twos_complement_def sgn)
qed

end

text \<open>A concrete reader, of the payloads that are sent to the library.\<close>

fun payload_items :: "cass_value \<Rightarrow> cass_value list option" where
  "payload_items (CCollection _ ps) = Some ps"
| "payload_items (CTuple (TTuple ts) ps) =
     Some (map (\<lambda>i. case map_of ps i of Some p \<Rightarrow> p | None \<Rightarrow> CNull) [0..<length ts])"
| "payload_items _ = None"

fun pairs_of :: "'a list \<Rightarrow> ('a \<times> 'a) list" where
  "pairs_of (x # y # xs) = (x, y) # pairs_of xs"
| "pairs_of _ = []"

fun payload_pairs :: "cass_value \<Rightarrow> (cass_value \<times> cass_value) list option" where
  "payload_pairs (CCollection _ ps) = Some (pairs_of ps)"
| "payload_pairs _ = None"

fun payload_fields :: "cass_value \<Rightarrow> (string \<times> cass_value) list option" where
  "payload_fields (CUserType (TUdt _ _ fs) ps) =
     Some (map (\<lambda>(n, t). (n, case map_of ps n of Some p \<Rightarrow> p | None \<Rightarrow> CNull)) fs)"
| "payload_fields _ = None"

definition reader_ref :: "gmp \<Rightarrow> cass_value reader" where
  "reader_ref g =
     \<lparr>rd_gmp = g, rd_is_null = (\<lambda>p. p = CNull),
      rd_string = (\<lambda>p. case p of CString s \<Rightarrow> Inr s | _ \<Rightarrow> Inl 1),
      rd_int8 = (\<lambda>p. case p of CInt8 i \<Rightarrow> Inr i | _ \<Rightarrow> Inl 1),
      rd_int16 = (\<lambda>p. case p of CInt16 i \<Rightarrow> Inr i | _ \<Rightarrow> Inl 1),
      rd_int32 = (\<lambda>p. case p of CInt32 i \<Rightarrow> Inr i | _ \<Rightarrow> Inl 1),
      rd_uint32 = (\<lambda>p. case p of CUint32 i \<Rightarrow> Inr i | _ \<Rightarrow> Inl 1),
      rd_int64 = (\<lambda>p. case p of CInt64 i \<Rightarrow> Inr i | _ \<Rightarrow> Inl 1),
      rd_float = (\<lambda>p. case p of CFloat f \<Rightarrow> Inr f | _ \<Rightarrow> Inl 1),
      rd_double = (\<lambda>p. case p of CDouble d \<Rightarrow> Inr d | _ \<Rightarrow> Inl 1),
      rd_bool = (\<lambda>p. case p of CBool b \<Rightarrow> Inr b | _ \<Rightarrow> Inl 1),
      rd_bytes = (\<lambda>p. case p of CBytes bs \<Rightarrow> Inr bs | _ \<Rightarrow> Inl 1),
      rd_uuid = (\<lambda>p. case p of CUuid bs \<Rightarrow> Inr bs | _ \<Rightarrow> Inl 1),
      rd_inet = (\<lambda>p. case p of CInet bs \<Rightarrow> Inr bs | _ \<Rightarrow> Inl 1),
      rd_decimal = (\<lambda>p. case p of CDecimal bs scale \<Rightarrow> Inr (bs, scale) | _ \<Rightarrow> Inl 1),
      rd_duration = (\<lambda>p. case p of CDuration m d n \<Rightarrow> Inr (m, d, n) | _ \<Rightarrow> Inl 1),
      rd_items = payload_items, rd_pairs = payload_pairs, rd_fields = payload_fields,
      rd_tuple_add = (\<lambda>_ _. True), rd_udt_add = (\<lambda>_ _ _. True)\<rparr>"

lemma reader_ref_simps [simp]:
  "rd_gmp (reader_ref g) = g" "rd_is_null (reader_ref g) p \<longleftrightarrow> p = CNull"
  "rd_string (reader_ref g) (CString s) = Inr s" "rd_int8 (reader_ref g) (CInt8 i8) = Inr i8"
  "rd_int16 (reader_ref g) (CInt16 i16) = Inr i16" "rd_int32 (reader_ref g) (CInt32 i32) = Inr i32"
  "rd_uint32 (reader_ref g) (CUint32 i32) = Inr i32" "rd_int64 (reader_ref g) (CInt64 i64) = Inr i64"
  "rd_float (reader_ref g) (CFloat f) = Inr f" "rd_double (reader_ref g) (CDouble d) = Inr d"
  "rd_bool (reader_ref g) (CBool b) = Inr b" "rd_bytes (reader_ref g) (CBytes bs) = Inr bs"
  "rd_uuid (reader_ref g) (CUuid bs) = Inr bs" "rd_inet (reader_ref g) (CInet bs) = Inr bs"
  "rd_decimal (reader_ref g) (CDecimal bs i32) = Inr (bs, i32)"
  "rd_duration (reader_ref g) (CDuration m dd n) = Inr (m, dd, n)"
  "rd_items (reader_ref g) p = payload_items p" "rd_pairs (reader_ref g) p = payload_pairs p"
  "rd_fields (reader_ref g) p = payload_fields p" "adds_types (reader_ref g)"
  by (simp_all add: reader_ref_def adds_types_def)

text \<open>The numbers whose payload is complete: those that fit, and that the encoding does not confuse.\<close>

fun sent_exactly :: "gmp \<Rightarrow> zval \<Rightarrow> bool" where
  "sent_exactly g (ZLong l) = in_int 32 (sint l)"
| "sent_exactly g (ZObject (ONumeric (NVarint n))) = (mpz_sizeinbase2 g n < 2 ^ 64 - 1 \<and> \<not> misencoded g n)"
| "sent_exactly g (ZObject (ONumeric (NDecimal n scale))) =
     (mpz_sizeinbase2 g n < 2 ^ 64 - 1 \<and> \<not> misencoded g n \<and> in_int 32 scale)"
| "sent_exactly g _ = True"

lemma scast_ucast_long: "in_int 32 (sint (l :: 64 word)) \<Longrightarrow> scast (ucast l :: 32 word) = l"
  by (simp add: scast_eq sint_ucast_int)

lemma import_sent:
  assumes "gmp_lib g" and "mpz_sizeinbase2 g n < 2 ^ 64 - 1" and "\<not> misencoded g n"
  shows "import_number g (fst (export_twos_complement g n)) = Ok n"
  using gmp_lib.twos_complement_nonempty [OF assms(1,2)] gmp_lib.roundtrip_if [OF assms] by (simp add: import_number_def)

text \<open>
  The two translations of scalars undo each other: the payload that \<^verbatim>\<open>collections.c\<close> makes of a value for an
  element of a container is turned by \<^verbatim>\<open>result.c\<close> into the same value again, if the library gives it back
  unchanged. Left out are the numbers that are cut or not encoded uniquely.
\<close>

theorem scalar_sent_and_read:
  assumes "gmp_lib (cl_gmp lib)" and "t \<in> snd ` set scalar_types" and "value_ok heap v"
    and "php_driver_validate_object v (TScalar t) = Ok True" and "v \<noteq> ZNull" and "sent_exactly (cl_gmp lib) v"
  shows "\<exists>p. switch_value lib sub t v = (0, Ok (Some p)) \<and>
    php_driver_value e (reader_ref (cl_gmp lib)) (DScalar t) p st = Ok (v, st)"
proof -
  let ?rd = "reader_ref (cl_gmp lib)"
  note defs = switch_value_def flat_def flat_obj_def read_scalar_def
  have v: "php_driver_validate_object v (TScalar t) = Ok True" "z_type v \<noteq> 1" and t: "type_wf (TScalar t)"
    using assms z_type_null [of v] by simp_all
  have "\<exists>p. switch_value lib sub t v = (0, Ok (Some p)) \<and> p \<noteq> CNull \<and> read_scalar ?rd t p = Ok v"
    using t v
  proof (cases rule: validated_scalar)
    case plain
    then show ?thesis using assms(6) by (cases v) (auto simp: defs scast_ucast_long)
  next
    case (obj c)
    from class_shape [OF assms(3) obj(1)] show ?thesis
    proof cases
      case (1 n)
      then have "t \<in> (case n of NBigint _ \<Rightarrow> {CASS_BIGINT, CASS_COUNTER} | NDecimal _ _ \<Rightarrow> {CASS_DECIMAL} | NFloat _ \<Rightarrow> {CASS_FLOAT}
          | NVarint _ \<Rightarrow> {CASS_VARINT} | NSmallint _ \<Rightarrow> {CASS_SMALL_INT} | NTinyint _ \<Rightarrow> {CASS_TINY_INT})"
        using obj(2) by (cases n) auto
      then show ?thesis using 1(1) assms(6) import_sent [OF assms(1)]
        by (cases n) (auto simp: defs sint_of_int_in)
    next
      case (2 x)
      then have "t = CASS_TIMESTAMP" using obj(2) by auto
      then show ?thesis by (simp add: 2 defs)
    next
      case (3 x)
      then have "t = CASS_DATE" using obj(2) by auto
      then show ?thesis by (simp add: 3 defs)
    next
      case (4 x)
      then have "t = CASS_TIME" using obj(2) by auto
      then show ?thesis by (simp add: 4 defs)
    next
      case (5 x)
      then have "t = CASS_BLOB" using obj(2) by auto
      then show ?thesis by (simp add: 5 defs)
    next
      case (6 x)
      then have "t = CASS_UUID \<and> c = ''Uuid'' \<or> t = CASS_TIMEUUID \<and> c = ''Timeuuid''" using obj(2) by auto
      then show ?thesis by (elim disjE conjE) (simp_all add: 6 defs)
    next
      case (7 x)
      then have "t = CASS_INET" using obj(2) by auto
      then show ?thesis by (simp add: 7 defs)
    next
      case (8 x y z)
      then have "t = CASS_DURATION" using obj(2) by auto
      then show ?thesis by (simp add: 8 defs)
    next
      case (9 ct)
      then show ?thesis using obj(2) by (cases ct) auto
    qed
  qed
  then obtain p where "switch_value lib sub t v = (0, Ok (Some p))" "p \<noteq> CNull" "read_scalar ?rd t p = Ok v" by blast
  then show ?thesis by (intro exI [where x = p]) (simp add: unless_null_def)
qed


text \<open>
  Why the keys have to be plain: the first element of a set that is read is hashed, and an object without
  a \<^verbatim>\<open>hash_value\<close> handler cannot be.
\<close>

lemma object_key_not_hashed:
  assumes "t \<in> snd ` set scalar_types" and "rd_items rd v = Some (x # xs)" and "\<not> rd_is_null rd v" "\<not> rd_is_null rd x"
    and "read_scalar rd t x = Ok (ZObject obj)" and "obj_hash_value e obj = None"
  shows "php_driver_value e rd (DSet (DScalar t)) v st = UB"
proof -
  have "scalar_ok rd t x"
    using read_scalar_reads [OF assms(1), of rd x st] assms(5) by (simp add: reads_Ok)
  then have "php_driver_validate_object (ZObject obj) (TScalar t) = Ok True"
    using read_scalar_reads [OF assms(1), of rd x st] assms(5) by (simp add: reads_Ok read_as_def)
  then have "php_driver_set_add e (php_driver_set_new (TScalar t)) (ZObject obj) = UB"
    using assms(6) by (simp add: php_driver_set_add_def php_driver_set_new_def set_find_def find_zval_def add_zval_def)
  then show ?thesis
    using assms(2-5) by (simp add: unless_null_def filled_def set_step_def)
qed

section \<open>Properties\<close>



text \<open>
  C27. The rows of a result. Reading them succeeds exactly if every value of every row can be read. Then
  there is one array per row, in order, whose keys are those of the columns, without duplicates; and the
  entry under a key is the value, of the column's type, that was read for the last column with this key.
  Otherwise no row is returned: an error of the library is thrown, or a number had no bytes.
\<close>

theorem result_rows_typed:
  assumes "engine_lib e obj_ok" and "adds_types rd"
    and "\<forall>(name, dt) \<in> set (cr_columns result). dt_wf dt \<and> keys_plain dt"
    and "\<forall>vs \<in> set (cr_rows result). row_all (shape_ok rd) (cr_columns result) vs"
    and "state_ok e obj_ok st"
  shows "case php_driver_get_result e rd result st of
      Ok (rows, st') \<Rightarrow>
        (\<forall>vs \<in> set (cr_rows result). row_all (column_ok rd) (cr_columns result) vs) \<and>
        length rows = length (cr_rows result) \<and> state_ok e obj_ok st' \<and> grows st st' \<and>
        (\<forall>r < length rows. distinct (map fst (ht_data (rows ! r))) \<and>
           fst ` set (ht_data (rows ! r)) = set (map column_key (cr_columns result)) \<and>
           (\<forall>j < length (cr_columns result).
              (\<forall>i. j < i \<and> i < length (cr_columns result) \<longrightarrow> column_key (cr_columns result ! i) \<noteq> column_key (cr_columns result ! j)) \<longrightarrow>
              (\<exists>z. ht_find (rows ! r) (column_key (cr_columns result ! j)) = Some z \<and>
                 cell_value e obj_ok rd st' (cr_columns result ! j, cr_rows result ! r ! j) z)))
    | Throw x \<Rightarrow> (\<exists>rc. x = CassException rc) \<and> \<not> (\<forall>vs \<in> set (cr_rows result). row_all (column_ok rd) (cr_columns result) vs)
    | UB \<Rightarrow> \<not> (\<forall>vs \<in> set (cr_rows result). row_all (numbers_ok rd) (cr_columns result) vs)"
proof -
  let ?columns = "cr_columns result"
  from rows_read [OF assms, of "[]"]
  have r: "reads (\<forall>vs \<in> set (cr_rows result). row_all (column_ok rd) ?columns vs) (\<forall>vs \<in> set (cr_rows result). row_all (numbers_ok rd) ?columns vs)
      (\<lambda>rows st'. list_all2 (row_read e obj_ok rd ?columns st') (cr_rows result) rows \<and> state_ok e obj_ok st' \<and> grows st st')
      (php_driver_get_result e rd result st)"
    by (simp add: php_driver_get_result_def)
  show ?thesis
  proof (cases "php_driver_get_result e rd result st")
    case (Ok x)
    obtain rows st' where x: "x = (rows, st')" by (cases x)
    have good: "\<forall>vs \<in> set (cr_rows result). row_all (column_ok rd) ?columns vs" "state_ok e obj_ok st'" "grows st st'"
      and all: "list_all2 (row_read e obj_ok rd ?columns st') (cr_rows result) rows"
      using r by (simp_all add: Ok x reads_Ok)
    have len: "length rows = length (cr_rows result)" using list_all2_lengthD [OF all] by simp
    have row: "row_read e obj_ok rd ?columns st' (cr_rows result ! i) (rows ! i)" "length ?columns = length (cr_rows result ! i)"
      if "i < length rows" for i
      using list_all2_nthD2 [OF all that] good(1) nth_mem [of i "cr_rows result"] that len
      by (auto simp: row_all_def dest!: list_all2_lengthD)
    show ?thesis
      using good len row_read_keys [OF row] row_read_entry [OF row] by (simp add: Ok x)
  qed (use r in \<open>simp_all add: reads_def\<close>)
qed

theorem result_rows_typed_witness:
  "let result = \<lparr>cr_columns = [(''n'', DScalar CASS_TEXT), (''2'', DScalar CASS_INT), (''n'', DScalar CASS_INT)],
      cr_rows = [[CString ''x'', CInt32 5, CInt32 6]]\<rparr>
   in \<exists>row st'. php_driver_get_result engine_ref (reader_ref gmp_ref) result (\<lambda>_. None, 0) = Ok ([row], st') \<and>
     fst ` set (ht_data row) = {KStr ''n'', KInt 2} \<and> ht_find row (KStr ''n'') = Some (ZLong 6)"
proof -
  let ?columns = "[(''n'', DScalar CASS_TEXT), (''2'', DScalar CASS_INT), (''n'', DScalar CASS_INT)]"
  let ?result = "\<lparr>cr_columns = ?columns, cr_rows = [[CString ''x'', CInt32 5, CInt32 6]]\<rparr>"
  let ?rd = "reader_ref gmp_ref"
  have two: "(char_of (50 :: nat) :: char) = CHR ''2''" "(char_of (48 :: nat) :: char) = CHR ''0''" by code_simp+
  have keys: "map column_key ?columns = [KStr ''n'', KInt 2, KStr ''n'']"
    by (simp add: column_key_def symtable_key_def cstr_def show_int_def show_nat.simps digit_val_def isdigit_def digit_char_def in_int_def two)
  define result where "result = ?result"
  have good: "\<forall>vs \<in> set (cr_rows result). row_all (numbers_ok ?rd) (cr_columns result) vs"
    "\<forall>vs \<in> set (cr_rows result). row_all (column_ok ?rd) (cr_columns result) vs"
    "\<forall>vs \<in> set (cr_rows result). row_all (shape_ok ?rd) (cr_columns result) vs"
    "\<forall>(name, dt) \<in> set (cr_columns result). dt_wf dt \<and> keys_plain dt"
    by (simp_all add: result_def row_all_def scalar_ok_def number_ok_def scalar_types_def)
  have st: "state_ok engine_ref no_object (\<lambda>_. None, 0)" by (simp add: state_ok_def heap_inv_def)
  note r = result_rows_typed [OF engine_ref.engine_lib_axioms reader_ref_simps(20) good(4,3) st]
  obtain rows st' where ok: "php_driver_get_result engine_ref ?rd result (\<lambda>_. None, 0) = Ok (rows, st')"
    using r good(1,2) by (cases "php_driver_get_result engine_ref ?rd result (\<lambda>_. None, 0)") auto
  have len: "length rows = length (cr_rows result)" using r by (simp only: ok outcome.case prod.case)
  then obtain row where row: "rows = [row]" by (auto simp: result_def length_Suc_conv)
  have "0 < length rows" using row by simp
  with r have k: "fst ` set (ht_data row) = set (map column_key (cr_columns result))"
    and e: "\<And>j. j < length (cr_columns result) \<Longrightarrow>
      \<forall>i. j < i \<and> i < length (cr_columns result) \<longrightarrow> column_key (cr_columns result ! i) \<noteq> column_key (cr_columns result ! j) \<Longrightarrow>
      \<exists>z. ht_find row (column_key (cr_columns result ! j)) = Some z \<and>
        cell_value engine_ref no_object ?rd st' (cr_columns result ! j, cr_rows result ! 0 ! j) z"
    unfolding ok outcome.case prod.case row by auto
  have "\<exists>z. ht_find row (column_key (cr_columns result ! 2)) = Some z \<and>
      cell_value engine_ref no_object ?rd st' (cr_columns result ! 2, cr_rows result ! 0 ! 2) z"
    by (rule e) (auto simp: result_def less_Suc_eq)
  moreover have "column_key (cr_columns result ! 2) = KStr ''n''" "cr_columns result ! 2 = (''n'', DScalar CASS_INT)"
    "cr_rows result ! 0 ! 2 = CInt32 6"
    using keys by (simp_all add: result_def)
  ultimately obtain z where z: "ht_find row (KStr ''n'') = Some z"
    "cell_value engine_ref no_object ?rd st' ((''n'', DScalar CASS_INT), CInt32 6) z"
    by auto
  have "z = ZLong 6" using z(2) by (auto simp: cell_value_def unless_null_def read_scalar_def)
  moreover have "fst ` set (ht_data row) = {KStr ''n'', KInt 2}" using k keys by (auto simp: result_def)
  ultimately show ?thesis using ok row z(1) unfolding Let_def result_def by (intro exI conjI) simp_all
qed


end
