(* ===== verification/Session_Bind.thy ===== *)
theory Session_Bind
  imports Cass_Typed Execution_Options
begin

text \<open>
  The first half of \<^verbatim>\<open>ext/src/DefaultSession.c\<close>, with \<^verbatim>\<open>ext/src/SimpleStatement.c\<close> and
  \<^verbatim>\<open>ext/src/BatchStatement.c\<close>: statements, binding their arguments by index and by name, and building single
  statements and batches with their settings. A statement of the driver library is the list of what
  has been bound to it and of the settings made.
\<close>

section \<open>Statements\<close>

text \<open>A \<^verbatim>\<open>php_driver_statement\<close>; the entries of a batch are the two values of \<^verbatim>\<open>php_driver_batch_statement_entry\<close>.\<close>

datatype php_statement =
    PSimple string
  | PPrepared nat
  | PBatch int "(zval \<times> zval) list"

definition CASS_BATCH_TYPES :: "int list" where
  "CASS_BATCH_TYPES = [0, 1, 2]"

fun simple_statement_construct :: "zval \<Rightarrow> php_statement outcome" where
  "simple_statement_construct (ZString cql) = Ok (PSimple cql)"
| "simple_statement_construct _ = Throw InvalidArgumentException"

text \<open>Without an argument the batch keeps the type of a new object, a logged batch.\<close>

fun batch_statement_construct :: "zval option \<Rightarrow> php_statement outcome" where
  "batch_statement_construct None = Ok (PBatch 0 [])"
| "batch_statement_construct (Some (ZLong l)) =
     (if sint l \<in> set CASS_BATCH_TYPES then Ok (PBatch (sint l) []) else Throw InvalidArgumentException)"
| "batch_statement_construct (Some _) = Throw InvalidArgumentException"

text \<open>The statement objects by their handle.\<close>

type_synonym stmt_heap = "nat \<Rightarrow> php_statement option"

fun batchable :: "stmt_heap \<Rightarrow> zval \<Rightarrow> bool" where
  "batchable stmts (ZString _) = True"
| "batchable stmts (ZObject (OOther _ h)) =
     (case stmts h of Some (PSimple _) \<Rightarrow> True | Some (PPrepared _) \<Rightarrow> True | _ \<Rightarrow> False)"
| "batchable stmts _ = False"

text \<open>The arguments are not checked; the entry of a call without them is zeroed memory.\<close>

fun batch_statement_add :: "stmt_heap \<Rightarrow> php_statement \<Rightarrow> zval \<Rightarrow> zval option \<Rightarrow> php_statement outcome" where
  "batch_statement_add stmts (PBatch ty entries) statement arguments =
     (if batchable stmts statement
      then Ok (PBatch ty (entries @ [(statement, case arguments of None \<Rightarrow> ZUndef | Some z \<Rightarrow> z)]))
      else Throw InvalidArgumentException)"
| "batch_statement_add stmts _ statement arguments = UB"

section \<open>Driver library\<close>

datatype bind_target = ByIndex nat | ByName string

datatype stmt_source = SourceCql string nat | SourcePrepared nat

datatype stmt_setting =
    SetConsistency "64 word"
  | SetSerialConsistency "64 word"
  | SetPagingSize "32 word"
  | SetPagingStateToken string
  | SetRetryPolicy "nat option"
  | SetTimestamp "64 word"

record cass_stmt =
  st_source :: stmt_source
  st_bindings :: "(bind_target \<times> cass_value) list"
  st_settings :: "stmt_setting list"

record cass_batch =
  bt_type :: int
  bt_statements :: "cass_stmt list"
  bt_settings :: "stmt_setting list"

text \<open>
  The library's answers, the heaps of objects behind handles (the elements of arrays, the statements
  and the retry policies), and the fuel for nested containers.
\<close>

record stmt_env =
  se_lib :: cass_lib
  se_bind :: "cass_stmt \<Rightarrow> bind_target \<Rightarrow> cass_value \<Rightarrow> nat"
  se_set :: "cass_stmt \<Rightarrow> stmt_setting \<Rightarrow> nat"
  se_batch_set :: "cass_batch \<Rightarrow> stmt_setting \<Rightarrow> nat"
  se_heap :: obj_heap
  se_arrays :: "nat \<Rightarrow> (zkey \<times> zval) list"
  se_stmts :: stmt_heap
  se_policies :: "nat \<Rightarrow> nat option"
  se_fuel :: nat

section \<open>Binding\<close>

text \<open>\<^verbatim>\<open>CHECK_RESULT\<close> of a call that binds a value.\<close>

definition bind_checked :: "stmt_env \<Rightarrow> cass_stmt \<Rightarrow> bind_target \<Rightarrow> cass_value \<Rightarrow> cass_stmt alloc" where
  "bind_checked env stmt target p =
     check_error (se_bind env stmt target p) (stmt\<lparr>st_bindings := st_bindings stmt @ [(target, p)]\<rparr>)"

text \<open>A container is freed after it has been bound, whether that worked or not.\<close>

definition bind_container :: "stmt_env \<Rightarrow> cass_stmt \<Rightarrow> bind_target \<Rightarrow> cass_value_type \<Rightarrow> obj \<Rightarrow> cass_stmt alloc" where
  "bind_container env stmt target type obj =
     (case container_value (se_fuel env) (se_lib env) (se_heap env) type obj of
        (n, Ok (Some p)) \<Rightarrow> (n - 1, snd (bind_checked env stmt target p))
      | (n, Ok None) \<Rightarrow> (n, Ok None)
      | (n, Throw e) \<Rightarrow> (n, Throw e)
      | (n, UB) \<Rightarrow> (n, UB))"

text \<open>
  The driver's classes are final and an object has exactly one, so the order of the tests does not
  matter; an object of no known class ends in \<^verbatim>\<open>return FAILURE\<close> without an exception.
\<close>

definition bind_argument_by_index :: "stmt_env \<Rightarrow> cass_stmt \<Rightarrow> nat \<Rightarrow> zval \<Rightarrow> cass_stmt alloc" where
  "bind_argument_by_index env stmt index value =
     (let bind = bind_checked env stmt (ByIndex index);
          g = cl_gmp (se_lib env)
      in case value of
           ZNull \<Rightarrow> bind CNull
         | ZString s \<Rightarrow> bind (CString (cstr s))
         | ZDouble d \<Rightarrow> bind (CDouble d)
         | ZLong l \<Rightarrow> bind (CInt32 (ucast l))
         | ZTrue \<Rightarrow> bind (CBool True)
         | ZFalse \<Rightarrow> bind (CBool False)
         | ZObject obj \<Rightarrow>
             (case obj of
                ONumeric (NFloat v) \<Rightarrow> bind (CFloat v)
              | ONumeric (NBigint v) \<Rightarrow> bind (CInt64 v)
              | ONumeric (NSmallint v) \<Rightarrow> bind (CInt16 v)
              | ONumeric (NTinyint v) \<Rightarrow> bind (CInt8 v)
              | OTimestamp v \<Rightarrow> bind (CInt64 v)
              | ODate v \<Rightarrow> bind (CUint32 v)
              | OTime v \<Rightarrow> bind (CInt64 v)
              | OBlob data \<Rightarrow> bind (CBytes data)
              | ONumeric (NVarint n) \<Rightarrow> bind (CBytes (fst (export_twos_complement g n)))
              | ONumeric (NDecimal n scale) \<Rightarrow>
                  bind (CDecimal (fst (export_twos_complement g n)) (word_of_int scale))
              | OUuid _ bs \<Rightarrow> bind (CUuid bs)
              | OInet bs \<Rightarrow> bind (CInet bs)
              | ODuration months days nanos \<Rightarrow> bind (CDuration months days nanos)
              | OTyped c _ _ \<Rightarrow>
                  if c = ''Set'' then bind_container env stmt (ByIndex index) CASS_SET obj
                  else if c = ''Map'' then bind_container env stmt (ByIndex index) CASS_MAP obj
                  else if c = ''Collection'' then bind_container env stmt (ByIndex index) CASS_LIST obj
                  else if c = ''Tuple'' then bind_container env stmt (ByIndex index) CASS_TUPLE obj
                  else if c = ''UserTypeValue'' then bind_container env stmt (ByIndex index) CASS_UDT obj
                  else (0, Ok None)
              | OOther _ _ \<Rightarrow> (0, Ok None))
         | _ \<Rightarrow> (0, Ok None))"

definition bind_argument_by_name :: "stmt_env \<Rightarrow> cass_stmt \<Rightarrow> string \<Rightarrow> zval \<Rightarrow> cass_stmt alloc" where
  "bind_argument_by_name env stmt name value =
     (let bind = bind_checked env stmt (ByName name);
          g = cl_gmp (se_lib env)
      in case value of
           ZNull \<Rightarrow> bind CNull
         | ZString s \<Rightarrow> bind (CString (cstr s))
         | ZDouble d \<Rightarrow> bind (CDouble d)
         | ZLong l \<Rightarrow> bind (CInt32 (ucast l))
         | ZTrue \<Rightarrow> bind (CBool True)
         | ZFalse \<Rightarrow> bind (CBool False)
         | ZObject obj \<Rightarrow>
             (case obj of
                ONumeric (NFloat v) \<Rightarrow> bind (CFloat v)
              | ONumeric (NBigint v) \<Rightarrow> bind (CInt64 v)
              | ONumeric (NSmallint v) \<Rightarrow> bind (CInt16 v)
              | ONumeric (NTinyint v) \<Rightarrow> bind (CInt8 v)
              | OTimestamp v \<Rightarrow> bind (CInt64 v)
              | ODate v \<Rightarrow> bind (CUint32 v)
              | OTime v \<Rightarrow> bind (CInt64 v)
              | OBlob data \<Rightarrow> bind (CBytes data)
              | ONumeric (NVarint n) \<Rightarrow> bind (CBytes (fst (export_twos_complement g n)))
              | ONumeric (NDecimal n scale) \<Rightarrow>
                  bind (CDecimal (fst (export_twos_complement g n)) (word_of_int scale))
              | OUuid _ bs \<Rightarrow> bind (CUuid bs)
              | OInet bs \<Rightarrow> bind (CInet bs)
              | ODuration months days nanos \<Rightarrow> bind (CDuration months days nanos)
              | OTyped c _ _ \<Rightarrow>
                  if c = ''Set'' then bind_container env stmt (ByName name) CASS_SET obj
                  else if c = ''Map'' then bind_container env stmt (ByName name) CASS_MAP obj
                  else if c = ''Collection'' then bind_container env stmt (ByName name) CASS_LIST obj
                  else if c = ''Tuple'' then bind_container env stmt (ByName name) CASS_TUPLE obj
                  else if c = ''UserTypeValue'' then bind_container env stmt (ByName name) CASS_UDT obj
                  else (0, Ok None)
              | OOther _ _ \<Rightarrow> (0, Ok None))
         | _ \<Rightarrow> (0, Ok None))"

text \<open>
  The loop over the array of arguments. A name is passed as a C string; a negative index becomes a
  large unsigned one.
\<close>

fun bind_arguments :: "stmt_env \<Rightarrow> cass_stmt \<Rightarrow> (zkey \<times> zval) list \<Rightarrow> cass_stmt alloc" where
  "bind_arguments env stmt [] = (0, Ok (Some stmt))"
| "bind_arguments env stmt ((key, current) # rest) =
     bind_alloc
       (case key of
          KStr name \<Rightarrow> bind_argument_by_name env stmt (cstr name) current
        | KInt num_key \<Rightarrow> bind_argument_by_index env stmt (unat (word_of_int num_key :: 64 word)) current)
       (\<lambda>stmt'. bind_arguments env stmt' rest)"

section \<open>Resources\<close>

text \<open>How many objects of the driver library are allocated and not yet freed.\<close>

record live =
  lv_containers :: int
  lv_statements :: int
  lv_batches :: int
  lv_futures :: int
  lv_results :: int
  lv_session_refs :: int

type_synonym 'a run = "live \<Rightarrow> 'a option outcome \<times> live"

definition ret :: "'a \<Rightarrow> 'a run" where
  "ret x = (\<lambda>l. (Ok (Some x), l))"

definition stop :: "'a option outcome \<Rightarrow> 'a run" where
  "stop r = (\<lambda>l. (r, l))"

definition update_live :: "(live \<Rightarrow> live) \<Rightarrow> unit run" where
  "update_live f = (\<lambda>l. (Ok (Some ()), f l))"

definition bind_run :: "'a run \<Rightarrow> ('a \<Rightarrow> 'b run) \<Rightarrow> 'b run" where
  "bind_run m f = (\<lambda>l. case m l of
     (Ok (Some x), l') \<Rightarrow> f x l'
   | (Ok None, l') \<Rightarrow> (Ok None, l')
   | (Throw e, l') \<Rightarrow> (Throw e, l')
   | (UB, l') \<Rightarrow> (UB, l'))"

text \<open>What is done before returning from a failed step.\<close>

definition on_failure :: "(live \<Rightarrow> live) \<Rightarrow> 'a run \<Rightarrow> 'a run" where
  "on_failure cleanup m = (\<lambda>l. case m l of
     (Ok (Some x), l') \<Rightarrow> (Ok (Some x), l')
   | (r, l') \<Rightarrow> (r, cleanup l'))"

definition run_alloc :: "'a alloc \<Rightarrow> 'a run" where
  "run_alloc r = (\<lambda>l. (snd r, l\<lparr>lv_containers := lv_containers l + int (fst r)\<rparr>))"

definition add_statement :: "int \<Rightarrow> live \<Rightarrow> live" where
  "add_statement k l = l\<lparr>lv_statements := lv_statements l + k\<rparr>"

definition add_batch :: "int \<Rightarrow> live \<Rightarrow> live" where
  "add_batch k l = l\<lparr>lv_batches := lv_batches l + k\<rparr>"

definition add_future :: "int \<Rightarrow> live \<Rightarrow> live" where
  "add_future k l = l\<lparr>lv_futures := lv_futures l + k\<rparr>"

definition add_result :: "int \<Rightarrow> live \<Rightarrow> live" where
  "add_result k l = l\<lparr>lv_results := lv_results l + k\<rparr>"

definition add_session_ref :: "int \<Rightarrow> live \<Rightarrow> live" where
  "add_session_ref k l = l\<lparr>lv_session_refs := lv_session_refs l + k\<rparr>"

section \<open>Creating statements\<close>

definition create_statement :: "stmt_env \<Rightarrow> php_statement \<Rightarrow> (zkey \<times> zval) list option \<Rightarrow> cass_stmt run" where
  "create_statement env statement arguments =
     (case statement of
        PBatch _ _ \<Rightarrow> stop (Throw RuntimeException)
      | _ \<Rightarrow>
          (let source = (case statement of
                           PPrepared prepared \<Rightarrow> SourcePrepared prepared
                         | PSimple cql \<Rightarrow> SourceCql (cstr cql) (case arguments of None \<Rightarrow> 0 | Some args \<Rightarrow> length args));
               stmt = \<lparr>st_source = source, st_bindings = [], st_settings = []\<rparr>
           in bind_run (update_live (add_statement 1)) (\<lambda>_.
                case arguments of
                  None \<Rightarrow> ret stmt
                | Some args \<Rightarrow> on_failure (add_statement (- 1)) (run_alloc (bind_arguments env stmt args)))))"

text \<open>The statement of a batch entry or of \<^verbatim>\<open>execute\<close>: a string is a simple statement.\<close>

fun statement_of :: "stmt_heap \<Rightarrow> zval \<Rightarrow> php_statement option" where
  "statement_of stmts (ZString cql) = Some (PSimple cql)"
| "statement_of stmts (ZObject (OOther _ h)) = stmts h"
| "statement_of stmts _ = None"

fun entry_arguments :: "stmt_env \<Rightarrow> zval \<Rightarrow> (zkey \<times> zval) list option outcome" where
  "entry_arguments env ZUndef = Ok None"
| "entry_arguments env (ZArray h) = Ok (Some (se_arrays env h))"
| "entry_arguments env _ = UB"

text \<open>The statements of a batch: each is added to the batch and then freed.\<close>

fun add_statements :: "stmt_env \<Rightarrow> cass_batch \<Rightarrow> (zval \<times> zval) list \<Rightarrow> cass_batch run" where
  "add_statements env batch [] = ret batch"
| "add_statements env batch ((statement, arguments) # rest) =
     (case (statement_of (se_stmts env) statement, entry_arguments env arguments) of
        (Some st, Ok args) \<Rightarrow>
          bind_run (create_statement env st args) (\<lambda>stmt.
          bind_run (update_live (add_statement (- 1))) (\<lambda>_.
          add_statements env (batch\<lparr>bt_statements := bt_statements batch @ [stmt]\<rparr>) rest))
      | _ \<Rightarrow> stop UB)"

definition batch_set :: "stmt_env \<Rightarrow> stmt_setting \<Rightarrow> cass_batch \<Rightarrow> cass_batch run" where
  "batch_set env s batch =
     (let rc = se_batch_set env batch s
      in if rc \<noteq> 0 then stop (Throw (CassException rc)) else ret (batch\<lparr>bt_settings := bt_settings batch @ [s]\<rparr>))"

definition create_batch ::
  "stmt_env \<Rightarrow> int \<Rightarrow> (zval \<times> zval) list \<Rightarrow> 64 word \<Rightarrow> nat option \<Rightarrow> 64 word \<Rightarrow> cass_batch run" where
  "create_batch env ty entries consistency retry_policy timestamp =
     bind_run (update_live (add_batch 1)) (\<lambda>_.
     on_failure (add_batch (- 1))
       (bind_run (add_statements env \<lparr>bt_type = ty, bt_statements = [], bt_settings = []\<rparr> entries) (\<lambda>batch.
        bind_run (batch_set env (SetConsistency consistency) batch) (\<lambda>batch.
        bind_run (batch_set env (SetRetryPolicy retry_policy) batch) (\<lambda>batch.
        batch_set env (SetTimestamp timestamp) batch)))))"

text \<open>A setting that is not to be made, or is made after an earlier one succeeded.\<close>

definition statement_set :: "stmt_env \<Rightarrow> bool \<Rightarrow> stmt_setting \<Rightarrow> cass_stmt \<Rightarrow> cass_stmt run" where
  "statement_set env cond s stmt =
     (if \<not> cond then ret stmt
      else let rc = se_set env stmt s
           in if rc \<noteq> 0 then stop (Throw (CassException rc)) else ret (stmt\<lparr>st_settings := st_settings stmt @ [s]\<rparr>))"

definition create_single ::
  "stmt_env \<Rightarrow> php_statement \<Rightarrow> (zkey \<times> zval) list option \<Rightarrow> 64 word \<Rightarrow> 64 word \<Rightarrow> 32 word \<Rightarrow> string option \<Rightarrow>
   nat option \<Rightarrow> 64 word \<Rightarrow> cass_stmt run" where
  "create_single env statement arguments consistency serial_consistency page_size paging_state_token retry_policy timestamp =
     bind_run (create_statement env statement arguments) (\<lambda>stmt.
     on_failure (add_statement (- 1))
       (bind_run (statement_set env True (SetConsistency consistency) stmt) (\<lambda>stmt.
        bind_run (statement_set env (0 \<le> sint serial_consistency) (SetSerialConsistency serial_consistency) stmt) (\<lambda>stmt.
        bind_run (statement_set env (0 \<le> sint page_size) (SetPagingSize page_size) stmt) (\<lambda>stmt.
        bind_run (statement_set env (paging_state_token \<noteq> None) (SetPagingStateToken (the paging_state_token)) stmt) (\<lambda>stmt.
        bind_run (statement_set env (retry_policy \<noteq> None) (SetRetryPolicy retry_policy) stmt) (\<lambda>stmt.
        statement_set env True (SetTimestamp timestamp) stmt)))))))"

section \<open>What is bound\<close>

text \<open>
  The payload that represents a value: integers keep their width, the bytes of a number are read back
  to it, a string is complete unless it has a NUL, and a container has the type of its object.
\<close>

definition size_ok :: "gmp \<Rightarrow> int \<Rightarrow> bool" where
  "size_ok g n \<longleftrightarrow> mpz_sizeinbase2 g n < 2 ^ 64 - 1"

fun represents :: "gmp \<Rightarrow> zval \<Rightarrow> cass_value \<Rightarrow> bool" where
  "represents g ZNull p = (p = CNull)"
| "represents g (ZString s) p = (\<exists>s'. p = CString s' \<and> (NUL \<notin> set s \<longrightarrow> s' = s))"
| "represents g (ZDouble d) p = (p = CDouble d)"
| "represents g (ZLong l) p = (\<exists>i. p = CInt32 i \<and> (in_int 32 (sint l) \<longrightarrow> sint i = sint l))"
| "represents g ZTrue p = (p = CBool True)"
| "represents g ZFalse p = (p = CBool False)"
| "represents g (ZObject (ONumeric (NVarint n))) p =
     (\<exists>bs. p = CBytes bs \<and> (size_ok g n \<longrightarrow> (import_twos_complement g bs = n \<longleftrightarrow> \<not> misencoded g n)))"
| "represents g (ZObject (ONumeric (NDecimal n scale))) p =
     (\<exists>bs sc. p = CDecimal bs sc \<and> (in_int 32 scale \<longrightarrow> sint sc = scale) \<and>
        (size_ok g n \<longrightarrow> (import_twos_complement g bs = n \<longleftrightarrow> \<not> misencoded g n)))"
| "represents g (ZObject (ONumeric (NFloat v))) p = (p = CFloat v)"
| "represents g (ZObject (ONumeric (NBigint v))) p = (p = CInt64 v)"
| "represents g (ZObject (ONumeric (NSmallint v))) p = (p = CInt16 v)"
| "represents g (ZObject (ONumeric (NTinyint v))) p = (p = CInt8 v)"
| "represents g (ZObject (OTimestamp v)) p = (p = CInt64 v)"
| "represents g (ZObject (ODate v)) p = (p = CUint32 v)"
| "represents g (ZObject (OTime v)) p = (p = CInt64 v)"
| "represents g (ZObject (OBlob bs)) p = (p = CBytes bs)"
| "represents g (ZObject (OUuid _ bs)) p = (p = CUuid bs)"
| "represents g (ZObject (OInet bs)) p = (p = CInet bs)"
| "represents g (ZObject (ODuration m d n)) p = (p = CDuration m d n)"
| "represents g (ZObject (OTyped c ty h)) p = cql_value (type_norm ty) p"
| "represents g _ p = False"

fun bindable :: "zval \<Rightarrow> bool" where
  "bindable ZUndef = False"
| "bindable (ZArray _) = False"
| "bindable (ZObject (OOther _ _)) = False"
| "bindable _ = True"

fun target_of :: "zkey \<Rightarrow> bind_target" where
  "target_of (KStr name) = ByName (cstr name)"
| "target_of (KInt k) = ByIndex (unat (word_of_int k :: 64 word))"

text \<open>The value of an argument is a known object, and the fuel suffices for its type.\<close>

definition arg_ok :: "stmt_env \<Rightarrow> zval \<Rightarrow> bool" where
  "arg_ok env v \<longleftrightarrow> value_ok (se_heap env) v \<and> (\<forall>c ty h. v = ZObject (OTyped c ty h) \<longrightarrow> type_depth ty < se_fuel env)"

text \<open>
  The payload of an argument, which the two functions bind alike, and the containers left after it
  has been bound and freed.
\<close>

definition arg_payload :: "stmt_env \<Rightarrow> zval \<Rightarrow> cass_value alloc" where
  "arg_payload env v =
     (case v of
        ZNull \<Rightarrow> flat (Ok CNull)
      | ZString s \<Rightarrow> flat (Ok (CString (cstr s)))
      | ZDouble d \<Rightarrow> flat (Ok (CDouble d))
      | ZLong l \<Rightarrow> flat (Ok (CInt32 (ucast l)))
      | ZTrue \<Rightarrow> flat (Ok (CBool True))
      | ZFalse \<Rightarrow> flat (Ok (CBool False))
      | ZObject obj \<Rightarrow>
          (case obj of
             ONumeric (NFloat _) \<Rightarrow> flat (float_value obj)
           | ONumeric (NBigint _) \<Rightarrow> flat (bigint_value obj)
           | ONumeric (NSmallint _) \<Rightarrow> flat (smallint_value obj)
           | ONumeric (NTinyint _) \<Rightarrow> flat (tinyint_value obj)
           | ONumeric (NVarint _) \<Rightarrow> flat (varint_value (cl_gmp (se_lib env)) obj)
           | ONumeric (NDecimal _ _) \<Rightarrow> flat (decimal_to_cass (cl_gmp (se_lib env)) obj)
           | OTimestamp _ \<Rightarrow> flat (timestamp_value obj)
           | ODate _ \<Rightarrow> flat (date_value obj)
           | OTime _ \<Rightarrow> flat (time_value obj)
           | OBlob _ \<Rightarrow> flat (blob_value obj)
           | OUuid _ _ \<Rightarrow> flat (uuid_value obj)
           | OInet _ \<Rightarrow> flat (inet_value obj)
           | ODuration _ _ _ \<Rightarrow> flat (duration_value obj)
           | OTyped c _ _ \<Rightarrow>
               (case map_of [(''Set'', CASS_SET), (''Map'', CASS_MAP), (''Collection'', CASS_LIST), (''Tuple'', CASS_TUPLE),
                  (''UserTypeValue'', CASS_UDT)] c of
                  None \<Rightarrow> (0, Ok None)
                | Some type \<Rightarrow>
                    (case container_value (se_fuel env) (se_lib env) (se_heap env) type obj of
                       (n, Ok (Some p)) \<Rightarrow> (n - 1, Ok (Some p))
                     | r \<Rightarrow> r))
           | OOther _ _ \<Rightarrow> (0, Ok None))
      | _ \<Rightarrow> (0, Ok None))"

lemma bind_flat: "bind_alloc (flat (Ok p)) (bind_checked env stmt target) = bind_checked env stmt target p"
  by (simp add: flat_def bind_checked_def check_error_def)

lemma bind_container_payload:
  "bind_container env stmt target type obj =
    bind_alloc (case container_value (se_fuel env) (se_lib env) (se_heap env) type obj of
        (n, Ok (Some p)) \<Rightarrow> (n - 1, Ok (Some p)) | r \<Rightarrow> r) (bind_checked env stmt target)"
  by (auto simp: bind_container_def bind_checked_def check_error_def split: prod.splits outcome.splits option.splits)

lemma bind_by_index_payload:
  "bind_argument_by_index env stmt i v = bind_alloc (arg_payload env v) (bind_checked env stmt (ByIndex i))"
proof (cases v)
  case (ZObject obj)
  show ?thesis
  proof (cases obj)
    case (ONumeric n)
    then show ?thesis by (cases n) (simp_all add: ZObject bind_argument_by_index_def arg_payload_def bind_flat)
  qed (simp_all add: ZObject bind_argument_by_index_def arg_payload_def bind_flat bind_container_payload del: One_nat_def)
qed (simp_all add: bind_argument_by_index_def arg_payload_def bind_flat)

lemma bind_by_name_payload:
  "bind_argument_by_name env stmt name v = bind_alloc (arg_payload env v) (bind_checked env stmt (ByName name))"
proof (cases v)
  case (ZObject obj)
  show ?thesis
  proof (cases obj)
    case (ONumeric n)
    then show ?thesis by (cases n) (simp_all add: ZObject bind_argument_by_name_def arg_payload_def bind_flat)
  qed (simp_all add: ZObject bind_argument_by_name_def arg_payload_def bind_flat bind_container_payload del: One_nat_def)
qed (simp_all add: bind_argument_by_name_def arg_payload_def bind_flat)

lemma export_represents:
  assumes "gmp_lib g" and "size_ok g n"
  shows "import_twos_complement g (fst (export_twos_complement g n)) = n \<longleftrightarrow> \<not> misencoded g n"
  using gmp_lib.roundtrip_if [OF assms(1)] gmp_lib.misencoded_differs [OF assms(1)] assms(2) unfolding size_ok_def by blast

definition class_types :: "(string \<times> cass_value_type) set" where
  "class_types =
     {(''Set'', CASS_SET), (''Map'', CASS_MAP), (''Collection'', CASS_LIST), (''Tuple'', CASS_TUPLE), (''UserTypeValue'', CASS_UDT)}"

lemma container_class:
  "value_ok heap (ZObject (OTyped c ty h)) \<Longrightarrow> \<exists>ct. heap h = Some ct \<and> ct_type ct = ty \<and>
    (c, type_type ty) \<in> class_types"
proof -
  assume "value_ok heap (ZObject (OTyped c ty h))"
  then obtain ct where ct: "heap h = Some ct" "ct_class ct = c" "ct_type ct = ty" by auto
  show ?thesis unfolding ct(2,3) [symmetric]
    by (rule exI [where x = ct]) (cases ct; simp add: ct(1) map_type_def udt_type_def class_types_def)
qed

lemma payload_class: "(c, t) \<in> class_types \<Longrightarrow>
    map_of [(''Set'', CASS_SET), (''Map'', CASS_MAP), (''Collection'', CASS_LIST), (''Tuple'', CASS_TUPLE),
      (''UserTypeValue'', CASS_UDT)] c = Some t"
  by (auto simp: class_types_def)

lemma flat_sound: "represents g v p \<Longrightarrow> containers p = 0 \<Longrightarrow> sound silent (\<lambda>n p. represents g v p \<and> n = containers p - 1) (flat (Ok p))"
  by (simp add: flat_def sound_Ok)

lemma payload_sound:
  assumes g: "gmp_lib (cl_gmp (se_lib env))" and heap: "heap_inv e obj_ok (se_heap env)"
    and names: "names_read (cl_key_mem (se_lib env)) silent (se_heap env)"
    and v: "arg_ok env v" and b: "bindable v \<or> silent"
  shows "sound silent (\<lambda>n p. represents (cl_gmp (se_lib env)) v p \<and> n = containers p - 1) (arg_payload env v)"
proof (cases v)
  case (ZObject obj)
  show ?thesis
  proof (cases obj)
    case (ONumeric n)
    show ?thesis
    proof (cases n)
      case (NVarint k)
      show ?thesis unfolding ZObject ONumeric NVarint arg_payload_def
        by (simp only: zval.case obj.case php_driver_numeric.case varint_value.simps decimal_to_cass.simps, rule flat_sound) (use export_represents [OF g] in simp_all)
    next
      case (NDecimal k scale)
      show ?thesis unfolding ZObject ONumeric NDecimal arg_payload_def
        by (simp only: zval.case obj.case php_driver_numeric.case varint_value.simps decimal_to_cass.simps, rule flat_sound) (use export_represents [OF g] sint_of_int_in [of scale, where 'a = 32] in simp_all)
    qed (simp_all add: ZObject ONumeric arg_payload_def flat_def sound_Ok)
  next
    case (OTyped c ty h)
    have vo: "value_ok (se_heap env) (ZObject (OTyped c ty h))" and d: "type_depth ty < se_fuel env"
      using v ZObject OTyped by (simp_all add: arg_ok_def)
    from container_class [OF vo] obtain ct where ct: "se_heap env h = Some ct" "ct_type ct = ty"
      and cl: "(c, type_type ty) \<in> class_types" by (elim exE conjE)
    have "sound silent (typed ty) (container_value (se_fuel env) (se_lib env) (se_heap env) (type_type ty) (OTyped c ty h))"
      using container_sound [OF heap names, of "se_fuel env"] ct d unfolding sub_sound_def by blast
    then show ?thesis unfolding ZObject OTyped arg_payload_def
      by (simp only: zval.case obj.case payload_class [OF cl] option.case)
        (auto simp: sound_def typed_def split: prod.splits outcome.splits option.splits)
  next
    case (OOther c h)
    then show ?thesis using b ZObject by (simp add: arg_payload_def sound_None)
  qed (simp_all add: ZObject arg_payload_def flat_def sound_Ok)
next
  case (ZLong l)
  show ?thesis unfolding ZLong arg_payload_def
    by (simp only: zval.case obj.case php_driver_numeric.case varint_value.simps decimal_to_cass.simps, rule flat_sound) (use sint_ucast_int [of l] in simp_all)
next
  case (ZString s)
  show ?thesis unfolding ZString arg_payload_def
    by (simp only: zval.case obj.case php_driver_numeric.case varint_value.simps decimal_to_cass.simps, rule flat_sound) (simp_all add: cstr_id)
qed (use b in \<open>simp_all add: arg_payload_def flat_def sound_Ok sound_None\<close>)

lemma names_read_mono: "names_read km silent heap \<Longrightarrow> (silent \<Longrightarrow> silent') \<Longrightarrow> names_read km silent' heap"
  by (auto simp: names_read_def)

lemma bind_arguments_sound:
  assumes g: "gmp_lib (cl_gmp (se_lib env))" and heap: "heap_inv e obj_ok (se_heap env)"
    and names: "names_read (cl_key_mem (se_lib env)) silent (se_heap env)"
    and v: "\<forall>(k, v) \<in> set args. arg_ok env v \<and> (bindable v \<or> silent)"
  shows "sound silent (\<lambda>n stmt'. \<exists>ps. list_all2 (\<lambda>(k, v) p. represents (cl_gmp (se_lib env)) v p) args ps \<and>
      stmt' = stmt\<lparr>st_bindings := st_bindings stmt @ zip (map (target_of \<circ> fst) args) ps\<rparr> \<and>
      n = sum_list (map (\<lambda>p. containers p - 1) ps)) (bind_arguments env stmt args)"
  using v
proof (induction args arbitrary: stmt)
  case Nil
  then show ?case by (simp add: sound_Ok)
next
  case (Cons a args)
  obtain k v where a: "a = (k, v)" by fastforce
  let ?R = "\<lambda>n stmt'. \<exists>p. represents (cl_gmp (se_lib env)) v p \<and>
    stmt' = stmt\<lparr>st_bindings := st_bindings stmt @ [(target_of k, p)]\<rparr> \<and> n = containers p - 1"
  have "sound silent ?R (bind_alloc (arg_payload env v) (bind_checked env stmt (target_of k)))"
    by (rule sound_bind [OF payload_sound [OF g heap names]])
      (use Cons.prems a in \<open>auto simp: bind_checked_def intro!: sound_check_error\<close>)
  then have one: "sound silent ?R (case k of KStr name \<Rightarrow> bind_argument_by_name env stmt (cstr name) v
        | KInt num_key \<Rightarrow> bind_argument_by_index env stmt (unat (word_of_int num_key :: 64 word)) v)"
    by (cases k) (simp_all add: bind_by_name_payload bind_by_index_payload)
  show ?case unfolding a bind_arguments.simps
  proof (rule sound_bind [OF one])
    fix n stmt'
    assume "?R n stmt'"
    then obtain p where p: "represents (cl_gmp (se_lib env)) v p"
      "stmt' = stmt\<lparr>st_bindings := st_bindings stmt @ [(target_of k, p)]\<rparr>" "n = containers p - 1" by blast
    have "\<forall>(k, v) \<in> set args. arg_ok env v \<and> (bindable v \<or> silent)" using Cons.prems by simp
    from Cons.IH [OF this, of stmt']
    show "sound silent (\<lambda>m stmt''. \<exists>ps. list_all2 (\<lambda>(k, v) p. represents (cl_gmp (se_lib env)) v p) ((k, v) # args) ps \<and>
        stmt'' = stmt\<lparr>st_bindings := st_bindings stmt @ zip (map (target_of \<circ> fst) ((k, v) # args)) ps\<rparr> \<and>
        n + m = sum_list (map (\<lambda>p. containers p - 1) ps)) (bind_arguments env stmt' args)"
    proof (rule sound_mono, elim exE conjE)
      fix m stmt'' ps
      assume "list_all2 (\<lambda>(k, v) p. represents (cl_gmp (se_lib env)) v p) args ps"
        "stmt'' = stmt'\<lparr>st_bindings := st_bindings stmt' @ zip (map (target_of \<circ> fst) args) ps\<rparr>"
        "m = sum_list (map (\<lambda>p. containers p - 1) ps)"
      then show "\<exists>ps. list_all2 (\<lambda>(k, v) p. represents (cl_gmp (se_lib env)) v p) ((k, v) # args) ps \<and>
        stmt'' = stmt\<lparr>st_bindings := st_bindings stmt @ zip (map (target_of \<circ> fst) ((k, v) # args)) ps\<rparr> \<and>
        n + m = sum_list (map (\<lambda>p. containers p - 1) ps)"
        using p by (intro exI [where x = "p # ps"]) simp
    qed
  qed
qed

text \<open>
  C22. Binding an argument by name and by index passes the same payload to the driver library: a value
  has one payload, and both functions bind it and free its container.
\<close>

theorem bind_by_name_or_index:
  "\<exists>payload. (\<forall>stmt index. bind_argument_by_index env stmt index value =
        bind_alloc payload (bind_checked env stmt (ByIndex index))) \<and>
     (\<forall>stmt name. bind_argument_by_name env stmt name value =
        bind_alloc payload (bind_checked env stmt (ByName name)))"
  using bind_by_index_payload bind_by_name_payload by blast

text \<open>
  C23. The arguments of a statement are bound in their order, each to its name or index, with a payload
  that represents its value; nothing else can happen but an error of the driver library, or a failure
  without an exception for a value of no known class or a misread user type. The containers left
  allocated are those nested in the payloads.
\<close>

theorem arguments_bound:
  assumes "gmp_lib (cl_gmp (se_lib env))" and "heap_inv e obj_ok (se_heap env)"
    and "names_read (cl_key_mem (se_lib env)) silent (se_heap env)" and "\<forall>(k, v) \<in> set args. arg_ok env v"
  shows "let r = bind_arguments env stmt args in
    snd r \<noteq> UB \<and> (\<forall>x. snd r = Throw x \<longrightarrow> (\<exists>rc. rc \<noteq> 0 \<and> x = CassException rc)) \<and>
    (snd r = Ok None \<longrightarrow> silent \<or> (\<exists>(k, v) \<in> set args. \<not> bindable v)) \<and>
    (\<forall>stmt'. snd r = Ok (Some stmt') \<longrightarrow>
       (\<exists>ps. list_all2 (\<lambda>(k, v) p. represents (cl_gmp (se_lib env)) v p) args ps \<and>
          stmt' = stmt\<lparr>st_bindings := st_bindings stmt @ zip (map (target_of \<circ> fst) args) ps\<rparr> \<and>
          fst r = sum_list (map (\<lambda>p. containers p - 1) ps)))"
proof -
  let ?silent = "silent \<or> (\<exists>(k, v) \<in> set args. \<not> bindable v)"
  have "names_read (cl_key_mem (se_lib env)) ?silent (se_heap env)" using names_read_mono [OF assms(3)] by simp
  moreover have "\<forall>(k, v) \<in> set args. arg_ok env v \<and> (bindable v \<or> ?silent)" using assms(4) by blast
  ultimately have "sound ?silent (\<lambda>n stmt'. \<exists>ps. list_all2 (\<lambda>(k, v) p. represents (cl_gmp (se_lib env)) v p) args ps \<and>
      stmt' = stmt\<lparr>st_bindings := st_bindings stmt @ zip (map (target_of \<circ> fst) args) ps\<rparr> \<and>
      n = sum_list (map (\<lambda>p. containers p - 1) ps)) (bind_arguments env stmt args)"
    by (rule bind_arguments_sound [OF assms(1,2)])
  then show ?thesis unfolding sound_def Let_def by blast
qed

definition env_accepting :: "(string \<Rightarrow> string) \<Rightarrow> obj_heap \<Rightarrow> stmt_env" where
  "env_accepting key_mem heap =
     \<lparr>se_lib = lib_accepting key_mem, se_bind = (\<lambda>_ _ _. 0), se_set = (\<lambda>_ _. 0), se_batch_set = (\<lambda>_ _. 0),
      se_heap = heap, se_arrays = (\<lambda>_. []), se_stmts = (\<lambda>_. None), se_policies = (\<lambda>_. None), se_fuel = 4\<rparr>"

theorem arguments_bound_witness:
  "\<exists>ps. list_all2 (\<lambda>(k, v) p. represents gmp_ref v p)
      [(KInt 0, ZLong 7), (KStr ''n'', ZObject (ONumeric (NVarint (- 129))))] ps \<and>
    bind_arguments (env_accepting (\<lambda>_. []) nested_heap) \<lparr>st_source = SourcePrepared 0, st_bindings = [], st_settings = []\<rparr>
      [(KInt 0, ZLong 7), (KStr ''n'', ZObject (ONumeric (NVarint (- 129))))] =
    (0, Ok (Some \<lparr>st_source = SourcePrepared 0, st_bindings = zip [ByIndex 0, ByName ''n''] ps, st_settings = []\<rparr>))"
proof -
  let ?env = "env_accepting (\<lambda>_. []) nested_heap"
  let ?stmt = "\<lparr>st_source = SourcePrepared 0, st_bindings = [], st_settings = []\<rparr>"
  let ?args = "[(KInt 0, ZLong 7), (KStr ''n'', ZObject (ONumeric (NVarint (- 129))))]"
  have g: "gmp_lib (cl_gmp (se_lib ?env))" using gmp_ref.gmp_lib_axioms by (simp add: env_accepting_def lib_accepting_def)
  have h: "heap_inv engine_ref (\<lambda>_. True) (se_heap ?env)" using nested_heap_inv by (simp add: env_accepting_def)
  have n: "names_read (cl_key_mem (se_lib ?env)) False (se_heap ?env)"
    by (simp add: names_read_def nested_heap_def env_accepting_def)
  have a: "\<forall>(k, v) \<in> set ?args. arg_ok ?env v" by (simp add: arg_ok_def)
  have "\<exists>stmt'. bind_arguments ?env ?stmt ?args = (0, Ok (Some stmt'))"
    by (simp add: bind_argument_by_name_def bind_argument_by_index_def bind_checked_def check_error_def env_accepting_def)
  then obtain stmt' where r: "bind_arguments ?env ?stmt ?args = (0, Ok (Some stmt'))" by blast
  from arguments_bound [OF g h n a, of ?stmt] obtain ps where
    "list_all2 (\<lambda>(k, v) p. represents (cl_gmp (se_lib ?env)) v p) ?args ps"
    "stmt' = ?stmt\<lparr>st_bindings := st_bindings ?stmt @ zip (map (target_of \<circ> fst) ?args) ps\<rparr>"
    unfolding Let_def r by auto
  then show ?thesis using r by (intro exI [where x = ps]) (simp add: env_accepting_def lib_accepting_def cstr_def)
qed

end
