(* ===== verification/Cluster_Connect.thy ===== *)
theory Cluster_Connect
  imports Cluster_Builder
begin

text \<open>
  Clusters, sessions and the objects that hold them: \<^verbatim>\<open>Cluster\Builder::build\<close>, \<^verbatim>\<open>ext/src/DefaultCluster.c\<close>,
  \<^verbatim>\<open>ext/src/FutureSession.c\<close>, \<^verbatim>\<open>ext/util/ref.c\<close>, \<^verbatim>\<open>ext/util/future.c\<close> and the destructors of persistent
  resources in \<^verbatim>\<open>ext/php_driver.c\<close>. Clusters and futures of the driver library are named by numbers, and
  the state records which are alive; a session is a reference-counted cell, with count 0 once it is
  freed. Using what was freed is \<open>UB\<close>.
\<close>

section \<open>Futures\<close>

text \<open>What the library answers about a future: whether it is ready, whether it resolves in time, its error code.\<close>

record fut_env =
  fe_ready :: bool
  fe_wait_timed :: "64 word \<Rightarrow> bool"
  fe_error :: nat

definition wait_timed_us :: "fut_env \<Rightarrow> 64 word \<Rightarrow> unit outcome" where
  "wait_timed_us env us = (if fe_wait_timed env us then Ok () else Throw TimeoutException)"

fun php_driver_future_wait_timed :: "fut_env \<Rightarrow> zval \<Rightarrow> unit outcome" where
  "php_driver_future_wait_timed env timeout =
     (if fe_ready env then Ok ()
      else case timeout of
        ZNull \<Rightarrow> Ok ()
      | ZUndef \<Rightarrow> Ok ()
      | ZLong l \<Rightarrow>
          (if 0 < sint l
           then (if in_int 64 (sint l * 1000000) then wait_timed_us env (word_of_int (sint l * 1000000)) else UB)
           else Throw InvalidArgumentException)
      | ZDouble d \<Rightarrow>
          (if dbl_lt 0 d
           then bind_outcome (dbl_ceil_to_uint 64 (dbl_mul d (int_to_dbl 1000000))) (\<lambda>us. wait_timed_us env (word_of_int us))
           else Throw InvalidArgumentException)
      | _ \<Rightarrow> Throw InvalidArgumentException)"

declare php_driver_future_wait_timed.simps [simp del]

definition php_driver_future_is_error :: "fut_env \<Rightarrow> unit outcome" where
  "php_driver_future_is_error env = (if fe_error env \<noteq> 0 then Throw (CassException (fe_error env)) else Ok ())"

section \<open>State\<close>

datatype resource =
    RCluster nat
  | RSession nat nat \<comment> \<open>a \<^verbatim>\<open>php_driver_psession\<close>: session cell and future\<close>

record cluster_obj =
  co_persist :: bool
  co_hash_key :: string
  co_cluster :: nat
  co_consistency :: "64 word"
  co_page_size :: "32 word"
  co_timeout :: zval

record session_obj =
  so_id :: nat
  so_session :: nat
  so_persist :: bool
  so_consistency :: "64 word"
  so_page_size :: "32 word"
  so_timeout :: zval

record future_session =
  fs_id :: nat
  fs_session :: nat
  fs_future :: "nat option"
  fs_persist :: bool
  fs_hash_key :: string
  fs_exception :: "nat option"
  fs_default_session :: "nat option" \<comment> \<open>the session object that \<^verbatim>\<open>get\<close> returned\<close>

record world =
  w_plist :: "(string \<times> resource) list"
  w_clusters :: "nat list"
  w_config :: "nat \<Rightarrow> cluster_builder" \<comment> \<open>the builder a cluster was configured from\<close>
  w_sessions :: "nat \<Rightarrow> nat"
  w_futures :: "nat list"
  w_next :: nat
  w_persistent_clusters :: int
  w_persistent_sessions :: int
  w_cluster_objs :: "cluster_obj list"
  w_session_objs :: "session_obj list"
  w_future_objs :: "future_session list"

definition world_init :: world where
  "world_init =
     \<lparr>w_plist = [], w_clusters = [], w_config = (\<lambda>_. php_driver_cluster_builder_new), w_sessions = (\<lambda>_. 0), w_futures = [],
      w_next = 0, w_persistent_clusters = 0, w_persistent_sessions = 0, w_cluster_objs = [], w_session_objs = [],
      w_future_objs = []\<rparr>"

section \<open>References and resources\<close>

definition php_driver_add_ref :: "nat \<Rightarrow> world \<Rightarrow> world" where
  "php_driver_add_ref s w = w\<lparr>w_sessions := (w_sessions w)(s := w_sessions w s + 1)\<rparr>"

definition php_driver_del_peref :: "nat \<Rightarrow> world \<Rightarrow> world" where
  "php_driver_del_peref s w = w\<lparr>w_sessions := (w_sessions w)(s := w_sessions w s - 1)\<rparr>"

text \<open>The destructor of a resource, called when its entry of the persistent list is removed or replaced.\<close>

fun resource_dtor :: "resource \<Rightarrow> world \<Rightarrow> world" where
  "resource_dtor (RCluster c) w =
     w\<lparr>w_clusters := removeAll c (w_clusters w), w_persistent_clusters := w_persistent_clusters w - 1\<rparr>"
| "resource_dtor (RSession s f) w =
     (php_driver_del_peref s (w\<lparr>w_futures := removeAll f (w_futures w)\<rparr>))
       \<lparr>w_persistent_sessions := w_persistent_sessions w - 1\<rparr>"

definition plist_del :: "string \<Rightarrow> world \<Rightarrow> world \<times> bool" where
  "plist_del k w =
     (case map_of (w_plist w) k of
        None \<Rightarrow> (w, False)
      | Some r \<Rightarrow> (resource_dtor r (w\<lparr>w_plist := filter (\<lambda>(k', _). k' \<noteq> k) (w_plist w)\<rparr>), True))"

definition plist_update :: "string \<Rightarrow> resource \<Rightarrow> world \<Rightarrow> world" where
  "plist_update k r w = (let w = fst (plist_del k w) in w\<lparr>w_plist := w_plist w @ [(k, r)]\<rparr>)"

section \<open>Building a cluster\<close>

text \<open>The calls that configure a cluster, and which of them have their result checked.\<close>

datatype cluster_setting =
    SetLoadBalanceRoundRobin
  | SetLoadBalanceDcAware string "32 word" bool
  | SetBlacklist string | SetWhitelist string | SetBlacklistDc string | SetWhitelistDc string
  | SetTokenAware bool | SetCredentials string string | SetConnectTimeout "32 word" | SetRequestTimeout "32 word"
  | SetSsl zval | SetContactPoints string | SetPort "32 word" | SetProtocolVersion "32 word" | SetNumThreadsIo "32 word"
  | SetCoreConnections "32 word" | SetMaxConnections "32 word" | SetReconnectWait "32 word" | SetLatencyAware bool
  | SetTcpNodelay bool | SetTcpKeepalive bool "32 word" | SetUseSchema bool | SetHostnameResolution bool
  | SetRandomizedContactPoints bool | SetHeartbeatInterval "32 word" | SetTimestampGen zval | SetRetryPolicy zval

definition opt_setting :: "('a \<Rightarrow> cluster_setting) \<Rightarrow> 'a option \<Rightarrow> (cluster_setting \<times> bool) list" where
  "opt_setting f x = (case x of Some v \<Rightarrow> [(f v, False)] | None \<Rightarrow> [])"

definition build_settings :: "cluster_builder \<Rightarrow> (cluster_setting \<times> bool) list" where
  "build_settings self =
     (if load_balancing_policy self = LOAD_BALANCING_ROUND_ROBIN then [(SetLoadBalanceRoundRobin, False)] else []) @
     (if load_balancing_policy self = LOAD_BALANCING_DC_AWARE_ROUND_ROBIN
      then [(SetLoadBalanceDcAware (safe_str (local_dc self)) (used_hosts_per_remote_dc self)
               (allow_remote_dcs_for_local_cl self), True)] else []) @
     opt_setting SetBlacklist (blacklist_hosts self) @ opt_setting SetWhitelist (whitelist_hosts self) @
     opt_setting SetBlacklistDc (blacklist_dcs self) @ opt_setting SetWhitelistDc (whitelist_dcs self) @
     [(SetTokenAware (use_token_aware_routing self), False)] @
     opt_setting (\<lambda>u. SetCredentials u (safe_str (password self))) (username self) @
     [(SetConnectTimeout (connect_timeout self), False), (SetRequestTimeout (request_timeout self), False)] @
     (if ssl_options self \<noteq> ZUndef then [(SetSsl (ssl_options self), False)] else []) @
     [(SetContactPoints (contact_points self), True), (SetPort (port self), True),
      (SetProtocolVersion (protocol_version self), True), (SetNumThreadsIo (io_threads self), True),
      (SetCoreConnections (core_connections_per_host self), True),
      (SetMaxConnections (max_connections_per_host self), True), (SetReconnectWait (reconnect_interval self), False),
      (SetLatencyAware (enable_latency_aware_routing self), False), (SetTcpNodelay (enable_tcp_nodelay self), False),
      (SetTcpKeepalive (enable_tcp_keepalive self) (tcp_keepalive_delay self), False),
      (SetUseSchema (enable_schema self), False), (SetHostnameResolution (enable_hostname_resolution self), True),
      (SetRandomizedContactPoints (enable_randomized_contact_points self), True),
      (SetHeartbeatInterval (connection_heartbeat_interval self), False)] @
     (if timestamp_gen self \<noteq> ZUndef then [(SetTimestampGen (timestamp_gen self), False)] else []) @
     (if retry_policy self \<noteq> ZUndef then [(SetRetryPolicy (retry_policy self), False)] else [])"

text \<open>
  The calls in order, until one that is checked fails; \<open>rc\<close> is the code the library returns. Only for the
  hostname resolution the code \<open>not_implemented\<close> is let through.
\<close>

fun is_hostname_resolution :: "cluster_setting \<Rightarrow> bool" where
  "is_hostname_resolution (SetHostnameResolution _) = True"
| "is_hostname_resolution _ = False"

fun configure :: "nat \<Rightarrow> (cluster_setting \<Rightarrow> nat) \<Rightarrow> (cluster_setting \<times> bool) list \<Rightarrow> unit outcome" where
  "configure not_implemented rc [] = Ok ()"
| "configure not_implemented rc ((setting, checked) # rest) =
     (if \<not> checked \<or> rc setting = 0 \<or>
         is_hostname_resolution setting \<and> rc setting = not_implemented
      then configure not_implemented rc rest
      else Throw (CassException (rc setting)))"

text \<open>
  The library and the engine: the result codes, the code for a feature that is not implemented, and
  the number the engine gave to the resource type of clusters. \<^verbatim>\<open>build\<close> compares the latter with the
  type tag of the found value, which is \<^verbatim>\<open>IS_RESOURCE\<close>.
\<close>

record lib =
  lib_rc :: "cluster_setting \<Rightarrow> nat"
  lib_not_implemented :: nat
  lib_le_cluster :: nat

definition IS_RESOURCE :: nat where
  "IS_RESOURCE = 9"

fun resource_ptr :: "resource \<Rightarrow> nat" where
  "resource_ptr (RCluster c) = c"
| "resource_ptr (RSession s f) = s"

definition add_cluster_obj :: "cluster_obj \<Rightarrow> world \<Rightarrow> world" where
  "add_cluster_obj co w = w\<lparr>w_cluster_objs := w_cluster_objs w @ [co]\<rparr>"

definition cluster_build :: "lib \<Rightarrow> cluster_builder \<Rightarrow> world \<Rightarrow> world \<times> cluster_obj outcome" where
  "cluster_build lib self w =
     (let key = build_hash_key self;
          co = \<lparr>co_persist = persist self, co_hash_key = (if persist self then key else []), co_cluster = w_next w,
                co_consistency = default_consistency self, co_page_size = default_page_size self,
                co_timeout = default_timeout self\<rparr>
      in if persist self \<and> map_of (w_plist w) key \<noteq> None \<and> IS_RESOURCE = lib_le_cluster lib
         then (let co = co\<lparr>co_cluster := resource_ptr (the (map_of (w_plist w) key))\<rparr>
               in (add_cluster_obj co w, Ok co))
         else (let w = w\<lparr>w_clusters := w_next w # w_clusters w, w_config := (w_config w)(w_next w := self), w_next := w_next w + 1\<rparr>
               in case configure (lib_not_implemented lib) (lib_rc lib) (build_settings self) of
                    Throw x \<Rightarrow>
                      (if persist self then (w, Throw x)
                       else (w\<lparr>w_clusters := removeAll (co_cluster co) (w_clusters w)\<rparr>, Throw x))
                  | UB \<Rightarrow> (w, UB)
                  | Ok _ \<Rightarrow>
                      if persist self
                      then (let w = plist_update key (RCluster (co_cluster co)) w
                            in (add_cluster_obj co (w\<lparr>w_persistent_clusters := w_persistent_clusters w + 1\<rparr>), Ok co))
                      else (add_cluster_obj co w, Ok co)))"

definition default_cluster_free :: "cluster_obj \<Rightarrow> world \<Rightarrow> world" where
  "default_cluster_free co w =
     (let w = w\<lparr>w_cluster_objs := remove1 co (w_cluster_objs w)\<rparr>
      in if co_persist co then w else w\<lparr>w_clusters := removeAll (co_cluster co) (w_clusters w)\<rparr>)"

section \<open>Connecting\<close>

definition session_key :: "cluster_obj \<Rightarrow> string option \<Rightarrow> string" where
  "session_key co keyspace = co_hash_key co @ '':session:'' @ safe_str (map_option cstr keyspace)"

text \<open>The entry of the persistent list, if its resource type is that of sessions.\<close>

definition find_psession :: "string \<Rightarrow> world \<Rightarrow> (nat \<times> nat) option" where
  "find_psession k w = (case map_of (w_plist w) k of Some (RSession s f) \<Rightarrow> Some (s, f) | _ \<Rightarrow> None)"

text \<open>
  A new session and the future of its connection, entered in the persistent list if it is to be kept.
  The connection reads the cluster, which must not have been freed.
\<close>

definition open_session :: "cluster_obj \<Rightarrow> string \<Rightarrow> world \<Rightarrow> (world \<times> nat \<times> nat) outcome" where
  "open_session self key w =
     (if co_cluster self \<notin> set (w_clusters w) then UB
      else (let s = w_next w; f = w_next w + 1;
                w = w\<lparr>w_sessions := (w_sessions w)(s := 1), w_futures := f # w_futures w, w_next := w_next w + 2\<rparr>
            in Ok (if co_persist self
                   then (let w = plist_update key (RSession s f) (php_driver_add_ref s w)
                         in (w\<lparr>w_persistent_sessions := w_persistent_sessions w + 1\<rparr>, s, f))
                   else (w, s, f))))"

text \<open>
  A session object of \<^verbatim>\<open>connect\<close>. The default timeout of the cluster is copied only if that of the new
  session is already set, which it never is.
\<close>

definition new_session_obj :: "nat \<Rightarrow> cluster_obj \<Rightarrow> nat \<Rightarrow> session_obj" where
  "new_session_obj i self s =
     \<lparr>so_id = i, so_session = s, so_persist = co_persist self, so_consistency = co_consistency self,
      so_page_size = co_page_size self, so_timeout = ZUndef\<rparr>"

definition cluster_connect ::
  "cluster_obj \<Rightarrow> string option \<Rightarrow> zval \<Rightarrow> fut_env \<Rightarrow> world \<Rightarrow> world \<times> session_obj outcome" where
  "cluster_connect self keyspace timeout env w =
     (let key = session_key self keyspace;
          opened = (case (if co_persist self then find_psession key w else None) of
                      Some (s, f) \<Rightarrow> Ok (php_driver_add_ref s w, s, f)
                    | None \<Rightarrow> open_session self key w)
      in case opened of
           UB \<Rightarrow> (w, UB)
         | Throw x \<Rightarrow> (w, Throw x)
         | Ok (w, s, f) \<Rightarrow>
             if f \<notin> set (w_futures w) then (w, UB)
             else case php_driver_future_wait_timed env timeout of
               UB \<Rightarrow> (w, UB)
             | Throw x \<Rightarrow>
                 (php_driver_del_peref s
                    (if co_persist self then w else w\<lparr>w_futures := removeAll f (w_futures w)\<rparr>), Throw x)
             | Ok _ \<Rightarrow>
                 (case php_driver_future_is_error env of
                    Ok _ \<Rightarrow>
                      (let so = new_session_obj (w_next w) self s
                       in (w\<lparr>w_session_objs := w_session_objs w @ [so], w_next := w_next w + 1\<rparr>, Ok so))
                  | Throw x \<Rightarrow>
                      (php_driver_del_peref s
                         (if co_persist self then fst (plist_del key w) else w\<lparr>w_futures := removeAll f (w_futures w)\<rparr>), Throw x)
                  | UB \<Rightarrow> (w, UB)))"

definition cluster_connect_async :: "cluster_obj \<Rightarrow> string option \<Rightarrow> world \<Rightarrow> world \<times> future_session outcome" where
  "cluster_connect_async self keyspace w =
     (let key = session_key self keyspace;
          opened = (case (if co_persist self then find_psession key w else None) of
                      Some (s, f) \<Rightarrow> Ok (php_driver_add_ref s w, s, f)
                    | None \<Rightarrow> open_session self key w)
      in case opened of
           UB \<Rightarrow> (w, UB)
         | Throw x \<Rightarrow> (w, Throw x)
         | Ok (w, s, f) \<Rightarrow>
             (let fs = \<lparr>fs_id = w_next w, fs_session = s, fs_future = Some f, fs_persist = co_persist self,
                        fs_hash_key = (if co_persist self then key else []), fs_exception = None, fs_default_session = None\<rparr>
              in (w\<lparr>w_future_objs := w_future_objs w @ [fs], w_next := w_next w + 1\<rparr>, Ok fs)))"

definition update_future :: "future_session \<Rightarrow> world \<Rightarrow> world" where
  "update_future fs w = w\<lparr>w_future_objs := map (\<lambda>g. if fs_id g = fs_id fs then fs else g) (w_future_objs w)\<rparr>"

text \<open>\<^verbatim>\<open>FutureSession::get\<close>: the identity of the session object. The session keeps the settings of a new object.\<close>

definition future_session_get :: "future_session \<Rightarrow> zval \<Rightarrow> fut_env \<Rightarrow> world \<Rightarrow> world \<times> nat outcome" where
  "future_session_get self timeout env w =
     (case fs_exception self of
        Some code \<Rightarrow> (w, Throw (CassException code))
      | None \<Rightarrow>
     (case fs_default_session self of
        Some i \<Rightarrow> (w, Ok i)
      | None \<Rightarrow>
          if fs_future self = None \<or> the (fs_future self) \<notin> set (w_futures w) then (w, UB)
          else (let held = php_driver_add_ref (fs_session self) w
                in case php_driver_future_wait_timed env timeout of
                     UB \<Rightarrow> (w, UB)
                   | Throw x \<Rightarrow> (php_driver_del_peref (fs_session self) held, Throw x)
                   | Ok _ \<Rightarrow>
                       if fe_error env \<noteq> 0 then
                         (let freed_up = php_driver_del_peref (fs_session self) held
                          in if fs_persist self then
                               (let (w', deleted) = plist_del (fs_hash_key self) freed_up;
                                    fs = self\<lparr>fs_exception := Some (fe_error env),
                                              fs_future := (if deleted then None else fs_future self)\<rparr>
                                in (update_future fs w', Throw (CassException (fe_error env))))
                             else (freed_up, Throw (CassException (fe_error env))))
                       else
                         (let so = \<lparr>so_id = w_next w, so_session = fs_session self, so_persist = fs_persist self,
                                    so_consistency = 10, so_page_size = 5000, so_timeout = ZUndef\<rparr>
                          in (update_future (self\<lparr>fs_default_session := Some (so_id so)\<rparr>)
                                (held\<lparr>w_session_objs := w_session_objs held @ [so], w_next := w_next held + 1\<rparr>),
                              Ok (so_id so))))))"

definition default_session_free :: "session_obj \<Rightarrow> world \<Rightarrow> world" where
  "default_session_free so w = php_driver_del_peref (so_session so) (w\<lparr>w_session_objs := remove1 so (w_session_objs w)\<rparr>)"

definition future_session_free :: "future_session \<Rightarrow> world \<Rightarrow> world" where
  "future_session_free fs w =
     (let w = w\<lparr>w_future_objs := remove1 fs (w_future_objs w)\<rparr>;
          w = (if fs_persist fs then w
               else case fs_future fs of Some f \<Rightarrow> w\<lparr>w_futures := removeAll f (w_futures w)\<rparr> | None \<Rightarrow> w)
      in php_driver_del_peref (fs_session fs) w)"

section \<open>Steps\<close>

text \<open>
  One method call or destructor on existing objects that does not run into undefined behaviour. The
  engine destroys a session object only when no future object refers to it any more. Builders are those
  that satisfy \<open>ok\<close>.
\<close>

inductive world_step :: "lib \<Rightarrow> (cluster_builder \<Rightarrow> bool) \<Rightarrow> world \<Rightarrow> world \<Rightarrow> bool" for lib ok where
  build: "ok b \<Longrightarrow> cluster_build lib b w = (w', r) \<Longrightarrow> r \<noteq> UB \<Longrightarrow> world_step lib ok w w'"
| free_cluster: "co \<in> set (w_cluster_objs w) \<Longrightarrow> world_step lib ok w (default_cluster_free co w)"
| connect: "co \<in> set (w_cluster_objs w) \<Longrightarrow> cluster_connect co keyspace timeout env w = (w', r) \<Longrightarrow> r \<noteq> UB \<Longrightarrow>
    world_step lib ok w w'"
| connect_async: "co \<in> set (w_cluster_objs w) \<Longrightarrow> cluster_connect_async co keyspace w = (w', r) \<Longrightarrow> r \<noteq> UB \<Longrightarrow>
    world_step lib ok w w'"
| get: "fs \<in> set (w_future_objs w) \<Longrightarrow> future_session_get fs timeout env w = (w', r) \<Longrightarrow> r \<noteq> UB \<Longrightarrow> world_step lib ok w w'"
| free_session: "so \<in> set (w_session_objs w) \<Longrightarrow> so_id so \<notin> Option.these (fs_default_session ` set (w_future_objs w)) \<Longrightarrow>
    world_step lib ok w (default_session_free so w)"
| free_future: "fs \<in> set (w_future_objs w) \<Longrightarrow> world_step lib ok w (future_session_free fs w)"

inductive world_reach :: "lib \<Rightarrow> (cluster_builder \<Rightarrow> bool) \<Rightarrow> world \<Rightarrow> bool" for lib ok where
  init: "world_reach lib ok world_init"
| step: "world_reach lib ok w \<Longrightarrow> world_step lib ok w w' \<Longrightarrow> world_reach lib ok w'"

section \<open>Reference counts\<close>

definition session_refs :: "world \<Rightarrow> nat \<Rightarrow> nat" where
  "session_refs w s = count_list (map so_session (w_session_objs w)) s + count_list (map fs_session (w_future_objs w)) s +
     length (filter (\<lambda>(k, r). case r of RSession t _ \<Rightarrow> t = s | RCluster _ \<Rightarrow> False) (w_plist w))"

text \<open>
  The counts are those of the references in objects and in the persistent list, plus the references \<open>H\<close>
  that the running method holds.
\<close>

definition ref_inv :: "nat list \<Rightarrow> world \<Rightarrow> bool" where
  "ref_inv H w \<longleftrightarrow> (\<forall>s. w_sessions w s = session_refs w s + count_list H s) \<and> (\<forall>s \<ge> w_next w. w_sessions w s = 0) \<and>
     distinct (map fst (w_plist w)) \<and> distinct (map fs_id (w_future_objs w)) \<and> (\<forall>fs \<in> set (w_future_objs w). fs_id fs < w_next w)"

lemma ref_invI:
  assumes "\<And>s. w_sessions w s = session_refs w s + count_list H s" and "\<And>s. w_next w \<le> s \<Longrightarrow> w_sessions w s = 0"
    and "distinct (map fst (w_plist w))" and "distinct (map fs_id (w_future_objs w))"
    and "\<And>fs. fs \<in> set (w_future_objs w) \<Longrightarrow> fs_id fs < w_next w"
  shows "ref_inv H w"
  using assms by (simp add: ref_inv_def del: One_nat_def)

lemma ref_invD:
  assumes "ref_inv H w"
  shows "w_sessions w s = session_refs w s + count_list H s" "w_next w \<le> s \<Longrightarrow> w_sessions w s = 0"
    "distinct (map fst (w_plist w))" "distinct (map fs_id (w_future_objs w))"
    "fs \<in> set (w_future_objs w) \<Longrightarrow> fs_id fs < w_next w"
  using assms unfolding ref_inv_def by blast+

lemma count_list_remove1: "x \<in> set xs \<Longrightarrow> count_list (map f xs) s = count_list (map f (remove1 x xs)) s + (if f x = s then 1 else 0)"
  by (induction xs) auto

lemma ref_inv_add_ref: "ref_inv H w \<Longrightarrow> s < w_next w \<Longrightarrow> ref_inv (s # H) (php_driver_add_ref s w)"
  by (auto simp: ref_inv_def php_driver_add_ref_def session_refs_def)

lemma ref_inv_del_ref: "ref_inv (s # H) w \<Longrightarrow> ref_inv H (php_driver_del_peref s w)"
  by (auto simp: ref_inv_def php_driver_del_peref_def session_refs_def)

text \<open>Changes of the state that no reference depends on.\<close>

lemma ref_inv_cong:
  assumes "ref_inv H w" and "w_sessions w' = w_sessions w" and "w_plist w' = w_plist w" and "w_next w \<le> w_next w'"
    and "w_session_objs w' = w_session_objs w" and "w_future_objs w' = w_future_objs w"
  shows "ref_inv H w'"
proof -
  have "session_refs w' = session_refs w" by (rule ext) (simp add: session_refs_def assms)
  then show ?thesis using assms by (auto simp: ref_inv_def)
qed

lemma session_refs_more [simp]:
  "session_refs (w\<lparr>w_session_objs := w_session_objs w @ [so], w_next := n\<rparr>) s =
    session_refs w s + (if so_session so = s then 1 else 0)"
  "session_refs (w\<lparr>w_future_objs := w_future_objs w @ [fs], w_next := n\<rparr>) s =
    session_refs w s + (if fs_session fs = s then 1 else 0)"
  by (simp_all add: session_refs_def)

lemma session_refs_less:
  "so \<in> set (w_session_objs w) \<Longrightarrow> session_refs w s =
    session_refs (w\<lparr>w_session_objs := remove1 so (w_session_objs w)\<rparr>) s + (if so_session so = s then 1 else 0)"
  "fs \<in> set (w_future_objs w) \<Longrightarrow> session_refs w s =
    session_refs (w\<lparr>w_future_objs := remove1 fs (w_future_objs w)\<rparr>) s + (if fs_session fs = s then 1 else 0)"
  using count_list_remove1 [of so "w_session_objs w" so_session s] count_list_remove1 [of fs "w_future_objs w" fs_session s]
  by (simp_all add: session_refs_def)

lemma ref_inv_session_obj:
  assumes "ref_inv (so_session so # H) w"
  shows "ref_inv H (w\<lparr>w_session_objs := w_session_objs w @ [so], w_next := w_next w + 1\<rparr>)"
proof -
  have "\<forall>s. w_sessions w s = session_refs w s + (if so_session so = s then 1 else 0) + count_list H s"
    using assms by (simp add: ref_inv_def)
  moreover have "\<forall>s \<ge> w_next w + 1. w_sessions w s = 0" using assms unfolding ref_inv_def by (meson add_leD1)
  ultimately show ?thesis using assms unfolding ref_inv_def by (simp only: session_refs_more) (simp add: less_SucI)
qed

lemma ref_inv_future_obj:
  assumes "ref_inv (fs_session fs # H) w" and "fs_id fs = w_next w"
  shows "ref_inv H (w\<lparr>w_future_objs := w_future_objs w @ [fs], w_next := w_next w + 1\<rparr>)"
proof -
  have "\<forall>s. w_sessions w s = session_refs w s + (if fs_session fs = s then 1 else 0) + count_list H s"
    using assms(1) by (simp add: ref_inv_def)
  moreover have "\<forall>s \<ge> w_next w + 1. w_sessions w s = 0" using assms(1) unfolding ref_inv_def by (meson add_leD1)
  ultimately show ?thesis
    using assms unfolding ref_inv_def by (simp only: session_refs_more) (auto simp: less_SucI)
qed

lemma ref_inv_drop_session:
  assumes "ref_inv H w" and "so \<in> set (w_session_objs w)"
  shows "ref_inv (so_session so # H) (w\<lparr>w_session_objs := remove1 so (w_session_objs w)\<rparr>)"
  by (rule ref_invI)
    (use ref_invD [OF assms(1)] session_refs_less(1) [OF assms(2)] in simp_all)

lemma ref_inv_drop_future:
  assumes "ref_inv H w" and "fs \<in> set (w_future_objs w)"
  shows "ref_inv (fs_session fs # H) (w\<lparr>w_future_objs := remove1 fs (w_future_objs w)\<rparr>)"
proof -
  have "distinct (map fs_id (remove1 fs (w_future_objs w)))"
    using assms(1) by (auto simp: ref_inv_def distinct_map distinct_remove1 intro: inj_on_subset dest: notin_set_remove1)
  moreover have "\<forall>g \<in> set (remove1 fs (w_future_objs w)). fs_id g < w_next w"
    using assms(1) set_remove1_subset [of fs "w_future_objs w"] by (auto simp: ref_inv_def)
  ultimately show ?thesis
    by (intro ref_invI) (use ref_invD(1-3) [OF assms(1)] session_refs_less(2) [OF assms(2)] in simp_all)
qed

lemma ref_inv_update_future:
  assumes "ref_inv H w" and "fs \<in> set (w_future_objs w)" and "fs_session fs' = fs_session fs" and "fs_id fs' = fs_id fs"
  shows "ref_inv H (update_future fs' w)"
proof -
  have "map fs_session (w_future_objs (update_future fs' w)) = map fs_session (w_future_objs w)"
    using assms by (auto simp: update_future_def ref_inv_def distinct_map inj_on_def)
  moreover have "map fs_id (w_future_objs (update_future fs' w)) = map fs_id (w_future_objs w)"
    using assms(4) by (auto simp: update_future_def)
  moreover have "\<forall>g \<in> set (w_future_objs (update_future fs' w)). fs_id g < w_next w"
    using assms(1,2,4) by (auto simp: update_future_def ref_inv_def)
  ultimately show ?thesis
    using assms(1) by (auto simp: ref_inv_def session_refs_def) (auto simp: update_future_def)
qed

lemma filter_key:
  "distinct (map fst xs) \<Longrightarrow> map_of xs k = Some r \<Longrightarrow>
    length (filter P xs) = length (filter P (filter (\<lambda>(k', _). k' \<noteq> k) xs)) + (if P (k, r) then 1 else 0)"
proof (induction xs)
  case (Cons x xs)
  then show ?case
  proof (cases "fst x = k")
    case True
    then have "filter (\<lambda>(k', _). k' \<noteq> k) xs = xs"
      using Cons.prems(1) by (intro filter_True) (auto simp: image_iff)
    then show ?thesis using True Cons.prems(2) by (cases x) auto
  next
    case False
    then show ?thesis using Cons by (cases x) auto
  qed
qed simp

lemma ref_inv_plist_del:
  assumes "ref_inv H w"
  shows "ref_inv H (fst (plist_del k w))"
proof (cases "map_of (w_plist w) k")
  case (Some r)
  have d: "distinct (map fst (w_plist w))" using assms by (simp add: ref_inv_def)
  note f = filter_key [OF d Some]
  have d': "distinct (map fst (filter (\<lambda>(k', _). k' \<noteq> k) (w_plist w)))" using d by (simp add: distinct_map_filter)
  show ?thesis
  proof (cases r)
    case (RCluster c)
    have e: "session_refs w s = session_refs (w\<lparr>w_plist := filter (\<lambda>(k', _). k' \<noteq> k) (w_plist w)\<rparr>) s" for s
      using f [of "\<lambda>(k, r). case r of RSession t _ \<Rightarrow> t = s | RCluster _ \<Rightarrow> False"] RCluster
      by (simp add: session_refs_def)
    then have "ref_inv H (w\<lparr>w_plist := filter (\<lambda>(k', _). k' \<noteq> k) (w_plist w)\<rparr>)"
      using assms d' by (auto simp: ref_inv_def)
    then show ?thesis using Some RCluster by (simp add: plist_del_def) (erule ref_inv_cong, simp_all)
  next
    case (RSession t g)
    have e: "session_refs w s = session_refs (w\<lparr>w_plist := filter (\<lambda>(k', _). k' \<noteq> k) (w_plist w)\<rparr>) s + (if t = s then 1 else 0)" for s
      using f [of "\<lambda>(k, r). case r of RSession t _ \<Rightarrow> t = s | RCluster _ \<Rightarrow> False"] RSession
      by (simp add: session_refs_def)
    then have "ref_inv (t # H) (w\<lparr>w_plist := filter (\<lambda>(k', _). k' \<noteq> k) (w_plist w)\<rparr>)"
      using assms d' by (auto simp: ref_inv_def)
    from ref_inv_del_ref [OF this] show ?thesis
      using Some RSession by (simp add: plist_del_def) (erule ref_inv_cong, simp_all add: php_driver_del_peref_def)
  qed
qed (use assms in \<open>simp add: plist_del_def\<close>)

lemma plist_del_fresh: "k \<notin> fst ` set (w_plist (fst (plist_del k w)))"
proof (cases "map_of (w_plist w) k")
  case None
  then have "k \<notin> fst ` set (w_plist w)" by (metis map_of_eq_None_iff)
  then show ?thesis using None by (simp add: plist_del_def)
next
  case (Some r)
  then show ?thesis by (cases r) (auto simp: plist_del_def php_driver_del_peref_def)
qed

lemma ref_inv_plist_add:
  assumes "ref_inv H w" and "k \<notin> fst ` set (w_plist w)"
  shows "ref_inv H (w\<lparr>w_plist := w_plist w @ [(k, RCluster c)]\<rparr>)"
  by (rule ref_invI) (use ref_invD [OF assms(1)] assms(2) in \<open>simp_all add: session_refs_def\<close>)

lemma ref_inv_plist_add_session:
  assumes "ref_inv (s # H) w" and "k \<notin> fst ` set (w_plist w)"
  shows "ref_inv H (w\<lparr>w_plist := w_plist w @ [(k, RSession s f)]\<rparr>)"
  by (rule ref_invI) (use ref_invD [OF assms(1)] assms(2) in \<open>simp_all add: session_refs_def\<close>)

lemma ref_inv_plist_update:
  "ref_inv H w \<Longrightarrow> ref_inv H (plist_update k (RCluster c) w)"
  "ref_inv (s # H) w \<Longrightarrow> ref_inv H (plist_update k (RSession s f) w)"
  by (simp_all add: plist_update_def Let_def ref_inv_plist_add ref_inv_plist_add_session ref_inv_plist_del plist_del_fresh)

lemma ref_inv_held: "ref_inv (s # H) w \<Longrightarrow> s < w_next w"
  using ref_invD(1,2) [of "s # H" w s] by (cases "s < w_next w") auto

lemma ref_inv_psession:
  assumes "ref_inv H w" and "find_psession k w = Some (s, f)"
  shows "s < w_next w"
proof -
  have "(k, RSession s f) \<in> set (w_plist w)"
    using assms(2) by (auto simp: find_psession_def dest: map_of_SomeD split: option.splits resource.splits)
  then have "filter (\<lambda>(k, r). case r of RSession t _ \<Rightarrow> t = s | RCluster _ \<Rightarrow> False) (w_plist w) \<noteq> []"
    by (force simp: filter_empty_conv)
  then have "session_refs w s \<noteq> 0" by (simp add: session_refs_def)
  then show ?thesis using ref_invD(1,2) [OF assms(1), of s] by (cases "s < w_next w") auto
qed

lemma ref_inv_open:
  assumes "ref_inv [] w" and "open_session co key w = Ok (w', s, f)"
  shows "ref_inv [s] w'"
proof -
  let ?w = "w\<lparr>w_sessions := (w_sessions w)(w_next w := 1), w_futures := (w_next w + 1) # w_futures w, w_next := w_next w + 2\<rparr>"
  have "session_refs ?w = session_refs w" by (rule ext) (simp add: session_refs_def)
  moreover have "session_refs w (w_next w) = 0" using ref_invD(1,2) [OF assms(1), of "w_next w"] by simp
  ultimately have n: "ref_inv [w_next w] ?w"
    by (intro ref_invI) (use ref_invD [OF assms(1)] in \<open>auto simp: less_Suc_eq\<close>)
  then have "ref_inv [w_next w, w_next w] (php_driver_add_ref (w_next w) ?w)"
    by (rule ref_inv_add_ref) simp
  from ref_inv_plist_update(2) [OF this]
  have p: "ref_inv [w_next w] (plist_update key (RSession (w_next w) (w_next w + 1)) (php_driver_add_ref (w_next w) ?w))" .
  show ?thesis
  proof (cases "co_persist co")
    case True
    then show ?thesis using assms(2)
      by (auto simp: open_session_def Let_def split: if_splits intro!: ref_inv_cong [OF p])
  next
    case False
    then show ?thesis using assms(2) n by (auto simp: open_session_def Let_def split: if_splits)
  qed
qed

text \<open>The session that \<^verbatim>\<open>connect\<close> and \<^verbatim>\<open>connectAsync\<close> work on: a kept one, or a new one.\<close>

lemma ref_inv_opened:
  assumes "ref_inv [] w"
    and "(case (if co_persist co then find_psession key w else None) of
       Some (s, f) \<Rightarrow> Ok (php_driver_add_ref s w, s, f) | None \<Rightarrow> open_session co key w) = Ok (w', s, f)"
  shows "ref_inv [s] w'"
  using assms ref_inv_open [OF assms(1)] ref_inv_psession [OF assms(1)] ref_inv_add_ref [OF assms(1)]
  by (auto split: option.splits prod.splits if_splits)

lemma ref_inv_build:
  assumes "ref_inv [] w" and "cluster_build lib b w = (w', r)" and "r \<noteq> UB"
  shows "ref_inv [] w'"
proof -
  let ?w = "w\<lparr>w_clusters := w_next w # w_clusters w, w_config := (w_config w)(w_next w := b), w_next := w_next w + 1\<rparr>"
  have n: "ref_inv [] ?w" by (rule ref_inv_cong [OF assms(1)]) simp_all
  have p: "ref_inv [] (plist_update (build_hash_key b) (RCluster (w_next w)) ?w)"
    by (rule ref_inv_plist_update(1) [OF n])
  have "ref_inv [] (w\<lparr>w_cluster_objs := x\<rparr>)" for x by (rule ref_inv_cong [OF assms(1)]) simp_all
  moreover have "ref_inv [] (?w\<lparr>w_cluster_objs := x\<rparr>)" "ref_inv [] (?w\<lparr>w_clusters := y\<rparr>)" for x y
    by (rule ref_inv_cong [OF n]; simp)+
  moreover have "ref_inv [] (plist_update (build_hash_key b) (RCluster (w_next w)) ?w
      \<lparr>w_persistent_clusters := i, w_cluster_objs := x\<rparr>)" for i x
    by (rule ref_inv_cong [OF p]) simp_all
  ultimately show ?thesis
    using assms(2,3) n unfolding cluster_build_def Let_def
    by (auto simp: add_cluster_obj_def split: if_splits outcome.splits)
qed

lemma ref_inv_connect:
  assumes inv: "ref_inv [] w" and r: "cluster_connect co keyspace timeout env w = (w', r)" "r \<noteq> UB"
  shows "ref_inv [] w'"
proof -
  let ?key = "session_key co keyspace"
  let ?opened = "case (if co_persist co then find_psession ?key w else None) of
       Some (s, f) \<Rightarrow> Ok (php_driver_add_ref s w, s, f) | None \<Rightarrow> open_session co ?key w"
  show ?thesis
  proof (cases ?opened)
    case (Ok a)
    obtain v s f where a: "a = (v, s, f)" by (cases a)
    have h: "ref_inv [s] v" using ref_inv_opened [OF inv] Ok a by simp
    have f: "ref_inv [s] (v\<lparr>w_futures := fs\<rparr>)" for fs by (rule ref_inv_cong [OF h]) simp_all
    have d: "ref_inv [s] (fst (plist_del ?key v))" by (rule ref_inv_plist_del [OF h])
    have o: "ref_inv [] (v\<lparr>w_session_objs := w_session_objs v @ [new_session_obj i co s], w_next := w_next v + 1\<rparr>)" for i
      by (rule ref_inv_session_obj) (use h in \<open>simp add: new_session_obj_def\<close>)
    show ?thesis
      using r Ok a ref_inv_del_ref [OF h] ref_inv_del_ref [OF f] ref_inv_del_ref [OF d] o
      unfolding cluster_connect_def Let_def
      by (auto split: if_splits outcome.splits)
  next
    case (Throw x)
    then show ?thesis using r inv unfolding cluster_connect_def Let_def by auto
  next
    case UB
    then show ?thesis using r inv unfolding cluster_connect_def Let_def by auto
  qed
qed

lemma ref_inv_connect_async:
  assumes inv: "ref_inv [] w" and r: "cluster_connect_async co keyspace w = (w', r)" "r \<noteq> UB"
  shows "ref_inv [] w'"
proof -
  let ?key = "session_key co keyspace"
  let ?opened = "case (if co_persist co then find_psession ?key w else None) of
       Some (s, f) \<Rightarrow> Ok (php_driver_add_ref s w, s, f) | None \<Rightarrow> open_session co ?key w"
  show ?thesis
  proof (cases ?opened)
    case (Ok a)
    obtain v s f where a: "a = (v, s, f)" by (cases a)
    have "ref_inv [s] v" using ref_inv_opened [OF inv] Ok a by simp
    then show ?thesis
      using r Ok a unfolding cluster_connect_async_def Let_def by (auto intro!: ref_inv_future_obj [simplified])
  next
    case (Throw x)
    then show ?thesis using r inv unfolding cluster_connect_async_def Let_def by auto
  next
    case UB
    then show ?thesis using r inv unfolding cluster_connect_async_def Let_def by auto
  qed
qed

lemma ref_inv_future:
  assumes "ref_inv H w" and "fs \<in> set (w_future_objs w)"
  shows "fs_session fs < w_next w"
proof -
  have "count_list (map fs_session (w_future_objs w)) (fs_session fs) \<noteq> 0"
    using assms(2) by (simp add: count_list_0_iff)
  then have "session_refs w (fs_session fs) \<noteq> 0" by (simp add: session_refs_def)
  then show ?thesis using ref_invD(1,2) [OF assms(1), of "fs_session fs"] by (cases "fs_session fs < w_next w") auto
qed

lemma w_future_objs_same [simp]:
  "w_future_objs (php_driver_del_peref s w) = w_future_objs w" "w_future_objs (php_driver_add_ref s w) = w_future_objs w"
  "w_next (php_driver_add_ref s w) = w_next w"
  by (simp_all add: php_driver_del_peref_def php_driver_add_ref_def)

lemma w_future_objs_plist_del [simp]: "w_future_objs (fst (plist_del k w)) = w_future_objs w"
  by (cases "map_of (w_plist w) k"; cases "the (map_of (w_plist w) k)")
    (auto simp: plist_del_def php_driver_del_peref_def)

lemma ref_inv_get:
  assumes inv: "ref_inv [] w" and fs: "fs \<in> set (w_future_objs w)"
    and r: "future_session_get fs timeout env w = (w', r)" "r \<noteq> UB"
  shows "ref_inv [] w'"
proof -
  let ?held = "php_driver_add_ref (fs_session fs) w"
  let ?freed_up = "php_driver_del_peref (fs_session fs) ?held"
  have h: "ref_inv [fs_session fs] ?held" using ref_inv_add_ref [OF inv ref_inv_future [OF inv fs]] .
  have b: "ref_inv [] ?freed_up" by (rule ref_inv_del_ref [OF h])
  have d: "ref_inv [] (update_future (fs\<lparr>fs_exception := x, fs_future := y\<rparr>) (fst (plist_del k ?freed_up)))" for x y k
    by (rule ref_inv_update_future [OF ref_inv_plist_del [OF b], where fs = fs]) (use fs in simp_all)
  have o: "ref_inv [] (update_future (fs\<lparr>fs_default_session := x\<rparr>)
      (?held\<lparr>w_session_objs := w_session_objs ?held @ [so], w_next := w_next ?held + 1\<rparr>))"
    if "so_session so = fs_session fs" for x so
    by (rule ref_inv_update_future [OF ref_inv_session_obj, where fs = fs]) (use h fs that in simp_all)
  show ?thesis
    using r inv b d o unfolding future_session_get_def Let_def
    by (auto simp: split_def split: option.splits outcome.splits if_splits)
qed

lemma ref_inv_free_future:
  assumes "ref_inv [] w" and "fs \<in> set (w_future_objs w)"
  shows "ref_inv [] (future_session_free fs w)"
proof -
  note h = ref_inv_drop_future [OF assms]
  have "ref_inv [fs_session fs] (w\<lparr>w_future_objs := remove1 fs (w_future_objs w), w_futures := fl\<rparr>)" for fl
    by (rule ref_inv_cong [OF h]) simp_all
  from ref_inv_del_ref [OF this] ref_inv_del_ref [OF h] show ?thesis
    by (simp add: future_session_free_def Let_def split: option.splits)
qed

lemma ref_inv_step: "world_step lib ok w w' \<Longrightarrow> ref_inv [] w \<Longrightarrow> ref_inv [] w'"
proof (induction rule: world_step.induct)
  case (free_cluster co w)
  then show ?case by (auto simp: default_cluster_free_def Let_def intro: ref_inv_cong)
next
  case (free_session so w)
  then show ?case
    using ref_inv_del_ref [OF ref_inv_drop_session [of "[]" w so]] by (simp add: default_session_free_def)
qed (blast intro: ref_inv_build ref_inv_connect ref_inv_connect_async ref_inv_get ref_inv_free_future)+

lemma ref_inv_reach: "world_reach lib ok w \<Longrightarrow> ref_inv [] w"
proof (induction rule: world_reach.induct)
  case init
  show ?case by (rule ref_invI) (simp_all add: world_init_def session_refs_def)
qed (blast intro: ref_inv_step)

section \<open>Clusters\<close>

text \<open>Builders without colons in their names: the keys of clusters then have 28 colons, those of sessions more.\<close>

definition names_plain :: "cluster_builder \<Rightarrow> bool" where
  "names_plain b \<longleftrightarrow> CHR '':'' \<notin> set (contact_points b) \<and>
     (\<forall>f \<in> {local_dc, username, password, whitelist_hosts, whitelist_dcs, blacklist_hosts, blacklist_dcs}.
       CHR '':'' \<notin> set (safe_str (f b)))"

definition colons :: "string \<Rightarrow> nat" where
  "colons s = count_list s (CHR '':'')"

lemma colons_append [simp]: "colons (s @ t) = colons s + colons t"
  by (simp add: colons_def)

lemma colons_join: "\<forall>x \<in> set xs. CHR '':'' \<notin> set x \<Longrightarrow> colons (join_colon_fields xs) = length xs"
  by (induction xs) (auto simp: colons_def)

lemma colons_build_key: "names_plain b \<Longrightarrow> colons (build_hash_key b) = 28"
proof -
  assume "names_plain b"
  then have "\<forall>x \<in> set (key_fields b). CHR '':'' \<notin> set x"
    by (intro no_colon_key_fields) (auto simp: names_plain_def)
  then have "colons (join_colon_fields (key_fields b)) = length (key_fields b)" by (rule colons_join)
  moreover have "length (key_fields b) = 28" by (simp add: key_fields_def)
  ultimately show ?thesis by (simp add: build_hash_key_def) (simp add: colons_def)
qed

lemma colons_session_key: "colons (co_hash_key co) = 28 \<Longrightarrow> colons (session_key co keyspace) \<noteq> 28"
  by (simp add: session_key_def) (simp add: colons_def)

definition cluster_inv :: "world \<Rightarrow> bool" where
  "cluster_inv w \<longleftrightarrow>
     (\<forall>c \<in> set (w_clusters w). c < w_next w) \<and> distinct (map fst (w_plist w)) \<and>
     (\<forall>co \<in> set (w_cluster_objs w). co_cluster co \<in> set (w_clusters w) \<and>
        (if co_persist co
         then (co_hash_key co, RCluster (co_cluster co)) \<in> set (w_plist w) \<and> colons (co_hash_key co) = 28
         else (\<forall>k. (k, RCluster (co_cluster co)) \<notin> set (w_plist w)))) \<and>
     distinct (map co_cluster (filter (\<lambda>co. \<not> co_persist co) (w_cluster_objs w))) \<and>
     (\<forall>k c. (k, RCluster c) \<in> set (w_plist w) \<longrightarrow>
        c \<in> set (w_clusters w) \<and> colons k = 28 \<and> build_hash_key (w_config w c) = k) \<and>
     (\<forall>k s f. (k, RSession s f) \<in> set (w_plist w) \<longrightarrow> colons k \<noteq> 28) \<and>
     (\<forall>fs \<in> set (w_future_objs w). fs_persist fs \<longrightarrow> colons (fs_hash_key fs) \<noteq> 28)"

lemma cluster_inv_cong:
  assumes "cluster_inv w" and "w_clusters w' = w_clusters w" and "w_plist w' = w_plist w" and "w_next w \<le> w_next w'"
    and "w_cluster_objs w' = w_cluster_objs w" and "w_config w' = w_config w"
    and "\<And>fs. fs \<in> set (w_future_objs w') \<Longrightarrow> fs_persist fs \<Longrightarrow> colons (fs_hash_key fs) \<noteq> 28"
  shows "cluster_inv w'"
  using assms by (simp add: cluster_inv_def) (meson less_le_trans)

lemma cluster_inv_obj:
  assumes "cluster_inv w" and "co \<in> set (w_cluster_objs w)"
  shows "co_cluster co \<in> set (w_clusters w)"
    and "co_persist co \<Longrightarrow> (co_hash_key co, RCluster (co_cluster co)) \<in> set (w_plist w) \<and> colons (co_hash_key co) = 28"
    and "\<not> co_persist co \<Longrightarrow> (k, RCluster (co_cluster co)) \<notin> set (w_plist w)"
  using assms by (auto simp: cluster_inv_def)

lemma cluster_inv_session: "cluster_inv w \<Longrightarrow> (k, RSession s f) \<in> set (w_plist w) \<Longrightarrow> colons k \<noteq> 28"
  unfolding cluster_inv_def by blast

lemma cluster_inv_future: "cluster_inv w \<Longrightarrow> fs \<in> set (w_future_objs w) \<Longrightarrow> fs_persist fs \<Longrightarrow> colons (fs_hash_key fs) \<noteq> 28"
  by (simp add: cluster_inv_def)

text \<open>Entries of sessions come and go without touching a cluster.\<close>

lemma plist_del_session:
  assumes "cluster_inv w" and "colons k \<noteq> 28"
  shows "w_clusters (fst (plist_del k w)) = w_clusters w" "w_next (fst (plist_del k w)) = w_next w"
    "w_cluster_objs (fst (plist_del k w)) = w_cluster_objs w" "w_config (fst (plist_del k w)) = w_config w"
    "w_plist (fst (plist_del k w)) = filter (\<lambda>(k', _). k' \<noteq> k) (w_plist w)"
proof -
  have "map_of (w_plist w) k = None \<or> (\<exists>s f. map_of (w_plist w) k = Some (RSession s f))"
  proof (cases "map_of (w_plist w) k")
    case (Some r)
    then have "(k, r) \<in> set (w_plist w)" by (rule map_of_SomeD)
    then show ?thesis using assms Some by (cases r) (auto simp: cluster_inv_def)
  qed simp
  moreover have "map_of (w_plist w) k = None \<Longrightarrow> filter (\<lambda>(k', _). k' \<noteq> k) (w_plist w) = w_plist w"
    by (intro filter_True) (auto simp: map_of_eq_None_iff image_iff)
  ultimately show "w_clusters (fst (plist_del k w)) = w_clusters w" "w_next (fst (plist_del k w)) = w_next w"
    "w_cluster_objs (fst (plist_del k w)) = w_cluster_objs w" "w_config (fst (plist_del k w)) = w_config w"
    "w_plist (fst (plist_del k w)) = filter (\<lambda>(k', _). k' \<noteq> k) (w_plist w)"
    by (auto simp: plist_del_def php_driver_del_peref_def)
qed

lemma cluster_inv_plist_del:
  assumes "cluster_inv w" and "colons k \<noteq> 28"
  shows "cluster_inv (fst (plist_del k w))"
  using assms unfolding cluster_inv_def plist_del_session [OF assms]
  by (auto simp: distinct_map_filter split: if_splits)

lemma cluster_inv_plist_session:
  assumes "cluster_inv w" and "colons k \<noteq> 28"
  shows "cluster_inv (plist_update k (RSession s f) w)"
proof -
  have "cluster_inv (fst (plist_del k w))" by (rule cluster_inv_plist_del [OF assms])
  then show ?thesis
    using plist_del_fresh [of k w] assms(2) by (auto simp: plist_update_def Let_def cluster_inv_def)
qed

lemma w_future_objs_plist_update [simp]: "w_future_objs (plist_update k r w) = w_future_objs w"
  by (simp add: plist_update_def Let_def)

lemma session_key_colons:
  "co_persist co \<Longrightarrow> cluster_inv w \<Longrightarrow> co \<in> set (w_cluster_objs w) \<Longrightarrow> colons (session_key co keyspace) \<noteq> 28"
  using colons_session_key [of co keyspace] by (auto simp: cluster_inv_def)

lemma cluster_inv_open:
  assumes "cluster_inv w" and "co \<in> set (w_cluster_objs w)" and "open_session co (session_key co keyspace) w = Ok (w', s, f)"
  shows "cluster_inv w'"
proof -
  let ?w = "w\<lparr>w_sessions := (w_sessions w)(w_next w := 1), w_futures := (w_next w + 1) # w_futures w, w_next := w_next w + 2\<rparr>"
  have n: "cluster_inv ?w" by (rule cluster_inv_cong [OF assms(1)]) (use cluster_inv_future [OF assms(1)] in simp_all)
  show ?thesis
  proof (cases "co_persist co")
    case True
    have k: "colons (session_key co keyspace) \<noteq> 28" by (rule session_key_colons [OF True assms(1,2)])
    have "cluster_inv (php_driver_add_ref (w_next w) ?w)"
      by (rule cluster_inv_cong [OF n]) (use cluster_inv_future [OF n] in \<open>simp_all add: php_driver_add_ref_def\<close>)
    from cluster_inv_plist_session [OF this k]
    have p: "cluster_inv (plist_update (session_key co keyspace) r (php_driver_add_ref (w_next w) ?w))"
      if "r = RSession (w_next w) (w_next w + 1)" for r using that by simp
    have "cluster_inv (plist_update (session_key co keyspace) (RSession (w_next w) (w_next w + 1))
        (php_driver_add_ref (w_next w) ?w)\<lparr>w_persistent_sessions := i\<rparr>)" for i
      by (rule cluster_inv_cong [OF p [OF refl]]) (use cluster_inv_future [OF p [OF refl]] in simp_all)
    then show ?thesis using assms(3) True by (auto simp: open_session_def Let_def split: if_splits)
  next
    case False
    then show ?thesis using assms(3) n by (auto simp: open_session_def Let_def split: if_splits)
  qed
qed

lemma cluster_inv_refs:
  "cluster_inv w \<Longrightarrow> cluster_inv (php_driver_add_ref s w)" "cluster_inv w \<Longrightarrow> cluster_inv (php_driver_del_peref s w)"
  by (auto simp: cluster_inv_def php_driver_add_ref_def php_driver_del_peref_def)

lemma cluster_inv_opened:
  assumes "cluster_inv w" and "co \<in> set (w_cluster_objs w)"
    and "(case (if co_persist co then find_psession (session_key co keyspace) w else None) of
       Some (s, f) \<Rightarrow> Ok (php_driver_add_ref s w, s, f) | None \<Rightarrow> open_session co (session_key co keyspace) w) = Ok (w', s, f)"
  shows "cluster_inv w'"
  using assms cluster_inv_open [OF assms(1,2)] cluster_inv_refs(1) [OF assms(1)]
  by (auto split: option.splits prod.splits if_splits)

lemma cluster_inv_connect:
  assumes inv: "cluster_inv w" and co: "co \<in> set (w_cluster_objs w)"
    and r: "cluster_connect co keyspace timeout env w = (w', r)" "r \<noteq> UB"
  shows "cluster_inv w'"
proof -
  let ?key = "session_key co keyspace"
  let ?opened = "case (if co_persist co then find_psession ?key w else None) of
       Some (s, f) \<Rightarrow> Ok (php_driver_add_ref s w, s, f) | None \<Rightarrow> open_session co ?key w"
  show ?thesis
  proof (cases ?opened)
    case (Ok a)
    obtain v s f where a: "a = (v, s, f)" by (cases a)
    have h: "cluster_inv v" using cluster_inv_opened [OF inv co] Ok a by simp
    note fut = cluster_inv_future [OF h]
    have f: "cluster_inv (php_driver_del_peref s (v\<lparr>w_futures := fs\<rparr>))" for fs
      by (rule cluster_inv_refs(2)) (rule cluster_inv_cong [OF h], use fut in simp_all)
    have d: "cluster_inv (php_driver_del_peref s (fst (plist_del ?key v)))" if "co_persist co"
      using cluster_inv_refs(2) [OF cluster_inv_plist_del [OF h]] session_key_colons [OF that inv co] by simp
    have o: "cluster_inv (v\<lparr>w_session_objs := x, w_next := w_next v + 1\<rparr>)" for x
      by (rule cluster_inv_cong [OF h]) (use fut in simp_all)
    show ?thesis
      using r Ok a f d o cluster_inv_refs(2) [OF h] unfolding cluster_connect_def Let_def
      by (auto split: if_splits outcome.splits)
  next
    case (Throw x)
    then show ?thesis using r inv unfolding cluster_connect_def Let_def by auto
  next
    case UB
    then show ?thesis using r inv unfolding cluster_connect_def Let_def by auto
  qed
qed

lemma cluster_inv_connect_async:
  assumes inv: "cluster_inv w" and co: "co \<in> set (w_cluster_objs w)"
    and r: "cluster_connect_async co keyspace w = (w', r)" "r \<noteq> UB"
  shows "cluster_inv w'"
proof -
  let ?key = "session_key co keyspace"
  let ?opened = "case (if co_persist co then find_psession ?key w else None) of
       Some (s, f) \<Rightarrow> Ok (php_driver_add_ref s w, s, f) | None \<Rightarrow> open_session co ?key w"
  show ?thesis
  proof (cases ?opened)
    case (Ok a)
    obtain v s f where a: "a = (v, s, f)" by (cases a)
    have h: "cluster_inv v" using cluster_inv_opened [OF inv co] Ok a by simp
    have "cluster_inv (v\<lparr>w_future_objs := w_future_objs v @ [fs], w_next := w_next v + 1\<rparr>)"
      if "fs_persist fs \<longrightarrow> colons (fs_hash_key fs) \<noteq> 28" for fs
      by (rule cluster_inv_cong [OF h]) (use cluster_inv_future [OF h] that in auto)
    then show ?thesis
      using r Ok a session_key_colons [OF _ inv co] unfolding cluster_connect_async_def Let_def
      by (auto split: if_splits)
  next
    case (Throw x)
    then show ?thesis using r inv unfolding cluster_connect_async_def Let_def by auto
  next
    case UB
    then show ?thesis using r inv unfolding cluster_connect_async_def Let_def by auto
  qed
qed

lemma cluster_inv_update_future:
  assumes "cluster_inv w" and "fs_persist fs' \<Longrightarrow> colons (fs_hash_key fs') \<noteq> 28"
  shows "cluster_inv (update_future fs' w)"
  by (rule cluster_inv_cong [OF assms(1)])
    (use cluster_inv_future [OF assms(1)] assms(2) in \<open>auto simp: update_future_def split: if_splits\<close>)

lemma cluster_inv_get:
  assumes inv: "cluster_inv w" and fs: "fs \<in> set (w_future_objs w)"
    and r: "future_session_get fs timeout env w = (w', r)" "r \<noteq> UB"
  shows "cluster_inv w'"
proof -
  let ?held = "php_driver_add_ref (fs_session fs) w"
  let ?freed_up = "php_driver_del_peref (fs_session fs) ?held"
  note k = cluster_inv_future [OF inv fs]
  have h: "cluster_inv ?held" and b: "cluster_inv ?freed_up" using cluster_inv_refs inv by blast+
  have d: "cluster_inv (update_future (fs\<lparr>fs_exception := x, fs_future := y\<rparr>) (fst (plist_del (fs_hash_key fs) ?freed_up)))"
    if "fs_persist fs" for x y
    by (rule cluster_inv_update_future [OF cluster_inv_plist_del [OF b]]) (use k that in simp_all)
  have o: "cluster_inv (update_future (fs\<lparr>fs_default_session := x\<rparr>)
      (?held\<lparr>w_session_objs := y, w_next := w_next ?held + 1\<rparr>))" for x y
    by (rule cluster_inv_update_future, rule cluster_inv_cong [OF h]) (use cluster_inv_future [OF h] k in simp_all)
  show ?thesis
    using r inv b d o unfolding future_session_get_def Let_def
    by (auto simp: split_def split: option.splits outcome.splits if_splits)
qed

lemma cluster_inv_free_future:
  assumes "cluster_inv w"
  shows "cluster_inv (future_session_free fs w)"
proof -
  have "cluster_inv (w\<lparr>w_future_objs := remove1 fs (w_future_objs w), w_futures := fl\<rparr>)" for fl
    by (rule cluster_inv_cong [OF assms])
      (use cluster_inv_future [OF assms] set_remove1_subset [of fs "w_future_objs w"] in auto)
  from cluster_inv_refs(2) [OF this] cluster_inv_refs(2) [OF this [of "w_futures w"]] show ?thesis
    by (simp add: future_session_free_def Let_def split: option.splits)
qed

lemma cluster_inv_free_cluster:
  assumes inv: "cluster_inv w" and co: "co \<in> set (w_cluster_objs w)"
  shows "cluster_inv (default_cluster_free co w)"
proof -
  have sub: "set (remove1 co (w_cluster_objs w)) \<subseteq> set (w_cluster_objs w)" by (rule set_remove1_subset)
  have f: "filter P (remove1 co xs) = (if P co then remove1 co (filter P xs) else filter P xs)" for P xs
    by (induction xs) auto
  have dist: "distinct (map co_cluster (filter (\<lambda>co. \<not> co_persist co) (remove1 co (w_cluster_objs w))))"
    using inv by (auto simp: cluster_inv_def f distinct_map distinct_remove1 intro: inj_on_subset dest: notin_set_remove1)
  show ?thesis
  proof (cases "co_persist co")
    case True
    then show ?thesis using inv sub dist by (auto simp: default_cluster_free_def Let_def cluster_inv_def)
  next
    case False
    have other: "co_cluster c \<noteq> co_cluster co" if c: "c \<in> set (remove1 co (w_cluster_objs w))" for c
    proof (cases "co_persist c")
      case True
      then have "(co_hash_key c, RCluster (co_cluster c)) \<in> set (w_plist w)" using cluster_inv_obj(2) [OF inv] sub c by blast
      then show ?thesis using cluster_inv_obj(3) [OF inv co False, of "co_hash_key c"] by auto
    next
      case np: False
      have "co_cluster co \<notin> co_cluster ` set (remove1 co (filter (\<lambda>co. \<not> co_persist co) (w_cluster_objs w)))"
        using inv co False by (auto simp: cluster_inv_def distinct_map inj_on_def dest: notin_set_remove1)
      moreover have "c \<in> set (remove1 co (filter (\<lambda>co. \<not> co_persist co) (w_cluster_objs w)))"
        using c np False f [of "\<lambda>co. \<not> co_persist co" "w_cluster_objs w", symmetric] by simp
      ultimately show ?thesis by (metis imageI)
    qed
    then show ?thesis
      using False inv sub dist co by (auto simp: default_cluster_free_def Let_def cluster_inv_def)
  qed
qed

lemma plist_update_new: "map_of (w_plist w) k = None \<Longrightarrow> plist_update k r w = w\<lparr>w_plist := w_plist w @ [(k, r)]\<rparr>"
  by (simp add: plist_update_def plist_del_def)

text \<open>A new cluster: it is alive and has the configuration of the builder; nothing refers to it yet.\<close>

lemma cluster_inv_new:
  assumes "cluster_inv w"
  shows "cluster_inv (w\<lparr>w_clusters := w_next w # w_clusters w, w_config := (w_config w)(w_next w := b), w_next := w_next w + 1\<rparr>)"
proof -
  have "c \<noteq> w_next w" if "c \<in> set (w_clusters w)" for c using assms that by (auto simp: cluster_inv_def)
  then show ?thesis using assms by (auto simp: cluster_inv_def less_SucI split: if_splits)
qed

lemma cluster_inv_add_obj:
  assumes "cluster_inv w" and "co_cluster co \<in> set (w_clusters w)"
    and "co_persist co \<Longrightarrow> (co_hash_key co, RCluster (co_cluster co)) \<in> set (w_plist w) \<and> colons (co_hash_key co) = 28"
    and "\<not> co_persist co \<Longrightarrow> (\<forall>k. (k, RCluster (co_cluster co)) \<notin> set (w_plist w)) \<and>
      (\<forall>c \<in> set (w_cluster_objs w). co_cluster c \<noteq> co_cluster co)"
  shows "cluster_inv (add_cluster_obj co w)"
proof -
  have "distinct (map co_cluster (filter (\<lambda>co. \<not> co_persist co) (w_cluster_objs w @ [co])))"
    using assms(1,4) by (auto simp: cluster_inv_def)
  moreover have "\<forall>c \<in> set (w_cluster_objs w @ [co]). co_cluster c \<in> set (w_clusters w) \<and>
        (if co_persist c then (co_hash_key c, RCluster (co_cluster c)) \<in> set (w_plist w) \<and> colons (co_hash_key c) = 28
         else (\<forall>k. (k, RCluster (co_cluster c)) \<notin> set (w_plist w)))"
    using assms cluster_inv_obj [OF assms(1)] by auto
  ultimately show ?thesis using assms(1) unfolding cluster_inv_def add_cluster_obj_def by simp
qed

lemma cluster_inv_build:
  assumes inv: "cluster_inv w" and ok: "names_plain b" and le: "lib_le_cluster lib = IS_RESOURCE"
    and r: "cluster_build lib b w = (w', r)" "r \<noteq> UB"
  shows "cluster_inv w'"
proof (cases "persist b \<and> map_of (w_plist w) (build_hash_key b) \<noteq> None")
  case True
  then obtain res where res: "map_of (w_plist w) (build_hash_key b) = Some res" by auto
  have mem: "(build_hash_key b, res) \<in> set (w_plist w)" by (rule map_of_SomeD [OF res])
  obtain c where c: "res = RCluster c"
  proof (cases res)
    case (RSession s f)
    then show ?thesis using cluster_inv_session [OF inv] mem colons_build_key [OF ok] by blast
  qed (use that in blast)
  have alive: "c \<in> set (w_clusters w)" using inv mem c by (auto simp: cluster_inv_def)
  obtain co where co: "w' = add_cluster_obj co w" "co_persist co" "co_hash_key co = build_hash_key b" "co_cluster co = c"
    using r True le res c by (auto simp: cluster_build_def Let_def)
  show ?thesis unfolding co(1)
    by (rule cluster_inv_add_obj [OF inv]) (use co(2-4) mem c alive colons_build_key [OF ok] in simp_all)
next
  case False
  let ?w = "w\<lparr>w_clusters := w_next w # w_clusters w, w_config := (w_config w)(w_next w := b), w_next := w_next w + 1\<rparr>"
  have n: "cluster_inv ?w" by (rule cluster_inv_new [OF inv])
  have fresh: "w_next w \<notin> set (w_clusters w)" using inv by (auto simp: cluster_inv_def)
  have fresh_obj: "co_cluster co \<noteq> w_next w" if "co \<in> set (w_cluster_objs w)" for co
    using cluster_inv_obj(1) [OF inv that] fresh by auto
  have fresh_res: "(k, RCluster (w_next w)) \<notin> set (w_plist w)" for k using inv fresh by (auto simp: cluster_inv_def)
  show ?thesis
  proof (cases "configure (lib_not_implemented lib) (lib_rc lib) (build_settings b)")
    case (Ok u)
    show ?thesis
    proof (cases "persist b")
      case True
      then have none: "map_of (w_plist ?w) (build_hash_key b) = None" using False by simp
      have k: "build_hash_key b \<notin> fst ` set (w_plist w)" using none by (simp add: map_of_eq_None_iff)
      let ?p = "?w\<lparr>w_plist := w_plist w @ [(build_hash_key b, RCluster (w_next w))], w_persistent_clusters := w_persistent_clusters w + 1\<rparr>"
      have p: "cluster_inv ?p"
        using n k colons_build_key [OF ok] fresh_obj unfolding cluster_inv_def by auto
      obtain co where co: "w' = add_cluster_obj co ?p" "co_persist co" "co_hash_key co = build_hash_key b"
          "co_cluster co = w_next w"
        using r True none Ok by (auto simp: cluster_build_def Let_def plist_update_new)
      show ?thesis unfolding co(1)
        by (rule cluster_inv_add_obj [OF p]) (use co(2-4) colons_build_key [OF ok] in simp_all)
    next
      case np: False
      obtain co where co: "w' = add_cluster_obj co ?w" "\<not> co_persist co" "co_cluster co = w_next w"
        using r np Ok by (auto simp: cluster_build_def Let_def)
      show ?thesis unfolding co(1)
        by (rule cluster_inv_add_obj [OF n]) (use co(2-3) fresh_obj fresh_res in simp_all)
    qed
  next
    case (Throw x)
    have "removeAll (w_next w) (w_next w # w_clusters w) = w_clusters w" using fresh by simp
    then have "cluster_inv (?w\<lparr>w_clusters := removeAll (w_next w) (w_next w # w_clusters w)\<rparr>)"
      using inv n by (auto simp: cluster_inv_def less_SucI)
    then show ?thesis using r Throw n False by (auto simp: cluster_build_def Let_def split: if_splits)
  next
    case UB
    then show ?thesis using r False by (auto simp: cluster_build_def Let_def split: if_splits)
  qed
qed

lemma cluster_inv_reach:
  assumes "lib_le_cluster lib = IS_RESOURCE"
  shows "world_reach lib names_plain w \<Longrightarrow> cluster_inv w"
proof (induction rule: world_reach.induct)
  case init
  show ?case by (simp add: cluster_inv_def world_init_def)
next
  case (step w w')
  from step(2) step.IH show ?case
  proof (induction rule: world_step.induct)
    case (build b w w' r)
    then show ?case using cluster_inv_build assms by blast
  next
    case (free_session so w)
    have "cluster_inv (w\<lparr>w_session_objs := x\<rparr>)" for x
      by (rule cluster_inv_cong [OF free_session.prems]) (use cluster_inv_future [OF free_session.prems] in simp_all)
    then show ?case by (simp add: default_session_free_def cluster_inv_refs)
  qed (blast intro: cluster_inv_free_cluster cluster_inv_connect cluster_inv_connect_async cluster_inv_get
      cluster_inv_free_future)+
qed

section \<open>A library without errors\<close>

definition lib_plain :: "nat \<Rightarrow> lib" where
  "lib_plain le = \<lparr>lib_rc = (\<lambda>_. 0), lib_not_implemented = 1, lib_le_cluster = le\<rparr>"

definition fut_fail :: fut_env where
  "fut_fail = \<lparr>fe_ready = True, fe_wait_timed = (\<lambda>_. True), fe_error = 1\<rparr>"

lemma configure_plain: "configure n (\<lambda>_. 0) xs = Ok ()"
  by (induction xs) auto

lemma builder_new_persist: "persist php_driver_cluster_builder_new"
  by (simp add: php_driver_cluster_builder_new_def)

lemma build_new_plist:
  "map_of (w_plist w) (build_hash_key b) = None \<Longrightarrow> persist b \<Longrightarrow>
    cluster_build (lib_plain le) b w =
      (let co = \<lparr>co_persist = True, co_hash_key = build_hash_key b, co_cluster = w_next w,
                 co_consistency = default_consistency b, co_page_size = default_page_size b, co_timeout = default_timeout b\<rparr>
       in (w\<lparr>w_clusters := w_next w # w_clusters w, w_config := (w_config w)(w_next w := b), w_next := w_next w + 1,
             w_plist := w_plist w @ [(build_hash_key b, RCluster (w_next w))],
             w_persistent_clusters := w_persistent_clusters w + 1, w_cluster_objs := w_cluster_objs w @ [co]\<rparr>, Ok co))"
  by (simp add: cluster_build_def Let_def lib_plain_def configure_plain plist_update_new add_cluster_obj_def)

section \<open>Properties\<close>





text \<open>
  The future of a kept connection belongs to the entry of the persistent list, while every future object
  for the same key uses it. When one of them learns that the connection failed, it removes the entry;
  the other then waits for a freed future.
\<close>

lemma shared_future_dangles:
  "let b = php_driver_cluster_builder_new; (w1, r) = cluster_build (lib_plain le) b world_init
   in \<exists>co fs1 fs2. r = Ok co \<and>
        (let (w2, r1) = cluster_connect_async co None w1; (w3, r2) = cluster_connect_async co None w2
         in r1 = Ok fs1 \<and> r2 = Ok fs2 \<and>
            (let (w4, r3) = future_session_get fs1 ZNull fut_fail w3
             in r3 = Throw (CassException 1) \<and> snd (future_session_get fs2 ZNull env w4) = UB))"
proof -
  have e: "map_of (w_plist world_init) (build_hash_key php_driver_cluster_builder_new) = None" by (simp add: world_init_def)
  show ?thesis
    by (simp add: build_new_plist [OF e builder_new_persist] Let_def)
      (simp add: world_init_def cluster_connect_async_def Let_def find_psession_def open_session_def session_key_def
        plist_update_def plist_del_def php_driver_add_ref_def php_driver_del_peref_def future_session_get_def
        php_driver_future_wait_timed.simps fut_fail_def update_future_def safe_str_def)
qed

end
