(* ===== verification/Session_Execute.thy ===== *)
theory Session_Execute
  imports Session_Bind Cluster_Connect
begin

text \<open>
  The methods of \<^verbatim>\<open>ext/src/DefaultSession.c\<close>: the options of a request, \<^verbatim>\<open>execute\<close>, \<^verbatim>\<open>executeAsync\<close>, \<^verbatim>\<open>prepare\<close>,
  \<^verbatim>\<open>prepareAsync\<close>, \<^verbatim>\<open>close\<close> and \<^verbatim>\<open>closeAsync\<close>. What a future answers is the record \<open>reply\<close>; the objects of the driver
  library that are allocated are counted in \<open>live\<close>.
\<close>

section \<open>Options of a request\<close>

record request =
  rq_arguments :: "(zkey \<times> zval) list option"
  rq_consistency :: "64 word"
  rq_page_size :: "32 word"
  rq_token :: "string option"
  rq_timeout :: zval
  rq_serial_consistency :: "64 word"
  rq_retry_policy :: "nat option"
  rq_timestamp :: "64 word"

text \<open>The local variables before the options are looked at.\<close>

definition session_request :: "session_obj \<Rightarrow> request" where
  "session_request self =
     \<lparr>rq_arguments = None, rq_consistency = so_consistency self, rq_page_size = so_page_size self, rq_token = None,
      rq_timeout = so_timeout self, rq_serial_consistency = - 1, rq_retry_policy = None,
      rq_timestamp = word_of_int (- (2 ^ 63))\<rparr>"

fun options_arguments :: "stmt_env \<Rightarrow> zval \<Rightarrow> (zkey \<times> zval) list option outcome" where
  "options_arguments env ZUndef = Ok None"
| "options_arguments env (ZArray h) = Ok (Some (se_arrays env h))"
| "options_arguments env _ = UB"

text \<open>The policy of an object that is not a retry policy is read from other memory.\<close>

fun options_policy :: "stmt_env \<Rightarrow> zval \<Rightarrow> nat option outcome" where
  "options_policy env ZUndef = Ok None"
| "options_policy env (ZObject (OOther _ h)) = (case se_policies env h of Some p \<Rightarrow> Ok (Some p) | None \<Rightarrow> UB)"
| "options_policy env _ = UB"

definition merge_options :: "stmt_env \<Rightarrow> execution_options \<Rightarrow> request \<Rightarrow> request outcome" where
  "merge_options env opts rq =
     bind_outcome (options_arguments env (eo_arguments opts)) (\<lambda>arguments.
     bind_outcome (options_policy env (eo_retry_policy opts)) (\<lambda>policy.
     Ok (rq\<lparr>rq_arguments := arguments,
            rq_consistency := (if 0 \<le> sint (eo_consistency opts) then eo_consistency opts else rq_consistency rq),
            rq_page_size := (if 0 \<le> sint (eo_page_size opts) then eo_page_size opts else rq_page_size rq),
            rq_token := eo_paging_state_token opts,
            rq_timeout := (if eo_timeout opts \<noteq> ZUndef then eo_timeout opts else rq_timeout rq),
            rq_serial_consistency := (if 0 \<le> sint (eo_serial_consistency opts) then eo_serial_consistency opts
                                      else rq_serial_consistency rq),
            rq_retry_policy := policy,
            rq_timestamp := eo_timestamp opts\<rparr>)))"

text \<open>
  The argument \<^verbatim>\<open>options\<close>: not given, an array, an \<^verbatim>\<open>ExecutionOptions\<close> object by its handle, or something else,
  \<^verbatim>\<open>null\<close> included.
\<close>

type_synonym opts_heap = "nat \<Rightarrow> execution_options option"

fun given_options :: "stmt_env \<Rightarrow> opts_heap \<Rightarrow> zval \<Rightarrow> execution_options outcome" where
  "given_options env objs (ZArray h) = php_driver_execution_options_build_local_from_array (se_arrays env h)"
| "given_options env objs (ZObject (OOther _ h)) =
     (case objs h of Some opts \<Rightarrow> Ok opts | None \<Rightarrow> Throw InvalidArgumentException)"
| "given_options env objs _ = Throw InvalidArgumentException"

definition request_of :: "stmt_env \<Rightarrow> opts_heap \<Rightarrow> session_obj \<Rightarrow> zval option \<Rightarrow> request outcome" where
  "request_of env objs self options =
     (case options of
        None \<Rightarrow> Ok (session_request self)
      | Some z \<Rightarrow> bind_outcome (given_options env objs z) (\<lambda>opts. merge_options env opts (session_request self)))"

section \<open>Sending a statement\<close>

datatype sent = SentSingle cass_stmt | SentBatch cass_batch

definition create_sent :: "stmt_env \<Rightarrow> php_statement \<Rightarrow> request \<Rightarrow> sent run" where
  "create_sent env st rq =
     (case st of
        PBatch ty entries \<Rightarrow>
          bind_run (create_batch env ty entries (rq_consistency rq) (rq_retry_policy rq) (rq_timestamp rq))
            (\<lambda>batch. ret (SentBatch batch))
      | _ \<Rightarrow>
          bind_run (create_single env st (rq_arguments rq) (rq_consistency rq) (rq_serial_consistency rq)
              (rq_page_size rq) (rq_token rq) (rq_retry_policy rq) (rq_timestamp rq))
            (\<lambda>stmt. ret (SentSingle stmt)))"

fun release_sent :: "sent \<Rightarrow> live \<Rightarrow> live" where
  "release_sent (SentSingle _) = add_statement (- 1)"
| "release_sent (SentBatch _) = add_batch (- 1)"

text \<open>
  What is known of a future: its state, the result it contains, and for a result the rows that
  \<^verbatim>\<open>php_driver_get_result\<close> reads from it and whether there are more pages.
\<close>

record reply =
  rp_future :: fut_env
  rp_result :: "nat option"
  rp_rows :: "nat \<Rightarrow> zval outcome"
  rp_more :: "nat \<Rightarrow> bool"

text \<open>A \<^verbatim>\<open>php_driver_rows\<close> object; the last three members are those of paging.\<close>

record rows_obj =
  ro_rows :: zval
  ro_statement :: "cass_stmt option"
  ro_session :: "nat option"
  ro_result :: "nat option"
  ro_next_rows :: zval
  ro_next_result :: "nat option"

definition rows_new :: "zval \<Rightarrow> rows_obj" where
  "rows_new rows =
     \<lparr>ro_rows = rows, ro_statement = None, ro_session = None, ro_result = None, ro_next_rows = ZUndef, ro_next_result = None\<rparr>"

definition future_done :: "reply \<Rightarrow> zval \<Rightarrow> unit outcome" where
  "future_done rp timeout =
     bind_outcome (php_driver_future_wait_timed (rp_future rp) timeout) (\<lambda>_. php_driver_future_is_error (rp_future rp))"

text \<open>The block after the request has been sent, with the freeing of statement or batch behind it.\<close>

definition execute_reply :: "reply \<Rightarrow> zval \<Rightarrow> nat \<Rightarrow> sent \<Rightarrow> rows_obj run" where
  "execute_reply rp timeout session sent l =
     (case future_done rp timeout of
        UB \<Rightarrow> (UB, l)
      | Throw e \<Rightarrow> (Throw e, release_sent sent (add_future (- 1) l))
      | Ok _ \<Rightarrow>
          (case rp_result rp of
             None \<Rightarrow> (Throw RuntimeException, release_sent sent (add_future (- 1) l))
           | Some result \<Rightarrow>
               (let l = add_result 1 (add_future (- 1) l)
                in case rp_rows rp result of
                     UB \<Rightarrow> (UB, l)
                   | Throw e \<Rightarrow> (Throw e, release_sent sent (add_result (- 1) l))
                   | Ok rows \<Rightarrow>
                       (case sent of
                          SentSingle single \<Rightarrow>
                            if rp_more rp result
                            then (Ok (Some ((rows_new rows)\<lparr>ro_statement := Some single, ro_result := Some result,
                                    ro_session := Some session\<rparr>)), add_session_ref 1 l)
                            else (Ok (Some (rows_new rows)), release_sent sent (add_result (- 1) l))
                        | SentBatch _ \<Rightarrow> (Ok (Some (rows_new rows)), release_sent sent (add_result (- 1) l))))))"

definition session_execute ::
  "stmt_env \<Rightarrow> opts_heap \<Rightarrow> reply \<Rightarrow> session_obj \<Rightarrow> zval \<Rightarrow> zval option \<Rightarrow> rows_obj run" where
  "session_execute env objs rp self statement options =
     (case statement_of (se_stmts env) statement of
        None \<Rightarrow> stop (Throw InvalidArgumentException)
      | Some st \<Rightarrow>
          (case request_of env objs self options of
             Throw e \<Rightarrow> stop (Throw e)
           | UB \<Rightarrow> stop UB
           | Ok rq \<Rightarrow>
               bind_run (create_sent env st rq) (\<lambda>sent.
               bind_run (update_live (add_future 1)) (\<lambda>_.
               execute_reply rp (rq_timeout rq) (so_session self) sent))))"

text \<open>
  A \<^verbatim>\<open>php_driver_future_rows\<close> object. It is created before the statement: when that fails without an
  exception, the object is returned with no future.
\<close>

record future_rows =
  fr_statement :: "cass_stmt option"
  fr_session :: "nat option"
  fr_rows :: zval
  fr_result :: "nat option"
  fr_future :: bool

definition future_rows_new :: future_rows where
  "future_rows_new = \<lparr>fr_statement = None, fr_session = None, fr_rows = ZUndef, fr_result = None, fr_future = False\<rparr>"

fun future_of_sent :: "nat \<Rightarrow> sent \<Rightarrow> live \<Rightarrow> future_rows \<times> live" where
  "future_of_sent session (SentSingle single) l =
     (future_rows_new\<lparr>fr_statement := Some single, fr_future := True, fr_session := Some session\<rparr>,
      add_session_ref 1 (add_future 1 l))"
| "future_of_sent session (SentBatch _) l = (future_rows_new\<lparr>fr_future := True\<rparr>, add_batch (- 1) (add_future 1 l))"

definition session_execute_async ::
  "stmt_env \<Rightarrow> opts_heap \<Rightarrow> session_obj \<Rightarrow> zval \<Rightarrow> zval option \<Rightarrow> live \<Rightarrow> future_rows outcome \<times> live" where
  "session_execute_async env objs self statement options l =
     (case statement_of (se_stmts env) statement of
        None \<Rightarrow> (Throw InvalidArgumentException, l)
      | Some st \<Rightarrow>
          (case request_of env objs self options of
             Throw e \<Rightarrow> (Throw e, l)
           | UB \<Rightarrow> (UB, l)
           | Ok rq \<Rightarrow>
               (case create_sent env st rq l of
                  (Ok (Some sent), l') \<Rightarrow>
                    (let (fr, l'') = future_of_sent (so_session self) sent l' in (Ok fr, l''))
                | (Ok None, l') \<Rightarrow> (Ok future_rows_new, l')
                | (Throw e, l') \<Rightarrow> (Throw e, l')
                | (UB, l') \<Rightarrow> (UB, l'))))"

section \<open>Prepared statements and closing\<close>

text \<open>
  The query of \<^verbatim>\<open>prepare\<close> is not checked to be a string. The timeout is that of the options only, not the
  session's.
\<close>

definition session_prepare ::
  "stmt_env \<Rightarrow> opts_heap \<Rightarrow> fut_env \<Rightarrow> nat \<Rightarrow> zval \<Rightarrow> zval option \<Rightarrow> live \<Rightarrow> php_statement outcome \<times> live" where
  "session_prepare env objs fut prepared cql options l =
     (case (case options of
              None \<Rightarrow> Ok ZNull
            | Some z \<Rightarrow> bind_outcome (given_options env objs z) (\<lambda>opts. Ok (eo_timeout opts))) of
        Throw e \<Rightarrow> (Throw e, l)
      | UB \<Rightarrow> (UB, l)
      | Ok timeout \<Rightarrow>
          (case z_strval cql of
             Ok _ \<Rightarrow>
               (case bind_outcome (php_driver_future_wait_timed fut timeout) (\<lambda>_. php_driver_future_is_error fut) of
                  UB \<Rightarrow> (UB, add_future 1 l)
                | Throw e \<Rightarrow> (Throw e, add_future (- 1) (add_future 1 l))
                | Ok _ \<Rightarrow> (Ok (PPrepared prepared), add_future (- 1) (add_future 1 l)))
           | _ \<Rightarrow> (UB, l)))"

definition session_prepare_async :: "zval \<Rightarrow> live \<Rightarrow> bool outcome \<times> live" where
  "session_prepare_async cql l =
     (case z_strval cql of Ok _ \<Rightarrow> (Ok True, add_future 1 l) | _ \<Rightarrow> (UB, l))"

text \<open>A persistent session is not closed.\<close>

definition session_close :: "session_obj \<Rightarrow> zval \<Rightarrow> fut_env \<Rightarrow> live \<Rightarrow> unit outcome \<times> live" where
  "session_close self timeout fut l =
     (if so_persist self then (Ok (), l)
      else (case bind_outcome (php_driver_future_wait_timed fut timeout) (\<lambda>_. php_driver_future_is_error fut) of
              UB \<Rightarrow> (UB, add_future 1 l)
            | r \<Rightarrow> (r, add_future (- 1) (add_future 1 l))))"

datatype close_future = FutureValue zval | FutureClose

definition session_close_async :: "session_obj \<Rightarrow> live \<Rightarrow> close_future \<times> live" where
  "session_close_async self l = (if so_persist self then (FutureValue ZUndef, l) else (FutureClose, add_future 1 l))"

section \<open>Resources of a request\<close>

text \<open>The change of the counters from \<open>l\<close> to \<open>l'\<close>, where containers may also be left behind.\<close>

definition moved :: "live \<Rightarrow> live \<Rightarrow> live \<Rightarrow> bool" where
  "moved l d l' \<longleftrightarrow>
     lv_containers l \<le> lv_containers l' \<and>
     lv_statements l' = lv_statements l + lv_statements d \<and>
     lv_batches l' = lv_batches l + lv_batches d \<and>
     lv_futures l' = lv_futures l + lv_futures d \<and>
     lv_results l' = lv_results l + lv_results d \<and>
     lv_session_refs l' = lv_session_refs l + lv_session_refs d"

definition delta :: "int \<Rightarrow> int \<Rightarrow> int \<Rightarrow> int \<Rightarrow> int \<Rightarrow> live" where
  "delta s b f r e = \<lparr>lv_containers = 0, lv_statements = s, lv_batches = b, lv_futures = f, lv_results = r, lv_session_refs = e\<rparr>"

definition plus_delta :: "live \<Rightarrow> live \<Rightarrow> live" where
  "plus_delta d e =
     delta (lv_statements d + lv_statements e) (lv_batches d + lv_batches e) (lv_futures d + lv_futures e)
       (lv_results d + lv_results e) (lv_session_refs d + lv_session_refs e)"

lemma delta_simps [simp]:
  "lv_statements (delta s b f r e) = s" "lv_batches (delta s b f r e) = b" "lv_futures (delta s b f r e) = f"
  "lv_results (delta s b f r e) = r" "lv_session_refs (delta s b f r e) = e"
  by (simp_all add: delta_def)

lemma plus_delta_simps [simp]:
  "plus_delta (delta s b f r e) (delta s' b' f' r' e') = delta (s + s') (b + b') (f + f') (r + r') (e + e')"
  by (simp add: plus_delta_def)

lemma moved_trans: "moved l d l' \<Longrightarrow> moved l' e l'' \<Longrightarrow> moved l (plus_delta d e) l''"
  by (simp add: moved_def plus_delta_def)

lemma moved_refl: "moved l (delta 0 0 0 0 0) l"
  by (simp add: moved_def)

lemma moved_adds:
  "moved l (delta k 0 0 0 0) (add_statement k l)" "moved l (delta 0 k 0 0 0) (add_batch k l)"
  "moved l (delta 0 0 k 0 0) (add_future k l)" "moved l (delta 0 0 0 k 0) (add_result k l)"
  "moved l (delta 0 0 0 0 k) (add_session_ref k l)"
  by (simp_all add: moved_def add_statement_def add_batch_def add_future_def add_result_def add_session_ref_def)

text \<open>A run that changes the counters by \<open>ok x\<close> when it returns \<open>x\<close> and by \<open>fail\<close> when it does not.\<close>

definition run_moves :: "('a \<Rightarrow> live) \<Rightarrow> live \<Rightarrow> 'a run \<Rightarrow> bool" where
  "run_moves ok fail m \<longleftrightarrow>
     (\<forall>l r l'. m l = (r, l') \<longrightarrow> r \<noteq> UB \<longrightarrow> moved l (case r of Ok (Some x) \<Rightarrow> ok x | _ \<Rightarrow> fail) l')"

abbreviation no_change :: live where
  "no_change \<equiv> delta 0 0 0 0 0"

lemma run_moves_ret: "run_moves (\<lambda>_. no_change) fail (ret x)"
  by (simp add: run_moves_def ret_def moved_refl)

lemma run_moves_stop: "(\<And>x. r \<noteq> Ok (Some x)) \<Longrightarrow> run_moves ok no_change (stop r)"
  by (auto simp: run_moves_def stop_def moved_refl split: outcome.splits option.splits)

lemma run_moves_UB: "run_moves ok fail (stop UB)"
  by (simp add: run_moves_def stop_def)

lemma run_moves_alloc: "run_moves (\<lambda>_. no_change) no_change (run_alloc r)"
  by (auto simp: run_moves_def run_alloc_def moved_def split: outcome.splits option.splits)

lemma run_moves_update:
  assumes "\<And>l. moved l d (f l)"
  shows "run_moves (\<lambda>_. d) fail (update_live f)"
  using assms by (simp add: run_moves_def update_live_def)

lemma run_moves_bind:
  assumes "run_moves (\<lambda>_. d) fail m" and "\<And>x. run_moves ok fail' (f x)"
    and "fail = plus_delta d fail'" and "\<And>x. ok' x = plus_delta d (ok x)"
  shows "run_moves ok' fail (bind_run m f)"
  unfolding run_moves_def
proof (intro allI impI)
  fix l r l'
  assume run: "bind_run m f l = (r, l')" and r: "r \<noteq> UB"
  obtain q k where m: "m l = (q, k)" by fastforce
  show "moved l (case r of Ok (Some x) \<Rightarrow> ok' x | _ \<Rightarrow> fail) l'"
  proof (cases "\<exists>x. q = Ok (Some x)")
    case True
    then obtain x where x: "q = Ok (Some x)" ..
    have "moved l d k" using assms(1) m x unfolding run_moves_def by fastforce
    moreover have "moved k (case r of Ok (Some x) \<Rightarrow> ok x | _ \<Rightarrow> fail') l'"
      using assms(2) [of x] run m x r unfolding run_moves_def bind_run_def by simp
    ultimately have "moved l (plus_delta d (case r of Ok (Some x) \<Rightarrow> ok x | _ \<Rightarrow> fail')) l'"
      by (rule moved_trans)
    then show ?thesis using assms(3,4) by (simp split: outcome.splits option.splits)
  next
    case False
    then have q: "(case q of Ok (Some x) \<Rightarrow> d | _ \<Rightarrow> fail) = fail"
      and rk: "(case r of Ok (Some x) \<Rightarrow> ok' x | _ \<Rightarrow> fail) = fail" "l' = k" "q \<noteq> UB"
      using run m r by (auto simp: bind_run_def split: outcome.splits option.splits)
    then have "moved l fail k" using assms(1) m unfolding run_moves_def by fastforce
    then show ?thesis using rk by simp
  qed
qed

lemma run_moves_on_failure:
  assumes "run_moves ok fail m" and "\<And>l. moved l d (cleanup l)" and "fail' = plus_delta fail d"
  shows "run_moves ok fail' (on_failure cleanup m)"
  unfolding run_moves_def
proof (intro allI impI)
  fix l r l'
  assume run: "on_failure cleanup m l = (r, l')" and r: "r \<noteq> UB"
  obtain q k where m: "m l = (q, k)" by fastforce
  then have q: "r = q" using run by (auto simp: on_failure_def split: outcome.splits option.splits)
  then have mv: "moved l (case r of Ok (Some x) \<Rightarrow> ok x | _ \<Rightarrow> fail) k"
    using assms(1) m r unfolding run_moves_def by fastforce
  show "moved l (case r of Ok (Some x) \<Rightarrow> ok x | _ \<Rightarrow> fail') l'"
  proof (cases "\<exists>x. r = Ok (Some x)")
    case True
    then show ?thesis using mv run m q by (auto simp: on_failure_def)
  next
    case False
    then have "moved l fail k" "l' = cleanup k"
      using mv run m q by (auto simp: on_failure_def split: outcome.splits option.splits)
    then have "moved l fail' l'" using moved_trans assms(2,3) by blast
    then show ?thesis using False by (auto split: outcome.splits option.splits)
  qed
qed

lemma create_statement_moves: "run_moves (\<lambda>_. delta 1 0 0 0 0) no_change (create_statement env st args)"
proof -
  have created: "run_moves (\<lambda>_. delta 1 0 0 0 0) no_change
      (bind_run (update_live (add_statement 1)) (\<lambda>_. case args of None \<Rightarrow> ret stmt
        | Some args \<Rightarrow> on_failure (add_statement (- 1)) (run_alloc (bind_arguments env stmt args))))" for stmt
  proof (rule run_moves_bind [where d = "delta 1 0 0 0 0" and ok = "\<lambda>_. no_change" and fail' = "delta (- 1) 0 0 0 0"])
    show "run_moves (\<lambda>_. delta 1 0 0 0 0) no_change (update_live (add_statement 1))"
      by (rule run_moves_update [OF moved_adds(1)])
    show "run_moves (\<lambda>_. no_change) (delta (- 1) 0 0 0 0) (case args of None \<Rightarrow> ret stmt
        | Some args \<Rightarrow> on_failure (add_statement (- 1)) (run_alloc (bind_arguments env stmt args)))" for x
      by (cases args) (simp_all add: run_moves_ret run_moves_on_failure [OF run_moves_alloc moved_adds(1)])
  qed simp_all
  show ?thesis
    by (cases st) (simp_all only: create_statement_def php_statement.case Let_def created, simp add: run_moves_stop)
qed

lemma statement_set_moves: "run_moves (\<lambda>_. no_change) no_change (statement_set env cond s stmt)"
  by (simp add: statement_set_def run_moves_ret run_moves_stop Let_def)

lemma batch_set_moves: "run_moves (\<lambda>_. no_change) no_change (batch_set env s batch)"
  by (simp add: batch_set_def run_moves_ret run_moves_stop Let_def)

lemma run_moves_seq:
  assumes "run_moves (\<lambda>_. no_change) no_change m" and "\<And>x. run_moves (\<lambda>_. no_change) no_change (f x)"
  shows "run_moves (\<lambda>_. no_change) no_change (bind_run m f)"
  by (rule run_moves_bind [OF assms]) simp_all

lemma run_moves_guarded:
  assumes "run_moves (\<lambda>_. delta a b 0 0 0) no_change m" and "\<And>x. run_moves (\<lambda>_. no_change) no_change (f x)"
    and "\<And>l. moved l (delta (- a) (- b) 0 0 0) (cleanup l)"
  shows "run_moves (\<lambda>_. delta a b 0 0 0) no_change (bind_run m (\<lambda>x. on_failure cleanup (f x)))"
  by (rule run_moves_bind [OF assms(1) run_moves_on_failure [OF assms(2,3) refl]]) simp_all

lemma create_single_moves:
  "run_moves (\<lambda>_. delta 1 0 0 0 0) no_change (create_single env st args cons sc ps tok pol ts)"
  unfolding create_single_def
  by (rule run_moves_guarded [OF create_statement_moves])
    (intro run_moves_seq statement_set_moves, simp add: moved_adds)

lemma add_statements_moves: "run_moves (\<lambda>_. no_change) no_change (add_statements env batch entries)"
proof (induction entries arbitrary: batch)
  case Nil
  then show ?case by (simp add: run_moves_ret)
next
  case (Cons a entries)
  obtain statement arguments where a: "a = (statement, arguments)" by fastforce
  have "run_moves (\<lambda>_. no_change) no_change
      (bind_run (create_statement env st args) (\<lambda>stmt. bind_run (update_live (add_statement (- 1))) (\<lambda>_.
        add_statements env (batch\<lparr>bt_statements := bt_statements batch @ [stmt]\<rparr>) entries)))" for st args
    by (rule run_moves_bind [OF create_statement_moves
          run_moves_bind [OF run_moves_update [OF moved_adds(1)] Cons.IH, where fail = "delta (- 1) 0 0 0 0" and ok' = "\<lambda>_. delta (- 1) 0 0 0 0"]])
      simp_all
  then show ?case by (auto simp: a run_moves_UB split: option.splits outcome.splits)
qed

lemma create_batch_moves: "run_moves (\<lambda>_. delta 0 1 0 0 0) no_change (create_batch env ty entries cons pol ts)"
  unfolding create_batch_def
  by (rule run_moves_guarded [OF run_moves_update [OF moved_adds(2)]])
    (intro run_moves_seq add_statements_moves batch_set_moves, simp add: moved_adds)

fun sent_delta :: "sent \<Rightarrow> live" where
  "sent_delta (SentSingle _) = delta 1 0 0 0 0"
| "sent_delta (SentBatch _) = delta 0 1 0 0 0"

lemma create_sent_moves: "run_moves sent_delta no_change (create_sent env st rq)"
proof -
  have sent: "run_moves sent_delta no_change (bind_run m (\<lambda>x. ret (c x)))"
    if "run_moves (\<lambda>_. delta a b 0 0 0) no_change m" and "\<And>x. sent_delta (c x) = delta a b 0 0 0" for m :: "'b run" and c a b
    unfolding run_moves_def
  proof (intro allI impI)
    fix l r l'
    assume run: "bind_run m (\<lambda>x. ret (c x)) l = (r, l')" and r: "r \<noteq> UB"
    obtain q k where m: "m l = (q, k)" by fastforce
    have "q \<noteq> UB" "l' = k" using run r m by (auto simp: bind_run_def ret_def split: outcome.splits option.splits)
    then have "moved l (case q of Ok (Some x) \<Rightarrow> delta a b 0 0 0 | _ \<Rightarrow> no_change) l'"
      using that(1) m unfolding run_moves_def by blast
    then show "moved l (case r of Ok (Some x) \<Rightarrow> sent_delta x | _ \<Rightarrow> no_change) l'"
      using run m that(2) by (auto simp: bind_run_def ret_def split: outcome.splits option.splits)
  qed
  show ?thesis
    unfolding create_sent_def
    by (cases st; simp only: php_statement.case; rule sent [OF create_single_moves] sent [OF create_batch_moves]) simp_all
qed

definition rows_delta :: "rows_obj \<Rightarrow> live" where
  "rows_delta rows =
     delta (of_bool (ro_statement rows \<noteq> None)) 0 0 (of_bool (ro_result rows \<noteq> None)) (of_bool (ro_session rows \<noteq> None))"

fun release_delta :: "sent \<Rightarrow> live" where
  "release_delta (SentSingle _) = delta (- 1) 0 0 0 0"
| "release_delta (SentBatch _) = delta 0 (- 1) 0 0 0"

lemma release_moved: "moved l (release_delta sent) (release_sent sent l)"
  by (cases sent) (simp_all add: moved_adds)

definition reply_delta :: "rows_obj option outcome \<Rightarrow> sent \<Rightarrow> live" where
  "reply_delta r sent =
     plus_delta (case r of Ok (Some rows) \<Rightarrow> rows_delta rows | _ \<Rightarrow> no_change)
       (plus_delta (release_delta sent) (delta 0 0 (- 1) 0 0))"

lemma execute_reply_cases:
  assumes "execute_reply rp timeout session sent l = (r, l')" and "r \<noteq> UB"
  obtains
    e where "r = Throw e" "l' = release_sent sent (add_future (- 1) l)"
  | e where "r = Throw e" "l' = release_sent sent (add_result (- 1) (add_result 1 (add_future (- 1) l)))"
  | rows where "r = Ok (Some (rows_new rows))" "l' = release_sent sent (add_result (- 1) (add_result 1 (add_future (- 1) l)))"
  | rows single result where "sent = SentSingle single"
      "r = Ok (Some ((rows_new rows)\<lparr>ro_statement := Some single, ro_result := Some result, ro_session := Some session\<rparr>))"
      "l' = add_session_ref 1 (add_result 1 (add_future (- 1) l))"
proof (cases "future_done rp timeout")
  case (Throw e)
  with assms show ?thesis by (intro that(1)) (auto simp: execute_reply_def)
next
  case (Ok u)
  show ?thesis
  proof (cases "rp_result rp")
    case None
    with assms Ok show ?thesis by (intro that(1)) (auto simp: execute_reply_def)
  next
    case (Some result)
    note known = assms(1) [unfolded execute_reply_def Ok Some Let_def outcome.case option.case]
    show ?thesis
    proof (cases "rp_rows rp result")
      case (Throw e)
      with known show ?thesis by (intro that(2)) auto
    next
      case (Ok rows)
      note known = known [unfolded Ok outcome.case]
      show ?thesis
      proof (cases "\<exists>single. sent = SentSingle single \<and> rp_more rp result")
        case True
        with known show ?thesis by (elim exE conjE, intro that(4)) auto
      next
        case False
        with known show ?thesis by (intro that(3)) (cases sent; auto)+
      qed
    qed (use known assms(2) in simp)
  qed
qed (use assms in \<open>simp add: execute_reply_def\<close>)

lemma execute_reply_moves:
  assumes "execute_reply rp timeout session sent l = (r, l')" and "r \<noteq> UB"
  shows "moved l (reply_delta r sent) l'"
  using assms
proof (cases rule: execute_reply_cases)
  case (4 rows single result)
  then show ?thesis
    by (simp add: reply_delta_def rows_delta_def moved_def add_session_ref_def add_result_def add_future_def)
qed (cases sent; simp add: reply_delta_def rows_delta_def rows_new_def moved_def add_statement_def add_batch_def
      add_session_ref_def add_result_def add_future_def)+

lemma sent_reply: "plus_delta (sent_delta sent) (plus_delta (delta 0 0 1 0 0) (reply_delta r sent)) =
    (case r of Ok (Some rows) \<Rightarrow> rows_delta rows | _ \<Rightarrow> no_change)"
  by (cases sent) (auto simp: reply_delta_def rows_delta_def split: outcome.splits option.splits)

lemma session_execute_moves:
  "run_moves rows_delta no_change (session_execute env objs rp self statement options)"
proof -
  have sent: "run_moves rows_delta no_change (bind_run (create_sent env st rq) (\<lambda>sent.
      bind_run (update_live (add_future 1)) (\<lambda>_. execute_reply rp timeout session sent)))" for st rq timeout session
    unfolding run_moves_def
  proof (intro allI impI)
    fix l r l'
    assume run: "bind_run (create_sent env st rq) (\<lambda>sent.
      bind_run (update_live (add_future 1)) (\<lambda>_. execute_reply rp timeout session sent)) l = (r, l')" and r: "r \<noteq> UB"
    obtain q k where c: "create_sent env st rq l = (q, k)" by fastforce
    show "moved l (case r of Ok (Some rows) \<Rightarrow> rows_delta rows | _ \<Rightarrow> no_change) l'"
    proof (cases "\<exists>sent. q = Ok (Some sent)")
      case True
      then obtain sent where q: "q = Ok (Some sent)" ..
      have "moved l (sent_delta sent) k" using create_sent_moves [of env st rq] c q unfolding run_moves_def by fastforce
      moreover have "execute_reply rp timeout session sent (add_future 1 k) = (r, l')"
        using run c q by (simp add: bind_run_def update_live_def)
      then have "moved (add_future 1 k) (reply_delta r sent) l'" using r by (rule execute_reply_moves)
      then have "moved k (plus_delta (delta 0 0 1 0 0) (reply_delta r sent)) l'"
        using moved_trans [OF moved_adds(3)] by blast
      ultimately have "moved l (plus_delta (sent_delta sent) (plus_delta (delta 0 0 1 0 0) (reply_delta r sent))) l'"
        by (rule moved_trans)
      then show ?thesis by (simp only: sent_reply)
    next
      case False
      then have q: "(case q of Ok (Some x) \<Rightarrow> sent_delta x | _ \<Rightarrow> no_change) = no_change"
        and rk: "(case r of Ok (Some x) \<Rightarrow> rows_delta x | _ \<Rightarrow> no_change) = no_change" "l' = k" "q \<noteq> UB"
        using run c r by (auto simp: bind_run_def split: outcome.splits option.splits)
      then have "moved l no_change k" using create_sent_moves [of env st rq] c unfolding run_moves_def by fastforce
      then show ?thesis using rk by simp
    qed
  qed
  show ?thesis
    unfolding session_execute_def
    by (auto simp: sent run_moves_stop run_moves_UB split: option.splits outcome.splits)
qed

text \<open>The rows of a reply hold all three of statement, result and session, or none.\<close>

lemma session_execute_rows:
  assumes "session_execute env objs rp self statement options l = (Ok (Some rows), l')"
  shows "(ro_statement rows \<noteq> None) = (ro_result rows \<noteq> None) \<and> (ro_session rows \<noteq> None) = (ro_result rows \<noteq> None)"
proof -
  obtain rp' timeout session sent l1 where "execute_reply rp' timeout session sent l1 = (Ok (Some rows), l')"
    using assms by (auto simp: session_execute_def stop_def bind_run_def update_live_def split: option.splits outcome.splits prod.splits)
  then show ?thesis by (cases rule: execute_reply_cases) (auto simp: rows_new_def)
qed

definition future_rows_delta :: "future_rows \<Rightarrow> live" where
  "future_rows_delta fr =
     delta (of_bool (fr_statement fr \<noteq> None)) 0 (of_bool (fr_future fr)) (of_bool (fr_result fr \<noteq> None)) (of_bool (fr_session fr \<noteq> None))"

lemma future_of_sent_moves:
  assumes "future_of_sent session sent l = (fr, l')"
  shows "moved l (plus_delta (release_delta sent) (future_rows_delta fr)) l' \<and> fr_future fr"
  using assms
  by (cases sent) (auto simp: future_rows_delta_def future_rows_new_def moved_def add_statement_def add_batch_def
      add_session_ref_def add_future_def)

lemma session_execute_async_cases:
  assumes "session_execute_async env objs self statement options l = (r, l')" and "r \<noteq> UB"
  obtains e where "r = Throw e" "l' = l"
  | st rq sent k fr where "create_sent env st rq l = (Ok (Some sent), k)" "future_of_sent (so_session self) sent k = (fr, l')" "r = Ok fr"
  | st rq where "create_sent env st rq l = (Ok None, l')" "r = Ok future_rows_new"
  | e st rq where "create_sent env st rq l = (Throw e, l')" "r = Throw e"
  using assms
  by (auto simp: session_execute_async_def split: option.splits outcome.splits prod.splits)

section \<open>Containers of a request\<close>

text \<open>
  The containers that stay allocated: binding an argument frees its container but not the ones nested in
  it (C21), and neither the statement nor the library's reply frees them later.
\<close>

definition args_left :: "stmt_env \<Rightarrow> (zkey \<times> zval) list \<Rightarrow> nat" where
  "args_left env args = sum_list (map (\<lambda>(k, v). fst (arg_payload env v)) args)"

definition containers_left :: "stmt_env \<Rightarrow> php_statement \<Rightarrow> (zkey \<times> zval) list option \<Rightarrow> nat" where
  "containers_left env st args =
     (case st of
        PBatch _ entries \<Rightarrow> sum_list (map (\<lambda>(statement, z). case z of ZArray h \<Rightarrow> args_left env (se_arrays env h) | _ \<Rightarrow> 0) entries)
      | _ \<Rightarrow> (case args of None \<Rightarrow> 0 | Some args \<Rightarrow> args_left env args))"

text \<open>A run leaves at most \<open>n\<close> containers, and exactly \<open>n\<close> if it returns a result.\<close>

definition leaves :: "nat \<Rightarrow> 'a run \<Rightarrow> bool" where
  "leaves n m \<longleftrightarrow>
     (\<forall>l r l'. m l = (r, l') \<longrightarrow> r \<noteq> UB \<longrightarrow>
        lv_containers l \<le> lv_containers l' \<and> lv_containers l' \<le> lv_containers l + int n \<and>
        ((\<exists>x. r = Ok (Some x)) \<longrightarrow> lv_containers l' = lv_containers l + int n))"

lemma leaves_ret: "leaves 0 (ret x)"
  by (simp add: leaves_def ret_def)

lemma leaves_stop: "(\<And>x. r \<noteq> Ok (Some x)) \<Longrightarrow> leaves n (stop r)"
  by (simp add: leaves_def stop_def)

lemma leaves_update: "(\<And>l. lv_containers (f l) = lv_containers l) \<Longrightarrow> leaves 0 (update_live f)"
  by (simp add: leaves_def update_live_def)

lemma leaves_bind:
  assumes "leaves a m" and "\<And>x. leaves b (f x)"
  shows "leaves (a + b) (bind_run m f)"
  unfolding leaves_def
proof (intro allI impI)
  fix l r l'
  assume run: "bind_run m f l = (r, l')" and r: "r \<noteq> UB"
  obtain q k where m: "m l = (q, k)" by fastforce
  have q: "q \<noteq> UB" using run r m by (auto simp: bind_run_def)
  have a: "lv_containers l \<le> lv_containers k" "lv_containers k \<le> lv_containers l + int a"
    "(\<exists>x. q = Ok (Some x)) \<Longrightarrow> lv_containers k = lv_containers l + int a"
    using assms(1) m q unfolding leaves_def by blast+
  show "lv_containers l \<le> lv_containers l' \<and> lv_containers l' \<le> lv_containers l + int (a + b) \<and>
      ((\<exists>x. r = Ok (Some x)) \<longrightarrow> lv_containers l' = lv_containers l + int (a + b))"
  proof (cases "\<exists>x. q = Ok (Some x)")
    case True
    then obtain x where x: "q = Ok (Some x)" ..
    then have "f x k = (r, l')" using run m by (simp add: bind_run_def)
    then have "lv_containers k \<le> lv_containers l'" "lv_containers l' \<le> lv_containers k + int b"
      "(\<exists>x. r = Ok (Some x)) \<Longrightarrow> lv_containers l' = lv_containers k + int b"
      using assms(2) [of x] r unfolding leaves_def by blast+
    then show ?thesis using a x by auto
  next
    case False
    then have "(\<nexists>x. r = Ok (Some x)) \<and> l' = k" using run m q by (auto simp: bind_run_def split: outcome.splits option.splits)
    then show ?thesis using a by auto
  qed
qed

lemma leaves_seq: "leaves 0 m \<Longrightarrow> (\<And>x. leaves n (f x)) \<Longrightarrow> leaves n (bind_run m f)"
  using leaves_bind [of 0 m n f] by simp

lemma leaves_on_failure:
  assumes "leaves n m" and "\<And>l. lv_containers (cleanup l) = lv_containers l"
  shows "leaves n (on_failure cleanup m)"
  unfolding leaves_def
proof (intro allI impI)
  fix l r l'
  assume run: "on_failure cleanup m l = (r, l')" and r: "r \<noteq> UB"
  obtain q k where m: "m l = (q, k)" by fastforce
  then have "r = q" "lv_containers l' = lv_containers k"
    using run assms(2) by (auto simp: on_failure_def split: outcome.splits option.splits)
  then show "lv_containers l \<le> lv_containers l' \<and> lv_containers l' \<le> lv_containers l + int n \<and>
      ((\<exists>x. r = Ok (Some x)) \<longrightarrow> lv_containers l' = lv_containers l + int n)"
    using assms(1) m r unfolding leaves_def by auto
qed

lemma lv_containers_add [simp]:
  "lv_containers (add_statement k l) = lv_containers l" "lv_containers (add_batch k l) = lv_containers l"
  "lv_containers (add_future k l) = lv_containers l" "lv_containers (add_result k l) = lv_containers l"
  "lv_containers (add_session_ref k l) = lv_containers l"
  by (simp_all add: add_statement_def add_batch_def add_future_def add_result_def add_session_ref_def)

lemma bind_arguments_left:
  "fst (bind_arguments env stmt args) \<le> args_left env args \<and>
    ((\<exists>x. snd (bind_arguments env stmt args) = Ok (Some x)) \<longrightarrow> fst (bind_arguments env stmt args) = args_left env args)"
proof (induction args arbitrary: stmt)
  case Nil
  then show ?case by (simp add: args_left_def)
next
  case (Cons a args)
  obtain k v where a: "a = (k, v)" by fastforce
  obtain n r where p: "arg_payload env v = (n, r)" by fastforce
  have one: "(case k of KStr name \<Rightarrow> bind_argument_by_name env stmt (cstr name) v
        | KInt num_key \<Rightarrow> bind_argument_by_index env stmt (unat (word_of_int num_key :: 64 word)) v) =
      bind_alloc (n, r) (bind_checked env stmt (target_of k))"
    by (cases k) (simp_all add: bind_by_name_payload bind_by_index_payload p)
  have left: "args_left env ((k, v) # args) = n + args_left env args" by (simp add: args_left_def p)
  show ?case
  proof (cases "\<exists>x. r = Ok (Some x)")
    case True
    then obtain x where x: "r = Ok (Some x)" ..
    show ?thesis using Cons.IH
      by (auto simp: a one left x bind_checked_def check_error_def split_def Let_def)
  next
    case False
    then show ?thesis by (cases r rule: outcome.exhaust) (auto simp: a one left split: option.splits)
  qed
qed

lemma create_statement_leaves:
  assumes "\<not> (\<exists>ty es. st = PBatch ty es)"
  shows "leaves (case args of None \<Rightarrow> 0 | Some args \<Rightarrow> args_left env args) (create_statement env st args)"
proof -
  have alloc: "leaves (args_left env as) (run_alloc (bind_arguments env stmt as))" for as stmt
    using bind_arguments_left [of env stmt as] by (auto simp: leaves_def run_alloc_def)
  have "leaves (case args of None \<Rightarrow> 0 | Some args \<Rightarrow> args_left env args)
      (case args of None \<Rightarrow> ret stmt | Some args \<Rightarrow> on_failure (add_statement (- 1)) (run_alloc (bind_arguments env stmt args)))" for stmt
    by (cases args) (simp_all add: leaves_ret leaves_on_failure [OF alloc])
  then show ?thesis using assms
    by (cases st) (simp_all only: create_statement_def php_statement.case Let_def leaves_seq [OF leaves_update] lv_containers_add, simp_all)
qed

lemma statement_set_leaves: "leaves 0 (statement_set env cond s stmt)"
  by (simp add: statement_set_def leaves_ret leaves_stop Let_def)

lemma batch_set_leaves: "leaves 0 (batch_set env s batch)"
  by (simp add: batch_set_def leaves_ret leaves_stop Let_def)

lemma leaves_then: "leaves n m \<Longrightarrow> (\<And>x. leaves 0 (f x)) \<Longrightarrow> leaves n (bind_run m f)"
  using leaves_bind [of n m 0 f] by simp

lemma create_single_leaves:
  "leaves (containers_left env st args) (create_single env st args cons sc ps tok pol ts)"
proof (cases "\<exists>ty es. st = PBatch ty es")
  case True
  then show ?thesis by (auto simp: create_single_def create_statement_def bind_run_def stop_def leaves_def)
next
  case False
  then have "containers_left env st args = (case args of None \<Rightarrow> 0 | Some args \<Rightarrow> args_left env args)"
    by (cases st) (simp_all add: containers_left_def)
  then show ?thesis
    unfolding create_single_def
    by (simp only:) (intro leaves_then [OF create_statement_leaves [OF False]] leaves_on_failure leaves_seq statement_set_leaves, simp)
qed

lemma entry_statement: "statement_of stmts z = Some (PBatch ty es) \<Longrightarrow> leaves n (create_statement env (PBatch ty es) args)"
  by (simp add: create_statement_def leaves_stop)

lemma leaves_more:
  assumes "leaves n m" and "\<And>l x l'. m l \<noteq> (Ok (Some x), l')" and "n \<le> k"
  shows "leaves k m"
  using assms unfolding leaves_def by fastforce

lemma add_statements_leaves:
  "leaves (containers_left env (PBatch ty entries) None) (add_statements env batch entries)"
proof (induction entries arbitrary: batch)
  case Nil
  then show ?case by (simp add: leaves_ret containers_left_def)
next
  case (Cons a entries)
  obtain statement arguments where a: "a = (statement, arguments)" by fastforce
  let ?rest = "containers_left env (PBatch ty entries) None"
  have left: "containers_left env (PBatch ty (a # entries)) None =
      (case arguments of ZArray h \<Rightarrow> args_left env (se_arrays env h) | _ \<Rightarrow> 0) + ?rest"
    by (simp add: containers_left_def a split: zval.splits)
  show ?case
  proof (cases "\<exists>st args. statement_of (se_stmts env) statement = Some st \<and> entry_arguments env arguments = Ok args")
    case True
    then obtain st args where st: "statement_of (se_stmts env) statement = Some st" and args: "entry_arguments env arguments = Ok args"
      by blast
    have "(case arguments of ZArray h \<Rightarrow> args_left env (se_arrays env h) | _ \<Rightarrow> 0) = (case args of None \<Rightarrow> 0 | Some args \<Rightarrow> args_left env args)"
      using args by (cases arguments) auto
    moreover have "leaves (case args of None \<Rightarrow> 0 | Some args \<Rightarrow> args_left env args) (create_statement env st args)"
    proof (cases "\<exists>ty es. st = PBatch ty es")
      case True
      then show ?thesis by (auto simp: create_statement_def intro: leaves_stop)
    qed (rule create_statement_leaves)
    ultimately show ?thesis
      unfolding left by (simp only: a add_statements.simps st args prod.case option.case outcome.case)
        (intro leaves_bind leaves_seq [OF leaves_update] Cons.IH, simp_all)
  next
    case False
    then show ?thesis by (auto simp: a leaves_stop split: option.splits outcome.splits)
  qed
qed

lemma create_batch_leaves:
  "leaves (containers_left env (PBatch ty entries) args) (create_batch env ty entries cons pol ts)"
proof -
  have "containers_left env (PBatch ty entries) args = containers_left env (PBatch ty entries) None"
    by (simp add: containers_left_def)
  then show ?thesis unfolding create_batch_def
    by (simp only:) (intro leaves_seq [OF leaves_update] leaves_on_failure leaves_then [OF add_statements_leaves]
      leaves_seq [OF batch_set_leaves] batch_set_leaves, simp_all)
qed

lemma create_sent_leaves: "leaves (containers_left env st (rq_arguments rq)) (create_sent env st rq)"
  unfolding create_sent_def
  by (cases st; simp only: php_statement.case; intro leaves_then leaves_ret create_single_leaves create_batch_leaves)

lemma release_sent_containers [simp]: "lv_containers (release_sent sent l) = lv_containers l"
  by (cases sent) simp_all

lemma execute_reply_leaves: "leaves 0 (execute_reply rp timeout session sent)"
  unfolding leaves_def
proof (intro allI impI)
  fix l r l'
  assume "execute_reply rp timeout session sent l = (r, l')" and "r \<noteq> UB"
  then show "lv_containers l \<le> lv_containers l' \<and> lv_containers l' \<le> lv_containers l + int 0 \<and>
      ((\<exists>x. r = Ok (Some x)) \<longrightarrow> lv_containers l' = lv_containers l + int 0)"
    by (cases rule: execute_reply_cases) simp_all
qed

lemma session_execute_leaves:
  "leaves (case (statement_of (se_stmts env) statement, request_of env objs self options) of
      (Some st, Ok rq) \<Rightarrow> containers_left env st (rq_arguments rq) | _ \<Rightarrow> 0) (session_execute env objs rp self statement options)"
proof (cases "statement_of (se_stmts env) statement")
  case (Some st)
  show ?thesis
  proof (cases "request_of env objs self options")
    case (Ok rq)
    show ?thesis unfolding session_execute_def Some Ok option.case outcome.case prod.case
      by (intro leaves_then [OF create_sent_leaves] leaves_seq [OF leaves_update] execute_reply_leaves) simp
  qed (simp_all add: session_execute_def Some leaves_stop)
qed (simp add: session_execute_def leaves_stop)

text \<open>
  C24. What a request leaves allocated in the driver library. On every path, of success, of an error, of a
  timeout or of an unbindable argument, the statement or batch, the future and the result are freed
  once, except that rows with more pages keep their statement and result and a reference of the session.
  Of the containers made for the arguments, those that binding leaves behind are never freed: all of
  them if the request succeeds, and no others if it fails.
\<close>

theorem execute_frees:
  assumes "session_execute env objs rp self statement options l = (r, l')" and "r \<noteq> UB"
  shows "let n = (case r of Ok (Some rows) \<Rightarrow> of_bool (ro_result rows \<noteq> None) | _ \<Rightarrow> 0);
      left = int (case (statement_of (se_stmts env) statement, request_of env objs self options) of
        (Some st, Ok rq) \<Rightarrow> containers_left env st (rq_arguments rq) | _ \<Rightarrow> 0) in
    lv_statements l' = lv_statements l + n \<and> lv_results l' = lv_results l + n \<and>
    lv_session_refs l' = lv_session_refs l + n \<and> lv_batches l' = lv_batches l \<and> lv_futures l' = lv_futures l \<and>
    lv_containers l \<le> lv_containers l' \<and> lv_containers l' \<le> lv_containers l + left \<and>
    (\<forall>rows. r = Ok (Some rows) \<longrightarrow> lv_containers l' = lv_containers l + left)"
proof -
  have "moved l (case r of Ok (Some rows) \<Rightarrow> rows_delta rows | _ \<Rightarrow> no_change) l'"
    using session_execute_moves assms unfolding run_moves_def by blast
  moreover note session_execute_leaves [of env statement objs self options rp, unfolded leaves_def, rule_format, OF assms]
  ultimately show ?thesis
    using session_execute_rows [of env objs rp self statement options l _ l'] assms(1)
    unfolding Let_def by (auto simp: moved_def rows_delta_def split: outcome.splits option.splits)
qed

text \<open>The options of a request: each that was given wins over the session's default.\<close>

lemma request_stored:
  assumes "given_options env objs (ZArray h) = Ok opts"
  shows "stored_as (se_arrays env h) ''consistency'' php_driver_get_consistency (- 1) id (eo_consistency opts) \<and>
    stored_as (se_arrays env h) ''serial_consistency'' php_driver_get_serial_consistency (- 1) id (eo_serial_consistency opts) \<and>
    stored_as (se_arrays env h) ''page_size'' check_page_size (- 1) id (eo_page_size opts) \<and>
    stored_as (se_arrays env h) ''paging_state_token'' check_paging_state_token None Some (eo_paging_state_token opts) \<and>
    stored_as (se_arrays env h) ''timeout'' check_timeout ZUndef id (eo_timeout opts) \<and>
    stored_as (se_arrays env h) ''arguments'' check_arguments ZUndef id (eo_arguments opts) \<and>
    stored_as (se_arrays env h) ''retry_policy'' check_retry_policy ZUndef id (eo_retry_policy opts) \<and>
    stored_as (se_arrays env h) ''timestamp'' check_timestamp (word_of_int (- (2 ^ 63))) id (eo_timestamp opts)"
  using assms by (simp add: php_driver_execution_options_build_local_from_array_def build_from_array_Ok)

lemma check_timestamp_Ok:
  "check_timestamp z = Ok l \<longleftrightarrow> z = ZLong l \<or> (\<exists>s. z = ZString s \<and> php_driver_parse_bigint s = Ok l)"
  by (cases z) auto

text \<open>
  C25. With an array of options every option that is given is the one the request uses, and for a missing one it uses the
  session's default consistency, page size and timeout, and no arguments, serial consistency, paging state, retry
  policy and timestamp. A page size above 31 bits wraps, and a wrapped one that is negative counts as
  missing; a timestamp is a number or its text.
\<close>

theorem options_precedence:
  assumes "request_of env objs self (Some (ZArray h)) = Ok rq"
  shows "let given = (\<lambda>name. map_of (se_arrays env h) (KStr name)) in
    (case given ''consistency'' of Some z \<Rightarrow> z = ZLong (rq_consistency rq) | None \<Rightarrow> rq_consistency rq = so_consistency self) \<and>
    (case given ''serial_consistency'' of Some z \<Rightarrow> z = ZLong (rq_serial_consistency rq) | None \<Rightarrow> sint (rq_serial_consistency rq) < 0) \<and>
    (case given ''page_size'' of
       Some z \<Rightarrow> (\<exists>k. z = ZLong k \<and> 0 < sint k \<and>
         rq_page_size rq = (if 0 \<le> sint (ucast k :: 32 word) then ucast k else so_page_size self))
     | None \<Rightarrow> rq_page_size rq = so_page_size self) \<and>
    (case given ''paging_state_token'' of Some z \<Rightarrow> (\<exists>s. rq_token rq = Some s \<and> z = ZString s) | None \<Rightarrow> rq_token rq = None) \<and>
    (case given ''timeout'' of Some z \<Rightarrow> rq_timeout rq = z | None \<Rightarrow> rq_timeout rq = so_timeout self) \<and>
    (case given ''arguments'' of
       Some z \<Rightarrow> (\<exists>a. z = ZArray a \<and> rq_arguments rq = Some (se_arrays env a)) | None \<Rightarrow> rq_arguments rq = None) \<and>
    (case given ''retry_policy'' of
       Some z \<Rightarrow> (\<exists>c p. z = ZObject (OOther c p) \<and> se_policies env p \<noteq> None \<and> rq_retry_policy rq = se_policies env p)
     | None \<Rightarrow> rq_retry_policy rq = None) \<and>
    (case given ''timestamp'' of
       Some z \<Rightarrow> z = ZLong (rq_timestamp rq) \<or> (\<exists>s. z = ZString s \<and> php_driver_parse_bigint s = Ok (rq_timestamp rq))
     | None \<Rightarrow> sint (rq_timestamp rq) = - (2 ^ 63))"
proof -
  obtain opts args pol where g: "given_options env objs (ZArray h) = Ok opts"
    and args: "options_arguments env (eo_arguments opts) = Ok args" and pol: "options_policy env (eo_retry_policy opts) = Ok pol"
    and rq: "rq = (session_request self)\<lparr>rq_arguments := args,
            rq_consistency := (if 0 \<le> sint (eo_consistency opts) then eo_consistency opts else so_consistency self),
            rq_page_size := (if 0 \<le> sint (eo_page_size opts) then eo_page_size opts else so_page_size self),
            rq_token := eo_paging_state_token opts,
            rq_timeout := (if eo_timeout opts \<noteq> ZUndef then eo_timeout opts else so_timeout self),
            rq_serial_consistency := (if 0 \<le> sint (eo_serial_consistency opts) then eo_serial_consistency opts else - 1),
            rq_retry_policy := pol, rq_timestamp := eo_timestamp opts\<rparr>"
    using assms by (auto simp: request_of_def merge_options_def bind_outcome_Ok_iff session_request_def simp del: given_options.simps)
  note st = request_stored [OF g, unfolded stored_as_def]
  have "case map_of (se_arrays env h) (KStr ''consistency'') of Some z \<Rightarrow> z = ZLong (rq_consistency rq)
      | None \<Rightarrow> rq_consistency rq = so_consistency self"
    using st [THEN conjunct1] by (auto simp: rq check_Ok split: option.splits)
  moreover note st = st [THEN conjunct2]
  have "case map_of (se_arrays env h) (KStr ''serial_consistency'') of Some z \<Rightarrow> z = ZLong (rq_serial_consistency rq)
      | None \<Rightarrow> sint (rq_serial_consistency rq) < 0"
    using st [THEN conjunct1] by (auto simp: rq check_Ok split: option.splits)
  moreover note st = st [THEN conjunct2]
  have "case map_of (se_arrays env h) (KStr ''page_size'') of
       Some z \<Rightarrow> (\<exists>k. z = ZLong k \<and> 0 < sint k \<and>
         rq_page_size rq = (if 0 \<le> sint (ucast k :: 32 word) then ucast k else so_page_size self))
     | None \<Rightarrow> rq_page_size rq = so_page_size self"
    using st [THEN conjunct1] by (auto simp: rq elim!: check_page_size.elims split: option.splits if_splits)
  moreover note st = st [THEN conjunct2]
  have "case map_of (se_arrays env h) (KStr ''paging_state_token'') of Some z \<Rightarrow> (\<exists>s. rq_token rq = Some s \<and> z = ZString s)
     | None \<Rightarrow> rq_token rq = None"
    using st [THEN conjunct1] by (auto simp: rq check_Ok split: option.splits)
  moreover note st = st [THEN conjunct2]
  have "case map_of (se_arrays env h) (KStr ''timeout'') of Some z \<Rightarrow> rq_timeout rq = z | None \<Rightarrow> rq_timeout rq = so_timeout self"
    using st [THEN conjunct1] by (auto simp: rq check_Ok split: option.splits)
  moreover note st = st [THEN conjunct2]
  have "case map_of (se_arrays env h) (KStr ''arguments'') of
      Some z \<Rightarrow> (\<exists>a. z = ZArray a \<and> rq_arguments rq = Some (se_arrays env a)) | None \<Rightarrow> rq_arguments rq = None"
    using st [THEN conjunct1] args by (auto simp: rq check_Ok split: option.splits)
  moreover note st = st [THEN conjunct2]
  have "case map_of (se_arrays env h) (KStr ''retry_policy'') of
       Some z \<Rightarrow> (\<exists>c p. z = ZObject (OOther c p) \<and> se_policies env p \<noteq> None \<and> rq_retry_policy rq = se_policies env p)
     | None \<Rightarrow> rq_retry_policy rq = None"
    using st [THEN conjunct1] pol
    by (cases "(env, eo_retry_policy opts)" rule: options_policy.cases) (auto simp: rq check_Ok split: option.splits, metis)
  moreover have "case map_of (se_arrays env h) (KStr ''timestamp'') of
       Some z \<Rightarrow> z = ZLong (rq_timestamp rq) \<or> (\<exists>s. z = ZString s \<and> php_driver_parse_bigint s = Ok (rq_timestamp rq))
     | None \<Rightarrow> sint (rq_timestamp rq) = - (2 ^ 63)"
    using st [THEN conjunct2] by (auto simp: rq check_timestamp_Ok split: option.splits)
  ultimately show ?thesis by (simp only: Let_def)
qed

definition ready_future :: fut_env where
  "ready_future = \<lparr>fe_ready = True, fe_wait_timed = (\<lambda>_. True), fe_error = 0\<rparr>"

definition one_page :: reply where
  "one_page = \<lparr>rp_future = ready_future, rp_result = Some 0, rp_rows = (\<lambda>_. Ok (ZArray 0)), rp_more = (\<lambda>_. True)\<rparr>"

definition plain_session :: session_obj where
  "plain_session =
     \<lparr>so_id = 0, so_session = 1, so_persist = False, so_consistency = 6, so_page_size = 5000, so_timeout = ZNull\<rparr>"

definition none_live :: live where
  "none_live = \<lparr>lv_containers = 0, lv_statements = 0, lv_batches = 0, lv_futures = 0, lv_results = 0, lv_session_refs = 0\<rparr>"

lemmas session_run_defs = session_execute_def request_of_def session_request_def create_sent_def create_single_def
  create_statement_def statement_set_def bind_run_def ret_def stop_def update_live_def on_failure_def execute_reply_def
  future_done_def Let_def env_accepting_def plain_session_def one_page_def ready_future_def
  php_driver_future_wait_timed.simps php_driver_future_is_error_def

text \<open>A request whose one argument is a list that holds a set: the container of the set is left.\<close>

definition nested_env :: stmt_env where
  "nested_env = (env_accepting (\<lambda>_. []) nested_heap)\<lparr>se_arrays := (\<lambda>h.
     if h = 0 then [(KStr ''arguments'', ZArray 1), (KStr ''timestamp'', ZLong 77), (KStr ''consistency'', ZLong 1)]
     else [(KInt 0, ZObject (OTyped ''Collection'' (TCollection (TSet (TScalar CASS_INT))) 0))])\<rparr>"

lemma nested_request:
  "\<exists>rq. request_of nested_env (\<lambda>_. None) plain_session (Some (ZArray 0)) = Ok rq \<and>
     rq_arguments rq = Some (se_arrays nested_env 1)"
  by (simp add: nested_env_def request_of_def merge_options_def session_request_def
      php_driver_execution_options_build_local_from_array_def build_from_array_def with_option_def init_execution_options_def
      consistency_codes_def)

lemma nested_payload: "\<exists>p. arg_payload nested_env (ZObject (OTyped ''Collection'' (TCollection (TSet (TScalar CASS_INT))) 0)) = (1, Ok (Some p))"
  by (simp add: arg_payload_def nested_env_def env_accepting_def numeral_eq_Suc nested_heap_def php_driver_collection_from_collection_def
      php_driver_collection_add_def php_driver_collection_new_def collection_values_def ht_values_def ht_next_insert_def
      ht_update_def ht_new_def php_driver_collection_append_def switch_value_def php_driver_collection_from_set_def
      php_driver_set_new_def set_values_def ut_keys_def hash_iter_def check_error_def lib_accepting_def)

theorem execute_frees_witness:
  "\<exists>rows l'. session_execute nested_env (\<lambda>_. None) one_page plain_session (ZString ''q'') (Some (ZArray 0)) none_live =
      (Ok (Some rows), l') \<and> ro_result rows = Some 0 \<and> lv_containers l' = 1 \<and>
    lv_statements l' = 1 \<and> lv_results l' = 1 \<and> lv_session_refs l' = 1 \<and> lv_batches l' = 0 \<and> lv_futures l' = 0"
proof -
  let ?run = "session_execute nested_env (\<lambda>_. None) one_page plain_session (ZString ''q'') (Some (ZArray 0)) none_live"
  obtain rq where rq: "request_of nested_env (\<lambda>_. None) plain_session (Some (ZArray 0)) = Ok rq"
    "rq_arguments rq = Some (se_arrays nested_env 1)" using nested_request by blast
  obtain p where p: "arg_payload nested_env (ZObject (OTyped ''Collection'' (TCollection (TSet (TScalar CASS_INT))) 0)) = (1, Ok (Some p))"
    using nested_payload by blast
  have acc: "se_bind nested_env = (\<lambda>_ _ _. 0)" "se_set nested_env = (\<lambda>_ _. 0)"
    "se_arrays nested_env 1 = [(KInt 0, ZObject (OTyped ''Collection'' (TCollection (TSet (TScalar CASS_INT))) 0))]"
    by (simp_all add: nested_env_def env_accepting_def)
  let ?stmt = "\<lparr>st_source = SourceCql (cstr ''q'') 1, st_bindings = [], st_settings = []\<rparr>"
  obtain stmt where b: "bind_arguments nested_env ?stmt (se_arrays nested_env 1) = (1, Ok (Some stmt))"
    using p by (simp add: acc bind_by_index_payload bind_checked_def check_error_def del: One_nat_def)
  have "length (se_arrays nested_env 1) = 1" by (simp only: acc list.size)
  then have "\<exists>l'. create_statement nested_env (PSimple ''q'') (rq_arguments rq) none_live = (Ok (Some stmt), l')"
    using b by (simp add: rq(2) create_statement_def bind_run_def update_live_def on_failure_def run_alloc_def del: One_nat_def)
  then have "\<exists>rows l'. ?run = (Ok (Some rows), l') \<and> ro_result rows = Some 0"
    by (auto simp: session_execute_def rq(1) create_sent_def create_single_def statement_set_def acc bind_run_def ret_def update_live_def
        on_failure_def execute_reply_def future_done_def one_page_def ready_future_def Let_def
        php_driver_future_wait_timed.simps php_driver_future_is_error_def split: outcome.splits)
  then obtain rows l' where run: "?run = (Ok (Some rows), l')" and result: "ro_result rows = Some 0" by blast
  have left: "containers_left nested_env (PSimple ''q'') (rq_arguments rq) = 1"
    by (simp add: containers_left_def args_left_def rq(2) acc(3) p del: One_nat_def)
  show ?thesis using execute_frees [OF run] run result left by (simp add: Let_def none_live_def rq(1))
qed

theorem options_precedence_witness:
  "\<exists>rq. request_of nested_env (\<lambda>_. None) plain_session (Some (ZArray 0)) = Ok rq \<and> rq_consistency rq = 1 \<and>
     rq_page_size rq = 5000 \<and> rq_timeout rq = ZNull \<and> rq_timestamp rq = 77 \<and> rq_retry_policy rq = None \<and>
     rq_arguments rq = Some [(KInt 0, ZObject (OTyped ''Collection'' (TCollection (TSet (TScalar CASS_INT))) 0))]"
proof -
  obtain rq where rq: "request_of nested_env (\<lambda>_. None) plain_session (Some (ZArray 0)) = Ok rq" using nested_request by blast
  from options_precedence [OF rq] show ?thesis
    by (intro exI [where x = rq] conjI rq) (simp_all add: Let_def plain_session_def nested_env_def env_accepting_def)
qed

section \<open>Settings of a statement\<close>

lemma statement_set_some:
  assumes "statement_set env cond s stmt l = (Ok (Some stmt'), l')"
  shows "stmt' = stmt\<lparr>st_settings := st_settings stmt @ (if cond then [s] else [])\<rparr>"
  using assms by (auto simp: statement_set_def ret_def stop_def Let_def split: if_splits)

lemma bind_run_some:
  assumes "bind_run m f l = (Ok (Some y), l')"
  obtains x k where "m l = (Ok (Some x), k)" "f x k = (Ok (Some y), l')"
  using assms by (auto simp: bind_run_def split: prod.splits outcome.splits option.splits)

lemma on_failure_some: "on_failure cleanup m l = (Ok (Some x), l') \<longleftrightarrow> m l = (Ok (Some x), l')"
  by (auto simp: on_failure_def split: prod.splits outcome.splits option.splits)

lemma bind_alloc_some:
  assumes "snd (bind_alloc r f) = Ok (Some y)"
  obtains x where "snd r = Ok (Some x)" "snd (f x) = Ok (Some y)"
  using assms by (cases "(r, f)" rule: bind_alloc.cases) auto

lemma bind_arguments_frame:
  "bind_arguments env stmt args = (n, Ok (Some stmt')) \<Longrightarrow>
    st_source stmt' = st_source stmt \<and> st_settings stmt' = st_settings stmt"
proof (induction args arbitrary: stmt n)
  case (Cons a args)
  obtain k v where a: "a = (k, v)" by fastforce
  have "(case k of KStr name \<Rightarrow> bind_argument_by_name env stmt (cstr name) v
        | KInt num_key \<Rightarrow> bind_argument_by_index env stmt (unat (word_of_int num_key :: 64 word)) v) =
      bind_alloc (arg_payload env v) (bind_checked env stmt (target_of k))"
    by (cases k) (simp_all add: bind_by_name_payload bind_by_index_payload)
  then have "snd (bind_alloc (bind_alloc (arg_payload env v) (bind_checked env stmt (target_of k)))
      (\<lambda>stmt. bind_arguments env stmt args)) = Ok (Some stmt')"
    using Cons.prems by (simp add: a)
  then obtain q where q: "snd (bind_alloc (arg_payload env v) (bind_checked env stmt (target_of k))) = Ok (Some q)"
    and rest: "snd (bind_arguments env q args) = Ok (Some stmt')" by (rule bind_alloc_some)
  obtain p where "snd (bind_checked env stmt (target_of k) p) = Ok (Some q)"
    using q by (rule bind_alloc_some)
  then have "st_source q = st_source stmt \<and> st_settings q = st_settings stmt"
    by (auto simp: bind_checked_def check_error_def split: if_splits)
  then show ?case using Cons.IH [of q "fst (bind_arguments env q args)"] rest by (simp add: prod_eq_iff)
qed simp

text \<open>The statement before its settings are made.\<close>

definition bound_statement :: "stmt_env \<Rightarrow> php_statement \<Rightarrow> (zkey \<times> zval) list option \<Rightarrow> cass_stmt \<Rightarrow> bool" where
  "bound_statement env st args stmt \<longleftrightarrow>
     (case st of
        PSimple cql \<Rightarrow> st_source stmt = SourceCql (cstr cql) (case args of None \<Rightarrow> 0 | Some as \<Rightarrow> length as)
      | PPrepared p \<Rightarrow> st_source stmt = SourcePrepared p
      | PBatch _ _ \<Rightarrow> False) \<and>
     st_settings stmt = [] \<and>
     snd (bind_arguments env (stmt\<lparr>st_bindings := []\<rparr>) (case args of None \<Rightarrow> [] | Some as \<Rightarrow> as)) = Ok (Some stmt)"

lemma create_statement_some:
  assumes "create_statement env st args l = (Ok (Some stmt), l')"
  shows "bound_statement env st args stmt"
proof -
  obtain source where st: "\<not> (\<exists>ty es. st = PBatch ty es)"
    and source: "(case st of PSimple cql \<Rightarrow> source = SourceCql (cstr cql) (case args of None \<Rightarrow> 0 | Some as \<Rightarrow> length as)
      | PPrepared p \<Rightarrow> source = SourcePrepared p | PBatch _ _ \<Rightarrow> False)"
    and run: "(case args of None \<Rightarrow> ret \<lparr>st_source = source, st_bindings = [], st_settings = []\<rparr>
      | Some as \<Rightarrow> on_failure (add_statement (- 1)) (run_alloc
          (bind_arguments env \<lparr>st_source = source, st_bindings = [], st_settings = []\<rparr> as))) (add_statement 1 l) = (Ok (Some stmt), l')"
    using assms by (cases st) (simp_all add: create_statement_def stop_def bind_run_def update_live_def Let_def)
  show ?thesis
  proof (cases args)
    case None
    then show ?thesis using run source by (cases st) (auto simp: bound_statement_def ret_def)
  next
    case (Some as)
    let ?stmt = "\<lparr>st_source = source, st_bindings = [], st_settings = []\<rparr>"
    obtain n where bound: "bind_arguments env ?stmt as = (n, Ok (Some stmt))"
      using run by (cases "bind_arguments env ?stmt as") (auto simp: Some on_failure_some run_alloc_def)
    have frame: "st_source stmt = source" "st_settings stmt = []" using bind_arguments_frame [OF bound] by simp_all
    have "stmt\<lparr>st_bindings := []\<rparr> = ?stmt" using frame by (cases stmt) simp
    then have "snd (bind_arguments env (stmt\<lparr>st_bindings := []\<rparr>) as) = Ok (Some stmt)" using bound by simp
    then show ?thesis using frame source Some by (cases st) (simp_all add: bound_statement_def)
  qed
qed

text \<open>
  A single statement that is created carries the query or prepared statement, the arguments bound by
  \<^verbatim>\<open>bind_arguments\<close>, and after them exactly these settings, in this order: consistency; serial
  consistency, page size, paging state and retry policy where they were given; timestamp.
\<close>

theorem single_statement_settings:
  assumes "create_single env st args cons sc ps tok pol ts l = (Ok (Some stmt), l')"
  shows "\<exists>bound. bound_statement env st args bound \<and>
    stmt = bound\<lparr>st_settings :=
      [SetConsistency cons] @
      (if 0 \<le> sint sc then [SetSerialConsistency sc] else []) @
      (if 0 \<le> sint ps then [SetPagingSize ps] else []) @
      (case tok of Some s \<Rightarrow> [SetPagingStateToken s] | None \<Rightarrow> []) @
      (case pol of Some p \<Rightarrow> [stmt_setting.SetRetryPolicy (Some p)] | None \<Rightarrow> []) @
      [SetTimestamp ts]\<rparr>"
proof -
  obtain bound k where bound: "create_statement env st args l = (Ok (Some bound), k)"
    and run: "bind_run (statement_set env True (SetConsistency cons) bound) (\<lambda>stmt.
        bind_run (statement_set env (0 \<le> sint sc) (SetSerialConsistency sc) stmt) (\<lambda>stmt.
        bind_run (statement_set env (0 \<le> sint ps) (SetPagingSize ps) stmt) (\<lambda>stmt.
        bind_run (statement_set env (tok \<noteq> None) (SetPagingStateToken (the tok)) stmt) (\<lambda>stmt.
        bind_run (statement_set env (pol \<noteq> None) (stmt_setting.SetRetryPolicy pol) stmt) (\<lambda>stmt.
        statement_set env True (SetTimestamp ts) stmt))))) k = (Ok (Some stmt), l')"
    using assms unfolding create_single_def by (elim bind_run_some) (simp add: on_failure_some)
  have bs: "bound_statement env st args bound" by (rule create_statement_some [OF bound])
  then have empty: "st_settings bound = []" by (simp add: bound_statement_def)
  from run show ?thesis
    by - (elim bind_run_some, (drule statement_set_some)+, intro exI [where x = bound],
      auto simp: bs empty split: option.splits)
qed

theorem single_statement_settings_witness:
  "\<exists>stmt l'. create_single (env_accepting (\<lambda>_. []) nested_heap) (PSimple ''q'') (Some [(KInt 0, ZLong 7)]) 6 (- 1) 100 None None 5 none_live =
      (Ok (Some stmt), l') \<and>
    st_source stmt = SourceCql ''q'' 1 \<and> st_settings stmt = [SetConsistency 6, SetPagingSize 100, SetTimestamp 5]"
proof -
  let ?run = "create_single (env_accepting (\<lambda>_. []) nested_heap) (PSimple ''q'') (Some [(KInt 0, ZLong 7)]) 6 (- 1) 100 None None 5 none_live"
  have "\<exists>stmt l'. ?run = (Ok (Some stmt), l')"
    by (simp add: session_run_defs run_alloc_def bind_argument_by_index_def bind_checked_def check_error_def)
  then obtain stmt l' where run: "?run = (Ok (Some stmt), l')" by blast
  from single_statement_settings [OF run] run show ?thesis by (auto simp: bound_statement_def cstr_def)
qed

text \<open>
  An argument of no known class makes \<^verbatim>\<open>execute\<close> return nothing, without an exception, and \<^verbatim>\<open>executeAsync\<close> a future
  that has no future of the driver library.
\<close>

lemma unbindable_argument_silent:
  assumes "request_of env objs self options = Ok rq" and "rq_arguments rq = Some [(KInt 0, ZObject (OOther c h))]"
  shows "fst (session_execute env objs rp self (ZString cql) options l) = Ok None \<and>
    fst (session_execute_async env objs self (ZString cql) options l) = Ok future_rows_new"
  using assms
  by (simp add: session_execute_def session_execute_async_def create_sent_def create_single_def create_statement_def
      bind_run_def update_live_def on_failure_def run_alloc_def bind_argument_by_index_def Let_def)

end
