(* ===== verification/Rows_Paging.thy ===== *)
theory Rows_Paging
  imports Session_Execute "HOL-Library.Multiset"
begin

text \<open>
  \<^verbatim>\<open>ext/src/Rows.c\<close> and \<^verbatim>\<open>ext/src/FutureRows.c\<close>: pages of a result. The objects share the statement, the session
  and the results through counted references (\<^verbatim>\<open>ext/util/ref.c\<close>); fetching a page sets the paging state of the
  shared statement. The functions that free the two kinds of objects are modelled as calls; in a build for
  PHP 8 the slots that would make the engine call them are left empty, so that there the references of
  these objects are never given back.
\<close>

section \<open>State\<close>

datatype ref_data =
    DStatement cass_stmt "nat option" \<comment> \<open>with the result its paging state was taken from\<close>
  | DResult nat
  | DSession nat

record ref_cell =
  rc_data :: ref_data
  rc_count :: nat

text \<open>What \<^verbatim>\<open>future_next_page\<close> holds: a \<^verbatim>\<open>FutureRows\<close>, or a \<^verbatim>\<open>FutureValue\<close> with the rows object in it.\<close>

datatype page_future =
    PFRows nat
  | PFValue "nat option"

record php_driver_rows =
  pr_rows :: zval
  pr_statement :: "nat option"
  pr_session :: "nat option"
  pr_result :: "nat option"
  pr_next_rows :: zval
  pr_next_result :: "nat option"
  pr_future_next_page :: "page_future option"

record php_driver_future_rows =
  pf_statement :: "nat option"
  pf_session :: "nat option"
  pf_rows :: zval
  pf_result :: "nat option"
  pf_future :: bool

text \<open>
  The cells of references, the objects by their handles, the references that session objects hold, the
  requests that were sent (a statement and the result after which to go on), what was destroyed, and the
  futures of the library that are allocated. All new numbers come from one counter.
\<close>

record pages =
  pw_cells :: "nat \<Rightarrow> ref_cell option"
  pw_rows :: "(nat \<times> php_driver_rows) list"
  pw_future_rows :: "(nat \<times> php_driver_future_rows) list"
  pw_external :: "nat list"
  pw_requests :: "(cass_stmt \<times> nat) list"
  pw_destroyed :: "(nat \<times> ref_data) list"
  pw_futures :: int
  pw_next_id :: nat

text \<open>The answers of the library in one call.\<close>

record page_env =
  pe_paging :: nat \<comment> \<open>error code of setting the paging state\<close>
  pe_future :: fut_env
  pe_result :: "nat option"
  pe_rows :: "nat \<Rightarrow> zval outcome"
  pe_more :: "nat \<Rightarrow> bool"

section \<open>References\<close>

type_synonym 'a paged = "pages \<Rightarrow> 'a outcome \<times> pages"

definition pret :: "'a \<Rightarrow> 'a paged" where
  "pret x = (\<lambda>w. (Ok x, w))"

definition pstop :: "'a outcome \<Rightarrow> 'a paged" where
  "pstop r = (\<lambda>w. (r, w))"

definition pbind :: "'a paged \<Rightarrow> ('a \<Rightarrow> 'b paged) \<Rightarrow> 'b paged" where
  "pbind m f = (\<lambda>w. case m w of (Ok x, w') \<Rightarrow> f x w' | (Throw e, w') \<Rightarrow> (Throw e, w') | (UB, w') \<Rightarrow> (UB, w'))"

text \<open>The caller goes on after an exception.\<close>

definition pcatch :: "'a paged \<Rightarrow> ('a \<Rightarrow> 'b paged) \<Rightarrow> (exn \<Rightarrow> 'b paged) \<Rightarrow> 'b paged" where
  "pcatch m f g = (\<lambda>w. case m w of (Ok x, w') \<Rightarrow> f x w' | (Throw e, w') \<Rightarrow> g e w' | (UB, w') \<Rightarrow> (UB, w'))"

definition pupdate :: "(pages \<Rightarrow> pages) \<Rightarrow> unit paged" where
  "pupdate f = (\<lambda>w. (Ok (), f w))"

definition php_driver_new_ref :: "ref_data \<Rightarrow> nat paged" where
  "php_driver_new_ref data = (\<lambda>w. (Ok (pw_next_id w),
     w\<lparr>pw_cells := (pw_cells w)(pw_next_id w \<mapsto> \<lparr>rc_data = data, rc_count = 1\<rparr>), pw_next_id := pw_next_id w + 1\<rparr>))"

text \<open>The macro counts without looking at the pointer.\<close>

definition add_ref :: "nat option \<Rightarrow> nat paged" where
  "add_ref ref = (\<lambda>w. case ref of
     None \<Rightarrow> (UB, w)
   | Some c \<Rightarrow>
       (case pw_cells w c of
          None \<Rightarrow> (UB, w)
        | Some cell \<Rightarrow> (Ok c, w\<lparr>pw_cells := (pw_cells w)(c \<mapsto> cell\<lparr>rc_count := rc_count cell + 1\<rparr>)\<rparr>)))"

definition del_ref :: "nat option \<Rightarrow> unit paged" where
  "del_ref ref = (\<lambda>w. case ref of
     None \<Rightarrow> (Ok (), w)
   | Some c \<Rightarrow>
       (case pw_cells w c of
          None \<Rightarrow> (UB, w)
        | Some cell \<Rightarrow>
            if rc_count cell \<le> 1
            then (Ok (), w\<lparr>pw_cells := (pw_cells w)(c := None), pw_destroyed := pw_destroyed w @ [(c, rc_data cell)]\<rparr>)
            else (Ok (), w\<lparr>pw_cells := (pw_cells w)(c \<mapsto> cell\<lparr>rc_count := rc_count cell - 1\<rparr>)\<rparr>)))"

text \<open>The pointer in a reference, cast to what it should point to.\<close>

definition deref_result :: "nat option \<Rightarrow> nat paged" where
  "deref_result ref = (\<lambda>w. case map_option rc_data (Option.bind ref (pw_cells w)) of
     Some (DResult result) \<Rightarrow> (Ok result, w)
   | _ \<Rightarrow> (UB, w))"

definition deref_statement :: "nat option \<Rightarrow> cass_stmt paged" where
  "deref_statement ref = (\<lambda>w. case map_option rc_data (Option.bind ref (pw_cells w)) of
     Some (DStatement stmt _) \<Rightarrow> (Ok stmt, w)
   | _ \<Rightarrow> (UB, w))"

definition deref_session :: "nat option \<Rightarrow> nat paged" where
  "deref_session ref = (\<lambda>w. case map_option rc_data (Option.bind ref (pw_cells w)) of
     Some (DSession session) \<Rightarrow> (Ok session, w)
   | _ \<Rightarrow> (UB, w))"

section \<open>Objects\<close>

definition get_rows :: "nat \<Rightarrow> php_driver_rows paged" where
  "get_rows h = (\<lambda>w. case map_of (pw_rows w) h of Some r \<Rightarrow> (Ok r, w) | None \<Rightarrow> (UB, w))"

definition get_future_rows :: "nat \<Rightarrow> php_driver_future_rows paged" where
  "get_future_rows h = (\<lambda>w. case map_of (pw_future_rows w) h of Some r \<Rightarrow> (Ok r, w) | None \<Rightarrow> (UB, w))"

definition change_at :: "nat \<Rightarrow> ('o \<Rightarrow> 'o) \<Rightarrow> (nat \<times> 'o) list \<Rightarrow> (nat \<times> 'o) list" where
  "change_at h f = map (\<lambda>(h', r). (h', if h' = h then f r else r))"

definition set_rows :: "nat \<Rightarrow> (php_driver_rows \<Rightarrow> php_driver_rows) \<Rightarrow> unit paged" where
  "set_rows h f = pupdate (\<lambda>w. w\<lparr>pw_rows := change_at h f (pw_rows w)\<rparr>)"

definition set_future_rows :: "nat \<Rightarrow> (php_driver_future_rows \<Rightarrow> php_driver_future_rows) \<Rightarrow> unit paged" where
  "set_future_rows h f = pupdate (\<lambda>w. w\<lparr>pw_future_rows := change_at h f (pw_future_rows w)\<rparr>)"

definition add_rows :: "php_driver_rows \<Rightarrow> nat paged" where
  "add_rows r = (\<lambda>w. (Ok (pw_next_id w), w\<lparr>pw_rows := (pw_next_id w, r) # pw_rows w, pw_next_id := pw_next_id w + 1\<rparr>))"

definition add_future_rows :: "php_driver_future_rows \<Rightarrow> nat paged" where
  "add_future_rows r =
     (\<lambda>w. (Ok (pw_next_id w), w\<lparr>pw_future_rows := (pw_next_id w, r) # pw_future_rows w, pw_next_id := pw_next_id w + 1\<rparr>))"

definition php_driver_rows_new :: "zval \<Rightarrow> php_driver_rows" where
  "php_driver_rows_new rows =
     \<lparr>pr_rows = rows, pr_statement = None, pr_session = None, pr_result = None, pr_next_rows = ZUndef,
      pr_next_result = None, pr_future_next_page = None\<rparr>"

text \<open>A rows object with references of the three, when there are more pages.\<close>

definition new_page :: "page_env \<Rightarrow> zval \<Rightarrow> nat option \<Rightarrow> nat option \<Rightarrow> nat option \<Rightarrow> nat paged" where
  "new_page env rows statement session result =
     pbind (deref_result result) (\<lambda>res.
       if pe_more env res
       then pbind (add_ref statement) (\<lambda>st.
            pbind (add_ref session) (\<lambda>se.
            pbind (add_ref result) (\<lambda>re.
              add_rows ((php_driver_rows_new rows)\<lparr>pr_statement := Some st, pr_session := Some se, pr_result := Some re\<rparr>))))
       else add_rows (php_driver_rows_new rows))"

section \<open>Pages\<close>

definition php_driver_rows_create :: "page_env \<Rightarrow> nat \<Rightarrow> nat paged" where
  "php_driver_rows_create env h =
     pbind (get_rows h) (\<lambda>cur.
     pbind (if pr_next_rows cur \<noteq> ZUndef then pret (pr_next_rows cur)
            else pbind (deref_result (pr_next_result cur)) (\<lambda>res. pstop (pe_rows env res))) (\<lambda>rows.
     pbind (set_rows h (pr_next_rows_update (\<lambda>_. rows))) (\<lambda>_.
       new_page env rows (pr_statement cur) (pr_session cur) (pr_next_result cur))))"

definition php_driver_future_rows_get_result :: "page_env \<Rightarrow> zval \<Rightarrow> nat \<Rightarrow> unit paged" where
  "php_driver_future_rows_get_result env timeout f =
     pbind (get_future_rows f) (\<lambda>fr.
       if pf_result fr \<noteq> None then pret ()
       else if \<not> pf_future fr then pstop UB
       else pbind (pstop (php_driver_future_wait_timed (pe_future env) timeout)) (\<lambda>_.
            pbind (pstop (php_driver_future_is_error (pe_future env))) (\<lambda>_.
            case pe_result env of
              None \<Rightarrow> pstop (Throw RuntimeException)
            | Some result \<Rightarrow>
                pbind (php_driver_new_ref (DResult result)) (\<lambda>re. set_future_rows f (pf_result_update (\<lambda>_. Some re))))))"

definition future_rows_get :: "page_env \<Rightarrow> zval \<Rightarrow> nat \<Rightarrow> nat paged" where
  "future_rows_get env timeout f =
     pbind (php_driver_future_rows_get_result env timeout f) (\<lambda>_.
     pbind (get_future_rows f) (\<lambda>fr.
     pbind (if pf_rows fr \<noteq> ZUndef then pret (pf_rows fr)
            else pbind (deref_result (pf_result fr)) (\<lambda>res. pstop (pe_rows env res))) (\<lambda>rows.
     pbind (set_future_rows f (pf_rows_update (\<lambda>_. rows))) (\<lambda>_.
       new_page env rows (pf_statement fr) (pf_session fr) (pf_result fr)))))"

text \<open>The paging state is that of the rows' own result; then the statement is sent on the session.\<close>

definition send_next :: "page_env \<Rightarrow> php_driver_rows \<Rightarrow> unit paged" where
  "send_next env self =
     pbind (deref_statement (pr_statement self)) (\<lambda>stmt.
     pbind (deref_result (pr_result self)) (\<lambda>res.
       if pe_paging env \<noteq> 0 then pstop (Throw (CassException (pe_paging env)))
       else
         pbind (pupdate (\<lambda>w. w\<lparr>pw_cells :=
             (pw_cells w)(the (pr_statement self) \<mapsto> (the (pw_cells w (the (pr_statement self))))\<lparr>rc_data := DStatement stmt (Some res)\<rparr>)\<rparr>)) (\<lambda>_.
         pbind (deref_session (pr_session self)) (\<lambda>_.
           pupdate (\<lambda>w. w\<lparr>pw_requests := pw_requests w @ [(stmt, res)], pw_futures := pw_futures w + 1\<rparr>)))))"

text \<open>When waiting fails, or the request did, the future is not freed.\<close>

definition fetch_next :: "page_env \<Rightarrow> zval \<Rightarrow> nat \<Rightarrow> php_driver_rows \<Rightarrow> unit paged" where
  "fetch_next env timeout h self =
     pbind (send_next env self) (\<lambda>_.
     pbind (pstop (php_driver_future_wait_timed (pe_future env) timeout)) (\<lambda>_.
     pbind (pstop (php_driver_future_is_error (pe_future env))) (\<lambda>_.
     pbind (pupdate (\<lambda>w. w\<lparr>pw_futures := pw_futures w - 1\<rparr>)) (\<lambda>_.
     case pe_result env of
       None \<Rightarrow> pstop (Throw RuntimeException)
     | Some result \<Rightarrow>
         pbind (php_driver_new_ref (DResult result)) (\<lambda>re. set_rows h (pr_next_result_update (\<lambda>_. Some re)))))))"

text \<open>Without another page the method returns nothing.\<close>

definition rows_next_page :: "page_env \<Rightarrow> zval \<Rightarrow> nat \<Rightarrow> nat option paged" where
  "rows_next_page env timeout h =
     pbind (get_rows h) (\<lambda>self.
       if pr_next_result self \<noteq> None then pbind (php_driver_rows_create env h) (\<lambda>page. pret (Some page))
       else case pr_future_next_page self of
         Some (PFValue _) \<Rightarrow> pstop (Throw RuntimeException)
       | Some (PFRows f) \<Rightarrow>
           pbind (php_driver_future_rows_get_result env timeout f) (\<lambda>_.
           pbind (get_future_rows f) (\<lambda>fr.
           pbind (add_ref (pf_result fr)) (\<lambda>re.
           pbind (set_rows h (pr_next_result_update (\<lambda>_. Some re))) (\<lambda>_.
           pbind (php_driver_rows_create env h) (\<lambda>page. pret (Some page))))))
       | None \<Rightarrow>
           if pr_result self = None then pret None
           else pbind (fetch_next env timeout h self) (\<lambda>_.
                pbind (php_driver_rows_create env h) (\<lambda>page. pret (Some page))))"

definition rows_next_page_async :: "page_env \<Rightarrow> nat \<Rightarrow> page_future paged" where
  "rows_next_page_async env h =
     pbind (get_rows h) (\<lambda>self.
       case pr_future_next_page self of
         Some future \<Rightarrow> pret future
       | None \<Rightarrow>
           if pr_next_result self \<noteq> None
           then pcatch (php_driver_rows_create env h)
                  (\<lambda>page. pbind (set_rows h (pr_future_next_page_update (\<lambda>_. Some (PFValue (Some page))))) (\<lambda>_.
                     pret (PFValue (Some page))))
                  (\<lambda>e. pbind (set_rows h (pr_future_next_page_update (\<lambda>_. Some (PFValue None)))) (\<lambda>_. pstop (Throw e)))
           else if pr_result self = None then pret (PFValue None)
           else pbind (send_next env self) (\<lambda>_.
                pbind (add_ref (pr_statement self)) (\<lambda>st.
                pbind (add_ref (pr_session self)) (\<lambda>se.
                pbind (add_future_rows \<lparr>pf_statement = Some st, pf_session = Some se, pf_rows = ZUndef, pf_result = None,
                    pf_future = True\<rparr>) (\<lambda>f.
                pbind (set_rows h (pr_future_next_page_update (\<lambda>_. Some (PFRows f)))) (\<lambda>_.
                  pret (PFRows f)))))))"

definition rows_is_last_page :: "php_driver_rows \<Rightarrow> bool" where
  "rows_is_last_page self \<longleftrightarrow> pr_result self = None \<and> pr_next_rows self = ZUndef \<and> pr_future_next_page self = None"

section \<open>Creation and destruction\<close>

text \<open>The rows object that \<^verbatim>\<open>execute\<close> returns, and the future that \<^verbatim>\<open>executeAsync\<close> returns; \<open>se\<close> is the reference of the session object.\<close>

definition rows_open :: "nat \<Rightarrow> rows_obj \<Rightarrow> nat paged" where
  "rows_open se ro =
     (case (ro_statement ro, ro_result ro) of
        (Some stmt, Some result) \<Rightarrow>
          pbind (php_driver_new_ref (DStatement stmt None)) (\<lambda>st.
          pbind (php_driver_new_ref (DResult result)) (\<lambda>re.
          pbind (add_ref (Some se)) (\<lambda>se.
            add_rows ((php_driver_rows_new (ro_rows ro))\<lparr>pr_statement := Some st, pr_session := Some se, pr_result := Some re\<rparr>))))
      | _ \<Rightarrow> add_rows (php_driver_rows_new (ro_rows ro)))"

definition future_rows_open :: "nat \<Rightarrow> future_rows \<Rightarrow> nat paged" where
  "future_rows_open se fr =
     pbind (pupdate (\<lambda>w. w\<lparr>pw_futures := pw_futures w + of_bool (fr_future fr)\<rparr>)) (\<lambda>_.
     case fr_statement fr of
        Some stmt \<Rightarrow>
          pbind (php_driver_new_ref (DStatement stmt None)) (\<lambda>st.
          pbind (add_ref (Some se)) (\<lambda>se.
            add_future_rows \<lparr>pf_statement = Some st, pf_session = Some se, pf_rows = ZUndef, pf_result = None, pf_future = fr_future fr\<rparr>))
      | None \<Rightarrow>
          add_future_rows \<lparr>pf_statement = None, pf_session = None, pf_rows = ZUndef, pf_result = None, pf_future = fr_future fr\<rparr>)"

definition remove_at :: "nat \<Rightarrow> (nat \<times> 'o) list \<Rightarrow> (nat \<times> 'o) list" where
  "remove_at h = filter (\<lambda>(h', _). h' \<noteq> h)"

definition rows_free :: "nat \<Rightarrow> unit paged" where
  "rows_free h =
     pbind (get_rows h) (\<lambda>self.
     pbind (pupdate (\<lambda>w. w\<lparr>pw_rows := remove_at h (pw_rows w)\<rparr>)) (\<lambda>_.
     pbind (del_ref (pr_result self)) (\<lambda>_.
     pbind (del_ref (pr_statement self)) (\<lambda>_.
     pbind (del_ref (pr_session self)) (\<lambda>_.
       del_ref (pr_next_result self))))))"

definition future_rows_free :: "nat \<Rightarrow> unit paged" where
  "future_rows_free f =
     pbind (get_future_rows f) (\<lambda>self.
     pbind (pupdate (\<lambda>w. w\<lparr>pw_future_rows := remove_at f (pw_future_rows w)\<rparr>)) (\<lambda>_.
     pbind (del_ref (pf_statement self)) (\<lambda>_.
     pbind (del_ref (pf_session self)) (\<lambda>_.
     pbind (del_ref (pf_result self)) (\<lambda>_.
       pupdate (\<lambda>w. w\<lparr>pw_futures := pw_futures w - of_bool (pf_future self)\<rparr>))))))"

text \<open>A session object comes and goes.\<close>

definition session_open :: "nat \<Rightarrow> nat paged" where
  "session_open s =
     pbind (php_driver_new_ref (DSession s)) (\<lambda>c. pbind (pupdate (\<lambda>w. w\<lparr>pw_external := c # pw_external w\<rparr>)) (\<lambda>_. pret c))"

definition session_drop :: "nat \<Rightarrow> unit paged" where
  "session_drop c = pbind (pupdate (\<lambda>w. w\<lparr>pw_external := remove1 c (pw_external w)\<rparr>)) (\<lambda>_. del_ref (Some c))"

section \<open>Rows of a page\<close>

text \<open>
  The array of rows with the internal pointer of the Zend engine, on which the iterator methods work. Rows
  objects of the same page share the array.
\<close>

record row_table =
  rt_rows :: "zval list"
  rt_pos :: nat

definition rows_count :: "row_table \<Rightarrow> int" where
  "rows_count t = int (length (rt_rows t))"

definition rows_rewind :: "row_table \<Rightarrow> row_table" where
  "rows_rewind t = t\<lparr>rt_pos := 0\<rparr>"

definition rows_current :: "row_table \<Rightarrow> zval option" where
  "rows_current t = (if rt_pos t < length (rt_rows t) then Some (rt_rows t ! rt_pos t) else None)"

definition rows_key :: "row_table \<Rightarrow> nat option" where
  "rows_key t = (if rt_pos t < length (rt_rows t) then Some (rt_pos t) else None)"

definition rows_next :: "row_table \<Rightarrow> row_table" where
  "rows_next t = (if rt_pos t < length (rt_rows t) then t\<lparr>rt_pos := rt_pos t + 1\<rparr> else t)"

definition rows_valid :: "row_table \<Rightarrow> bool" where
  "rows_valid t \<longleftrightarrow> rt_pos t < length (rt_rows t)"

definition row_offset :: "zval \<Rightarrow> nat outcome" where
  "row_offset offset =
     (case offset of
        ZLong l \<Rightarrow> if sint l < 0 then Throw InvalidArgumentException else Ok (unat l)
      | _ \<Rightarrow> Throw InvalidArgumentException)"

definition rows_offset_exists :: "row_table \<Rightarrow> zval \<Rightarrow> bool outcome" where
  "rows_offset_exists t offset = bind_outcome (row_offset offset) (\<lambda>i. Ok (i < length (rt_rows t)))"

definition rows_offset_get :: "row_table \<Rightarrow> zval \<Rightarrow> zval option outcome" where
  "rows_offset_get t offset =
     bind_outcome (row_offset offset) (\<lambda>i. Ok (if i < length (rt_rows t) then Some (rt_rows t ! i) else None))"

definition rows_first :: "row_table \<Rightarrow> zval option" where
  "rows_first t = (case rt_rows t of [] \<Rightarrow> None | row # _ \<Rightarrow> Some row)"

text \<open>A \<^verbatim>\<open>foreach\<close> loop over a rows object; \<open>body\<close> is what the loop's body does to the shared array.\<close>

fun rows_loop :: "nat \<Rightarrow> (row_table \<Rightarrow> row_table) \<Rightarrow> row_table \<Rightarrow> (nat option \<times> zval option) list \<Rightarrow>
    ((nat option \<times> zval option) list \<times> row_table) option" where
  "rows_loop 0 body t seen = None"
| "rows_loop (Suc fuel) body t seen =
     (if rows_valid t then rows_loop fuel body (rows_next (body t)) (seen @ [(rows_key t, rows_current t)])
      else Some (seen, t))"

definition rows_foreach :: "nat \<Rightarrow> (row_table \<Rightarrow> row_table) \<Rightarrow> row_table \<Rightarrow> ((nat option \<times> zval option) list \<times> row_table) option" where
  "rows_foreach fuel body t = rows_loop fuel body (rows_rewind t) []"

section \<open>Invariant\<close>

datatype ref_kind = KStatement | KResult | KSession

fun kind :: "ref_data \<Rightarrow> ref_kind" where
  "kind (DStatement _ _) = KStatement"
| "kind (DResult _) = KResult"
| "kind (DSession _) = KSession"

definition live_ref :: "pages \<Rightarrow> nat \<Rightarrow> ref_kind \<Rightarrow> bool" where
  "live_ref w c k \<longleftrightarrow> (\<exists>cell. pw_cells w c = Some cell \<and> kind (rc_data cell) = k)"

fun held :: "pages \<Rightarrow> ref_kind \<Rightarrow> nat option \<Rightarrow> bool" where
  "held w k None = True"
| "held w k (Some c) = live_ref w c k"

fun opt_refs :: "nat option \<Rightarrow> nat multiset" where
  "opt_refs None = {#}"
| "opt_refs (Some c) = {#c#}"

definition refs_rows :: "php_driver_rows \<Rightarrow> nat multiset" where
  "refs_rows r = opt_refs (pr_statement r) + opt_refs (pr_session r) + opt_refs (pr_result r) + opt_refs (pr_next_result r)"

definition refs_future_rows :: "php_driver_future_rows \<Rightarrow> nat multiset" where
  "refs_future_rows fr = opt_refs (pf_statement fr) + opt_refs (pf_session fr) + opt_refs (pf_result fr)"

definition all_refs :: "pages \<Rightarrow> nat multiset" where
  "all_refs w = sum_list (map (refs_rows \<circ> snd) (pw_rows w)) + sum_list (map (refs_future_rows \<circ> snd) (pw_future_rows w)) +
     mset (pw_external w)"

definition ref_count :: "pages \<Rightarrow> nat \<Rightarrow> nat" where
  "ref_count w c = (case pw_cells w c of None \<Rightarrow> 0 | Some cell \<Rightarrow> rc_count cell)"

text \<open>The pointers of a rows object are set together, and a future of the next page is one of the library.\<close>

definition rows_ok :: "pages \<Rightarrow> php_driver_rows \<Rightarrow> bool" where
  "rows_ok w r \<longleftrightarrow>
     held w KStatement (pr_statement r) \<and> held w KSession (pr_session r) \<and> held w KResult (pr_result r) \<and>
     held w KResult (pr_next_result r) \<and>
     (pr_result r \<noteq> None \<longrightarrow> pr_statement r \<noteq> None \<and> pr_session r \<noteq> None) \<and>
     (pr_next_result r \<noteq> None \<longrightarrow> pr_result r \<noteq> None) \<and>
     (\<forall>v. pr_future_next_page r = Some (PFValue v) \<longrightarrow> pr_next_result r \<noteq> None) \<and>
     (\<forall>f. pr_future_next_page r = Some (PFRows f) \<longrightarrow>
        pr_result r \<noteq> None \<and> (\<exists>fr. (f, fr) \<in> set (pw_future_rows w) \<and> pf_future fr))"

definition future_rows_ok :: "pages \<Rightarrow> php_driver_future_rows \<Rightarrow> bool" where
  "future_rows_ok w fr \<longleftrightarrow>
     held w KStatement (pf_statement fr) \<and> held w KSession (pf_session fr) \<and> held w KResult (pf_result fr) \<and>
     (pf_statement fr \<noteq> None \<longleftrightarrow> pf_session fr \<noteq> None)"

text \<open>
  Every cell is counted as often as it is referenced; \<open>d\<close> are references that an operation has taken but
  not yet stored.
\<close>

definition pages_inv :: "pages \<Rightarrow> nat multiset \<Rightarrow> bool" where
  "pages_inv w d \<longleftrightarrow>
     (\<forall>c. ref_count w c = count (all_refs w + d) c) \<and>
     (\<forall>c cell. pw_cells w c = Some cell \<longrightarrow> 0 < rc_count cell \<and> c < pw_next_id w) \<and>
     distinct (map fst (pw_rows w)) \<and> distinct (map fst (pw_future_rows w)) \<and>
     (\<forall>h \<in> fst ` set (pw_rows w) \<union> fst ` set (pw_future_rows w). h < pw_next_id w) \<and>
     (\<forall>(h, r) \<in> set (pw_rows w). rows_ok w r) \<and> (\<forall>(f, fr) \<in> set (pw_future_rows w). future_rows_ok w fr) \<and>
     (\<forall>c \<in> set (pw_external w). live_ref w c KSession)"

text \<open>What stays when only cells are added or counted.\<close>

definition same_objects :: "pages \<Rightarrow> pages \<Rightarrow> bool" where
  "same_objects w w' \<longleftrightarrow>
     pw_rows w' = pw_rows w \<and> pw_future_rows w' = pw_future_rows w \<and> pw_external w' = pw_external w \<and>
     (\<forall>c k. live_ref w c k \<longrightarrow> live_ref w' c k)"

lemma held_mono: "(\<forall>c. live_ref w c k \<longrightarrow> live_ref w' c k) \<Longrightarrow> held w k r \<Longrightarrow> held w' k r"
  by (cases r) auto

lemma rows_ok_mono:
  assumes "rows_ok w r" and "\<forall>c k. live_ref w c k \<longrightarrow> live_ref w' c k"
    and "\<And>f fr. (f, fr) \<in> set (pw_future_rows w) \<Longrightarrow> pf_future fr \<Longrightarrow> \<exists>fr'. (f, fr') \<in> set (pw_future_rows w') \<and> pf_future fr'"
  shows "rows_ok w' r"
  using assms held_mono [of w _ w'] unfolding rows_ok_def by meson

lemma future_rows_ok_mono:
  "future_rows_ok w fr \<Longrightarrow> \<forall>c k. live_ref w c k \<longrightarrow> live_ref w' c k \<Longrightarrow> future_rows_ok w' fr"
  using held_mono [of w _ w'] unfolding future_rows_ok_def by meson

lemma live_ref_upd:
  "live_ref (w\<lparr>pw_cells := (pw_cells w)(c \<mapsto> cell)\<rparr>) x k \<longleftrightarrow> (if x = c then kind (rc_data cell) = k else live_ref w x k)"
  by (auto simp: live_ref_def)

lemma all_refs_objects:
  "pw_rows w' = pw_rows w \<Longrightarrow> pw_future_rows w' = pw_future_rows w \<Longrightarrow> pw_external w' = pw_external w \<Longrightarrow> all_refs w' = all_refs w"
  by (simp add: all_refs_def)

lemma same_objectsD:
  assumes "same_objects w w'"
  shows "all_refs w' = all_refs w" and "rows_ok w r \<Longrightarrow> rows_ok w' r" and "future_rows_ok w fr \<Longrightarrow> future_rows_ok w' fr"
proof -
  show "all_refs w' = all_refs w" using assms by (simp add: same_objects_def all_refs_def)
  show "rows_ok w r \<Longrightarrow> rows_ok w' r" by (erule rows_ok_mono) (use assms in \<open>auto simp: same_objects_def\<close>)
  show "future_rows_ok w fr \<Longrightarrow> future_rows_ok w' fr" using future_rows_ok_mono assms unfolding same_objects_def by blast
qed

lemma inv_same_objects:
  assumes inv: "pages_inv w d" and same: "same_objects w w'"
    and counts: "\<And>c. ref_count w' c = count (all_refs w + d') c"
    and cells: "\<forall>c cell. pw_cells w' c = Some cell \<longrightarrow> 0 < rc_count cell \<and> c < pw_next_id w'"
    and id: "pw_next_id w \<le> pw_next_id w'"
  shows "pages_inv w' d'"
proof -
  have "\<forall>h \<in> fst ` set (pw_rows w) \<union> fst ` set (pw_future_rows w). h < pw_next_id w'"
    using inv id unfolding pages_inv_def by (meson less_le_trans)
  then show ?thesis
    using assms same_objectsD [OF same] unfolding pages_inv_def same_objects_def by auto
qed

section \<open>Primitive steps\<close>

lemma inv_new_ref:
  assumes inv: "pages_inv w d"
  shows "\<exists>c w'. php_driver_new_ref data w = (Ok c, w') \<and> pages_inv w' (add_mset c d) \<and> same_objects w w' \<and> live_ref w' c (kind data)"
proof -
  let ?w = "w\<lparr>pw_cells := (pw_cells w)(pw_next_id w \<mapsto> \<lparr>rc_data = data, rc_count = 1\<rparr>), pw_next_id := pw_next_id w + 1\<rparr>"
  have free: "pw_cells w (pw_next_id w) = None"
  proof (rule ccontr)
    assume "pw_cells w (pw_next_id w) \<noteq> None"
    then obtain cell where "pw_cells w (pw_next_id w) = Some cell" by blast
    moreover have "\<forall>c cell. pw_cells w c = Some cell \<longrightarrow> 0 < rc_count cell \<and> c < pw_next_id w" using inv by (simp add: pages_inv_def)
    ultimately show False by blast
  qed
  have counts: "ref_count w c = count (all_refs w + d) c" for c using inv by (simp add: pages_inv_def)
  have same: "same_objects w ?w" using free by (auto simp: same_objects_def live_ref_def)
  have "pages_inv ?w (add_mset (pw_next_id w) d)"
  proof (rule inv_same_objects [OF inv same])
    show "ref_count ?w c = count (all_refs w + add_mset (pw_next_id w) d) c" for c
      using counts [of c] free by (auto simp: ref_count_def)
    show "\<forall>c cell. pw_cells ?w c = Some cell \<longrightarrow> 0 < rc_count cell \<and> c < pw_next_id ?w"
      using inv by (auto simp: pages_inv_def less_Suc_eq)
  qed simp
  then show ?thesis using same by (simp add: php_driver_new_ref_def live_ref_def)
qed

lemma inv_add_ref:
  assumes inv: "pages_inv w d" and live: "live_ref w c k"
  shows "\<exists>w'. add_ref (Some c) w = (Ok c, w') \<and> pages_inv w' (add_mset c d) \<and> same_objects w w'"
proof -
  obtain cell where cell: "pw_cells w c = Some cell" using live by (auto simp: live_ref_def)
  let ?w = "w\<lparr>pw_cells := (pw_cells w)(c \<mapsto> cell\<lparr>rc_count := rc_count cell + 1\<rparr>)\<rparr>"
  have counts: "ref_count w x = count (all_refs w + d) x" for x using inv by (simp add: pages_inv_def)
  have same: "same_objects w ?w" using cell by (auto simp: same_objects_def live_ref_def)
  have "pages_inv ?w (add_mset c d)"
  proof (rule inv_same_objects [OF inv same])
    show "ref_count ?w x = count (all_refs w + add_mset c d) x" for x
      using counts [of x] cell by (auto simp: ref_count_def)
    show "\<forall>x y. pw_cells ?w x = Some y \<longrightarrow> 0 < rc_count y \<and> x < pw_next_id ?w"
      using inv cell by (auto simp: pages_inv_def)
  qed simp
  then show ?thesis using same cell by (simp add: add_ref_def)
qed

text \<open>A reference that is held is not freed before.\<close>

lemma inv_live: "pages_inv w d \<Longrightarrow> c \<in># all_refs w + d \<Longrightarrow> pw_cells w c \<noteq> None"
  unfolding pages_inv_def ref_count_def by (metis count_greater_zero_iff less_irrefl option.case(1))

lemma sum_list_mset_mem: "x \<in> set xs \<Longrightarrow> c \<in># f x \<Longrightarrow> c \<in># sum_list (map f xs)"
  by (induction xs) auto

lemma rows_refs_mem: "(h, r) \<in> set (pw_rows w) \<Longrightarrow> c \<in># refs_rows r \<Longrightarrow> c \<in># all_refs w"
  using sum_list_mset_mem [of "(h, r)" "pw_rows w" c "refs_rows \<circ> snd"] by (simp add: all_refs_def)

lemma future_refs_mem: "(f, fr) \<in> set (pw_future_rows w) \<Longrightarrow> c \<in># refs_future_rows fr \<Longrightarrow> c \<in># all_refs w"
  using sum_list_mset_mem [of "(f, fr)" "pw_future_rows w" c "refs_future_rows \<circ> snd"] by (simp add: all_refs_def)

lemma held_del:
  assumes "held w k ref" and "opt_refs ref \<subseteq># m" and "c \<notin># m"
  shows "held (w\<lparr>pw_cells := (pw_cells w)(c := None), pw_destroyed := x\<rparr>) k ref"
  using assms by (cases ref) (auto simp: live_ref_def)

lemma inv_del_ref:
  assumes inv: "pages_inv w (add_mset c d)"
  shows "\<exists>w'. del_ref (Some c) w = (Ok (), w') \<and> pages_inv w' d \<and> pw_rows w' = pw_rows w \<and> pw_future_rows w' = pw_future_rows w \<and>
    pw_external w' = pw_external w"
proof -
  obtain cell where cell: "pw_cells w c = Some cell" using inv_live [OF inv, of c] by auto
  have counts: "ref_count w x = count (all_refs w + add_mset c d) x" for x using inv by (simp add: pages_inv_def)
  show ?thesis
  proof (cases "rc_count cell \<le> 1")
    case False
    let ?w = "w\<lparr>pw_cells := (pw_cells w)(c \<mapsto> cell\<lparr>rc_count := rc_count cell - 1\<rparr>)\<rparr>"
    have same: "same_objects w ?w" using cell by (auto simp: same_objects_def live_ref_def)
    have "pages_inv ?w d"
    proof (rule inv_same_objects [OF inv same])
      show "ref_count ?w x = count (all_refs w + d) x" for x
        using counts [of x] cell by (auto simp: ref_count_def)
      show "\<forall>x y. pw_cells ?w x = Some y \<longrightarrow> 0 < rc_count y \<and> x < pw_next_id ?w"
        using inv cell False by (auto simp: pages_inv_def)
    qed simp
    then show ?thesis using False cell by (simp add: del_ref_def)
  next
    case True
    let ?w = "w\<lparr>pw_cells := (pw_cells w)(c := None), pw_destroyed := pw_destroyed w @ [(c, rc_data cell)]\<rparr>"
    have free: "c \<notin># all_refs w + d" using counts [of c] cell True by (simp add: ref_count_def not_in_iff)
    have live: "live_ref ?w x k" if "live_ref w x k" "x \<noteq> c" for x k using that by (simp add: live_ref_def)
    have r: "rows_ok ?w r" if "(h, r) \<in> set (pw_rows w)" for h r
    proof -
      have "rows_ok w r" using inv that by (auto simp: pages_inv_def)
      moreover have "c \<notin># refs_rows r" using free rows_refs_mem [OF that] by auto
      ultimately show ?thesis
        unfolding rows_ok_def refs_rows_def by (auto elim!: held_del [where m = "refs_rows r"] simp: refs_rows_def)
    qed
    have f: "future_rows_ok ?w fr" if "(h, fr) \<in> set (pw_future_rows w)" for h fr
    proof -
      have "future_rows_ok w fr" using inv that by (auto simp: pages_inv_def)
      moreover have "c \<notin># refs_future_rows fr" using free future_refs_mem [OF that] by auto
      ultimately show ?thesis
        unfolding future_rows_ok_def refs_future_rows_def
        by (auto elim!: held_del [where m = "refs_future_rows fr"] simp: refs_future_rows_def)
    qed
    have refs: "all_refs ?w = all_refs w" by (rule all_refs_objects) simp_all
    have "ref_count ?w x = count (all_refs ?w + d) x" for x
      using counts [of x] free unfolding refs by (cases "x = c") (simp_all add: ref_count_def not_in_iff)
    moreover have "\<forall>x y. pw_cells ?w x = Some y \<longrightarrow> 0 < rc_count y \<and> x < pw_next_id ?w"
      using inv by (simp add: pages_inv_def)
    moreover have "\<forall>(h, r) \<in> set (pw_rows ?w). rows_ok ?w r" using r by auto
    moreover have "\<forall>(h, fr) \<in> set (pw_future_rows ?w). future_rows_ok ?w fr" using f by auto
    moreover have "\<forall>x \<in> set (pw_external ?w). live_ref ?w x KSession"
    proof
      fix x assume "x \<in> set (pw_external ?w)"
      then have "live_ref w x KSession" "x \<in># all_refs w" using inv by (auto simp: pages_inv_def all_refs_def)
      then show "live_ref ?w x KSession" using free live by fastforce
    qed
    ultimately have "pages_inv ?w d" using inv unfolding pages_inv_def by (intro conjI allI) simp_all
    then show ?thesis using True cell by (simp add: del_ref_def)
  qed
qed

lemma inv_del_refs:
  assumes "pages_inv w (opt_refs ref + d)"
  shows "\<exists>w'. del_ref ref w = (Ok (), w') \<and> pages_inv w' d \<and> pw_rows w' = pw_rows w \<and> pw_future_rows w' = pw_future_rows w \<and>
    pw_external w' = pw_external w"
proof (cases ref)
  case None
  then show ?thesis using assms by (simp add: del_ref_def)
next
  case (Some c)
  then show ?thesis using inv_del_ref [of w c d] assms by simp
qed

text \<open>Objects: a new one, a change of one, and the removal of one.\<close>

lemma pages_invD:
  assumes "pages_inv w d"
  shows "ref_count w c = count (all_refs w + d) c" and "pw_cells w c = Some cell \<Longrightarrow> 0 < rc_count cell \<and> c < pw_next_id w"
    and "distinct (map fst (pw_rows w))" and "distinct (map fst (pw_future_rows w))"
    and "h \<in> fst ` set (pw_rows w) \<Longrightarrow> h < pw_next_id w" and "h \<in> fst ` set (pw_future_rows w) \<Longrightarrow> h < pw_next_id w"
    and "(h, r) \<in> set (pw_rows w) \<Longrightarrow> rows_ok w r" and "(h, fr) \<in> set (pw_future_rows w) \<Longrightarrow> future_rows_ok w fr"
    and "c \<in> set (pw_external w) \<Longrightarrow> live_ref w c KSession"
  using assms by (auto simp: pages_inv_def)

lemma fresh_id: "pages_inv w d \<Longrightarrow> pw_next_id w \<notin> fst ` set (pw_rows w) \<and> pw_next_id w \<notin> fst ` set (pw_future_rows w)"
  using pages_invD(5) [of w d "pw_next_id w"] pages_invD(6) [of w d "pw_next_id w"] by blast

text \<open>Objects change while the cells stay.\<close>

lemma inv_objects:
  assumes inv: "pages_inv w d0" and cells: "pw_cells w' = pw_cells w" and id: "pw_next_id w \<le> pw_next_id w'"
    and refs: "all_refs w' + d = all_refs w + d0"
    and dist: "distinct (map fst (pw_rows w'))" "distinct (map fst (pw_future_rows w'))"
    and bound: "\<forall>h \<in> fst ` set (pw_rows w') \<union> fst ` set (pw_future_rows w'). h < pw_next_id w'"
    and rows: "\<And>h r. (h, r) \<in> set (pw_rows w') \<Longrightarrow> rows_ok w' r"
    and fut: "\<And>f fr. (f, fr) \<in> set (pw_future_rows w') \<Longrightarrow> future_rows_ok w' fr"
    and ext: "set (pw_external w') \<subseteq> set (pw_external w)"
  shows "pages_inv w' d"
proof -
  have "ref_count w' c = count (all_refs w' + d) c" for c
    using pages_invD(1) [OF inv, of c] refs cells by (simp add: ref_count_def)
  moreover have "\<forall>c cell. pw_cells w' c = Some cell \<longrightarrow> 0 < rc_count cell \<and> c < pw_next_id w'"
    using pages_invD(2) [OF inv] cells id by fastforce
  moreover have "\<forall>(h, r) \<in> set (pw_rows w'). rows_ok w' r" using rows by blast
  moreover have "\<forall>(f, fr) \<in> set (pw_future_rows w'). future_rows_ok w' fr" using fut by blast
  moreover have "\<forall>c \<in> set (pw_external w'). live_ref w' c KSession"
    using ext pages_invD(9) [OF inv] cells by (auto simp: live_ref_def)
  ultimately show ?thesis unfolding pages_inv_def using dist bound by (intro conjI) blast+
qed

lemma live_cells: "pw_cells w' = pw_cells w \<Longrightarrow> \<forall>c k. live_ref w c k \<longrightarrow> live_ref w' c k"
  by (simp add: live_ref_def)

lemma fut_cells: "future_rows_ok w x \<Longrightarrow> pw_cells w' = pw_cells w \<Longrightarrow> future_rows_ok w' x"
  by (rule future_rows_ok_mono [OF _ live_cells])

lemma rows_cells:
  assumes "rows_ok w x" and "pw_cells w' = pw_cells w"
    and "\<And>f fr. (f, fr) \<in> set (pw_future_rows w) \<Longrightarrow> pf_future fr \<Longrightarrow> \<exists>fr'. (f, fr') \<in> set (pw_future_rows w') \<and> pf_future fr'"
  shows "rows_ok w' x"
  by (rule rows_ok_mono [OF assms(1) live_cells [OF assms(2)] assms(3)])

lemma inv_add_rows:
  assumes inv: "pages_inv w (refs_rows r + d)" and ok: "rows_ok w r"
  shows "\<exists>h w'. add_rows r w = (Ok h, w') \<and> pages_inv w' d \<and> pw_rows w' = (h, r) # pw_rows w \<and> h \<notin> fst ` set (pw_rows w) \<and>
    pw_future_rows w' = pw_future_rows w \<and> pw_cells w' = pw_cells w"
proof -
  let ?w = "w\<lparr>pw_rows := (pw_next_id w, r) # pw_rows w, pw_next_id := pw_next_id w + 1\<rparr>"
  have "pages_inv ?w d"
  proof (rule inv_objects [OF inv])
    show "all_refs ?w + d = all_refs w + (refs_rows r + d)" by (simp add: all_refs_def)
    show "distinct (map fst (pw_rows ?w))" using pages_invD(3) [OF inv] fresh_id [OF inv] by simp
    show "\<forall>h \<in> fst ` set (pw_rows ?w) \<union> fst ` set (pw_future_rows ?w). h < pw_next_id ?w"
      using pages_invD(5,6) [OF inv] by (auto simp: less_Suc_eq)
    show "rows_ok ?w x" if "(h, x) \<in> set (pw_rows ?w)" for h x
      by (rule rows_cells [of w]) (use that ok pages_invD(7) [OF inv, of h x] in auto)
    show "future_rows_ok ?w x" if "(h, x) \<in> set (pw_future_rows ?w)" for h x
      by (rule fut_cells [of w]) (use that pages_invD(8) [OF inv, of h x] in auto)
  qed (use pages_invD(4) [OF inv] in auto)
  then show ?thesis using fresh_id [OF inv] by (simp add: add_rows_def)
qed

lemma inv_add_future_rows:
  assumes inv: "pages_inv w (refs_future_rows r + d)" and ok: "future_rows_ok w r"
  shows "\<exists>h w'. add_future_rows r w = (Ok h, w') \<and> pages_inv w' d \<and> pw_future_rows w' = (h, r) # pw_future_rows w \<and>
    pw_rows w' = pw_rows w \<and> pw_cells w' = pw_cells w"
proof -
  let ?w = "w\<lparr>pw_future_rows := (pw_next_id w, r) # pw_future_rows w, pw_next_id := pw_next_id w + 1\<rparr>"
  have "pages_inv ?w d"
  proof (rule inv_objects [OF inv])
    show "all_refs ?w + d = all_refs w + (refs_future_rows r + d)" by (simp add: all_refs_def)
    show "distinct (map fst (pw_future_rows ?w))" using pages_invD(4) [OF inv] fresh_id [OF inv] by simp
    show "\<forall>h \<in> fst ` set (pw_rows ?w) \<union> fst ` set (pw_future_rows ?w). h < pw_next_id ?w"
      using pages_invD(5,6) [OF inv] by (auto simp: less_Suc_eq)
    show "rows_ok ?w x" if "(h, x) \<in> set (pw_rows ?w)" for h x
      by (rule rows_cells [of w]) (use that pages_invD(7) [OF inv, of h x] in auto)
    show "future_rows_ok ?w x" if "(h, x) \<in> set (pw_future_rows ?w)" for h x
      by (rule fut_cells [of w]) (use that ok pages_invD(8) [OF inv, of h x] in auto)
  qed (use pages_invD(3) [OF inv] in auto)
  then show ?thesis by (simp add: add_future_rows_def)
qed

lemma change_at_keys [simp]: "map fst (change_at h f xs) = map fst xs" "fst ` set (change_at h f xs) = fst ` set xs"
  by (force simp: change_at_def)+

lemma change_at_other: "h \<notin> fst ` set xs \<Longrightarrow> change_at h f xs = xs"
  by (induction xs) (auto simp: change_at_def)

lemma change_at_set: "x \<in> set (change_at h f xs) \<Longrightarrow> x \<in> set xs \<or> (\<exists>r. (h, r) \<in> set xs \<and> x = (h, f r))"
  by (auto simp: change_at_def split: if_splits)

lemma change_at_map_of: "map_of (change_at h f xs) h' = (if h' = h then map_option f (map_of xs h) else map_of xs h')"
  by (induction xs) (auto simp: change_at_def)

lemma change_at_sum:
  fixes refs :: "'o \<Rightarrow> nat multiset"
  assumes "distinct (map fst xs)" and "map_of xs h = Some r" and "refs (f r) = refs r + extra"
  shows "sum_list (map (refs \<circ> snd) (change_at h f xs)) = extra + sum_list (map (refs \<circ> snd) xs)"
  using assms
proof (induction xs)
  case (Cons x xs)
  show ?case
  proof (cases "fst x = h")
    case True
    then have "snd x = r" "h \<notin> fst ` set xs" using Cons.prems by (auto split: if_splits)
    then show ?thesis using True Cons.prems(3) change_at_other [of h xs f] by (cases x) (simp add: change_at_def)
  next
    case False
    then show ?thesis using Cons by (cases x) (auto simp: change_at_def)
  qed
qed simp

lemma change_at_unique:
  assumes "distinct (map fst xs)" and "map_of xs h = Some r" and "(g, y) \<in> set (change_at h f xs)"
  shows "(g, y) \<in> set xs \<or> y = f r"
  using change_at_set [OF assms(3)] map_of_is_SomeI [OF assms(1)] assms(2) by fastforce

lemma inv_set_rows:
  assumes inv: "pages_inv w (extra + d)" and r: "map_of (pw_rows w) h = Some r" and ok: "rows_ok w (f r)"
    and refs: "refs_rows (f r) = refs_rows r + extra"
  shows "\<exists>w'. set_rows h f w = (Ok (), w') \<and> pages_inv w' d \<and> pw_rows w' = change_at h f (pw_rows w) \<and>
    pw_future_rows w' = pw_future_rows w \<and> pw_cells w' = pw_cells w"
proof -
  let ?w = "w\<lparr>pw_rows := change_at h f (pw_rows w)\<rparr>"
  note dist = pages_invD(3) [OF inv]
  have "pages_inv ?w d"
  proof (rule inv_objects [OF inv])
    show "all_refs ?w + d = all_refs w + (extra + d)"
      using change_at_sum [where refs = refs_rows and f = f, OF dist r refs] by (simp add: all_refs_def)
    show "\<forall>h \<in> fst ` set (pw_rows ?w) \<union> fst ` set (pw_future_rows ?w). h < pw_next_id ?w"
      using pages_invD(5,6) [OF inv] by auto
    show "rows_ok ?w x" if "(g, x) \<in> set (pw_rows ?w)" for g x
      by (rule rows_cells [of w]) (use change_at_unique [OF dist r] that ok pages_invD(7) [OF inv, of g x] in auto)
    show "future_rows_ok ?w x" if "(g, x) \<in> set (pw_future_rows ?w)" for g x
      by (rule fut_cells [of w]) (use that pages_invD(8) [OF inv, of g x] in auto)
  qed (use dist pages_invD(4) [OF inv] in auto)
  then show ?thesis by (simp add: set_rows_def pupdate_def)
qed

lemma inv_set_future_rows:
  assumes inv: "pages_inv w (extra + d)" and r: "map_of (pw_future_rows w) h = Some r" and ok: "future_rows_ok w (f r)"
    and refs: "refs_future_rows (f r) = refs_future_rows r + extra" and fut: "\<And>x. pf_future (f x) = pf_future x"
  shows "\<exists>w'. set_future_rows h f w = (Ok (), w') \<and> pages_inv w' d \<and> pw_rows w' = pw_rows w \<and>
    pw_future_rows w' = change_at h f (pw_future_rows w) \<and> pw_cells w' = pw_cells w"
proof -
  let ?w = "w\<lparr>pw_future_rows := change_at h f (pw_future_rows w)\<rparr>"
  note dist = pages_invD(4) [OF inv]
  have kept: "\<exists>x'. (g, x') \<in> set (change_at h f (pw_future_rows w)) \<and> pf_future x'"
    if "(g, x) \<in> set (pw_future_rows w)" "pf_future x" for g x
    using that fut by (force simp: change_at_def)
  have "pages_inv ?w d"
  proof (rule inv_objects [OF inv])
    show "all_refs ?w + d = all_refs w + (extra + d)"
      using change_at_sum [where refs = refs_future_rows and f = f, OF dist r refs] by (simp add: all_refs_def)
    show "\<forall>h \<in> fst ` set (pw_rows ?w) \<union> fst ` set (pw_future_rows ?w). h < pw_next_id ?w"
      using pages_invD(5,6) [OF inv] by auto
    show "rows_ok ?w x" if "(g, x) \<in> set (pw_rows ?w)" for g x
      by (rule rows_cells [of w]) (use that kept pages_invD(7) [OF inv, of g x] in auto)
    show "future_rows_ok ?w x" if "(g, x) \<in> set (pw_future_rows ?w)" for g x
      by (rule fut_cells [of w]) (use change_at_unique [OF dist r] that ok pages_invD(8) [OF inv, of g x] in auto)
  qed (use dist pages_invD(3) [OF inv] in auto)
  then show ?thesis by (simp add: set_future_rows_def pupdate_def)
qed

lemma remove_at_set: "set (remove_at h xs) \<subseteq> set xs" "fst ` set (remove_at h xs) \<subseteq> fst ` set xs"
  by (auto simp: remove_at_def)

lemma bound_subset: "(\<And>x. x \<in> A \<Longrightarrow> P x) \<Longrightarrow> (\<And>x. x \<in> B \<Longrightarrow> P x) \<Longrightarrow> A' \<subseteq> A \<Longrightarrow> B' \<subseteq> B \<Longrightarrow> \<forall>x \<in> A' \<union> B'. P x"
  by blast

lemma remove_at_distinct: "distinct (map fst xs) \<Longrightarrow> distinct (map fst (remove_at h xs))"
  by (simp add: remove_at_def distinct_map_filter)

lemma remove_at_sum:
  fixes refs :: "'o \<Rightarrow> nat multiset"
  assumes "distinct (map fst xs)" and "map_of xs h = Some r"
  shows "sum_list (map (refs \<circ> snd) xs) = refs r + sum_list (map (refs \<circ> snd) (remove_at h xs))"
  using assms
proof (induction xs)
  case (Cons x xs)
  show ?case
  proof (cases "fst x = h")
    case True
    then have "snd x = r" "h \<notin> fst ` set xs" using Cons.prems by (auto split: if_splits)
    moreover have "remove_at h xs = xs" using calculation(2) unfolding remove_at_def by (intro filter_True) force
    ultimately show ?thesis using True by (cases x) (simp add: remove_at_def)
  next
    case False
    then show ?thesis using Cons by (cases x) (auto simp: remove_at_def)
  qed
qed simp

section \<open>Operations\<close>

text \<open>A run does nothing undefined and ends in \<open>Q\<close> with a result, in \<open>E\<close> with an exception.\<close>

definition safe :: "pages \<Rightarrow> 'a paged \<Rightarrow> ('a \<Rightarrow> pages \<Rightarrow> bool) \<Rightarrow> (pages \<Rightarrow> bool) \<Rightarrow> bool" where
  "safe w m Q E \<longleftrightarrow> (case m w of (Ok x, w') \<Rightarrow> Q x w' | (Throw e, w') \<Rightarrow> E w' | (UB, w') \<Rightarrow> False)"

lemma safe_pret [simp]: "safe w (pret x) Q E \<longleftrightarrow> Q x w"
  by (simp add: safe_def pret_def)

lemma safe_pstop [simp]:
  "safe w (pstop r) Q E \<longleftrightarrow> (case r of Ok x \<Rightarrow> Q x w | Throw e \<Rightarrow> E w | UB \<Rightarrow> False)"
  by (simp add: safe_def pstop_def split: outcome.split)

lemma safe_pbind [simp]: "safe w (pbind m f) Q E \<longleftrightarrow> safe w m (\<lambda>x w'. safe w' (f x) Q E) E"
  by (simp add: safe_def pbind_def split: outcome.split prod.split)

lemma safe_pcatch:
  "safe w m (\<lambda>x w'. safe w' (f x) Q E) (\<lambda>w'. \<forall>e. safe w' (g e) Q E) \<Longrightarrow> safe w (pcatch m f g) Q E"
  by (auto simp: safe_def pcatch_def split: outcome.splits prod.splits)

lemma safe_pupdate [simp]: "safe w (pupdate f) Q E \<longleftrightarrow> Q () (f w)"
  by (simp add: safe_def pupdate_def)

lemma safe_ok: "m w = (Ok x, w') \<Longrightarrow> Q x w' \<Longrightarrow> safe w m Q E"
  by (simp add: safe_def)

lemma safe_mono: "safe w m Q E \<Longrightarrow> (\<And>x w'. Q x w' \<Longrightarrow> Q' x w') \<Longrightarrow> (\<And>w'. E w' \<Longrightarrow> E' w') \<Longrightarrow> safe w m Q' E'"
  by (auto simp: safe_def split: outcome.splits prod.splits)

lemma safe_get_rows [simp]:
  "safe w (get_rows h) Q E \<longleftrightarrow> (\<exists>r. map_of (pw_rows w) h = Some r \<and> Q r w)"
  by (simp add: safe_def get_rows_def split: option.split)

lemma safe_get_future_rows [simp]:
  "safe w (get_future_rows f) Q E \<longleftrightarrow> (\<exists>r. map_of (pw_future_rows w) f = Some r \<and> Q r w)"
  by (simp add: safe_def get_future_rows_def split: option.split)

lemma kind_cases:
  "kind data = KStatement \<longleftrightarrow> (\<exists>stmt p. data = DStatement stmt p)" "kind data = KResult \<longleftrightarrow> (\<exists>r. data = DResult r)"
  "kind data = KSession \<longleftrightarrow> (\<exists>s. data = DSession s)"
  by (cases data; simp)+

lemma safe_deref:
  "live_ref w c KResult \<Longrightarrow> (\<And>res. Q res w) \<Longrightarrow> safe w (deref_result (Some c)) Q E"
  "live_ref w c KStatement \<Longrightarrow> (\<And>stmt. Q' stmt w) \<Longrightarrow> safe w (deref_statement (Some c)) Q' E"
  "live_ref w c KSession \<Longrightarrow> (\<And>s. Q s w) \<Longrightarrow> safe w (deref_session (Some c)) Q E"
  by (auto simp: safe_def deref_result_def deref_statement_def deref_session_def live_ref_def kind_cases)

lemma opt_heldD: "held w k ref \<Longrightarrow> ref \<noteq> None \<Longrightarrow> \<exists>c. ref = Some c \<and> live_ref w c k"
  by (cases ref) auto

lemma safe_add_ref:
  assumes "pages_inv w d" and "live_ref w c k"
    and "\<And>w'. pages_inv w' (add_mset c d) \<Longrightarrow> same_objects w w' \<Longrightarrow> Q c w'"
  shows "safe w (add_ref (Some c)) Q E"
  using inv_add_ref [OF assms(1,2)] assms(3) by (auto intro: safe_ok)

lemma same_trans: "same_objects w w' \<Longrightarrow> same_objects w' w'' \<Longrightarrow> same_objects w w''"
  by (auto simp: same_objects_def)

lemma same_live: "same_objects w w' \<Longrightarrow> live_ref w c k \<Longrightarrow> live_ref w' c k"
  by (auto simp: same_objects_def)

text \<open>What a new page needs, and what it leaves.\<close>

lemma safe_new_page:
  assumes inv: "pages_inv w {#}" and re: "live_ref w re KResult"
    and st: "held w KStatement st" and se: "held w KSession se"
    and more: "\<And>res. pe_more env res \<Longrightarrow> st \<noteq> None \<and> se \<noteq> None"
    and Q: "\<And>page p w'. pages_inv w' {#} \<Longrightarrow> pw_rows w' = (page, p) # pw_rows w \<Longrightarrow> page \<notin> fst ` set (pw_rows w) \<Longrightarrow>
      pw_future_rows w' = pw_future_rows w \<Longrightarrow> pr_rows p = rows \<Longrightarrow> (\<forall>c k. live_ref w c k \<longrightarrow> live_ref w' c k) \<Longrightarrow> Q page w'"
  shows "safe w (new_page env rows st se (Some re)) Q E"
proof -
  have added: "safe w1 (add_rows r) Q E"
    if i: "pages_inv w1 (refs_rows r)" and ok: "rows_ok w1 r" and so: "same_objects w w1" and eq: "pr_rows r = rows" for w1 r
  proof -
    obtain h w2 where w2: "add_rows r w1 = (Ok h, w2)" "pages_inv w2 {#}" "pw_rows w2 = (h, r) # pw_rows w1"
      "h \<notin> fst ` set (pw_rows w1)" "pw_future_rows w2 = pw_future_rows w1" "pw_cells w2 = pw_cells w1"
      using inv_add_rows [where d = "{#}", OF _ ok] i by auto
    show ?thesis
      by (rule safe_ok, rule w2(1), rule Q) (use w2 so eq in \<open>simp_all add: same_objects_def live_ref_def\<close>)
  qed
  have same: "same_objects w w" by (simp add: same_objects_def)
  have more_pages: "safe w (pbind (add_ref st) (\<lambda>st. pbind (add_ref se) (\<lambda>se. pbind (add_ref (Some re)) (\<lambda>re.
        add_rows ((php_driver_rows_new rows)\<lparr>pr_statement := Some st, pr_session := Some se, pr_result := Some re\<rparr>))))) Q E"
    if m: "pe_more env res" for res
  proof -
    obtain st' se' where refs: "st = Some st'" "se = Some se'" "live_ref w st' KStatement" "live_ref w se' KSession"
      using more [OF m] opt_heldD st se by metis
    show ?thesis
      unfolding refs(1,2)
    proof (simp, rule safe_add_ref [OF inv refs(3)])
      fix w1 assume w1: "pages_inv w1 {#st'#}" "same_objects w w1"
      show "safe w1 (add_ref (Some se')) (\<lambda>se w'. safe w' (add_ref (Some re)) (\<lambda>re w'. safe w'
        (add_rows (php_driver_rows_new rows\<lparr>pr_statement := Some st', pr_session := Some se, pr_result := Some re\<rparr>)) Q E) E) E"
      proof (rule safe_add_ref [OF w1(1) same_live [OF w1(2) refs(4)]])
        fix w2 assume w2: "pages_inv w2 {#se', st'#}" "same_objects w1 w2"
        note s2 = same_trans [OF w1(2) w2(2)]
        show "safe w2 (add_ref (Some re)) (\<lambda>re w'. safe w'
          (add_rows (php_driver_rows_new rows\<lparr>pr_statement := Some st', pr_session := Some se', pr_result := Some re\<rparr>)) Q E) E"
        proof (rule safe_add_ref [OF w2(1) same_live [OF s2 re]])
          fix w3 assume w3: "pages_inv w3 {#re, se', st'#}" "same_objects w2 w3"
          note s3 = same_trans [OF s2 w3(2)]
          have live: "live_ref w3 st' KStatement" "live_ref w3 se' KSession" "live_ref w3 re KResult"
            using same_live [OF s3] refs re by auto
          show "safe w3 (add_rows (php_driver_rows_new rows\<lparr>pr_statement := Some st', pr_session := Some se', pr_result := Some re\<rparr>)) Q E"
            by (rule added) (use w3(1) s3 live in \<open>simp_all add: refs_rows_def php_driver_rows_new_def rows_ok_def add_mset_commute\<close>)
        qed
      qed
    qed
  qed
  have last_page: "safe w (add_rows (php_driver_rows_new rows)) Q E"
    by (rule added) (use inv same in \<open>simp_all add: refs_rows_def php_driver_rows_new_def rows_ok_def\<close>)
  show ?thesis
    unfolding new_page_def safe_pbind
  proof (rule safe_deref(1) [OF re])
    fix res
    show "safe w (if pe_more env res then pbind (add_ref st) (\<lambda>st. pbind (add_ref se) (\<lambda>se. pbind (add_ref (Some re)) (\<lambda>re.
        add_rows ((php_driver_rows_new rows)\<lparr>pr_statement := Some st, pr_session := Some se, pr_result := Some re\<rparr>))))
        else add_rows (php_driver_rows_new rows)) Q E"
      using more_pages [of res] last_page by (cases "pe_more env res") (simp_all only: if_True if_False simp_thms)
  qed
qed

definition env_ok :: "page_env \<Rightarrow> zval \<Rightarrow> bool" where
  "env_ok env timeout \<longleftrightarrow> (\<forall>res. pe_rows env res \<noteq> UB) \<and> php_driver_future_wait_timed (pe_future env) timeout \<noteq> UB"

lemma rows_at: "pages_inv w d \<Longrightarrow> map_of (pw_rows w) h = Some r \<Longrightarrow> rows_ok w r"
  by (meson map_of_SomeD pages_invD(7))

lemma future_rows_at: "pages_inv w d \<Longrightarrow> map_of (pw_future_rows w) f = Some r \<Longrightarrow> future_rows_ok w r"
  by (meson map_of_SomeD pages_invD(8))

lemma safe_set_rows:
  assumes "pages_inv w (extra + d)" and "map_of (pw_rows w) h = Some r" and "rows_ok w (f r)"
    and "refs_rows (f r) = refs_rows r + extra"
    and "\<And>w'. pages_inv w' d \<Longrightarrow> pw_rows w' = change_at h f (pw_rows w) \<Longrightarrow> pw_future_rows w' = pw_future_rows w \<Longrightarrow>
      pw_cells w' = pw_cells w \<Longrightarrow> Q () w'"
  shows "safe w (set_rows h f) Q E"
proof -
  obtain w' where "set_rows h f w = (Ok (), w')" "Q () w'" using inv_set_rows [where f = f, OF assms(1-4)] assms(5) by auto
  then show ?thesis by (rule safe_ok)
qed

lemma safe_rows_create:
  assumes inv: "pages_inv w {#}" and cur: "map_of (pw_rows w) h = Some cur" and nr: "pr_next_result cur \<noteq> None"
    and env: "env_ok env timeout" and E: "E w"
    and Q: "\<And>page rows w'. pages_inv w' {#} \<Longrightarrow> map_of (pw_rows w') h = Some (cur\<lparr>pr_next_rows := rows\<rparr>) \<Longrightarrow>
      pw_future_rows w' = pw_future_rows w \<Longrightarrow> Q page w'"
  shows "safe w (php_driver_rows_create env h) Q E"
proof -
  have ok: "rows_ok w cur" by (rule rows_at [OF inv cur])
  obtain re where re: "pr_next_result cur = Some re" "live_ref w re KResult" using ok nr unfolding rows_ok_def by (metis opt_heldD)
  have shared: "held w KStatement (pr_statement cur)" "held w KSession (pr_session cur)" "pr_statement cur \<noteq> None" "pr_session cur \<noteq> None"
    using ok nr unfolding rows_ok_def by blast+
  have main: "safe w (set_rows h (pr_next_rows_update (\<lambda>_. rows)))
     (\<lambda>_ w'. safe w' (new_page env rows (pr_statement cur) (pr_session cur) (pr_next_result cur)) Q E) E" for rows
  proof (rule safe_set_rows [where extra = "{#}", OF _ cur])
    show "rows_ok w (pr_next_rows_update (\<lambda>_. rows) cur)" using ok by (simp add: rows_ok_def)
    show "refs_rows (pr_next_rows_update (\<lambda>_. rows) cur) = refs_rows cur + {#}" by (simp add: refs_rows_def)
    fix w1 assume w1: "pages_inv w1 {#}" "pw_rows w1 = change_at h (pr_next_rows_update (\<lambda>_. rows)) (pw_rows w)"
      "pw_future_rows w1 = pw_future_rows w" "pw_cells w1 = pw_cells w"
    have live: "live_ref w1 c k \<longleftrightarrow> live_ref w c k" for c k by (simp add: live_ref_def w1(4))
    have held: "held w1 k x \<longleftrightarrow> held w k x" for k x by (cases x) (simp_all add: live)
    have at: "map_of (pw_rows w1) h = Some (cur\<lparr>pr_next_rows := rows\<rparr>)" by (simp add: w1(2) change_at_map_of cur)
    show "safe w1 (new_page env rows (pr_statement cur) (pr_session cur) (pr_next_result cur)) Q E"
      unfolding re(1)
    proof (rule safe_new_page [OF w1(1)])
      fix page p w2
      assume w2: "pages_inv w2 {#}" "pw_rows w2 = (page, p) # pw_rows w1" "page \<notin> fst ` set (pw_rows w1)" "pw_future_rows w2 = pw_future_rows w1"
      have "page \<noteq> h" using w2(3) map_of_SomeD [OF at] by force
      then have "map_of (pw_rows w2) h = Some (cur\<lparr>pr_next_rows := rows\<rparr>)" using at w2(2) by simp
      then show "Q page w2" using Q [OF w2(1)] w2(4) w1(3) by simp
    qed (use shared re live held in auto)
  qed (use inv in simp)
  show ?thesis
    unfolding php_driver_rows_create_def safe_pbind safe_get_rows
  proof (intro exI conjI, rule cur)
    show "safe w (if pr_next_rows cur \<noteq> ZUndef then pret (pr_next_rows cur)
            else pbind (deref_result (pr_next_result cur)) (\<lambda>res. pstop (pe_rows env res)))
       (\<lambda>rows w'. safe w' (set_rows h (pr_next_rows_update (\<lambda>_. rows)))
       (\<lambda>_ w'. safe w' (new_page env rows (pr_statement cur) (pr_session cur) (pr_next_result cur)) Q E) E) E"
    proof (cases "pr_next_rows cur = ZUndef")
      case True
      have "safe w (deref_result (Some re)) (\<lambda>res w'. safe w' (pstop (pe_rows env res))
       (\<lambda>rows w'. safe w' (set_rows h (pr_next_rows_update (\<lambda>_. rows)))
       (\<lambda>_ w'. safe w' (new_page env rows (pr_statement cur) (pr_session cur) (pr_next_result cur)) Q E) E) E) E"
        by (rule safe_deref(1) [OF re(2)]) (use main env E in \<open>auto simp: env_ok_def split: outcome.split\<close>)
      then show ?thesis using True by (simp only: re(1) safe_pbind if_False simp_thms)
    next
      case False
      then show ?thesis using main by simp
    qed
  qed
qed

text \<open>The result of a future, which is kept.\<close>

lemma safe_get_result:
  assumes inv: "pages_inv w {#}" and fr: "map_of (pw_future_rows w) f = Some fr" and fut: "pf_future fr"
    and env: "env_ok env timeout" and E: "E w"
    and Q: "\<And>re w'. pages_inv w' {#} \<Longrightarrow> pw_rows w' = pw_rows w \<Longrightarrow> map_of (pw_future_rows w') f = Some (fr\<lparr>pf_result := Some re\<rparr>) \<Longrightarrow>
      live_ref w' re KResult \<Longrightarrow> Q () w'"
  shows "safe w (php_driver_future_rows_get_result env timeout f) Q E"
proof (cases "pf_result fr")
  case (Some re)
  have ok: "future_rows_ok w fr" by (rule future_rows_at [OF inv fr])
  have "fr\<lparr>pf_result := Some re\<rparr> = fr" using Some by (cases fr) simp
  then have "Q () w" by (intro Q [where re = re]) (use inv fr Some ok in \<open>simp_all add: future_rows_ok_def\<close>)
  then show ?thesis using fr Some by (simp add: php_driver_future_rows_get_result_def)
next
  case None
  have ok: "future_rows_ok w fr" by (rule future_rows_at [OF inv fr])
  have main: "safe w (php_driver_new_ref (DResult result)) (\<lambda>re w'. safe w' (set_future_rows f (pf_result_update (\<lambda>_. Some re))) Q E) E" for result
  proof -
    obtain c w1 where w1: "php_driver_new_ref (DResult result) w = (Ok c, w1)" "pages_inv w1 {#c#}" "same_objects w w1" "live_ref w1 c KResult"
      using inv_new_ref [OF inv, of "DResult result"] by auto
    have fr1: "map_of (pw_future_rows w1) f = Some fr" using fr w1(3) by (simp add: same_objects_def)
    have "\<exists>w2. set_future_rows f (pf_result_update (\<lambda>_. Some c)) w1 = (Ok (), w2) \<and> pages_inv w2 {#} \<and> pw_rows w2 = pw_rows w1 \<and>
      pw_future_rows w2 = change_at f (pf_result_update (\<lambda>_. Some c)) (pw_future_rows w1) \<and> pw_cells w2 = pw_cells w1"
      by (rule inv_set_future_rows [where extra = "{#c#}", OF _ fr1])
        (use w1 None same_objectsD(3) [OF w1(3) ok] in \<open>auto simp: refs_future_rows_def future_rows_ok_def\<close>)
    then obtain w2 where w2: "set_future_rows f (pf_result_update (\<lambda>_. Some c)) w1 = (Ok (), w2)" "pages_inv w2 {#}" "pw_rows w2 = pw_rows w1"
      "pw_future_rows w2 = change_at f (pf_result_update (\<lambda>_. Some c)) (pw_future_rows w1)" "pw_cells w2 = pw_cells w1" by blast
    have "Q () w2"
      by (rule Q) (use w1 w2 fr1 in \<open>simp_all add: same_objects_def change_at_map_of live_ref_def\<close>)
    then have "safe w1 (set_future_rows f (pf_result_update (\<lambda>_. Some c))) Q E" by (intro safe_ok) (rule w2(1))
    then show ?thesis by (rule safe_ok [where m = "php_driver_new_ref (DResult result)", OF w1(1)])
  qed
  show ?thesis
    using fr None fut env E main
    by (auto simp: php_driver_future_rows_get_result_def env_ok_def php_driver_future_is_error_def split: outcome.split option.split)
qed

text \<open>Sending changes the paging state of the statement, which stays a statement.\<close>

lemma held_requests: "held (w\<lparr>pw_requests := x, pw_futures := y\<rparr>) k r = held w k r"
  by (cases r) (simp_all add: live_ref_def)

lemma inv_requests: "pages_inv (w\<lparr>pw_requests := x, pw_futures := y\<rparr>) d \<longleftrightarrow> pages_inv w d"
  by (simp add: pages_inv_def ref_count_def all_refs_def rows_ok_def future_rows_ok_def held_requests live_ref_def)

lemma safe_send_next:
  assumes inv: "pages_inv w {#}" and ok: "rows_ok w self" and res: "pr_result self \<noteq> None" and E: "E w"
    and Q: "\<And>w'. pages_inv w' {#} \<Longrightarrow> same_objects w w' \<Longrightarrow> Q () w'"
  shows "safe w (send_next env self) Q E"
proof -
  obtain re st se where refs: "pr_result self = Some re" "pr_statement self = Some st" "pr_session self = Some se"
    and live: "live_ref w re KResult" "live_ref w st KStatement" "live_ref w se KSession"
    using ok res unfolding rows_ok_def by (metis opt_heldD)
  obtain cell stmt p where cell: "pw_cells w st = Some cell" "rc_data cell = DStatement stmt p"
    using live(2) by (auto simp: live_ref_def kind_cases)
  have sent: "safe (w\<lparr>pw_cells := (pw_cells w)(st \<mapsto> cell\<lparr>rc_data := DStatement stmt' (Some r)\<rparr>)\<rparr>) (deref_session (Some se))
     (\<lambda>_ w'. Q () (w'\<lparr>pw_requests := pw_requests w' @ [(stmt', r)], pw_futures := pw_futures w' + 1\<rparr>)) E" for stmt' r
  proof -
    let ?w = "w\<lparr>pw_cells := (pw_cells w)(st \<mapsto> cell\<lparr>rc_data := DStatement stmt' (Some r)\<rparr>)\<rparr>"
    have same: "same_objects w ?w" using cell by (auto simp: same_objects_def live_ref_def)
    have inv': "pages_inv ?w {#}"
      by (rule inv_same_objects [OF inv same])
        (use pages_invD(1,2) [OF inv] pages_invD(1) [OF inv, of st] pages_invD(2) [OF inv cell(1)] cell in \<open>auto simp: ref_count_def split: if_splits\<close>)
    show ?thesis
      by (rule safe_deref(3)) (use same_live [OF same live(3)] inv' same in \<open>auto intro!: Q simp: inv_requests same_objects_def live_ref_def\<close>)
  qed
  show ?thesis
    unfolding send_next_def safe_pbind refs
  proof (rule safe_deref(2) [OF live(2)], rule safe_deref(1) [OF live(1)])
    fix stmt' r
    show "safe w (if pe_paging env \<noteq> 0 then pstop (Throw (CassException (pe_paging env)))
       else pbind (pupdate (\<lambda>w. w\<lparr>pw_cells := (pw_cells w)(the (Some st) \<mapsto> (the (pw_cells w (the (Some st))))\<lparr>rc_data := DStatement stmt' (Some r)\<rparr>)\<rparr>)) (\<lambda>_.
            pbind (deref_session (Some se)) (\<lambda>_. pupdate (\<lambda>w. w\<lparr>pw_requests := pw_requests w @ [(stmt', r)], pw_futures := pw_futures w + 1\<rparr>)))) Q E"
      using sent [of stmt' r] E cell by simp
  qed
qed

lemma safe_fetch_next:
  assumes inv: "pages_inv w {#}" and self: "map_of (pw_rows w) h = Some self" and res: "pr_result self \<noteq> None"
    and nn: "pr_next_result self = None" and env: "env_ok env timeout"
    and E: "\<And>w'. pages_inv w' {#} \<Longrightarrow> E w'"
    and Q: "\<And>w' re. pages_inv w' {#} \<Longrightarrow> map_of (pw_rows w') h = Some (self\<lparr>pr_next_result := Some re\<rparr>) \<Longrightarrow> Q () w'"
  shows "safe w (fetch_next env timeout h self) Q E"
proof -
  have ok: "rows_ok w self" by (rule rows_at [OF inv self])
  have main: "safe w1 (php_driver_new_ref (DResult result)) (\<lambda>re w'. safe w' (set_rows h (pr_next_result_update (\<lambda>_. Some re))) Q E) E"
    if w1: "pages_inv w1 {#}" "same_objects w w1" for w1 result
  proof -
    obtain c w2 where w2: "php_driver_new_ref (DResult result) w1 = (Ok c, w2)" "pages_inv w2 {#c#}" "same_objects w1 w2" "live_ref w2 c KResult"
      using inv_new_ref [OF w1(1), of "DResult result"] by auto
    note same = same_trans [OF w1(2) w2(3)]
    have at: "map_of (pw_rows w2) h = Some self" using self same by (simp add: same_objects_def)
    have "safe w2 (set_rows h (pr_next_result_update (\<lambda>_. Some c))) Q E"
      by (rule safe_set_rows [where extra = "{#c#}" and d = "{#}", OF _ at])
        (use w2 nn res same_objectsD(2) [OF same ok] at in \<open>auto simp: refs_rows_def rows_ok_def change_at_map_of intro!: Q\<close>)
    then show ?thesis by (rule safe_ok [where m = "php_driver_new_ref (DResult result)", OF w2(1)])
  qed
  show ?thesis
    unfolding fetch_next_def safe_pbind
  proof (rule safe_send_next [OF inv ok res])
    fix w1 assume w1: "pages_inv w1 {#}" "same_objects w w1"
    let ?w = "w1\<lparr>pw_futures := pw_futures w1 - 1\<rparr>"
    have i: "pages_inv ?w {#}" "same_objects w ?w" using w1 inv_requests [where w = w1 and x = "pw_requests w1"] by (simp_all add: same_objects_def live_ref_def)
    show "safe w1 (pstop (php_driver_future_wait_timed (pe_future env) timeout)) (\<lambda>_ w'. safe w' (pstop (php_driver_future_is_error (pe_future env)))
      (\<lambda>_ w'. safe w' (pupdate (\<lambda>w. w\<lparr>pw_futures := pw_futures w - 1\<rparr>)) (\<lambda>_ w'. safe w' (case pe_result env of
       None \<Rightarrow> pstop (Throw RuntimeException)
     | Some result \<Rightarrow> pbind (php_driver_new_ref (DResult result)) (\<lambda>re. set_rows h (pr_next_result_update (\<lambda>_. Some re)))) Q E) E) E) E"
      using env main [OF i] E [OF w1(1)] E [OF i(1)]
      by (auto simp: env_ok_def php_driver_future_is_error_def split: outcome.split option.split)
  qed (rule E [OF inv])
qed

text \<open>The next page is known after it was returned once.\<close>

definition has_next :: "pages \<Rightarrow> nat \<Rightarrow> bool" where
  "has_next w h \<longleftrightarrow> (case map_of (pw_rows w) h of None \<Rightarrow> False | Some s \<Rightarrow> pr_next_result s \<noteq> None)"

lemma safe_next_page:
  assumes inv: "pages_inv w {#}" and self: "map_of (pw_rows w) h = Some self" and env: "env_ok env timeout"
  shows "safe w (rows_next_page env timeout h)
    (\<lambda>page w'. pages_inv w' {#} \<and> (page \<noteq> None \<longrightarrow> has_next w' h)) (\<lambda>w'. pages_inv w' {#})"
proof -
  let ?Q = "\<lambda>_ w'. pages_inv w' {#} \<and> has_next w' h" and ?E = "\<lambda>w'. pages_inv w' {#}"
  have ok: "rows_ok w self" by (rule rows_at [OF inv self])
  have create: "safe w1 (php_driver_rows_create env h) ?Q ?E"
    if "pages_inv w1 {#}" "map_of (pw_rows w1) h = Some cur" "pr_next_result cur \<noteq> None" for w1 cur
    by (rule safe_rows_create [OF that env]) (use that in \<open>simp_all add: has_next_def\<close>)
  show ?thesis
  proof (cases "pr_next_result self = None")
    case False
    then show ?thesis using create [OF inv self] self by (simp add: rows_next_page_def)
  next
    case nn: True
    show ?thesis
    proof (cases "pr_future_next_page self")
      case None
      show ?thesis
      proof (cases "pr_result self = None")
        case True
        then show ?thesis using nn None self inv by (simp add: rows_next_page_def)
      next
        case False
        have "safe w (fetch_next env timeout h self) (\<lambda>_ w'. safe w' (php_driver_rows_create env h) ?Q ?E) ?E"
          by (rule safe_fetch_next [OF inv self False nn env]) (auto intro: create)
        then show ?thesis using nn None self False inv by (simp add: rows_next_page_def)
      qed
    next
      case (Some future)
      show ?thesis
      proof (cases future)
        case (PFValue v)
        then show ?thesis using nn Some self inv by (simp add: rows_next_page_def)
      next
        case (PFRows f)
        then obtain fr where "(f, fr) \<in> set (pw_future_rows w)" and fut: "pf_future fr"
          using ok Some unfolding rows_ok_def by blast
        then have fr: "map_of (pw_future_rows w) f = Some fr" using pages_invD(4) [OF inv] by simp
        have res: "pr_result self \<noteq> None" using ok Some PFRows unfolding rows_ok_def by blast
        have "safe w (php_driver_future_rows_get_result env timeout f)
          (\<lambda>_ w'. safe w' (get_future_rows f) (\<lambda>fr w'. safe w' (add_ref (pf_result fr)) (\<lambda>re w'.
            safe w' (set_rows h (pr_next_result_update (\<lambda>_. Some re))) (\<lambda>_ w'. safe w' (php_driver_rows_create env h) ?Q ?E) ?E) ?E) ?E) ?E"
        proof (rule safe_get_result [OF inv fr fut env])
          show "pages_inv w {#}" by (rule inv)
          fix re w1
          assume w1: "pages_inv w1 {#}" "pw_rows w1 = pw_rows w" "map_of (pw_future_rows w1) f = Some (fr\<lparr>pf_result := Some re\<rparr>)"
            "live_ref w1 re KResult"
          have at1: "map_of (pw_rows w1) h = Some self" using self w1(2) by simp
          have "safe w1 (add_ref (Some re)) (\<lambda>re w'.
            safe w' (set_rows h (pr_next_result_update (\<lambda>_. Some re))) (\<lambda>_ w'. safe w' (php_driver_rows_create env h) ?Q ?E) ?E) ?E"
          proof (rule safe_add_ref [OF w1(1,4)])
            fix w2 assume w2: "pages_inv w2 {#re#}" "same_objects w1 w2"
            have at2: "map_of (pw_rows w2) h = Some self" using at1 w2(2) by (simp add: same_objects_def)
            show "safe w2 (set_rows h (pr_next_result_update (\<lambda>_. Some re))) (\<lambda>_ w'. safe w' (php_driver_rows_create env h) ?Q ?E) ?E"
              by (rule safe_set_rows [where extra = "{#re#}" and d = "{#}", OF _ at2])
                (use w2 nn res same_live [OF w2(2) w1(4)] same_objectsD(2) [OF w2(2) rows_at [OF w1(1) at1]] at2
                  in \<open>auto simp: refs_rows_def rows_ok_def change_at_map_of intro!: create\<close>)
          qed
          then show "safe w1 (get_future_rows f) (\<lambda>fr w'. safe w' (add_ref (pf_result fr)) (\<lambda>re w'.
            safe w' (set_rows h (pr_next_result_update (\<lambda>_. Some re))) (\<lambda>_ w'. safe w' (php_driver_rows_create env h) ?Q ?E) ?E) ?E) ?E"
            using w1(3) by simp
        qed
        then show ?thesis using nn Some PFRows self by (simp add: rows_next_page_def)
      qed
    qed
  qed
qed

lemma safe_set_future_page:
  assumes inv: "pages_inv w {#}" and self: "map_of (pw_rows w) h = Some self"
    and ok: "rows_ok w (self\<lparr>pr_future_next_page := Some future\<rparr>)"
  shows "safe w (set_rows h (pr_future_next_page_update (\<lambda>_. Some future))) (\<lambda>_ w'. pages_inv w' {#}) E"
  by (rule safe_set_rows [where extra = "{#}" and d = "{#}", OF _ self]) (use inv ok in \<open>simp_all add: refs_rows_def\<close>)

lemma safe_next_page_async:
  assumes inv: "pages_inv w {#}" and self: "map_of (pw_rows w) h = Some self" and env: "env_ok env timeout"
  shows "safe w (rows_next_page_async env h) (\<lambda>_ w'. pages_inv w' {#}) (\<lambda>w'. pages_inv w' {#})"
proof -
  let ?Q = "\<lambda>_ w'. pages_inv w' {#}" and ?E = "\<lambda>w'. pages_inv w' {#}"
  have ok: "rows_ok w self" by (rule rows_at [OF inv self])
  consider (known) future where "pr_future_next_page self = Some future"
    | (cached) "pr_future_next_page self = None" "pr_next_result self \<noteq> None"
    | (last) "pr_future_next_page self = None" "pr_next_result self = None" "pr_result self = None"
    | (send) "pr_future_next_page self = None" "pr_next_result self = None" "pr_result self \<noteq> None" by blast
  then show ?thesis
  proof cases
    case known
    then show ?thesis using self inv by (simp add: rows_next_page_async_def)
  next
    case cached
    have set_page: "safe w' (set_rows h (pr_future_next_page_update (\<lambda>_. Some (PFValue v)))) ?Q E"
      if i: "pages_inv w' {#}" and at: "map_of (pw_rows w') h = Some s" and nn: "pr_next_result s \<noteq> None" for w' v s E
      by (rule safe_set_future_page [OF i at]) (use rows_at [OF i at] nn in \<open>simp add: rows_ok_def\<close>)
    have "safe w (pcatch (php_driver_rows_create env h)
       (\<lambda>page. pbind (set_rows h (pr_future_next_page_update (\<lambda>_. Some (PFValue (Some page))))) (\<lambda>_. pret (PFValue (Some page))))
       (\<lambda>e. pbind (set_rows h (pr_future_next_page_update (\<lambda>_. Some (PFValue None)))) (\<lambda>_. pstop (Throw e)))) ?Q ?E"
      by (rule safe_pcatch, rule safe_rows_create [OF inv self cached(2) env])
        (use cached inv self in \<open>auto intro: set_page\<close>)
    then show ?thesis using self cached by (simp add: rows_next_page_async_def)
  next
    case last
    then show ?thesis using self inv by (simp add: rows_next_page_async_def)
  next
    case send
    obtain st se where refs: "pr_statement self = Some st" "pr_session self = Some se"
      and live: "live_ref w st KStatement" "live_ref w se KSession"
      using ok send(3) unfolding rows_ok_def by (metis opt_heldD)
    let ?fr = "\<lparr>pf_statement = Some st, pf_session = Some se, pf_rows = ZUndef, pf_result = None, pf_future = True\<rparr>"
    have add: "safe w' (add_future_rows ?fr) (\<lambda>f w'. safe w' (set_rows h (pr_future_next_page_update (\<lambda>_. Some (PFRows f)))) ?Q ?E) ?E"
      if i: "pages_inv w' {#se, st#}" and same: "same_objects w w'" for w'
    proof -
      have "future_rows_ok w' ?fr" using same_live [OF same live(1)] same_live [OF same live(2)] by (simp add: future_rows_ok_def)
      then obtain f w2 where w2: "add_future_rows ?fr w' = (Ok f, w2)" "pages_inv w2 {#}" "pw_future_rows w2 = (f, ?fr) # pw_future_rows w'"
          "pw_rows w2 = pw_rows w'" "pw_cells w2 = pw_cells w'"
        using inv_add_future_rows [where r = ?fr and d = "{#}" and w = w'] i by (auto simp: refs_future_rows_def add_mset_commute)
      have at: "map_of (pw_rows w2) h = Some self" using self same w2(4) by (simp add: same_objects_def)
      have "safe w2 (set_rows h (pr_future_next_page_update (\<lambda>_. Some (PFRows f)))) ?Q ?E"
      proof (rule safe_set_future_page [OF w2(2) at])
        have "\<exists>fr. (f, fr) \<in> set (pw_future_rows w2) \<and> pf_future fr" by (intro exI [of _ ?fr]) (simp add: w2(3))
        then show "rows_ok w2 (self\<lparr>pr_future_next_page := Some (PFRows f)\<rparr>)"
          using rows_at [OF w2(2) at] send(3) by (simp add: rows_ok_def)
      qed
      then show ?thesis by (rule safe_ok [where m = "add_future_rows ?fr", OF w2(1)])
    qed
    have "safe w (send_next env self) (\<lambda>_ w'. safe w' (add_ref (Some st)) (\<lambda>st' w'. safe w' (add_ref (Some se)) (\<lambda>se' w'.
      safe w' (add_future_rows \<lparr>pf_statement = Some st', pf_session = Some se', pf_rows = ZUndef, pf_result = None, pf_future = True\<rparr>)
      (\<lambda>f w'. safe w' (set_rows h (pr_future_next_page_update (\<lambda>_. Some (PFRows f)))) ?Q ?E) ?E) ?E) ?E) ?E"
    proof (rule safe_send_next [OF inv ok send(3)])
      fix w1 assume w1: "pages_inv w1 {#}" "same_objects w w1"
      show "safe w1 (add_ref (Some st)) (\<lambda>st' w'. safe w' (add_ref (Some se)) (\<lambda>se' w'.
      safe w' (add_future_rows \<lparr>pf_statement = Some st', pf_session = Some se', pf_rows = ZUndef, pf_result = None, pf_future = True\<rparr>)
      (\<lambda>f w'. safe w' (set_rows h (pr_future_next_page_update (\<lambda>_. Some (PFRows f)))) ?Q ?E) ?E) ?E) ?E"
      proof (rule safe_add_ref [OF w1(1) same_live [OF w1(2) live(1)]])
        fix w2 assume w2: "pages_inv w2 {#st#}" "same_objects w1 w2"
        note same = same_trans [OF w1(2) w2(2)]
        show "safe w2 (add_ref (Some se)) (\<lambda>se' w'.
          safe w' (add_future_rows \<lparr>pf_statement = Some st, pf_session = Some se', pf_rows = ZUndef, pf_result = None, pf_future = True\<rparr>)
          (\<lambda>f w'. safe w' (set_rows h (pr_future_next_page_update (\<lambda>_. Some (PFRows f)))) ?Q ?E) ?E) ?E"
          by (rule safe_add_ref [OF w2(1) same_live [OF same live(2)]]) (rule add, assumption, rule same_trans [OF same])
      qed
    qed (rule inv)
    then show ?thesis using self send refs inv by (simp add: rows_next_page_async_def)
  qed
qed

lemma safe_future_get:
  assumes inv: "pages_inv w {#}" and fr: "map_of (pw_future_rows w) f = Some fr" and fut: "pf_future fr" and env: "env_ok env timeout"
    and batch: "pf_statement fr = None \<Longrightarrow> \<forall>res. \<not> pe_more env res"
  shows "safe w (future_rows_get env timeout f) (\<lambda>_ w'. pages_inv w' {#}) (\<lambda>w'. pages_inv w' {#})"
proof -
  let ?Q = "\<lambda>_ w'. pages_inv w' {#}" and ?E = "\<lambda>w'. pages_inv w' {#}"
  show ?thesis
    unfolding future_rows_get_def safe_pbind
  proof (rule safe_get_result [OF inv fr fut env])
    show "?E w" by (rule inv)
    fix re w1
    assume w1: "pages_inv w1 {#}" "map_of (pw_future_rows w1) f = Some (fr\<lparr>pf_result := Some re\<rparr>)" "live_ref w1 re KResult"
    let ?fr = "fr\<lparr>pf_result := Some re\<rparr>"
    have ok: "future_rows_ok w1 ?fr" by (rule future_rows_at [OF w1(1,2)])
    have page: "safe w1 (set_future_rows f (pf_rows_update (\<lambda>_. rows)))
      (\<lambda>_ w'. safe w' (new_page env rows (pf_statement fr) (pf_session fr) (Some re)) ?Q ?E) ?E" for rows
    proof -
      have "\<exists>w2. set_future_rows f (pf_rows_update (\<lambda>_. rows)) w1 = (Ok (), w2) \<and> pages_inv w2 {#} \<and> pw_rows w2 = pw_rows w1 \<and>
        pw_future_rows w2 = change_at f (pf_rows_update (\<lambda>_. rows)) (pw_future_rows w1) \<and> pw_cells w2 = pw_cells w1"
        by (rule inv_set_future_rows [where extra = "{#}", OF _ w1(2)])
          (use w1 ok in \<open>auto simp: refs_future_rows_def future_rows_ok_def\<close>)
      then obtain w2 where w2: "set_future_rows f (pf_rows_update (\<lambda>_. rows)) w1 = (Ok (), w2)" "pages_inv w2 {#}" "pw_cells w2 = pw_cells w1"
        by blast
      have held: "held w2 k x \<longleftrightarrow> held w1 k x" for k x by (cases x) (simp_all add: live_ref_def w2(3))
      have "safe w2 (new_page env rows (pf_statement fr) (pf_session fr) (Some re)) ?Q ?E"
        by (rule safe_new_page [OF w2(2)]) (use w1(3) w2(3) held ok batch in \<open>auto simp: future_rows_ok_def live_ref_def\<close>)
      then show ?thesis by (rule safe_ok [where m = "set_future_rows f (pf_rows_update (\<lambda>_. rows))", OF w2(1)])
    qed
    have "safe w1 (if pf_rows ?fr \<noteq> ZUndef then pret (pf_rows ?fr)
         else pbind (deref_result (pf_result ?fr)) (\<lambda>res. pstop (pe_rows env res)))
       (\<lambda>rows w'. safe w' (set_future_rows f (pf_rows_update (\<lambda>_. rows)))
         (\<lambda>_ w'. safe w' (new_page env rows (pf_statement ?fr) (pf_session ?fr) (pf_result ?fr)) ?Q ?E) ?E) ?E"
    proof (cases "pf_rows fr = ZUndef")
      case True
      have "safe w1 (deref_result (Some re)) (\<lambda>res w'. safe w' (pstop (pe_rows env res))
       (\<lambda>rows w'. safe w' (set_future_rows f (pf_rows_update (\<lambda>_. rows)))
       (\<lambda>_ w'. safe w' (new_page env rows (pf_statement fr) (pf_session fr) (Some re)) ?Q ?E) ?E) ?E) ?E"
        by (rule safe_deref(1) [OF w1(3)]) (use page env w1(1) in \<open>auto simp: env_ok_def split: outcome.split\<close>)
      then show ?thesis using True by simp
    next
      case False
      then show ?thesis using page by simp
    qed
    then show "safe w1 (get_future_rows f) (\<lambda>fr w'. safe w' (if pf_rows fr \<noteq> ZUndef then pret (pf_rows fr)
         else pbind (deref_result (pf_result fr)) (\<lambda>res. pstop (pe_rows env res)))
       (\<lambda>rows w'. safe w' (set_future_rows f (pf_rows_update (\<lambda>_. rows)))
         (\<lambda>_ w'. safe w' (new_page env rows (pf_statement fr) (pf_session fr) (pf_result fr)) ?Q ?E) ?E) ?E) ?E"
      using w1(2) by simp
  qed
qed

text \<open>Creation and destruction.\<close>

lemma safe_new_ref:
  assumes "pages_inv w d"
    and "\<And>c w'. pages_inv w' (add_mset c d) \<Longrightarrow> same_objects w w' \<Longrightarrow> live_ref w' c (kind data) \<Longrightarrow> Q c w'"
  shows "safe w (php_driver_new_ref data) Q E"
  using inv_new_ref [OF assms(1), of data] assms(2) by (auto intro: safe_ok)

lemma safe_add_rows:
  assumes "pages_inv w (refs_rows r)" and "rows_ok w r"
  shows "safe w (add_rows r) (\<lambda>_ w'. pages_inv w' {#}) E"
  using inv_add_rows [where r = r and d = "{#}" and w = w] assms by (auto intro: safe_ok)

lemma safe_add_future_rows:
  assumes "pages_inv w (refs_future_rows r)" and "future_rows_ok w r"
  shows "safe w (add_future_rows r) (\<lambda>_ w'. pages_inv w' {#}) E"
  using inv_add_future_rows [where r = r and d = "{#}" and w = w] assms by (auto intro: safe_ok)

lemma safe_rows_open:
  assumes inv: "pages_inv w {#}" and se: "se \<in> set (pw_external w)"
  shows "safe w (rows_open se ro) (\<lambda>_ w'. pages_inv w' {#}) E"
proof -
  note live = pages_invD(9) [OF inv se]
  have plain: "safe w (add_rows (php_driver_rows_new (ro_rows ro))) (\<lambda>_ w'. pages_inv w' {#}) E"
    by (rule safe_add_rows) (use inv in \<open>simp_all add: refs_rows_def php_driver_rows_new_def rows_ok_def\<close>)
  have paged: "safe w (php_driver_new_ref (DStatement stmt None)) (\<lambda>st w'. safe w' (php_driver_new_ref (DResult result)) (\<lambda>re w'.
      safe w' (add_ref (Some se)) (\<lambda>se w'. safe w' (add_rows ((php_driver_rows_new (ro_rows ro))
      \<lparr>pr_statement := Some st, pr_session := Some se, pr_result := Some re\<rparr>)) (\<lambda>_ w'. pages_inv w' {#}) E) E) E) E" for stmt result
  proof (rule safe_new_ref [OF inv], rule safe_new_ref, assumption)
    fix st w1 re w2
    assume w1: "same_objects w w1" "live_ref w1 st (kind (DStatement stmt None))"
      and w2: "pages_inv w2 {#re, st#}" "same_objects w1 w2" "live_ref w2 re (kind (DResult result))"
    note same = same_trans [OF w1(1) w2(2)]
    show "safe w2 (add_ref (Some se)) (\<lambda>se w'. safe w' (add_rows ((php_driver_rows_new (ro_rows ro))
      \<lparr>pr_statement := Some st, pr_session := Some se, pr_result := Some re\<rparr>)) (\<lambda>_ w'. pages_inv w' {#}) E) E"
    proof (rule safe_add_ref [OF w2(1) same_live [OF same live]])
      fix w3 assume w3: "pages_inv w3 {#se, re, st#}" "same_objects w2 w3"
      show "safe w3 (add_rows ((php_driver_rows_new (ro_rows ro))
        \<lparr>pr_statement := Some st, pr_session := Some se, pr_result := Some re\<rparr>)) (\<lambda>_ w'. pages_inv w' {#}) E"
        by (rule safe_add_rows)
          (use w3(1) same_live [OF w3(2) w2(3)] same_live [OF w3(2) same_live [OF w2(2) w1(2)]] same_live [OF w3(2) same_live [OF same live]]
            in \<open>simp_all add: refs_rows_def php_driver_rows_new_def rows_ok_def add_mset_commute\<close>)
    qed
  qed
  show ?thesis using plain paged by (simp add: rows_open_def split: option.split)
qed

lemma safe_future_rows_open:
  assumes inv: "pages_inv w {#}" and se: "se \<in> set (pw_external w)"
  shows "safe w (future_rows_open se fr) (\<lambda>_ w'. pages_inv w' {#}) E"
proof -
  let ?w = "w\<lparr>pw_futures := pw_futures w + of_bool (fr_future fr)\<rparr>"
  have inv': "pages_inv ?w {#}" using inv inv_requests [where w = w and x = "pw_requests w"] by simp
  have live: "live_ref ?w se KSession" by (rule pages_invD(9) [OF inv']) (use se in simp)
  have plain: "safe ?w (add_future_rows \<lparr>pf_statement = None, pf_session = None, pf_rows = ZUndef, pf_result = None, pf_future = fr_future fr\<rparr>)
      (\<lambda>_ w'. pages_inv w' {#}) E"
    by (rule safe_add_future_rows) (use inv' in \<open>simp_all add: refs_future_rows_def future_rows_ok_def\<close>)
  have paged: "safe ?w (php_driver_new_ref (DStatement stmt None)) (\<lambda>st w'. safe w' (add_ref (Some se)) (\<lambda>se w'. safe w'
      (add_future_rows \<lparr>pf_statement = Some st, pf_session = Some se, pf_rows = ZUndef, pf_result = None, pf_future = fr_future fr\<rparr>)
      (\<lambda>_ w'. pages_inv w' {#}) E) E) E" for stmt
  proof (rule safe_new_ref [OF inv'])
    fix st w1 assume w1: "pages_inv w1 {#st#}" "same_objects ?w w1" "live_ref w1 st (kind (DStatement stmt None))"
    show "safe w1 (add_ref (Some se)) (\<lambda>se w'. safe w'
      (add_future_rows \<lparr>pf_statement = Some st, pf_session = Some se, pf_rows = ZUndef, pf_result = None, pf_future = fr_future fr\<rparr>)
      (\<lambda>_ w'. pages_inv w' {#}) E) E"
    proof (rule safe_add_ref [OF w1(1) same_live [OF w1(2) live]])
      fix w2 assume w2: "pages_inv w2 {#se, st#}" "same_objects w1 w2"
      show "safe w2 (add_future_rows \<lparr>pf_statement = Some st, pf_session = Some se, pf_rows = ZUndef, pf_result = None, pf_future = fr_future fr\<rparr>)
        (\<lambda>_ w'. pages_inv w' {#}) E"
        by (rule safe_add_future_rows)
          (use w2(1) same_live [OF w2(2) w1(3)] same_live [OF w2(2) same_live [OF w1(2) live]]
            in \<open>simp_all add: refs_future_rows_def future_rows_ok_def add_mset_commute\<close>)
    qed
  qed
  show ?thesis
    unfolding future_rows_open_def safe_pbind safe_pupdate
    using plain paged by (cases "fr_statement fr") (simp_all only: option.case safe_pbind)
qed

lemma safe_del_ref:
  assumes "pages_inv w (opt_refs ref + d)" and "\<And>w'. pages_inv w' d \<Longrightarrow> Q () w'"
  shows "safe w (del_ref ref) Q E"
  using inv_del_refs [OF assms(1)] assms(2) by (auto intro: safe_ok)

lemma safe_rows_free:
  assumes inv: "pages_inv w {#}" and self: "map_of (pw_rows w) h = Some self"
  shows "safe w (rows_free h) (\<lambda>_ w'. pages_inv w' {#}) E"
proof -
  let ?w = "w\<lparr>pw_rows := remove_at h (pw_rows w)\<rparr>"
  have "pages_inv ?w (refs_rows self + {#})"
  proof (rule inv_objects [OF inv])
    show "all_refs ?w + (refs_rows self + {#}) = all_refs w + {#}"
      using remove_at_sum [where refs = refs_rows, OF pages_invD(3) [OF inv] self] by (simp add: all_refs_def)
    show "\<forall>h \<in> fst ` set (pw_rows ?w) \<union> fst ` set (pw_future_rows ?w). h < pw_next_id ?w"
      by (rule bound_subset [where A = "fst ` set (pw_rows w)" and B = "fst ` set (pw_future_rows w)"])
        (use pages_invD(5,6) [OF inv] in \<open>simp_all add: remove_at_set(2)\<close>)
    show "rows_ok ?w x" if "(g, x) \<in> set (pw_rows ?w)" for g x
      by (rule rows_cells [of w]) (use that remove_at_set(1) [of h "pw_rows w"] pages_invD(7) [OF inv, of g x] in auto)
    show "future_rows_ok ?w x" if "(g, x) \<in> set (pw_future_rows ?w)" for g x
      by (rule fut_cells [of w]) (use that pages_invD(8) [OF inv, of g x] in auto)
  qed (use pages_invD(3,4) [OF inv] remove_at_distinct in auto)
  then have i: "pages_inv ?w (opt_refs (pr_result self) + (opt_refs (pr_statement self) + (opt_refs (pr_session self) +
      (opt_refs (pr_next_result self) + {#}))))"
    by (simp add: refs_rows_def ac_simps)
  show ?thesis
    unfolding rows_free_def safe_pbind safe_get_rows safe_pupdate
    by (intro exI conjI, rule self) (rule safe_del_ref, rule i, rule safe_del_ref, assumption, rule safe_del_ref, assumption,
      rule safe_del_ref, assumption, assumption)
qed

lemma safe_future_rows_free:
  assumes inv: "pages_inv w {#}" and self: "map_of (pw_future_rows w) f = Some self"
    and unused: "\<forall>(h, r) \<in> set (pw_rows w). pr_future_next_page r \<noteq> Some (PFRows f)"
  shows "safe w (future_rows_free f) (\<lambda>_ w'. pages_inv w' {#}) E"
proof -
  let ?w = "w\<lparr>pw_future_rows := remove_at f (pw_future_rows w)\<rparr>"
  have kept: "(g, x) \<in> set (remove_at f (pw_future_rows w))" if "(g, x) \<in> set (pw_future_rows w)" "g \<noteq> f" for g x
    using that by (simp add: remove_at_def)
  have rows: "rows_ok ?w x" if "(g, x) \<in> set (pw_rows ?w)" for g x
  proof -
    have x: "rows_ok w x" and nf: "pr_future_next_page x \<noteq> Some (PFRows f)" using that pages_invD(7) [OF inv, of g x] unused by auto
    have held: "held ?w k r = held w k r" for k r by (cases r) (simp_all add: live_ref_def)
    show ?thesis using x nf kept unfolding rows_ok_def held by (simp; metis)
  qed
  have "pages_inv ?w (refs_future_rows self + {#})"
  proof (rule inv_objects [OF inv])
    show "all_refs ?w + (refs_future_rows self + {#}) = all_refs w + {#}"
      using remove_at_sum [where refs = refs_future_rows, OF pages_invD(4) [OF inv] self] by (simp add: all_refs_def)
    show "\<forall>h \<in> fst ` set (pw_rows ?w) \<union> fst ` set (pw_future_rows ?w). h < pw_next_id ?w"
      by (rule bound_subset [where A = "fst ` set (pw_rows w)" and B = "fst ` set (pw_future_rows w)"])
        (use pages_invD(5,6) [OF inv] in \<open>simp_all add: remove_at_set(2)\<close>)
    show "future_rows_ok ?w x" if "(g, x) \<in> set (pw_future_rows ?w)" for g x
      by (rule fut_cells [of w]) (use that remove_at_set(1) [of f "pw_future_rows w"] pages_invD(8) [OF inv, of g x] in auto)
  qed (use rows pages_invD(3,4) [OF inv] remove_at_distinct in auto)
  then have i: "pages_inv ?w (opt_refs (pf_statement self) + (opt_refs (pf_session self) + (opt_refs (pf_result self) + {#})))"
    by (simp add: refs_future_rows_def ac_simps)
  have fin: "pages_inv w' {#} \<Longrightarrow> pages_inv (w'\<lparr>pw_futures := x\<rparr>) {#}" for w' x
    using inv_requests [where w = w' and x = "pw_requests w'"] by simp
  show ?thesis
    unfolding future_rows_free_def safe_pbind safe_get_future_rows safe_pupdate
    by (intro exI conjI, rule self) (rule safe_del_ref, rule i, rule safe_del_ref, assumption, rule safe_del_ref, assumption, rule fin)
qed

lemma safe_session_open:
  assumes inv: "pages_inv w {#}"
  shows "safe w (session_open s) (\<lambda>_ w'. pages_inv w' {#}) E"
  unfolding session_open_def safe_pbind safe_pupdate safe_pret
proof (rule safe_new_ref [OF inv])
  fix c w1 assume w1: "pages_inv w1 {#c#}" "live_ref w1 c (kind (DSession s))"
  let ?w = "w1\<lparr>pw_external := c # pw_external w1\<rparr>"
  have live: "live_ref ?w x k \<longleftrightarrow> live_ref w1 x k" for x k by (simp add: live_ref_def)
  have held: "held ?w k r \<longleftrightarrow> held w1 k r" for k r by (cases r) (simp_all add: live)
  have "rows_ok ?w x \<longleftrightarrow> rows_ok w1 x" "future_rows_ok ?w y \<longleftrightarrow> future_rows_ok w1 y" for x y
    by (simp_all add: rows_ok_def future_rows_ok_def held)
  then have ok: "\<forall>(h, x) \<in> set (pw_rows w1). rows_ok ?w x" "\<forall>(f, y) \<in> set (pw_future_rows w1). future_rows_ok ?w y"
    using pages_invD(7,8) [OF w1(1)] by auto
  show "pages_inv ?w {#}" using w1 ok unfolding pages_inv_def by (simp add: live all_refs_def ref_count_def)
qed

lemma safe_session_drop:
  assumes inv: "pages_inv w {#}" and c: "c \<in> set (pw_external w)"
  shows "safe w (session_drop c) (\<lambda>_ w'. pages_inv w' {#}) E"
proof -
  let ?w = "w\<lparr>pw_external := remove1 c (pw_external w)\<rparr>"
  have "pages_inv ?w (opt_refs (Some c) + {#})"
  proof (rule inv_objects [OF inv])
    show "all_refs ?w + (opt_refs (Some c) + {#}) = all_refs w + {#}" using c by (simp add: all_refs_def)
    show "rows_ok ?w x" if "(g, x) \<in> set (pw_rows ?w)" for g x
      by (rule rows_cells [of w]) (use that pages_invD(7) [OF inv, of g x] in auto)
    show "future_rows_ok ?w x" if "(g, x) \<in> set (pw_future_rows ?w)" for g x
      by (rule fut_cells [of w]) (use that pages_invD(8) [OF inv, of g x] in auto)
  qed (use pages_invD(3,4,5,6) [OF inv] set_remove1_subset [of c] in auto)
  then show ?thesis unfolding session_drop_def safe_pbind safe_pupdate by (intro safe_del_ref)
qed

section \<open>Sequences of calls\<close>

datatype page_call =
    CSessionOpen nat
  | CSessionFree nat
  | CExecute nat rows_obj
  | CExecuteAsync nat future_rows
  | CNextPage page_env zval nat
  | CNextPageAsync page_env nat
  | CFutureGet page_env zval nat
  | CRowsFree nat
  | CFutureFree nat

fun run_call :: "page_call \<Rightarrow> unit paged" where
  "run_call (CSessionOpen s) = pbind (session_open s) (\<lambda>_. pret ())"
| "run_call (CSessionFree c) = session_drop c"
| "run_call (CExecute se ro) = pbind (rows_open se ro) (\<lambda>_. pret ())"
| "run_call (CExecuteAsync se fr) = pbind (future_rows_open se fr) (\<lambda>_. pret ())"
| "run_call (CNextPage env timeout h) = pbind (rows_next_page env timeout h) (\<lambda>_. pret ())"
| "run_call (CNextPageAsync env h) = pbind (rows_next_page_async env h) (\<lambda>_. pret ())"
| "run_call (CFutureGet env timeout f) = pbind (future_rows_get env timeout f) (\<lambda>_. pret ())"
| "run_call (CRowsFree h) = rows_free h"
| "run_call (CFutureFree f) = future_rows_free f"

text \<open>
  What the engine and the library see to: a method is called on an object that exists, an object is freed
  when nothing holds it, and a batch has no further pages.
\<close>

fun call_valid :: "pages \<Rightarrow> page_call \<Rightarrow> bool" where
  "call_valid w (CSessionOpen s) = True"
| "call_valid w (CSessionFree c) = (c \<in> set (pw_external w))"
| "call_valid w (CExecute se ro) = (se \<in> set (pw_external w))"
| "call_valid w (CExecuteAsync se fr) = (se \<in> set (pw_external w))"
| "call_valid w (CNextPage env timeout h) = (map_of (pw_rows w) h \<noteq> None)"
| "call_valid w (CNextPageAsync env h) = (map_of (pw_rows w) h \<noteq> None)"
| "call_valid w (CFutureGet env timeout f) =
     (case map_of (pw_future_rows w) f of
        None \<Rightarrow> False
      | Some fr \<Rightarrow> pf_statement fr = None \<longrightarrow> (\<forall>res. \<not> pe_more env res))"
| "call_valid w (CRowsFree h) = (map_of (pw_rows w) h \<noteq> None)"
| "call_valid w (CFutureFree f) =
     (map_of (pw_future_rows w) f \<noteq> None \<and> (\<forall>(h, r) \<in> set (pw_rows w). pr_future_next_page r \<noteq> Some (PFRows f)))"

text \<open>
  What nothing sees to: a timeout whose microseconds overflow, a row with an empty number, and the result of
  a \<^verbatim>\<open>FutureRows\<close> without a future of the library, which \<^verbatim>\<open>executeAsync\<close> returns for an unbindable argument.
\<close>

fun call_defined :: "pages \<Rightarrow> page_call \<Rightarrow> bool" where
  "call_defined w (CNextPage env timeout h) = env_ok env timeout"
| "call_defined w (CNextPageAsync env h) = env_ok env ZNull"
| "call_defined w (CFutureGet env timeout f) =
     (env_ok env timeout \<and> (case map_of (pw_future_rows w) f of Some fr \<Rightarrow> pf_future fr | None \<Rightarrow> True))"
| "call_defined w _ = True"

definition call_ok :: "pages \<Rightarrow> page_call \<Rightarrow> bool" where
  "call_ok w c \<longleftrightarrow> call_valid w c \<and> call_defined w c"

definition pages_new :: pages where
  "pages_new = \<lparr>pw_cells = Map.empty, pw_rows = [], pw_future_rows = [], pw_external = [], pw_requests = [], pw_destroyed = [],
     pw_futures = 0, pw_next_id = 0\<rparr>"

inductive reachable_pages :: "pages \<Rightarrow> bool" where
  start: "reachable_pages pages_new"
| call: "reachable_pages w \<Longrightarrow> call_ok w c \<Longrightarrow> reachable_pages (snd (run_call c w))"

lemma safe_call:
  assumes inv: "pages_inv w {#}" and ok: "call_ok w c"
  shows "safe w (run_call c) (\<lambda>_ w'. pages_inv w' {#}) (\<lambda>w'. pages_inv w' {#})"
proof (cases c)
  case (CFutureGet env timeout f)
  then show ?thesis using ok safe_future_get [OF inv] by (auto simp: call_ok_def split: option.splits)
next
  case (CNextPage env timeout h)
  then obtain self where "map_of (pw_rows w) h = Some self" "env_ok env timeout" using ok by (auto simp: call_ok_def)
  from safe_next_page [OF inv this]
  have "safe w (rows_next_page env timeout h) (\<lambda>_ w'. pages_inv w' {#}) (\<lambda>w'. pages_inv w' {#})" by (rule safe_mono) simp_all
  then show ?thesis using CNextPage by simp
next
  case (CNextPageAsync env h)
  then show ?thesis using ok safe_next_page_async [OF inv] by (auto simp: call_ok_def)
qed (use ok inv safe_session_open safe_session_drop safe_rows_open safe_future_rows_open safe_rows_free safe_future_rows_free in \<open>auto simp: call_ok_def\<close>)

lemma safe_run: "safe w m (\<lambda>_ w'. P w') P \<Longrightarrow> fst (m w) \<noteq> UB \<and> P (snd (m w))"
  by (cases "m w"; cases "fst (m w)") (auto simp: safe_def)

lemma reachable_pages_inv: "reachable_pages w \<Longrightarrow> pages_inv w {#}"
proof (induction rule: reachable_pages.induct)
  case start
  show ?case by (simp add: pages_inv_def pages_new_def ref_count_def all_refs_def)
next
  case (call w c)
  then show ?case using safe_run [OF safe_call] by blast
qed


section \<open>Requests\<close>

definition quiet :: "'a paged \<Rightarrow> bool" where
  "quiet m \<longleftrightarrow> (\<forall>w. pw_requests (snd (m w)) = pw_requests w)"

lemma quiet_pbind: "quiet m \<Longrightarrow> (\<And>x. quiet (f x)) \<Longrightarrow> quiet (pbind m f)"
  by (auto simp: quiet_def pbind_def split: outcome.split prod.split) (metis snd_conv)+

lemma quiet_steps [simp]:
  "quiet (pret x)" "quiet (pstop r)" "quiet (php_driver_new_ref data)" "quiet (add_ref ref)" "quiet (deref_result ref)"
  "quiet (get_rows h)" "quiet (get_future_rows f)" "quiet (set_rows h f1)" "quiet (set_future_rows h f2)" "quiet (add_rows rows)"
  by (auto simp: quiet_def pret_def pstop_def php_driver_new_ref_def add_ref_def deref_result_def get_rows_def get_future_rows_def
      set_rows_def set_future_rows_def add_rows_def pupdate_def split: option.split ref_data.split)

lemma quiet_create: "quiet (php_driver_rows_create env h)"
  unfolding php_driver_rows_create_def new_page_def by (intro quiet_pbind; simp)+ (auto intro!: quiet_pbind)

lemma quiet_get_result: "quiet (php_driver_future_rows_get_result env timeout f)"
  unfolding php_driver_future_rows_get_result_def by (auto intro!: quiet_pbind split: option.split)

definition statement_at :: "pages \<Rightarrow> nat option \<Rightarrow> cass_stmt option" where
  "statement_at w ref = (case map_option rc_data (Option.bind ref (pw_cells w)) of Some (DStatement stmt _) \<Rightarrow> Some stmt | _ \<Rightarrow> None)"

definition result_at :: "pages \<Rightarrow> nat option \<Rightarrow> nat option" where
  "result_at w ref = (case map_option rc_data (Option.bind ref (pw_cells w)) of Some (DResult res) \<Rightarrow> Some res | _ \<Rightarrow> None)"

lemma quiet_bind_requests: "(\<And>x. quiet (f x)) \<Longrightarrow> pw_requests (snd (pbind m f w)) = pw_requests (snd (m w))"
  by (auto simp: quiet_def pbind_def split: outcome.split prod.split)

lemma send_next_requests:
  assumes inv: "pages_inv w {#}" and ok: "rows_ok w self" and res: "pr_result self \<noteq> None"
  shows "\<exists>stmt r. statement_at w (pr_statement self) = Some stmt \<and> result_at w (pr_result self) = Some r \<and>
    pw_requests (snd (send_next env self w)) = pw_requests w @ (if pe_paging env = 0 then [(stmt, r)] else [])"
proof -
  obtain re st se where refs: "pr_result self = Some re" "pr_statement self = Some st" "pr_session self = Some se"
    and live: "live_ref w re KResult" "live_ref w st KStatement" "live_ref w se KSession"
    using ok res unfolding rows_ok_def by (metis opt_heldD)
  obtain cr r where re: "pw_cells w re = Some cr" "rc_data cr = DResult r" using live(1) by (auto simp: live_ref_def kind_cases)
  obtain ct stmt p where st: "pw_cells w st = Some ct" "rc_data ct = DStatement stmt p" using live(2) by (auto simp: live_ref_def kind_cases)
  obtain cs s where se: "pw_cells w se = Some cs" "rc_data cs = DSession s" using live(3) by (auto simp: live_ref_def kind_cases)
  have "se \<noteq> st" using se st by auto
  then show ?thesis
    using re st se
    by (simp add: statement_at_def result_at_def refs send_next_def pbind_def deref_statement_def deref_result_def deref_session_def
        pstop_def pupdate_def)
qed

lemma rows_next_page_cached:
  assumes "has_next w h"
  shows "pw_requests (snd (rows_next_page env timeout h w)) = pw_requests w"
proof -
  obtain s where "map_of (pw_rows w) h = Some s" "pr_next_result s \<noteq> None" using assms by (auto simp: has_next_def split: option.splits)
  then have "rows_next_page env timeout h w = pbind (php_driver_rows_create env h) (\<lambda>page. pret (Some page)) w"
    by (simp add: rows_next_page_def get_rows_def pbind_def)
  moreover have "quiet (pbind (php_driver_rows_create env h) (\<lambda>page. pret (Some page)))"
    by (intro quiet_pbind quiet_create quiet_steps)
  ultimately show ?thesis by (simp add: quiet_def)
qed

text \<open>
  C29. \<^verbatim>\<open>Rows::nextPage\<close> of the last page returns nothing and changes nothing. On another page it sends the page's
  own statement once, to go on after the page's own result, whatever other pages have set meanwhile; when
  the next page is already known or a future of it exists, nothing is sent. After it returned a page, a
  further call sends nothing.
\<close>

theorem next_page_requests:
  assumes "reachable_pages w" and "map_of (pw_rows w) h = Some self" and "env_ok env timeout"
    and "rows_next_page env timeout h w = (r, w')"
  shows "(pr_result self = None \<longrightarrow> r = Ok None \<and> w' = w) \<and>
    (pr_next_result self \<noteq> None \<or> pr_future_next_page self \<noteq> None \<longrightarrow> pw_requests w' = pw_requests w) \<and>
    (pr_result self \<noteq> None \<and> pr_next_result self = None \<and> pr_future_next_page self = None \<longrightarrow>
       (\<exists>stmt res. statement_at w (pr_statement self) = Some stmt \<and> result_at w (pr_result self) = Some res \<and>
          pw_requests w' = pw_requests w @ (if pe_paging env = 0 then [(stmt, res)] else []))) \<and>
    (\<forall>page. r = Ok (Some page) \<longrightarrow>
       (\<forall>env' timeout'. pw_requests (snd (rows_next_page env' timeout' h w')) = pw_requests w'))"
proof -
  note inv = reachable_pages_inv [OF assms(1)]
  have ok: "rows_ok w self" by (rule rows_at [OF inv assms(2)])
  have w': "w' = snd (rows_next_page env timeout h w)" using assms(4) by simp
  have last: "r = Ok None \<and> w' = w" if "pr_result self = None"
  proof -
    have "pr_next_result self = None" using ok that by (auto simp: rows_ok_def)
    moreover have "pr_future_next_page self = None"
      using ok that calculation unfolding rows_ok_def by (cases "pr_future_next_page self"; cases "the (pr_future_next_page self)") auto
    ultimately show ?thesis using assms(2,4) that by (simp add: rows_next_page_def get_rows_def pbind_def pret_def)
  qed
  have future: "pw_requests w' = pw_requests w" if "pr_next_result self = None" "pr_future_next_page self = Some future" for future
  proof (cases future)
    case (PFValue v)
    then show ?thesis using assms(2) that by (simp add: w' rows_next_page_def get_rows_def pbind_def pstop_def)
  next
    case (PFRows f)
    let ?m = "pbind (php_driver_future_rows_get_result env timeout f) (\<lambda>_. pbind (get_future_rows f) (\<lambda>fr.
       pbind (add_ref (pf_result fr)) (\<lambda>re. pbind (set_rows h (pr_next_result_update (\<lambda>_. Some re))) (\<lambda>_.
       pbind (php_driver_rows_create env h) (\<lambda>page. pret (Some page))))))"
    have "rows_next_page env timeout h w = ?m w" using assms(2) that PFRows by (simp add: rows_next_page_def get_rows_def pbind_def)
    moreover have "quiet ?m" by (intro quiet_pbind quiet_get_result quiet_create quiet_steps)
    ultimately show ?thesis by (simp add: w' quiet_def)
  qed
  have sent: "\<exists>stmt res. statement_at w (pr_statement self) = Some stmt \<and> result_at w (pr_result self) = Some res \<and>
      pw_requests w' = pw_requests w @ (if pe_paging env = 0 then [(stmt, res)] else [])"
    if "pr_result self \<noteq> None" "pr_next_result self = None" "pr_future_next_page self = None"
  proof -
    have rest: "quiet (pbind (pstop (php_driver_future_wait_timed (pe_future env) timeout)) (\<lambda>_.
       pbind (pstop (php_driver_future_is_error (pe_future env))) (\<lambda>_. pbind (pupdate (\<lambda>w. w\<lparr>pw_futures := pw_futures w - 1\<rparr>)) (\<lambda>_.
       case pe_result env of None \<Rightarrow> pstop (Throw RuntimeException)
       | Some result \<Rightarrow> pbind (php_driver_new_ref (DResult result)) (\<lambda>re. set_rows h (pr_next_result_update (\<lambda>_. Some re)))))))"
    proof (intro quiet_pbind quiet_steps)
      show "quiet (pupdate (\<lambda>w. w\<lparr>pw_futures := pw_futures w - 1\<rparr>))" by (simp add: quiet_def pupdate_def)
      show "quiet (case pe_result env of None \<Rightarrow> pstop (Throw RuntimeException)
       | Some result \<Rightarrow> pbind (php_driver_new_ref (DResult result)) (\<lambda>re. set_rows h (pr_next_result_update (\<lambda>_. Some re))))"
        by (auto intro!: quiet_pbind split: option.split)
    qed
    have "rows_next_page env timeout h w =
        pbind (fetch_next env timeout h self) (\<lambda>_. pbind (php_driver_rows_create env h) (\<lambda>page. pret (Some page))) w"
      using assms(2) that by (cases "pr_result self") (simp_all add: rows_next_page_def get_rows_def pbind_def)
    then have "pw_requests w' = pw_requests (snd (send_next env self w))"
      using rest by (simp add: w' quiet_bind_requests quiet_pbind quiet_create fetch_next_def)
    then show ?thesis using send_next_requests [OF inv ok that(1)] by simp
  qed
  have again: "has_next w' h" if "r = Ok (Some page)" for page
    using safe_next_page [OF inv assms(2,3)] assms(4) that by (simp add: safe_def)
  have known: "pw_requests w' = pw_requests w" if "pr_next_result self \<noteq> None"
    unfolding w' by (rule rows_next_page_cached) (simp add: has_next_def assms(2) that)
  show ?thesis using last known future sent again rows_next_page_cached by blast
qed

text \<open>When the request fails, its future stays allocated with nothing that holds it.\<close>

lemma next_page_leaks_future:
  assumes "reachable_pages w" and "map_of (pw_rows w) h = Some self" and "pr_result self \<noteq> None" and "pr_next_result self = None"
    and "pr_future_next_page self = None" and "pe_paging env = 0" and "fe_ready (pe_future env)" and "fe_error (pe_future env) \<noteq> 0"
    and "rows_next_page env timeout h w = (r, w')"
  shows "r = Throw (CassException (fe_error (pe_future env))) \<and> pw_futures w' = pw_futures w + 1 \<and> pw_future_rows w' = pw_future_rows w"
proof -
  note inv = reachable_pages_inv [OF assms(1)]
  have ok: "rows_ok w self" by (rule rows_at [OF inv assms(2)])
  obtain re st se where refs: "pr_result self = Some re" "pr_statement self = Some st" "pr_session self = Some se"
    and live: "live_ref w re KResult" "live_ref w st KStatement" "live_ref w se KSession"
    using ok assms(3) unfolding rows_ok_def by (metis opt_heldD)
  obtain cr res where re: "pw_cells w re = Some cr" "rc_data cr = DResult res" using live(1) by (auto simp: live_ref_def kind_cases)
  obtain ct stmt p where st: "pw_cells w st = Some ct" "rc_data ct = DStatement stmt p" using live(2) by (auto simp: live_ref_def kind_cases)
  obtain cs s where se: "pw_cells w se = Some cs" "rc_data cs = DSession s" using live(3) by (auto simp: live_ref_def kind_cases)
  have "se \<noteq> st" using se st by auto
  then have "fst (send_next env self w) = Ok () \<and> pw_futures (snd (send_next env self w)) = pw_futures w + 1 \<and>
      pw_future_rows (snd (send_next env self w)) = pw_future_rows w"
    using re st se assms(6)
    by (simp add: refs send_next_def pbind_def deref_statement_def deref_result_def deref_session_def pstop_def pupdate_def)
  then obtain w1 where w1: "send_next env self w = (Ok (), w1)" "pw_futures w1 = pw_futures w + 1" "pw_future_rows w1 = pw_future_rows w"
    by (cases "send_next env self w") auto
  have "fetch_next env timeout h self w = (Throw (CassException (fe_error (pe_future env))), w1)"
    using w1(1) assms(7,8)
    by (simp add: fetch_next_def pbind_def pstop_def php_driver_future_is_error_def php_driver_future_wait_timed.simps)
  then show ?thesis
    using assms(2-5,9) w1(2,3) by (auto simp: rows_next_page_def get_rows_def pbind_def pret_def)
qed

section \<open>Iteration\<close>

lemma rows_loop_all:
  assumes "k \<le> length rows" and "length rows - k < fuel"
  shows "rows_loop fuel (\<lambda>t. t) \<lparr>rt_rows = rows, rt_pos = k\<rparr> seen =
    Some (seen @ map (\<lambda>i. (Some i, Some (rows ! i))) [k..<length rows], \<lparr>rt_rows = rows, rt_pos = length rows\<rparr>)"
  using assms
proof (induction fuel arbitrary: k seen)
  case (Suc fuel)
  show ?case
  proof (cases "k < length rows")
    case True
    then have "[k..<length rows] = k # [Suc k..<length rows]" by (rule upt_conv_Cons)
    then show ?thesis using True Suc.IH [of "Suc k"] Suc.prems
      by (simp add: rows_valid_def rows_next_def rows_key_def rows_current_def)
  next
    case False
    then show ?thesis using Suc.prems by (simp add: rows_valid_def)
  qed
qed simp

text \<open>
  C30. A \<^verbatim>\<open>foreach\<close> loop over a rows object ends and sees every row once, in order and under its index, as
  \<^verbatim>\<open>offsetGet\<close> and \<^verbatim>\<open>first\<close> give them. But rows objects of one page share the iteration: when the body of the loop
  runs through another object of the same page, the loop ends after its first row.
\<close>

theorem rows_iteration:
  "rows_foreach (Suc (length rows)) (\<lambda>t. t) \<lparr>rt_rows = rows, rt_pos = k\<rparr> =
     Some (map (\<lambda>i. (Some i, Some (rows ! i))) [0..<length rows], \<lparr>rt_rows = rows, rt_pos = length rows\<rparr>) \<and>
   (0 \<le> sint l \<longrightarrow> rows_offset_get \<lparr>rt_rows = rows, rt_pos = k\<rparr> (ZLong l) =
      Ok (if unat l < length rows then Some (rows ! unat l) else None)) \<and>
   (rows \<noteq> [] \<longrightarrow> rows_first \<lparr>rt_rows = rows, rt_pos = k\<rparr> = Some (rows ! 0) \<and>
      rows_foreach (Suc (length rows)) (\<lambda>t. snd (the (rows_foreach (Suc (length rows)) (\<lambda>t. t) t))) \<lparr>rt_rows = rows, rt_pos = k\<rparr> =
        Some ([(Some 0, Some (rows ! 0))], \<lparr>rt_rows = rows, rt_pos = length rows\<rparr>))"
proof -
  have all: "rows_foreach (Suc (length rows)) (\<lambda>t. t) \<lparr>rt_rows = rows, rt_pos = j\<rparr> =
     Some (map (\<lambda>i. (Some i, Some (rows ! i))) [0..<length rows], \<lparr>rt_rows = rows, rt_pos = length rows\<rparr>)" for j
    using rows_loop_all [of 0 rows "Suc (length rows)" "[]"] by (simp add: rows_foreach_def rows_rewind_def del: rows_loop.simps)
  have nested: "rows_foreach (Suc (length rows)) (\<lambda>t. snd (the (rows_foreach (Suc (length rows)) (\<lambda>t. t) t))) \<lparr>rt_rows = rows, rt_pos = k\<rparr> =
        Some ([(Some 0, Some (rows ! 0))], \<lparr>rt_rows = rows, rt_pos = length rows\<rparr>)" if ne: "rows \<noteq> []"
  proof -
    let ?body = "\<lambda>t. snd (the (rows_foreach (Suc (length rows)) (\<lambda>t. t) t))"
    obtain n where n: "length rows = Suc n" using ne by (cases rows) auto
    have "rows_loop (Suc (Suc n)) ?body \<lparr>rt_rows = rows, rt_pos = 0\<rparr> [] =
        rows_loop (Suc n) ?body (rows_next (?body \<lparr>rt_rows = rows, rt_pos = 0\<rparr>)) [(Some 0, Some (rows ! 0))]"
      by (subst rows_loop.simps) (simp add: rows_valid_def rows_key_def rows_current_def n del: rows_loop.simps)
    also have "\<dots> = Some ([(Some 0, Some (rows ! 0))], \<lparr>rt_rows = rows, rt_pos = length rows\<rparr>)"
      unfolding all by (simp add: rows_next_def rows_valid_def)
    finally show ?thesis unfolding rows_foreach_def [of "Suc (length rows)" ?body] by (simp add: rows_rewind_def n del: rows_loop.simps)
  qed
  show ?thesis using all nested
    by (auto simp: rows_offset_get_def row_offset_def rows_first_def neq_Nil_conv split: list.split)
qed

section \<open>A first page and its next one\<close>

definition paging_env :: page_env where
  "paging_env = \<lparr>pe_paging = 0, pe_future = ready_future, pe_result = Some 9,
     pe_rows = (\<lambda>_. Ok ZNull), pe_more = (\<lambda>res. res \<noteq> 9)\<rparr>"

definition one_query :: cass_stmt where
  "one_query = \<lparr>st_source = SourceCql ''q'' 0, st_bindings = [], st_settings = []\<rparr>"

definition first_page :: pages where
  "first_page = snd (run_call (CExecute 0 ((rows_new ZNull)\<lparr>ro_statement := Some one_query, ro_result := Some 4\<rparr>))
     (snd (run_call (CSessionOpen 5) pages_new)))"

lemmas run_defs = pbind_def pret_def pstop_def pupdate_def php_driver_new_ref_def add_ref_def deref_result_def deref_statement_def
  deref_session_def add_rows_def get_rows_def set_rows_def change_at_def

lemma first_page_is:
  "first_page = \<lparr>
     pw_cells = (\<lambda>_. None)(0 \<mapsto> \<lparr>rc_data = DSession 5, rc_count = 2\<rparr>, 1 \<mapsto> \<lparr>rc_data = DStatement one_query None, rc_count = 1\<rparr>,
       2 \<mapsto> \<lparr>rc_data = DResult 4, rc_count = 1\<rparr>),
     pw_rows = [(3, (php_driver_rows_new ZNull)\<lparr>pr_statement := Some 1, pr_session := Some 0, pr_result := Some 2\<rparr>)],
     pw_future_rows = [], pw_external = [0], pw_requests = [], pw_destroyed = [], pw_futures = 0, pw_next_id = 4\<rparr>"
  by (auto simp: first_page_def run_defs session_open_def rows_open_def rows_new_def pages_new_def fun_eq_iff)

lemma first_page_reachable: "reachable_pages first_page"
  unfolding first_page_def
  by (intro reachable_pages.call reachable_pages.start) (simp_all add: run_defs session_open_def pages_new_def call_ok_def)

lemma paging_env_ok: "env_ok paging_env ZNull"
  by (simp add: env_ok_def paging_env_def ready_future_def php_driver_future_wait_timed.simps)


theorem next_page_requests_witness:
  "\<exists>w'. rows_next_page paging_env ZNull 3 first_page = (Ok (Some 5), w') \<and> pw_requests w' = [(one_query, 4)] \<and>
    pw_requests (snd (rows_next_page paging_env ZNull 3 w')) = [(one_query, 4)]"
proof -
  obtain w' where run: "rows_next_page paging_env ZNull 3 first_page = (Ok (Some 5), w')"
    by (simp add: first_page_is run_defs rows_next_page_def fetch_next_def send_next_def php_driver_rows_create_def new_page_def paging_env_def ready_future_def
        php_driver_rows_new_def php_driver_future_is_error_def php_driver_future_wait_timed.simps)
  have at: "map_of (pw_rows first_page) 3 = Some ((php_driver_rows_new ZNull)\<lparr>pr_statement := Some 1, pr_session := Some 0, pr_result := Some 2\<rparr>)"
    by (simp add: first_page_is)
  have "pw_requests w' = [(one_query, 4)]"
    using next_page_requests [OF first_page_reachable at paging_env_ok run]
    by (simp add: first_page_is php_driver_rows_new_def statement_at_def result_at_def paging_env_def)
  then show ?thesis using next_page_requests [OF first_page_reachable at paging_env_ok run] run by auto
qed

theorem rows_iteration_witness:
  "rows_foreach 3 (\<lambda>t. t) \<lparr>rt_rows = [ZTrue, ZNull], rt_pos = 7\<rparr> =
     Some ([(Some 0, Some ZTrue), (Some 1, Some ZNull)], \<lparr>rt_rows = [ZTrue, ZNull], rt_pos = 2\<rparr>) \<and>
   rows_offset_get \<lparr>rt_rows = [ZTrue, ZNull], rt_pos = 7\<rparr> (ZLong 1) = Ok (Some ZNull) \<and>
   rows_first \<lparr>rt_rows = [ZTrue, ZNull], rt_pos = 7\<rparr> = Some ZTrue"
  using rows_iteration [of "[ZTrue, ZNull]" 7 1] by (simp add: eval_nat_numeral upt_rec)

end
