(* ===== verification/Paging_Loop.thy ===== *)
theory Paging_Loop
  imports Rows_Paging
begin

text \<open>
  Reading a result page by page, the way the documentation of the driver does: the rows of a page, then
  \<^verbatim>\<open>isLastPage\<close>, then \<^verbatim>\<open>nextPage\<close> in place of the page. The methods are those of \<open>Rows_Paging\<close>; the server is a
  parameter that has a result for each request and answers without error.
\<close>

section \<open>The loop\<close>

text \<open>
  A result's rows and whether it has more pages, the result of the request that goes on after a result, and
  the future of that request.
\<close>

record paged_source =
  ps_rows :: "nat \<Rightarrow> zval"
  ps_more :: "nat \<Rightarrow> bool"
  ps_after :: "nat \<Rightarrow> nat"
  ps_future :: "nat \<Rightarrow> fut_env"

definition answer :: "paged_source \<Rightarrow> nat \<Rightarrow> page_env" where
  "answer src res = \<lparr>pe_paging = 0, pe_future = ps_future src res, pe_result = Some (ps_after src res),
     pe_rows = (\<lambda>r. Ok (ps_rows src r)), pe_more = ps_more src\<rparr>"

definition answers :: "paged_source \<Rightarrow> zval \<Rightarrow> bool" where
  "answers src timeout \<longleftrightarrow>
     (\<forall>res. php_driver_future_wait_timed (ps_future src res) timeout = Ok () \<and> fe_error (ps_future src res) = 0)"

text \<open>
  The page is replaced by the next one, which frees it. \<open>None\<close> is a loop that has not ended after \<open>n\<close> pages; a
  page that is not the last and has no next one is no object to go on with.
\<close>

fun read_pages :: "nat \<Rightarrow> paged_source \<Rightarrow> zval \<Rightarrow> nat \<Rightarrow> zval list option paged" where
  "read_pages 0 src timeout h = pret None"
| "read_pages (Suc n) src timeout h =
     pbind (get_rows h) (\<lambda>self.
       if rows_is_last_page self then pret (Some [pr_rows self])
       else pbind (\<lambda>w. rows_next_page (answer src (the (result_at w (pr_result self)))) timeout h w) (\<lambda>page.
         case page of
           None \<Rightarrow> pstop (Throw RuntimeException)
         | Some p \<Rightarrow>
             pbind (rows_free h) (\<lambda>_.
             pbind (read_pages n src timeout p) (\<lambda>rest. pret (map_option (Cons (pr_rows self)) rest)))))"

section \<open>One page after the other\<close>

lemmas step_defs = pbind_def pret_def pstop_def pupdate_def php_driver_new_ref_def add_ref_def deref_result_def deref_statement_def
  deref_session_def add_rows_def get_rows_def set_rows_def

lemma change_at_length: "length (change_at h f xs) = length xs"
  by (simp add: change_at_def)

text \<open>A page that has not been asked for the next one.\<close>

definition unread :: "php_driver_rows \<Rightarrow> bool" where
  "unread self \<longleftrightarrow> pr_next_rows self = ZUndef \<and> pr_next_result self = None \<and> pr_future_next_page self = None"

lemma next_page_arrives:
  assumes reach: "reachable_pages w" and at: "map_of (pw_rows w) h = Some self" and new: "unread self"
    and res: "result_at w (pr_result self) = Some r" and stmt: "statement_at w (pr_statement self) = Some stmt"
    and src: "answers src timeout"
  shows "\<exists>p w' self'. rows_next_page (answer src r) timeout h w = (Ok (Some p), w') \<and> p \<noteq> h \<and>
    map_of (pw_rows w') p = Some self' \<and> map_of (pw_rows w') h \<noteq> None \<and> unread self' \<and> pr_rows self' = ps_rows src (ps_after src r) \<and>
    (if ps_more src (ps_after src r)
     then result_at w' (pr_result self') = Some (ps_after src r) \<and> statement_at w' (pr_statement self') = Some stmt
     else pr_result self' = None) \<and>
    pw_requests w' = pw_requests w @ [(stmt, r)] \<and> pw_futures w' = pw_futures w \<and> length (pw_rows w') = Suc (length (pw_rows w))"
proof -
  note inv = reachable_pages_inv [OF reach]
  have ok: "rows_ok w self" by (rule rows_at [OF inv at])
  have some: "pr_result self \<noteq> None" using res by (cases "pr_result self") (simp_all add: result_at_def)
  obtain re st se where refs: "pr_result self = Some re" "pr_statement self = Some st" "pr_session self = Some se"
    and live: "live_ref w re KResult" "live_ref w st KStatement" "live_ref w se KSession"
    using ok some unfolding rows_ok_def by (metis opt_heldD)
  obtain cr where re: "pw_cells w re = Some cr" "rc_data cr = DResult r"
    using live(1) res refs by (auto simp: live_ref_def kind_cases result_at_def)
  obtain ct q where st: "pw_cells w st = Some ct" "rc_data ct = DStatement stmt q"
    using live(2) stmt refs by (auto simp: live_ref_def kind_cases statement_at_def)
  obtain cs s where se: "pw_cells w se = Some cs" "rc_data cs = DSession s" using live(3) by (auto simp: live_ref_def kind_cases)
  have below: "re < pw_next_id w" "st < pw_next_id w" "se < pw_next_id w"
    using pages_invD(2) [OF inv re(1)] pages_invD(2) [OF inv st(1)] pages_invD(2) [OF inv se(1)] by simp_all
  have h: "h < pw_next_id w" using pages_invD(5) [OF inv] at by (force dest: map_of_SomeD)
  have diff: "se \<noteq> st" "st \<noteq> re" "se \<noteq> re" using se st re by auto
  show ?thesis
    using at new re st se below h diff src
    by (simp add: rows_next_page_def fetch_next_def send_next_def step_defs refs unread_def answer_def answers_def
        php_driver_future_is_error_def php_driver_rows_create_def new_page_def change_at_map_of php_driver_rows_new_def result_at_def statement_at_def
        change_at_length)
qed

text \<open>Freeing a page only takes references away.\<close>

definition fewer_refs :: "pages \<Rightarrow> pages \<Rightarrow> bool" where
  "fewer_refs w w' \<longleftrightarrow> pw_requests w' = pw_requests w \<and> pw_futures w' = pw_futures w \<and>
     (\<forall>c cell'. pw_cells w' c = Some cell' \<longrightarrow> (\<exists>cell. pw_cells w c = Some cell \<and> rc_data cell = rc_data cell'))"

lemma fewer_refs_refl: "fewer_refs w w"
  by (simp add: fewer_refs_def)

lemma fewer_refs_trans: "fewer_refs w w' \<Longrightarrow> fewer_refs w' w'' \<Longrightarrow> fewer_refs w w''"
  unfolding fewer_refs_def by (metis (no_types, lifting))

lemma del_ref_fewer: "del_ref ref w = (x, w') \<Longrightarrow> fewer_refs w w' \<and> pw_rows w' = pw_rows w \<and> (x = Ok () \<or> x = UB)"
  by (auto simp: del_ref_def fewer_refs_def split: option.splits if_splits)

lemma rows_free_fewer:
  assumes "reachable_pages w" and "map_of (pw_rows w) h = Some self"
  shows "\<exists>w'. rows_free h w = (Ok (), w') \<and> fewer_refs w w' \<and> pw_rows w' = remove_at h (pw_rows w) \<and> reachable_pages w'"
proof -
  have call: "call_ok w (CRowsFree h)" using assms(2) by (simp add: call_ok_def)
  have defined: "fst (rows_free h w) \<noteq> UB" using safe_run [OF safe_call [OF reachable_pages_inv [OF assms(1)] call]] by simp
  obtain x w' where run: "rows_free h w = (x, w')" by (cases "rows_free h w")
  let ?w0 = "w\<lparr>pw_rows := remove_at h (pw_rows w)\<rparr>"
  have start: "fewer_refs w ?w0" by (simp add: fewer_refs_def)
  obtain x1 w1 where 1: "del_ref (pr_result self) ?w0 = (x1, w1)" by (cases "del_ref (pr_result self) ?w0")
  obtain x2 w2 where 2: "del_ref (pr_statement self) w1 = (x2, w2)" by (cases "del_ref (pr_statement self) w1")
  obtain x3 w3 where 3: "del_ref (pr_session self) w2 = (x3, w3)" by (cases "del_ref (pr_session self) w2")
  obtain x4 w4 where 4: "del_ref (pr_next_result self) w3 = (x4, w4)" by (cases "del_ref (pr_next_result self) w3")
  note steps = del_ref_fewer [OF 1] del_ref_fewer [OF 2] del_ref_fewer [OF 3] del_ref_fewer [OF 4]
  have "rows_free h w = (Ok (), w4)" using defined assms(2) 1 2 3 4 steps
    by (auto simp: rows_free_def pbind_def get_rows_def pupdate_def)
  moreover have "fewer_refs w w4" using start steps fewer_refs_trans by blast
  moreover have "pw_rows w4 = remove_at h (pw_rows w)" using steps by simp
  moreover have "reachable_pages w4" using reachable_pages.call [OF assms(1) call] calculation(1) by simp
  ultimately show ?thesis by blast
qed

lemma remove_at_map_of: "p \<noteq> h \<Longrightarrow> map_of (remove_at h xs) p = map_of xs p"
  by (induction xs) (auto simp: remove_at_def)

lemma remove_at_length: "distinct (map fst xs) \<Longrightarrow> map_of xs h \<noteq> None \<Longrightarrow> Suc (length (remove_at h xs)) = length xs"
proof (induction xs)
  case (Cons x xs)
  obtain k v where x: "x = (k, v)" by (cases x)
  show ?case
  proof (cases "k = h")
    case True
    then have "filter (\<lambda>(h', _). h' \<noteq> h) xs = xs" using Cons.prems x by (auto simp: filter_id_conv rev_image_eqI)
    then show ?thesis using True x by (simp add: remove_at_def)
  next
    case False
    then show ?thesis using Cons x by (simp add: remove_at_def)
  qed
qed simp

lemma kept_data:
  assumes "fewer_refs w w'" and "held w' k ref" and "ref \<noteq> None"
  shows "Option.bind ref (pw_cells w') \<noteq> None \<and>
    map_option rc_data (Option.bind ref (pw_cells w)) = map_option rc_data (Option.bind ref (pw_cells w'))"
proof -
  obtain c cell where "ref = Some c" "pw_cells w' c = Some cell" using assms(2,3) by (cases ref) (auto simp: live_ref_def)
  then show ?thesis using assms(1) by (fastforce simp: fewer_refs_def)
qed

section \<open>All pages\<close>

text \<open>The results after \<open>r\<close>, each one the result of the request that goes on after the one before.\<close>

definition nth_result :: "paged_source \<Rightarrow> nat \<Rightarrow> nat \<Rightarrow> nat" where
  "nth_result src r i = (ps_after src ^^ i) r"

lemma nth_result_Suc: "nth_result src r (Suc i) = nth_result src (ps_after src r) i"
  by (simp add: nth_result_def funpow_swap1)

lemma answer_env_ok: "answers src timeout \<Longrightarrow> env_ok (answer src r) timeout"
  by (simp add: answers_def answer_def env_ok_def)

lemma read_step:
  assumes reach: "reachable_pages w" and at: "map_of (pw_rows w) h = Some self" and new: "unread self" and src: "answers src timeout"
    and res: "result_at w (pr_result self) = Some r" and stmt: "statement_at w (pr_statement self) = Some stmt"
  shows "\<exists>p w' self'. reachable_pages w' \<and> map_of (pw_rows w') p = Some self' \<and> unread self' \<and>
    read_pages (Suc n) src timeout h w = pbind (read_pages n src timeout p) (\<lambda>rest. pret (map_option (Cons (pr_rows self)) rest)) w' \<and>
    pr_rows self' = ps_rows src (ps_after src r) \<and>
    (if ps_more src (ps_after src r)
     then result_at w' (pr_result self') = Some (ps_after src r) \<and> statement_at w' (pr_statement self') = Some stmt
     else pr_result self' = None) \<and>
    pw_requests w' = pw_requests w @ [(stmt, r)] \<and> pw_futures w' = pw_futures w \<and> length (pw_rows w') = length (pw_rows w)"
proof -
  obtain p w1 self' where run: "rows_next_page (answer src r) timeout h w = (Ok (Some p), w1)" and p: "p \<noteq> h"
    and at1: "map_of (pw_rows w1) p = Some self'" "map_of (pw_rows w1) h \<noteq> None" and new1: "unread self'" "pr_rows self' = ps_rows src (ps_after src r)"
    and refs: "if ps_more src (ps_after src r)
      then result_at w1 (pr_result self') = Some (ps_after src r) \<and> statement_at w1 (pr_statement self') = Some stmt
      else pr_result self' = None"
    and log: "pw_requests w1 = pw_requests w @ [(stmt, r)]" "pw_futures w1 = pw_futures w" "length (pw_rows w1) = Suc (length (pw_rows w))"
    using next_page_arrives [OF reach at new res stmt src] by blast
  have "call_ok w (CNextPage (answer src r) timeout h)" using at answer_env_ok [OF src] by (simp add: call_ok_def)
  from reachable_pages.call [OF reach this] run have reach1: "reachable_pages w1" by (simp add: pbind_def pret_def)
  obtain old where "map_of (pw_rows w1) h = Some old" using at1(2) by auto
  from rows_free_fewer [OF reach1 this]
  obtain w2 where free: "rows_free h w1 = (Ok (), w2)" "fewer_refs w1 w2" "pw_rows w2 = remove_at h (pw_rows w1)" "reachable_pages w2" by blast
  have at2: "map_of (pw_rows w2) p = Some self'" using free(3) at1(1) p by (simp add: remove_at_map_of)
  have ok: "rows_ok w2 self'" by (rule rows_at [OF reachable_pages_inv [OF free(4)] at2])
  have kept: "if ps_more src (ps_after src r)
      then result_at w2 (pr_result self') = Some (ps_after src r) \<and> statement_at w2 (pr_statement self') = Some stmt
      else pr_result self' = None"
  proof (cases "ps_more src (ps_after src r)")
    case True
    then have "pr_result self' \<noteq> None" using refs by (cases "pr_result self'") (simp_all add: result_at_def)
    then have "held w2 KResult (pr_result self')" "held w2 KStatement (pr_statement self')" "pr_statement self' \<noteq> None"
      using ok by (simp_all add: rows_ok_def)
    then show ?thesis using refs True kept_data [OF free(2), of KResult "pr_result self'"] kept_data [OF free(2), of KStatement "pr_statement self'"] \<open>pr_result self' \<noteq> None\<close>
      by (simp add: result_at_def statement_at_def)
  qed (use refs in simp)
  have len: "length (pw_rows w2) = length (pw_rows w)"
    using remove_at_length [OF pages_invD(3) [OF reachable_pages_inv [OF reach1]] at1(2)] free(3) log(3) by simp
  have "\<not> rows_is_last_page self" using res by (cases "pr_result self") (simp_all add: rows_is_last_page_def result_at_def)
  then have loop: "read_pages (Suc n) src timeout h w = pbind (read_pages n src timeout p) (\<lambda>rest. pret (map_option (Cons (pr_rows self)) rest)) w2"
    using at res run free(1) by (simp add: pbind_def get_rows_def)
  have "pw_requests w2 = pw_requests w @ [(stmt, r)]" "pw_futures w2 = pw_futures w" using free(2) log by (simp_all add: fewer_refs_def)
  with free(4) at2 new1 loop kept len show ?thesis by (intro exI conjI) (assumption | rule new1)+
qed

lemma read_last:
  assumes "map_of (pw_rows w) h = Some self" and "unread self" and "pr_result self = None"
  shows "read_pages (Suc n) src timeout h w = (Ok (Some [pr_rows self]), w)"
  using assms by (simp add: pbind_def get_rows_def rows_is_last_page_def unread_def pret_def)

lemma pages_from:
  assumes "reachable_pages w" and "map_of (pw_rows w) h = Some self" and "unread self" and "answers src timeout"
    and "result_at w (pr_result self) = Some r" and "statement_at w (pr_statement self) = Some stmt"
    and "\<forall>i. 0 < i \<and> i \<le> k \<longrightarrow> ps_more src (nth_result src r i)" and "\<not> ps_more src (nth_result src r (Suc k))" and "Suc k < n"
  shows "\<exists>w'. read_pages n src timeout h w =
      (Ok (Some (pr_rows self # map (\<lambda>i. ps_rows src (nth_result src r (Suc i))) [0..<Suc k])), w') \<and>
    pw_requests w' = pw_requests w @ map (\<lambda>i. (stmt, nth_result src r i)) [0..<Suc k] \<and>
    pw_futures w' = pw_futures w \<and> length (pw_rows w') = length (pw_rows w) \<and> reachable_pages w'"
  using assms
proof (induction k arbitrary: n w h self r)
  case 0
  then obtain m where n: "n = Suc (Suc m)" by (metis gr0_implies_Suc less_imp_Suc_add add_Suc)
  obtain p w' self' where step: "reachable_pages w'" "map_of (pw_rows w') p = Some self'" "unread self'"
    "read_pages n src timeout h w = pbind (read_pages (Suc m) src timeout p) (\<lambda>rest. pret (map_option (Cons (pr_rows self)) rest)) w'"
    "pr_rows self' = ps_rows src (ps_after src r)" "pr_result self' = None"
    "pw_requests w' = pw_requests w @ [(stmt, r)]" "pw_futures w' = pw_futures w" "length (pw_rows w') = length (pw_rows w)"
    using read_step [OF "0.prems"(1-6), of "Suc m"] "0.prems"(8) n by (auto simp: nth_result_def)
  show ?case using step read_last [OF step(2,3,6), of m src timeout] by (simp add: pbind_def pret_def nth_result_def)
next
  case (Suc k)
  then obtain m where n: "n = Suc m" "Suc k < m" by (cases n) auto
  have more: "ps_more src (ps_after src r)" using Suc.prems(7) by (auto simp: nth_result_def dest: spec [of _ 1])
  obtain p w' self' where step: "reachable_pages w'" "map_of (pw_rows w') p = Some self'" "unread self'"
    "read_pages n src timeout h w = pbind (read_pages m src timeout p) (\<lambda>rest. pret (map_option (Cons (pr_rows self)) rest)) w'"
    "pr_rows self' = ps_rows src (ps_after src r)" "result_at w' (pr_result self') = Some (ps_after src r)" "statement_at w' (pr_statement self') = Some stmt"
    "pw_requests w' = pw_requests w @ [(stmt, r)]" "pw_futures w' = pw_futures w" "length (pw_rows w') = length (pw_rows w)"
    using read_step [OF Suc.prems(1-6), of m] more n by auto
  have rest: "\<forall>i. 0 < i \<and> i \<le> k \<longrightarrow> ps_more src (nth_result src (ps_after src r) i)" "\<not> ps_more src (nth_result src (ps_after src r) (Suc k))"
    using Suc.prems(7,8) by (auto simp flip: nth_result_Suc)
  obtain w'' where ih: "read_pages m src timeout p w' =
      (Ok (Some (pr_rows self' # map (\<lambda>i. ps_rows src (nth_result src (ps_after src r) (Suc i))) [0..<Suc k])), w'')"
    "pw_requests w'' = pw_requests w' @ map (\<lambda>i. (stmt, nth_result src (ps_after src r) i)) [0..<Suc k]"
    "pw_futures w'' = pw_futures w'" "length (pw_rows w'') = length (pw_rows w')" "reachable_pages w''"
    using Suc.IH [OF step(1,2,3) Suc.prems(4) step(6,7) rest n(2)] by blast
  have shift: "map f [0..<Suc (Suc k)] = f 0 # map (\<lambda>i. f (Suc i)) [0..<Suc k]" for f :: "nat \<Rightarrow> 'z"
    by (simp only: upt_conv_Cons zero_less_Suc map_Suc_upt [symmetric] list.map map_map comp_def)
  have "read_pages n src timeout h w = (Ok (Some (pr_rows self # map (\<lambda>i. ps_rows src (nth_result src r (Suc i))) [0..<Suc (Suc k)])), w'')"
    unfolding shift using step(4,5) ih(1) by (simp add: pbind_def pret_def nth_result_Suc) (simp add: nth_result_def)
  moreover have "pw_requests w'' = pw_requests w @ map (\<lambda>i. (stmt, nth_result src r i)) [0..<Suc (Suc k)]"
    unfolding shift using step(8) ih(2) by (simp add: nth_result_Suc) (simp add: nth_result_def)
  ultimately show ?case using step ih by simp
qed


text \<open>Three pages.\<close>

definition three_pages :: paged_source where
  "three_pages = \<lparr>ps_rows = (\<lambda>r. ZLong (word_of_nat r)), ps_more = (\<lambda>r. r < 6), ps_after = Suc,
     ps_future = (\<lambda>_. \<lparr>fe_ready = True, fe_wait_timed = (\<lambda>_. True), fe_error = 0\<rparr>)\<rparr>"


end
