(* ===== verification/Time_Values.thy ===== *)
theory Time_Values
  imports Hashing Num_Parse
begin

text \<open>
  The classes for points and spans of time: \<^verbatim>\<open>ext/src/Date.c\<close>, \<^verbatim>\<open>Time.c\<close>, \<^verbatim>\<open>Timestamp.c\<close> and \<^verbatim>\<open>Duration.c\<close>. A
  constructor works on an object that exists already, so its model returns the data of the object after
  the call together with the outcome: what was stored before an exception is thrown stays there. The
  calendar functions of the C driver are a parameter.
\<close>

type_synonym 'd stored = "'d \<times> unit outcome"

section \<open>The calendar of the C driver\<close>

record cass_calendar =
  cass_date_from_epoch :: "64 word \<Rightarrow> 32 word"
  cass_time_from_epoch :: "64 word \<Rightarrow> 64 word"
  cass_date_time_to_epoch :: "32 word \<Rightarrow> 64 word \<Rightarrow> 64 word"

text \<open>
  A date is a number of days around the middle of its range, a time the nanoseconds since midnight; for
  the seconds since the epoch, as far as there are dates for them, the two together are the seconds again.
\<close>

definition has_date :: "64 word \<Rightarrow> bool" where
  "has_date s \<longleftrightarrow> 0 \<le> sint s \<and> sint s < 2 ^ 31 * 86400"

locale calendar_lib =
  fixes cal :: cass_calendar
  assumes time_of: "0 \<le> sint s \<Longrightarrow> sint (cass_time_from_epoch cal s) = sint s mod 86400 * 10 ^ 9"
    and to_epoch: "has_date s \<Longrightarrow> 0 \<le> sint t \<Longrightarrow> sint t < 86400 * 10 ^ 9 \<Longrightarrow>
      sint (cass_date_time_to_epoch cal (cass_date_from_epoch cal s) t) = sint s - sint s mod 86400 + sint t div 10 ^ 9"
begin

lemma midnight: "has_date s \<Longrightarrow> sint (cass_date_time_to_epoch cal (cass_date_from_epoch cal s) 0) = sint s - sint s mod 86400"
  using to_epoch [of s 0] by simp

lemma time_of_range: "0 \<le> sint s \<Longrightarrow> 0 \<le> sint (cass_time_from_epoch cal s) \<and> sint (cass_time_from_epoch cal s) \<le> 86399 * 10 ^ 9"
  by (simp add: time_of)

lemma date_and_time: "has_date s \<Longrightarrow> cass_date_time_to_epoch cal (cass_date_from_epoch cal s) (cass_time_from_epoch cal s) = s"
  using to_epoch [of s "cass_time_from_epoch cal s"] time_of [of s] time_of_range [of s]
  by (simp add: has_date_def signed_word_eqI)

end

text \<open>An instance that computes with days from the middle of the range.\<close>

definition calendar_ref :: cass_calendar where
  "calendar_ref = \<lparr>
     cass_date_from_epoch = (\<lambda>s. word_of_int (sint s div 86400 + 2 ^ 31)),
     cass_time_from_epoch = (\<lambda>s. word_of_int (sint s mod 86400 * 10 ^ 9)),
     cass_date_time_to_epoch = (\<lambda>d t. word_of_int ((uint d - 2 ^ 31) * 86400 + sint t div 10 ^ 9))\<rparr>"

lemma date_ref: "has_date s \<Longrightarrow> uint (word_of_int (sint s div 86400 + 2 ^ 31) :: 32 word) = sint s div 86400 + 2 ^ 31"
proof -
  assume s: "has_date s"
  have "sint s div 86400 < 2 ^ 31" using s unfolding has_date_def by linarith
  moreover have "0 \<le> sint s div 86400" using s unfolding has_date_def by linarith
  ultimately show ?thesis by (simp add: uint_word_of_int del: of_int_add)
qed

lemma days_fit: "b < 86400 \<Longrightarrow> 0 \<le> b \<Longrightarrow> 0 \<le> a \<Longrightarrow> a < 2 ^ 31 \<Longrightarrow> in_int 64 (a * 86400 + b)"
  by (simp add: in_int_def)

interpretation calendar_ref: calendar_lib calendar_ref
proof
  fix s t :: "64 word"
  show "sint (cass_time_from_epoch calendar_ref s) = sint s mod 86400 * 10 ^ 9"
  proof -
    have "in_int 64 (sint s mod 86400 * 10 ^ 9)"
      using pos_mod_bound [of 86400 "sint s"] pos_mod_sign [of 86400 "sint s"] by (simp add: in_int_def) linarith
    then show ?thesis using sint_of_int_in [where 'a = 64, of "sint s mod 86400 * 10 ^ 9"]
      by (simp add: calendar_ref_def del: of_int_mult of_int_sint)
  qed
  assume s: "has_date s" and t: "0 \<le> sint t" "sint t < 86400 * 10 ^ 9"
  have m: "sint s - sint s mod 86400 = sint s div 86400 * 86400" by (simp add: minus_mod_eq_div_mult)
  have "sint t div 10 ^ 9 < 86400" "0 \<le> sint t div 10 ^ 9" using t by (simp_all; linarith)+
  moreover have "0 \<le> sint s div 86400" "sint s div 86400 < 2 ^ 31" using s unfolding has_date_def by linarith+
  ultimately have i: "in_int 64 (sint s div 86400 * 86400 + sint t div 10 ^ 9)"
    by (intro days_fit)
  show "sint (cass_date_time_to_epoch calendar_ref (cass_date_from_epoch calendar_ref s) t) =
      sint s - sint s mod 86400 + sint t div 10 ^ 9"
    unfolding m calendar_ref_def cass_calendar.simps date_ref [OF s] using sint_of_int_in [where 'a = 64, simplified, OF i] by (simp only: add_diff_cancel_right')
qed

section \<open>Text from a format\<close>

text \<open>
  \<^verbatim>\<open>spprintf\<close> of the engine on the conversions that these files have: a conversion that it does not know is
  printed as it stands.
\<close>

definition LL_FORMAT :: string where "LL_FORMAT = ''%lld''"

function spprintf :: "string \<Rightarrow> int list \<Rightarrow> string" where
  "spprintf [] args = []"
| "spprintf (c # format) args =
     (if c \<noteq> CHR ''%'' then c # spprintf format args
      else if take 1 format = ''%'' then c # spprintf (drop 1 format) args
      else if take 1 format = ''d'' then show_int (hd args) @ spprintf (drop 1 format) (tl args)
      else if take 2 format = ''ld'' then show_int (hd args) @ spprintf (drop 2 format) (tl args)
      else if take 3 format = ''lld'' then show_int (hd args) @ spprintf (drop 3 format) (tl args)
      else c # take 1 format @ spprintf (drop 1 format) args)"
  by pat_completeness auto
termination by (relation "measure (\<lambda>(format, args). length format)") auto

section \<open>Date\<close>

fun php_driver_date_init :: "cass_calendar \<Rightarrow> 64 word \<Rightarrow> zval option \<Rightarrow> 32 word \<Rightarrow> 32 word stored" where
  "php_driver_date_init cal now None self = (cass_date_from_epoch cal now, Ok ())"
| "php_driver_date_init cal now (Some (ZLong seconds)) self = (cass_date_from_epoch cal seconds, Ok ())"
| "php_driver_date_init cal now (Some seconds) self = (self, Throw InvalidArgumentException)"

definition date_seconds :: "cass_calendar \<Rightarrow> 32 word \<Rightarrow> 64 word" where
  "date_seconds cal self = cass_date_time_to_epoch cal self 0"

text \<open>The text that \<^verbatim>\<open>toDateTime\<close> has parsed as seconds, with the nanoseconds of an argument.\<close>

definition date_to_date_time :: "cass_calendar \<Rightarrow> 32 word \<Rightarrow> 64 word option \<Rightarrow> string" where
  "date_to_date_time cal self ztime =
     spprintf (''%'' @ LL_FORMAT @ ''d'')
       [sint (cass_date_time_to_epoch cal self (case ztime of Some time \<Rightarrow> time | None \<Rightarrow> 0))]"

text \<open>The result of \<^verbatim>\<open>getTimestamp\<close> on the argument; \<open>None\<close> when it is not an integer: \<^verbatim>\<open>null\<close> is returned.\<close>

definition date_from_date_time :: "cass_calendar \<Rightarrow> zval \<Rightarrow> 32 word option" where
  "date_from_date_time cal timestamp =
     (case timestamp of ZLong seconds \<Rightarrow> Some (cass_date_from_epoch cal seconds) | _ \<Rightarrow> None)"

definition date_to_string :: "cass_calendar \<Rightarrow> 32 word \<Rightarrow> string" where
  "date_to_string cal self =
     spprintf (''Cassandra'' @ [CHR 0x5C] @ ''Date(seconds=%'' @ [CHR 0x22] @ '' LL_FORMAT '' @ [CHR 0x22] @ ''d)'')
       [sint (cass_date_time_to_epoch cal self 0)]"

section \<open>Time\<close>

definition NUM_NANOSECONDS_PER_DAY :: int where "NUM_NANOSECONDS_PER_DAY = 86399999999999"

definition NANOSECONDS_PER_SECOND :: int where "NANOSECONDS_PER_SECOND = 1000000000"

text \<open>Seconds and nanoseconds of the clock.\<close>

definition php_driver_time_now_ns :: "cass_calendar \<Rightarrow> 64 word \<times> 64 word \<Rightarrow> 64 word" where
  "php_driver_time_now_ns cal ts = cass_time_from_epoch cal (fst ts) + snd ts"

text \<open>The number that \<^verbatim>\<open>php_driver_parse_bigint\<close> has stored when it throws.\<close>

definition bigint_stored :: "string \<Rightarrow> 64 word" where
  "bigint_stored s =
     (let (base, pos, negative) = prepare_string_conversion s;
          temp = fst (strtoul (cstr (drop pos s)) base)
      in word_of_int
           (if negative then (if temp > 2 ^ 63 then - (2 ^ 63) else if temp = 2 ^ 63 then - (2 ^ 63) else - int temp)
            else if temp > 2 ^ 63 - 1 then 2 ^ 63 - 1 else int temp))"

definition time_checked :: "64 word \<Rightarrow> 64 word stored" where
  "time_checked time =
     (time, if sint time < 0 \<or> sint time > NUM_NANOSECONDS_PER_DAY then Throw InvalidArgumentException else Ok ())"

fun php_driver_time_init :: "cass_calendar \<Rightarrow> 64 word \<times> 64 word \<Rightarrow> zval option \<Rightarrow> 64 word \<Rightarrow> 64 word stored" where
  "php_driver_time_init cal clock None self = (php_driver_time_now_ns cal clock, Ok ())"
| "php_driver_time_init cal clock (Some (ZLong nanoseconds)) self = time_checked nanoseconds"
| "php_driver_time_init cal clock (Some (ZString nanoseconds)) self =
     (case php_driver_parse_bigint nanoseconds of
        Ok time \<Rightarrow> time_checked time
      | Throw e \<Rightarrow> (bigint_stored nanoseconds, Throw e)
      | UB \<Rightarrow> (self, UB))"
| "php_driver_time_init cal clock (Some nanoseconds) self = (self, Throw InvalidArgumentException)"

definition time_seconds :: "64 word \<Rightarrow> int" where
  "time_seconds self = cdiv (sint self) NANOSECONDS_PER_SECOND"

definition time_from_date_time :: "cass_calendar \<Rightarrow> zval \<Rightarrow> 64 word option" where
  "time_from_date_time cal timestamp =
     (case timestamp of ZLong seconds \<Rightarrow> Some (cass_time_from_epoch cal seconds) | _ \<Rightarrow> None)"

definition time_to_string :: "64 word \<Rightarrow> string" where
  "time_to_string time = spprintf ''%lld'' [sint time]"

section \<open>Timestamp\<close>

text \<open>The arguments that were given, seconds and then microseconds, or the clock. Overflow is undefined.\<close>

definition timestamp_millis :: "int \<Rightarrow> int \<Rightarrow> 64 word outcome" where
  "timestamp_millis seconds microseconds =
     (if \<not> in_int 64 (seconds * 1000) \<or> \<not> in_int 64 (cdiv microseconds 1000 + seconds * 1000) then UB
      else Ok (word_of_int (cdiv microseconds 1000 + seconds * 1000)))"

fun php_driver_timestamp_init :: "64 word \<times> 64 word \<Rightarrow> 64 word list \<Rightarrow> 64 word outcome" where
  "php_driver_timestamp_init clock [] = timestamp_millis (sint (fst clock)) (cdiv (sint (snd clock)) 1000 * 1000)"
| "php_driver_timestamp_init clock [seconds] = timestamp_millis (sint seconds) 0"
| "php_driver_timestamp_init clock (seconds # microseconds # _) = timestamp_millis (sint seconds) (sint microseconds)"

definition timestamp_time :: "64 word \<Rightarrow> int" where
  "timestamp_time self = cdiv (sint self) 1000"

text \<open>Seconds and microseconds among the properties.\<close>

definition php_driver_timestamp_properties :: "64 word \<Rightarrow> 64 word \<times> 64 word" where
  "php_driver_timestamp_properties self =
     (let sec = cdiv (sint self) 1000 in (word_of_int sec, word_of_int ((sint self - sec * 1000) * 1000)))"

definition timestamp_to_date_time :: "64 word \<Rightarrow> string" where
  "timestamp_to_date_time self = spprintf ''@%ld'' [cdiv (sint self) 1000]"

definition timestamp_to_string :: "64 word \<Rightarrow> string" where
  "timestamp_to_string self = spprintf ''%lld'' [sint self]"

section \<open>Duration\<close>

record php_driver_duration =
  dur_months :: "32 word"
  dur_days :: "32 word"
  dur_nanos :: "64 word"

definition in_range :: "int \<Rightarrow> int \<Rightarrow> 64 word \<Rightarrow> 64 word outcome" where
  "in_range lo hi v = (if sint v > hi \<or> sint v < lo then Throw InvalidArgumentException else Ok v)"

text \<open>A double is compared with the bounds converted to doubles and then cast.\<close>

fun get_param :: "zval \<Rightarrow> int \<Rightarrow> int \<Rightarrow> 64 word outcome" where
  "get_param (ZLong long_value) lo hi = in_range lo hi long_value"
| "get_param (ZDouble double_value) lo hi =
     (if dbl_lt (int_to_dbl hi) double_value \<or> dbl_lt double_value (int_to_dbl lo) then Throw InvalidArgumentException
      else bind_outcome (dbl_to_int 64 double_value) (\<lambda>v. Ok (word_of_int v)))"
| "get_param (ZString s) lo hi = bind_outcome (php_driver_parse_bigint s) (in_range lo hi)"
| "get_param (ZObject (ONumeric (NBigint bigint_value))) lo hi = in_range lo hi bigint_value"
| "get_param z lo hi = Throw InvalidArgumentException"

definition php_driver_duration_to_string :: "php_driver_duration \<Rightarrow> string outcome" where
  "php_driver_duration_to_string duration =
     (let months = sint (dur_months duration); days = sint (dur_days duration); nanos = sint (dur_nanos duration)
      in if months = - (2 ^ 31) \<or> days = - (2 ^ 31) \<or> nanos = - (2 ^ 63) then UB
         else Ok ((if months < 0 \<or> days < 0 \<or> nanos < 0 then ''-'' else '''') @
                  spprintf (''%dmo%dd'' @ LL_FORMAT @ ''ns'') [\<bar>months\<bar>, \<bar>days\<bar>, \<bar>nanos\<bar>]))"

definition store_param :: "64 word outcome \<Rightarrow> php_driver_duration \<Rightarrow> (64 word \<Rightarrow> php_driver_duration stored) \<Rightarrow> php_driver_duration stored" where
  "store_param param self k = (case param of Ok v \<Rightarrow> k v | Throw e \<Rightarrow> (self, Throw e) | UB \<Rightarrow> (self, UB))"

definition same_sign :: "php_driver_duration \<Rightarrow> bool" where
  "same_sign d \<longleftrightarrow>
     sint (dur_months d) \<le> 0 \<and> sint (dur_days d) \<le> 0 \<and> sint (dur_nanos d) \<le> 0 \<or>
     0 \<le> sint (dur_months d) \<and> 0 \<le> sint (dur_days d) \<and> 0 \<le> sint (dur_nanos d)"

definition php_driver_duration_init :: "zval \<Rightarrow> zval \<Rightarrow> zval \<Rightarrow> php_driver_duration \<Rightarrow> php_driver_duration stored" where
  "php_driver_duration_init months days nanos self =
     store_param (get_param months (- (2 ^ 31)) (2 ^ 31 - 1)) self (\<lambda>param.
     let self = self\<lparr>dur_months := ucast param\<rparr> in
     store_param (get_param days (- (2 ^ 31)) (2 ^ 31 - 1)) self (\<lambda>param.
     let self = self\<lparr>dur_days := ucast param\<rparr> in
     store_param (get_param nanos (- (2 ^ 63)) (2 ^ 63 - 1)) self (\<lambda>param.
     let self = self\<lparr>dur_nanos := param\<rparr> in
       (self, if same_sign self then Ok () else Throw BadFunctionCallException))))"

definition duration_months :: "php_driver_duration \<Rightarrow> string" where
  "duration_months self = spprintf LL_FORMAT [sint (dur_months self)]"

definition duration_days :: "php_driver_duration \<Rightarrow> string" where
  "duration_days self = spprintf LL_FORMAT [sint (dur_days self)]"

definition duration_nanos :: "php_driver_duration \<Rightarrow> string" where
  "duration_nanos self = spprintf LL_FORMAT [sint (dur_nanos self)]"

section \<open>Texts\<close>

lemma format_lld: "spprintf ''%lld'' [k] = show_int k" "spprintf ''@%ld'' [k] = ''@'' @ show_int k" "spprintf LL_FORMAT [k] = show_int k"
  by (simp_all add: LL_FORMAT_def)

lemma format_duration: "spprintf (''%dmo%dd'' @ LL_FORMAT @ ''ns'') [a, b, c] = show_int a @ ''mo'' @ show_int b @ ''d'' @ show_int c @ ''ns''"
  by (simp add: LL_FORMAT_def)

section \<open>Dates and their text\<close>

text \<open>
  A date made from seconds is the day they are in: \<^verbatim>\<open>seconds\<close> is its midnight, and with the time made from
  the same seconds the C driver gives the seconds back. The text that \<^verbatim>\<open>toDateTime\<close> has parsed and the text of
  \<^verbatim>\<open>__toString\<close> are the same for all dates, because of their formats.
\<close>

theorem date_of_seconds:
  assumes "calendar_lib cal" and "has_date s"
  shows "\<exists>date time. php_driver_date_init cal now (Some (ZLong s)) self = (date, Ok ()) \<and>
    time_from_date_time cal (ZLong s) = Some time \<and> date_from_date_time cal (ZLong s) = Some date \<and>
    sint (date_seconds cal date) = sint s - sint s mod 86400 \<and>
    cass_date_time_to_epoch cal date time = s \<and>
    date_to_date_time cal date (Some time) = ''%lldd'' \<and>
    date_to_string cal date = ''Cassandra'' @ [CHR 0x5C] @ ''Date(seconds=%'' @ [CHR 0x22] @ '' LL_FORMAT '' @ [CHR 0x22] @ ''d)''"
proof -
  note laws = calendar_lib.midnight [OF assms] calendar_lib.date_and_time [OF assms]
  show ?thesis using laws
    by (simp add: time_from_date_time_def date_from_date_time_def date_seconds_def date_to_date_time_def date_to_string_def LL_FORMAT_def)
qed

theorem date_of_seconds_witness:
  "\<exists>date time. php_driver_date_init calendar_ref 0 (Some (ZLong 1234567890)) 0 = (date, Ok ()) \<and>
    sint (date_seconds calendar_ref date) = 1234483200 \<and> cass_date_time_to_epoch calendar_ref date time = 1234567890"
  using date_of_seconds [OF calendar_ref.calendar_lib_axioms, of 1234567890 0 0] by (auto simp: has_date_def)

section \<open>Times of day\<close>

lemma time_checked_cases:
  "time_checked t = (t', r) \<Longrightarrow> t' = t \<and> r = (if 0 \<le> sint t \<and> sint t \<le> NUM_NANOSECONDS_PER_DAY then Ok () else Throw InvalidArgumentException)"
  by (auto simp: time_checked_def)

lemma parse_bigint_outcome: "php_driver_parse_bigint s \<noteq> UB \<and> (php_driver_parse_bigint s = Throw e \<longrightarrow> e \<in> {RangeException, InvalidArgumentException})"
  by (auto simp: php_driver_parse_bigint_def Let_def split: prod.splits)

lemma parse_show_bigint: "php_driver_parse_bigint (show_int (sint v)) = Ok v"
  using sint_in_int [of v] by (simp add: parse_bigint_show_int)

lemma now_in_day:
  assumes "calendar_lib cal" and "0 \<le> sint sec" and "0 \<le> sint nsec" and "sint nsec < 10 ^ 9"
  shows "0 \<le> sint (php_driver_time_now_ns cal (sec, nsec)) \<and> sint (php_driver_time_now_ns cal (sec, nsec)) \<le> NUM_NANOSECONDS_PER_DAY"
proof -
  let ?t = "cass_time_from_epoch cal sec"
  have t: "0 \<le> sint ?t" "sint ?t \<le> 86399 * 10 ^ 9" using calendar_lib.time_of_range [OF assms(1,2)] by blast+
  then have "in_int 64 (sint ?t + sint nsec)" using assms(3,4) by (simp add: in_int_def)
  then have "sint (?t + nsec) = sint ?t + sint nsec"
    using sint_of_int_in [where 'a = 64, of "sint ?t + sint nsec"] by simp
  then show ?thesis using t assms(3,4) by (simp add: php_driver_time_now_ns_def NUM_NANOSECONDS_PER_DAY_def)
qed

lemma seconds_of_day: "0 \<le> sint t \<Longrightarrow> sint t \<le> NUM_NANOSECONDS_PER_DAY \<Longrightarrow> 0 \<le> time_seconds t \<and> time_seconds t \<le> 86399 \<and>
    time_seconds t * 10 ^ 9 \<le> sint t \<and> sint t < (time_seconds t + 1) * 10 ^ 9"
proof -
  assume t: "0 \<le> sint t" "sint t \<le> NUM_NANOSECONDS_PER_DAY"
  have "time_seconds t = sint t div 1000000000"
    using t by (auto simp: time_seconds_def cdiv_def NANOSECONDS_PER_SECOND_def sgn_if)
  then show ?thesis using t unfolding NUM_NANOSECONDS_PER_DAY_def by simp linarith
qed

text \<open>A string that begins with a letter \<^verbatim>\<open>T\<close> is not a number.\<close>

lemma time_text_refused: "php_driver_parse_bigint (CHR ''T'' # s) = Throw InvalidArgumentException"
proof -
  have "digit_val (CHR ''T'') = Some 29" "\<not> isspace (CHR ''T'')" by code_simp+
  then show ?thesis
    by (simp add: php_driver_parse_bigint_def prepare_string_conversion_def strtoul_def cstr_def Let_def)
qed

text \<open>
  C33. The constructor of \<^verbatim>\<open>Time\<close> returns only with a time of the day, whose seconds are those of a day and whose
  text is the plain number of nanoseconds, which makes the same time again; it accepts the integers of a
  day as integers or as text. Otherwise it throws, and undefined behaviour does not occur; but the number
  that it refuses is in the object by then. The class documentation has it differently: a text of the form
  \<^verbatim>\<open>Time(nanoseconds=$nanoseconds)\<close>, which the constructor refuses, and nanoseconds since the last microsecond.
\<close>

theorem time_bounds:
  assumes "calendar_lib cal" and "0 \<le> sint sec" and "0 \<le> sint nsec" and "sint nsec < 10 ^ 9"
  shows "(case php_driver_time_init cal (sec, nsec) arg self of
      (t, Ok _) \<Rightarrow> 0 \<le> sint t \<and> sint t \<le> 86399999999999 \<and>
        0 \<le> time_seconds t \<and> time_seconds t \<le> 86399 \<and>
        time_seconds t * 10 ^ 9 \<le> sint t \<and> sint t < (time_seconds t + 1) * 10 ^ 9 \<and>
        time_to_string t = show_int (sint t) \<and>
        php_driver_time_init cal (sec, nsec) (Some (ZString (time_to_string t))) self = (t, Ok ())
    | (t, Throw e) \<Rightarrow> e \<in> {InvalidArgumentException, RangeException}
    | (t, UB) \<Rightarrow> False) \<and>
    php_driver_time_init cal (sec, nsec) (Some (ZString (show_int k))) self =
      (if 0 \<le> k \<and> k \<le> 86399999999999 then (word_of_int k, Ok ())
       else if in_int 64 k then (word_of_int k, Throw InvalidArgumentException)
       else (bigint_stored (show_int k), Throw RangeException)) \<and>
    php_driver_time_init cal (sec, nsec) (Some (ZLong l)) self =
      (l, if 0 \<le> sint l \<and> sint l \<le> 86399999999999 then Ok () else Throw InvalidArgumentException) \<and>
    snd (php_driver_time_init cal (sec, nsec) (Some (ZString (''Time(nanoseconds='' @ n @ '')''))) self) = Throw InvalidArgumentException"
proof (intro conjI)
  have good: "0 \<le> sint t \<and> sint t \<le> NUM_NANOSECONDS_PER_DAY" if "php_driver_time_init cal (sec, nsec) arg self = (t, Ok u)" for t u
    using that now_in_day [OF assms]
    by (cases "(cal, (sec, nsec), arg, self)" rule: php_driver_time_init.cases)
      (auto simp: time_checked_def split: outcome.splits if_splits)
  have again: "php_driver_time_init cal (sec, nsec) (Some (ZString (time_to_string t))) self = (t, Ok ())"
    if "0 \<le> sint t \<and> sint t \<le> NUM_NANOSECONDS_PER_DAY" for t
    using that by (simp add: time_to_string_def format_lld parse_show_bigint time_checked_def)
  have bad: "e \<in> {InvalidArgumentException, RangeException}" if "php_driver_time_init cal (sec, nsec) arg self = (t, Throw e)" for t e
    using that parse_bigint_outcome
    by (cases "(cal, (sec, nsec), arg, self)" rule: php_driver_time_init.cases)
      (auto simp: time_checked_def split: outcome.splits if_splits)
  have no: "php_driver_time_init cal (sec, nsec) arg self \<noteq> (t, UB)" for t
    using parse_bigint_outcome
    by (cases "(cal, (sec, nsec), arg, self)" rule: php_driver_time_init.cases)
      (auto simp: time_checked_def split: outcome.splits if_splits)
  show "case php_driver_time_init cal (sec, nsec) arg self of
      (t, Ok _) \<Rightarrow> 0 \<le> sint t \<and> sint t \<le> 86399999999999 \<and>
        0 \<le> time_seconds t \<and> time_seconds t \<le> 86399 \<and>
        time_seconds t * 10 ^ 9 \<le> sint t \<and> sint t < (time_seconds t + 1) * 10 ^ 9 \<and>
        time_to_string t = show_int (sint t) \<and>
        php_driver_time_init cal (sec, nsec) (Some (ZString (time_to_string t))) self = (t, Ok ())
    | (t, Throw e) \<Rightarrow> e \<in> {InvalidArgumentException, RangeException}
    | (t, UB) \<Rightarrow> False"
  proof (cases "php_driver_time_init cal (sec, nsec) arg self")
    case (Pair t r)
    show ?thesis
    proof (cases r)
      case (Ok u)
      then have t: "0 \<le> sint t \<and> sint t \<le> NUM_NANOSECONDS_PER_DAY" using good Pair by blast
      then show ?thesis using again [OF t] seconds_of_day [of t] Ok Pair
        by (simp add: NUM_NANOSECONDS_PER_DAY_def) (simp add: time_to_string_def format_lld)
    qed (use bad no Pair in auto)
  qed
qed (auto simp: parse_bigint_show_int time_text_refused time_checked_def NUM_NANOSECONDS_PER_DAY_def sint_of_int_in in_int_def)

theorem time_bounds_witness:
  "php_driver_time_init calendar_ref (1234567890, 5) (Some (ZString (show_int 42))) 0 = (word_of_int 42, Ok ()) \<and>
   php_driver_time_init calendar_ref (1234567890, 5) (Some (ZLong (- 1))) 7 = (- 1, Throw InvalidArgumentException)"
  using time_bounds [OF calendar_ref.calendar_lib_axioms, of 1234567890 5 0 None 42 0]
    time_bounds [OF calendar_ref.calendar_lib_axioms, of 1234567890 5 7 None 42 "- 1"] by simp

section \<open>Timestamps\<close>

lemma split_millis: "cdiv t 1000 * 1000 + cmod t 1000 = t" "\<bar>cmod t 1000\<bar> < 1000"
  using abs_cmod_less [of 1000 t] by (simp_all add: cmod_def)

lemma cdiv_cancel: "cdiv (cmod t 1000 * 1000) 1000 = cmod t 1000"
  using cdiv_mult [of 1000 "cmod t 1000"] by simp

lemma seconds_fit: "in_int 64 t \<Longrightarrow> in_int 64 (cdiv t 1000) \<and> in_int 64 (cdiv t 1000 * 1000)"
  using abs_cdiv [of 1000 t] split_millis [of t] unfolding in_int_def
  by (auto simp: cdiv_def sgn_if split: if_splits)

text \<open>
  The seconds and microseconds among the properties of a timestamp make the same timestamp again,
  for all of them, and \<^verbatim>\<open>time\<close> is that number of seconds. Seconds that do not fit are undefined behaviour.
\<close>

theorem timestamp_properties_make_it:
  "(case php_driver_timestamp_properties t of
      (seconds, microseconds) \<Rightarrow>
        php_driver_timestamp_init clock [seconds, microseconds] = Ok t \<and> sint seconds = timestamp_time t \<and>
        \<bar>sint microseconds\<bar> \<le> 999000) \<and>
   timestamp_to_date_time t = ''@'' @ show_int (timestamp_time t) \<and>
   php_driver_parse_bigint (timestamp_to_string t) = Ok t \<and>
   php_driver_timestamp_init clock [0x7fffffffffffffff] = UB"
proof -
  let ?sec = "cdiv (sint t) 1000" and ?usec = "cmod (sint t) 1000 * 1000"
  have p: "php_driver_timestamp_properties t = (word_of_int ?sec, word_of_int ?usec)"
    by (simp add: php_driver_timestamp_properties_def cmod_def Let_def mult.commute [of 1000] del: of_int_mult of_int_diff)
  have s: "in_int 64 ?sec" "in_int 64 (?sec * 1000)" using seconds_fit [of "sint t"] sint_in_int [of t] by simp_all
  have u: "in_int 64 ?usec" "\<bar>?usec\<bar> \<le> 999000" using split_millis(2) [of "sint t"] by (auto simp: in_int_def)
  have e: "cmod (sint t) 1000 + ?sec * 1000 = sint t" using split_millis(1) [of "sint t"] by linarith
  have i: "in_int 64 (cmod (sint t) 1000 + ?sec * 1000)" unfolding e using sint_in_int [of t] by simp
  have t: "word_of_int (cmod (sint t) 1000 + ?sec * 1000) = t" unfolding e by simp
  have init: "php_driver_timestamp_init clock [word_of_int ?sec, word_of_int ?usec] = Ok t"
    using s u i t by (simp add: timestamp_millis_def sint_of_int_in cdiv_cancel del: of_int_add of_int_mult)
  show ?thesis
    using init s u sint_in_int [of t]
    by (simp add: p timestamp_time_def timestamp_to_date_time_def timestamp_to_string_def format_lld parse_show_bigint
        sint_of_int_in timestamp_millis_def in_int_def del: of_int_mult)
qed

section \<open>Durations\<close>

text \<open>An argument that stands for an integer: an integer, its text or a \<^verbatim>\<open>Bigint\<close>.\<close>

fun int_arg :: "zval \<Rightarrow> int \<Rightarrow> bool" where
  "int_arg (ZLong l) k \<longleftrightarrow> k = sint l"
| "int_arg (ZString s) k \<longleftrightarrow> s = show_int k"
| "int_arg (ZObject (ONumeric (NBigint b))) k \<longleftrightarrow> k = sint b"
| "int_arg _ _ \<longleftrightarrow> False"

lemma get_param_int:
  assumes "int_arg z k" and "\<And>j. lo \<le> j \<Longrightarrow> j \<le> hi \<Longrightarrow> in_int 64 j"
  shows "(if lo \<le> k \<and> k \<le> hi then get_param z lo hi = Ok (word_of_int k)
     else \<exists>e \<in> {InvalidArgumentException, RangeException}. get_param z lo hi = Throw e)"
  using assms
  by (cases "(z, k)" rule: int_arg.cases) (auto simp: in_range_def parse_bigint_show_int sint_of_int_in)

lemma same_sign_of:
  assumes "in_int 32 m" and "in_int 32 d" and "in_int 64 n"
  shows "same_sign \<lparr>dur_months = word_of_int m, dur_days = word_of_int d, dur_nanos = word_of_int n\<rparr> \<longleftrightarrow>
    m \<le> 0 \<and> d \<le> 0 \<and> n \<le> 0 \<or> 0 \<le> m \<and> 0 \<le> d \<and> 0 \<le> n"
  using assms by (simp add: same_sign_def sint_of_int_in)

lemma ucast_of_int: "(ucast (word_of_int k :: 64 word) :: 32 word) = word_of_int k"
  by (simp add: unsigned_of_int word_of_int_eq_iff take_bit_take_bit)

text \<open>
  C34. Three integers make a duration exactly when months and days have 32 bits, nanoseconds 64 and all
  three the same sign. It then has these numbers, and its text is theirs after a minus sign when one is
  negative, unless the negation of the least number of a width is undefined. Numbers out of range
  throw; mixed signs throw, with all three numbers in the object.
\<close>

theorem duration_of_integers:
  assumes "int_arg a m" and "int_arg b d" and "int_arg c n"
  shows "if in_int 32 m \<and> in_int 32 d \<and> in_int 64 n
    then (\<exists>dur. dur = \<lparr>dur_months = word_of_int m, dur_days = word_of_int d, dur_nanos = word_of_int n\<rparr> \<and>
      php_driver_duration_init a b c self =
        (dur, if m \<le> 0 \<and> d \<le> 0 \<and> n \<le> 0 \<or> 0 \<le> m \<and> 0 \<le> d \<and> 0 \<le> n then Ok () else Throw BadFunctionCallException) \<and>
      duration_months dur = show_int m \<and> duration_days dur = show_int d \<and> duration_nanos dur = show_int n \<and>
      php_driver_duration_to_string dur =
        (if m = - (2 ^ 31) \<or> d = - (2 ^ 31) \<or> n = - (2 ^ 63) then UB
         else Ok ((if m < 0 \<or> d < 0 \<or> n < 0 then ''-'' else []) @
                  show_int \<bar>m\<bar> @ ''mo'' @ show_int \<bar>d\<bar> @ ''d'' @ show_int \<bar>n\<bar> @ ''ns'')))
    else \<exists>e \<in> {InvalidArgumentException, RangeException}. snd (php_driver_duration_init a b c self) = Throw e"
proof -
  have r: "in_int 32 k \<longleftrightarrow> - (2 ^ 31) \<le> k \<and> k \<le> 2 ^ 31 - 1" "in_int 64 k \<longleftrightarrow> - (2 ^ 63) \<le> k \<and> k \<le> 2 ^ 63 - 1" for k
    by (auto simp: in_int_def)
  have w: "- (2 ^ 31) \<le> j \<Longrightarrow> j \<le> 2 ^ 31 - 1 \<Longrightarrow> in_int 64 j" "- (2 ^ 63) \<le> j \<Longrightarrow> j \<le> 2 ^ 63 - 1 \<Longrightarrow> in_int 64 j" for j
    by (auto simp: in_int_def)
  note params = get_param_int [of a m "- (2 ^ 31)" "2 ^ 31 - 1", OF assms(1) w(1)]
    get_param_int [of b d "- (2 ^ 31)" "2 ^ 31 - 1", OF assms(2) w(1)] get_param_int [of c n "- (2 ^ 63)" "2 ^ 63 - 1", OF assms(3) w(2)]
  show ?thesis
  proof (cases "in_int 32 m \<and> in_int 32 d \<and> in_int 64 n")
    case True
    then have g: "get_param a (- (2 ^ 31)) (2 ^ 31 - 1) = Ok (word_of_int m)" "get_param b (- (2 ^ 31)) (2 ^ 31 - 1) = Ok (word_of_int d)"
      "get_param c (- (2 ^ 63)) (2 ^ 63 - 1) = Ok (word_of_int n)"
      using params unfolding r by presburger+
    let ?dur = "\<lparr>dur_months = word_of_int m, dur_days = word_of_int d, dur_nanos = word_of_int n\<rparr>"
    have init: "php_driver_duration_init a b c self = (?dur, if same_sign ?dur then Ok () else Throw BadFunctionCallException)"
      unfolding php_driver_duration_init_def g store_param_def outcome.case Let_def ucast_of_int by (cases self) simp
    have sint: "sint (dur_months ?dur) = m" "sint (dur_days ?dur) = d" "sint (dur_nanos ?dur) = n" using True by (simp_all add: sint_of_int_in)
    have texts: "duration_months ?dur = show_int m" "duration_days ?dur = show_int d" "duration_nanos ?dur = show_int n"
      unfolding duration_months_def duration_days_def duration_nanos_def sint format_lld by (rule refl)+
    have whole: "php_driver_duration_to_string ?dur =
        (if m = - (2 ^ 31) \<or> d = - (2 ^ 31) \<or> n = - (2 ^ 63) then UB
         else Ok ((if m < 0 \<or> d < 0 \<or> n < 0 then ''-'' else []) @
                  show_int \<bar>m\<bar> @ ''mo'' @ show_int \<bar>d\<bar> @ ''d'' @ show_int \<bar>n\<bar> @ ''ns''))"
      unfolding php_driver_duration_to_string_def Let_def sint format_duration by (rule refl)
    have same: "same_sign ?dur \<longleftrightarrow> m \<le> 0 \<and> d \<le> 0 \<and> n \<le> 0 \<or> 0 \<le> m \<and> 0 \<le> d \<and> 0 \<le> n"
      using True by (intro same_sign_of) blast+
    show ?thesis unfolding if_P [OF True] using init [unfolded same] texts whole by blast
  next
    case False
    note pm = params(1) [folded r(1)] and pd = params(2) [folded r(1)] and pn = params(3) [folded r(2)]
    have "\<exists>e \<in> {InvalidArgumentException, RangeException}. snd (php_driver_duration_init a b c self) = Throw e"
    proof (cases "in_int 32 m")
      case m: True
      then have gm: "get_param a (- (2 ^ 31)) (2 ^ 31 - 1) = Ok (word_of_int m)" using pm by (simp only: if_True)
      show ?thesis
      proof (cases "in_int 32 d")
        case d: True
        then have gd: "get_param b (- (2 ^ 31)) (2 ^ 31 - 1) = Ok (word_of_int d)" using pd by (simp only: if_True)
        have "\<not> in_int 64 n" using False m d by blast
        with pn obtain e where e: "e \<in> {InvalidArgumentException, RangeException}" "get_param c (- (2 ^ 63)) (2 ^ 63 - 1) = Throw e" by (auto simp only: if_False)
        then have "snd (php_driver_duration_init a b c self) = Throw e"
          unfolding php_driver_duration_init_def store_param_def gm gd by (simp only: outcome.case Let_def snd_conv)
        with e show ?thesis by blast
      next
        case d: False
        with pd obtain e where e: "e \<in> {InvalidArgumentException, RangeException}" "get_param b (- (2 ^ 31)) (2 ^ 31 - 1) = Throw e" by (auto simp only: if_False)
        then have "snd (php_driver_duration_init a b c self) = Throw e"
          unfolding php_driver_duration_init_def store_param_def gm by (simp only: outcome.case Let_def snd_conv)
        with e show ?thesis by blast
      qed
    next
      case m: False
      with pm obtain e where e: "e \<in> {InvalidArgumentException, RangeException}" "get_param a (- (2 ^ 31)) (2 ^ 31 - 1) = Throw e" by (auto simp only: if_False)
      then have "snd (php_driver_duration_init a b c self) = Throw e"
        unfolding php_driver_duration_init_def store_param_def by (simp only: outcome.case snd_conv)
      with e show ?thesis by blast
    qed
    then show ?thesis unfolding if_not_P [OF False] .
  qed
qed

theorem duration_of_integers_witness:
  "(\<exists>dur. php_driver_duration_init (ZLong (- 1)) (ZString (show_int (- 2))) (ZObject (ONumeric (NBigint 0))) dur = (dur, Ok ()) \<and>
     php_driver_duration_to_string dur = Ok (''-'' @ show_int 1 @ ''mo'' @ show_int 2 @ ''d'' @ show_int 0 @ ''ns''))"
  using duration_of_integers [of "ZLong (- 1)" "- 1" "ZString (show_int (- 2))" "- 2" "ZObject (ONumeric (NBigint 0))" 0
      "\<lparr>dur_months = - 1, dur_days = - 2, dur_nanos = 0\<rparr>"]
  by (auto simp: in_int_def)

lemma show_int_abs: "show_int \<bar>k\<bar> = show_nat 10 (nat \<bar>k\<bar>)"
  by (simp add: show_int_def)

lemma if_Ok: "(if c then UB else Ok x) = Ok s \<Longrightarrow> s = x"
  by (simp split: if_splits)

lemma scan_after: "num_end 10 (''mo'' @ s)" "num_end 10 (''d'' @ s)" "num_end 10 (''ns'' @ s)"
  by (simp_all add: num_end_def digit_in_def digit_val_def ctype_defs)

lemma show_nat_prefix:
  assumes "num_end 10 s" and "num_end 10 t" and "show_nat 10 a @ s = show_nat 10 b @ t"
  shows "a = b \<and> s = t"
proof -
  have "(a, s) = scan_digits 10 0 (show_nat 10 a @ s)" "(b, t) = scan_digits 10 0 (show_nat 10 b @ t)"
    using assms(1,2) by (simp_all add: scan_digits_show_nat)
  then show ?thesis unfolding assms(3) by (metis prod.inject)
qed

lemma show_nat_no_minus: "show_nat 10 n @ s \<noteq> CHR ''-'' # t"
proof -
  obtain d cs where "show_nat 10 n = digit_char d # cs" "d < 10" by (rule show_nat_10_cases [of n])
  then show ?thesis using digit_char_props(2) [of d] by simp
qed

text \<open>Durations that their constructor accepts have different texts when they are different.\<close>

theorem duration_text_unique:
  assumes "same_sign d1" and "same_sign d2"
    and "php_driver_duration_to_string d1 = Ok s" and "php_driver_duration_to_string d2 = Ok s"
  shows "d1 = d2"
proof -
  have shown: "s = (if sint (dur_months d) < 0 \<or> sint (dur_days d) < 0 \<or> sint (dur_nanos d) < 0 then ''-'' else []) @
      show_nat 10 (nat \<bar>sint (dur_months d)\<bar>) @ ''mo'' @ show_nat 10 (nat \<bar>sint (dur_days d)\<bar>) @ ''d'' @
      show_nat 10 (nat \<bar>sint (dur_nanos d)\<bar>) @ ''ns''"
    if "php_driver_duration_to_string d = Ok s" for d
    using that unfolding php_driver_duration_to_string_def Let_def format_duration show_int_abs by (rule if_Ok)
  have sign: "(sint (dur_months d1) < 0 \<or> sint (dur_days d1) < 0 \<or> sint (dur_nanos d1) < 0) \<longleftrightarrow>
      (sint (dur_months d2) < 0 \<or> sint (dur_days d2) < 0 \<or> sint (dur_nanos d2) < 0)"
    using shown [OF assms(3)] shown [OF assms(4)] show_nat_no_minus by (auto split: if_splits dest: sym)
  have "show_nat 10 (nat \<bar>sint (dur_months d1)\<bar>) @ ''mo'' @ show_nat 10 (nat \<bar>sint (dur_days d1)\<bar>) @ ''d'' @
      show_nat 10 (nat \<bar>sint (dur_nanos d1)\<bar>) @ ''ns'' =
    show_nat 10 (nat \<bar>sint (dur_months d2)\<bar>) @ ''mo'' @ show_nat 10 (nat \<bar>sint (dur_days d2)\<bar>) @ ''d'' @
      show_nat 10 (nat \<bar>sint (dur_nanos d2)\<bar>) @ ''ns''"
    using shown [OF assms(3)] shown [OF assms(4)] sign by (simp split: if_splits)
  from show_nat_prefix [OF scan_after(1) scan_after(1) this]
  have m: "nat \<bar>sint (dur_months d1)\<bar> = nat \<bar>sint (dur_months d2)\<bar>"
    and rest: "show_nat 10 (nat \<bar>sint (dur_days d1)\<bar>) @ ''d'' @ show_nat 10 (nat \<bar>sint (dur_nanos d1)\<bar>) @ ''ns'' =
      show_nat 10 (nat \<bar>sint (dur_days d2)\<bar>) @ ''d'' @ show_nat 10 (nat \<bar>sint (dur_nanos d2)\<bar>) @ ''ns''" by simp_all
  from show_nat_prefix [OF scan_after(2) scan_after(2) rest]
  have d: "nat \<bar>sint (dur_days d1)\<bar> = nat \<bar>sint (dur_days d2)\<bar>"
    and rest: "show_nat 10 (nat \<bar>sint (dur_nanos d1)\<bar>) @ ''ns'' = show_nat 10 (nat \<bar>sint (dur_nanos d2)\<bar>) @ ''ns''" by simp_all
  from show_nat_prefix [OF scan_after(3) [of "[]", simplified] scan_after(3) [of "[]", simplified] rest]
  have n: "nat \<bar>sint (dur_nanos d1)\<bar> = nat \<bar>sint (dur_nanos d2)\<bar>" by simp
  have abs: "\<bar>sint (dur_months d1)\<bar> = \<bar>sint (dur_months d2)\<bar>" "\<bar>sint (dur_days d1)\<bar> = \<bar>sint (dur_days d2)\<bar>"
    "\<bar>sint (dur_nanos d1)\<bar> = \<bar>sint (dur_nanos d2)\<bar>" using m d n by (simp_all only: eq_nat_nat_iff abs_ge_zero)
  have below: "sint (dur_months d) \<le> 0 \<and> sint (dur_days d) \<le> 0 \<and> sint (dur_nanos d) \<le> 0"
    if "same_sign d" "sint (dur_months d) < 0 \<or> sint (dur_days d) < 0 \<or> sint (dur_nanos d) < 0" for d
    using that unfolding same_sign_def by linarith
  have "sint (dur_months d1) = sint (dur_months d2) \<and> sint (dur_days d1) = sint (dur_days d2) \<and> sint (dur_nanos d1) = sint (dur_nanos d2)"
  proof (cases "sint (dur_months d1) < 0 \<or> sint (dur_days d1) < 0 \<or> sint (dur_nanos d1) < 0")
    case True
    then show ?thesis using below [OF assms(1)] below [OF assms(2)] sign abs by simp
  next
    case False
    then show ?thesis using sign abs by simp
  qed
  then have "dur_months d1 = dur_months d2" "dur_days d1 = dur_days d2" "dur_nanos d1 = dur_nanos d2" by (blast intro: signed_word_eqI)+
  then show ?thesis by (rule php_driver_duration.equality) simp
qed

theorem duration_text_unique_witness:
  "\<exists>s. php_driver_duration_to_string \<lparr>dur_months = 1, dur_days = 2, dur_nanos = 3\<rparr> = Ok s \<and>
     (\<forall>d. same_sign d \<and> php_driver_duration_to_string d = Ok s \<longrightarrow> d = \<lparr>dur_months = 1, dur_days = 2, dur_nanos = 3\<rparr>)"
proof -
  let ?d = "\<lparr>dur_months = 1, dur_days = 2, dur_nanos = 3\<rparr>"
  obtain s where s: "php_driver_duration_to_string ?d = Ok s" by (simp add: php_driver_duration_to_string_def)
  moreover have "same_sign ?d" by (simp add: same_sign_def)
  ultimately show ?thesis using duration_text_unique [of _ ?d s] by blast
qed

end
