(* ===== verification/Type_Parser.thy ===== *)
theory Type_Parser
  imports Cass_Result
begin

text \<open>
  The second half of \<^verbatim>\<open>ext/util/types.c\<close>: the class names that older servers give as the validators of
  columns, such as \<^verbatim>\<open>org.apache.cassandra.db.marshal.ListType(...)\<close>, are parsed into nodes that are linked by
  pointers, and the nodes are turned into type objects.
\<close>

section \<open>Nodes\<close>

text \<open>Nodes are allocated one after the other and refer to each other by their numbers.\<close>

record node_s =
  nd_parent :: "nat option"
  nd_name :: string
  nd_first_child :: "nat option"
  nd_last_child :: "nat option"
  nd_next_sibling :: "nat option"
  nd_prev_sibling :: "nat option"

type_synonym arena = "node_s list"

definition php_driver_parse_node_new :: node_s where
  "php_driver_parse_node_new =
     \<lparr>nd_parent = None, nd_name = [], nd_first_child = None, nd_last_child = None, nd_next_sibling = None, nd_prev_sibling = None\<rparr>"

definition at_node :: "nat \<Rightarrow> (node_s \<Rightarrow> node_s) \<Rightarrow> arena \<Rightarrow> arena" where
  "at_node i f nodes = nodes[i := f (nodes ! i)]"

section \<open>Tokens\<close>

datatype class_token = TkIllegal | TkParenOpen | TkParenClose | TkComma | TkColon | TkName | TkEnd

datatype class_state = StClass | StAfterClass | StAfterParens

definition isletter :: "char \<Rightarrow> bool" where
  "isletter ch \<longleftrightarrow> isalnum ch \<or> ch = CHR ''.''"

text \<open>The kind of the token, its text, and what follows it.\<close>

fun class_next_token :: "string \<Rightarrow> class_token \<times> string \<times> string" where
  "class_next_token [] = (TkEnd, [], [])"
| "class_next_token (c # s) =
     (if isalnum c then (TkName, takeWhile isletter (c # s), dropWhile isletter (c # s))
      else if c = NUL then (TkEnd, [], c # s)
      else if c = CHR ''('' then (TkParenOpen, [c], s)
      else if c = CHR '')'' then (TkParenClose, [c], s)
      else if c = CHR '','' then (TkComma, [c], s)
      else if c = CHR '':'' then (TkColon, [c], s)
      else (TkIllegal, [], c # s))"

section \<open>Class names\<close>

text \<open>A new node after \<open>i\<close>, with the same parent; there is none at the top.\<close>

definition add_sibling :: "arena \<Rightarrow> nat \<Rightarrow> (arena \<times> nat) option" where
  "add_sibling nodes i =
     (case nd_parent (nodes ! i) of
        None \<Rightarrow> None
      | Some p \<Rightarrow>
          let child = length nodes;
              nodes = nodes @ [php_driver_parse_node_new\<lparr>nd_parent := Some p, nd_prev_sibling := Some i\<rparr>];
              nodes = at_node i (nd_next_sibling_update (\<lambda>_. Some child)) nodes;
              nodes = at_node p (nd_last_child_update (\<lambda>_. Some child)) nodes
          in Some (nodes, child))"

definition add_child :: "arena \<Rightarrow> nat \<Rightarrow> arena \<times> nat" where
  "add_child nodes i =
     (let child = length nodes;
          last = nd_last_child (nodes ! i);
          nodes = nodes @ [php_driver_parse_node_new\<lparr>nd_parent := Some i\<rparr>];
          nodes = (if nd_first_child (nodes ! i) = None then at_node i (nd_first_child_update (\<lambda>_. Some child)) nodes else nodes);
          nodes = (case last of Some l \<Rightarrow> at_node l (nd_next_sibling_update (\<lambda>_. Some child)) nodes | None \<Rightarrow> nodes);
          nodes = at_node child (nd_prev_sibling_update (\<lambda>_. last)) nodes;
          nodes = at_node i (nd_last_child_update (\<lambda>_. Some child)) nodes
      in (nodes, child))"

text \<open>
  What one turn of the loop does: go on in a state with a current node, which is null after the closing of a
  parenthesis that was not opened; end; throw, with the nodes freed or not; or read through a null pointer.
\<close>

datatype turn =
    Continue class_state arena "nat option"
  | Finish arena
  | Fail bool
  | Crash

definition sibling_turn :: "arena \<Rightarrow> nat option \<Rightarrow> turn \<Rightarrow> turn" where
  "sibling_turn nodes node no_parent =
     (case node of
        None \<Rightarrow> Crash
      | Some i \<Rightarrow>
          (case add_sibling nodes i of
             None \<Rightarrow> no_parent
           | Some (nodes', child) \<Rightarrow> Continue StClass nodes' (Some child)))"

definition after_parens :: "arena \<Rightarrow> nat option \<Rightarrow> class_token \<Rightarrow> turn" where
  "after_parens nodes node token =
     (case token of
        TkComma \<Rightarrow> sibling_turn nodes node (Fail False)
      | TkParenClose \<Rightarrow>
          (case node of
             None \<Rightarrow> Crash
           | Some i \<Rightarrow>
               (case nd_parent (nodes ! i) of
                  None \<Rightarrow> Fail False
                | Some p \<Rightarrow> Continue StAfterParens nodes (Some p)))
      | TkEnd \<Rightarrow> Finish nodes
      | _ \<Rightarrow> Fail False)"

definition after_class :: "arena \<Rightarrow> nat option \<Rightarrow> class_token \<Rightarrow> turn" where
  "after_class nodes node token =
     (if token = TkParenOpen
      then (case node of None \<Rightarrow> Crash | Some i \<Rightarrow> (case add_child nodes i of (nodes', child) \<Rightarrow> Continue StClass nodes' (Some child)))
      else if token = TkComma \<or> token = TkColon then sibling_turn nodes node Crash
      else if token = TkParenClose
      then (case node of None \<Rightarrow> Crash | Some i \<Rightarrow> Continue StAfterParens nodes (nd_parent (nodes ! i)))
      else if token = TkEnd then Finish nodes
      else Fail True)"

definition in_class :: "arena \<Rightarrow> nat option \<Rightarrow> class_token \<Rightarrow> string \<Rightarrow> turn" where
  "in_class nodes node token token_str =
     (if token \<noteq> TkName then Fail True
      else case node of None \<Rightarrow> Crash | Some i \<Rightarrow> Continue StAfterClass (at_node i (nd_name_update (\<lambda>_. token_str)) nodes) (Some i))"

definition parse_turn :: "class_state \<Rightarrow> arena \<Rightarrow> nat option \<Rightarrow> class_token \<Rightarrow> string \<Rightarrow> turn" where
  "parse_turn state nodes node token token_str =
     (if token = TkIllegal then Fail True
      else case state of
          StAfterParens \<Rightarrow> after_parens nodes node token
        | StAfterClass \<Rightarrow> after_class nodes node token
        | StClass \<Rightarrow> in_class nodes node token token_str)"

lemma next_token_shorter:
  assumes "class_next_token s = (token, token_str, rest)" and "token \<noteq> TkEnd" and "token \<noteq> TkIllegal"
  shows "length rest < length s"
proof (cases s)
  case (Cons c cs)
  have "isletter c" if "isalnum c" using that by (simp add: isletter_def)
  then show ?thesis
    using assms Cons by (auto simp: less_Suc_eq_le length_dropWhile_le split: if_splits)
qed (use assms in simp)

lemma parse_turn_end: "token = TkEnd \<or> token = TkIllegal \<Longrightarrow> parse_turn state nodes node token token_str \<noteq> Continue state' nodes' node'"
  by (auto simp: parse_turn_def after_parens_def after_class_def in_class_def split: class_state.split)

text \<open>The result, and the number of nodes that stay allocated without being returned.\<close>

function parse_loop :: "class_state \<Rightarrow> arena \<Rightarrow> nat option \<Rightarrow> string \<Rightarrow> arena outcome \<times> nat" where
  "parse_loop state nodes node s =
     (case class_next_token s of
        (token, token_str, rest) \<Rightarrow>
          (case parse_turn state nodes node token token_str of
             Continue state' nodes' node' \<Rightarrow> parse_loop state' nodes' node' rest
           | Finish nodes' \<Rightarrow> (Ok nodes', 0)
           | Fail freed \<Rightarrow> (Throw InvalidArgumentException, if freed then 0 else length nodes)
           | Crash \<Rightarrow> (UB, length nodes)))"
  by pat_completeness auto
termination
proof (relation "measure (\<lambda>(state, nodes, node, s). length s)")
  fix state nodes node s token token_str rest state' nodes' node'
  fix x y :: "string"
  fix p :: "string \<times> string"
  assume "(token, p) = class_next_token s" "(token_str, rest) = p"
    and "parse_turn state nodes node token token_str = Continue state' nodes' node'"
  then show "((state', nodes', node', rest), state, nodes, node, s) \<in> measure (\<lambda>(state, nodes, node, s). length s)"
    using next_token_shorter [of s token token_str rest] parse_turn_end [of token state nodes node token_str] by fastforce
qed simp

declare parse_loop.simps [simp del]

definition php_driver_parse_class_name :: "string \<Rightarrow> arena outcome \<times> nat" where
  "php_driver_parse_class_name validator = parse_loop StClass [php_driver_parse_node_new] (Some 0) validator"

section \<open>Types\<close>

text \<open>
  What the functions that read the nodes can see: the name, the first child and the next sibling of a node.
  \<open>fuel\<close> bounds the length of a path.
\<close>

datatype node = NoNode | Node string node node

fun next_sibling :: "node \<Rightarrow> node" where
  "next_sibling NoNode = NoNode"
| "next_sibling (Node name first_child next) = next"

lemma next_sibling_size [simp]: "2 * size (next_sibling n) < Suc (Suc (2 * size n + k))"
  by (cases n) simp_all

fun read_node :: "nat \<Rightarrow> arena \<Rightarrow> nat option \<Rightarrow> node option" where
  "read_node fuel nodes None = Some NoNode"
| "read_node 0 nodes (Some i) = None"
| "read_node (Suc fuel) nodes (Some i) =
     (case (read_node fuel nodes (nd_first_child (nodes ! i)), read_node fuel nodes (nd_next_sibling (nodes ! i))) of
        (Some first_child, Some next) \<Rightarrow> Some (Node (nd_name (nodes ! i)) first_child next)
      | _ \<Rightarrow> None)"

text \<open>\<^verbatim>\<open>strncmp\<close> with the length of the name: any beginning of the class is the same.\<close>

definition same_class :: "string \<Rightarrow> string \<Rightarrow> bool" where
  "same_class class name \<longleftrightarrow> take (length name) (''org.apache.cassandra.db.marshal.'' @ class) = name"

definition marshal_classes :: "(string \<times> cass_value_type) list" where
  "marshal_classes =
     [(''AsciiType'', CASS_ASCII), (''LongType'', CASS_BIGINT), (''ShortType'', CASS_SMALL_INT), (''ByteType'', CASS_TINY_INT),
      (''BytesType'', CASS_BLOB), (''BooleanType'', CASS_BOOLEAN), (''CounterColumnType'', CASS_COUNTER), (''DecimalType'', CASS_DECIMAL),
      (''DurationType'', CASS_DURATION), (''DoubleType'', CASS_DOUBLE), (''FloatType'', CASS_FLOAT), (''InetAddressType'', CASS_INET),
      (''Int32Type'', CASS_INT), (''UTF8Type'', CASS_VARCHAR), (''TimestampType'', CASS_TIMESTAMP), (''DateType'', CASS_TIMESTAMP),
      (''SimpleDateType'', CASS_DATE), (''TimeType'', CASS_TIME), (''UUIDType'', CASS_UUID), (''IntegerType'', CASS_VARINT),
      (''TimeUUIDType'', CASS_TIMEUUID), (''MapType'', CASS_MAP), (''SetType'', CASS_SET), (''ListType'', CASS_LIST),
      (''TupleType'', CASS_TUPLE), (''UserType'', CASS_UDT)]"

definition php_driver_lookup_type :: "string \<Rightarrow> cass_value_type" where
  "php_driver_lookup_type name =
     (case find (\<lambda>(class, _). same_class class name) marshal_classes of Some (_, type) \<Rightarrow> type | None \<Rightarrow> CASS_CUSTOM)"

definition is_wrapper :: "string \<Rightarrow> bool" where
  "is_wrapper name \<longleftrightarrow> same_class ''FrozenType'' name \<or> same_class ''ReversedType'' name \<or> same_class ''CompositeType'' name"

text \<open>The text of a custom class: after its arguments come the siblings of the node as well.\<close>

fun php_driver_node_dump_to :: "node \<Rightarrow> string" where
  "php_driver_node_dump_to NoNode = []"
| "php_driver_node_dump_to (Node name first_child next) =
     name @ (if first_child = NoNode then [] else ''('' @ php_driver_node_dump_to first_child @ '')'') @
     (if next = NoNode then [] else '', '' @ php_driver_node_dump_to next)"

definition hex_value :: "char \<Rightarrow> nat option" where
  "hex_value c =
     (let n = of_char c :: nat
      in if 48 \<le> n \<and> n \<le> 57 then Some (n - 48)
         else if 65 \<le> n \<and> n \<le> 70 then Some (n - 65 + 10)
         else if 97 \<le> n \<and> n \<le> 102 then Some (n - 97 + 10)
         else None)"

fun hex_pairs :: "string \<Rightarrow> string option" where
  "hex_pairs (c # d # s) =
     (case (hex_value c, hex_value d) of
        (Some half0, Some half1) \<Rightarrow> map_option (\<lambda>r. char_of (16 * half0 + half1) # r) (hex_pairs s)
      | _ \<Rightarrow> None)"
| "hex_pairs _ = Some []"

definition php_driver_from_hex :: "string \<Rightarrow> string option" where
  "php_driver_from_hex hex = (if odd (length hex) then None else hex_pairs hex)"

text \<open>A type object whose element types may be missing.\<close>

datatype ptype =
    PUndef
  | PScalar cass_value_type
  | PCollection ptype
  | PMap ptype ptype
  | PSet ptype
  | PCustom string
  | PUdt "string option" "string option" "(string \<times> ptype) list"
  | PTuple "ptype list"

text \<open>
  Whether the library accepts an element type of a tuple and a field of a user type are arguments. A missing
  type is no object, and adding it to a tuple or a user type reads one; a field whose name is no hexadecimal
  text has a null pointer as its name.
\<close>

function php_driver_create_type ::
    "(ptype list \<Rightarrow> ptype \<Rightarrow> bool) \<Rightarrow> ((string \<times> ptype) list \<Rightarrow> string \<Rightarrow> ptype \<Rightarrow> bool) \<Rightarrow> node \<Rightarrow> ptype outcome"
  and php_driver_tuple_from_node ::
    "(ptype list \<Rightarrow> ptype \<Rightarrow> bool) \<Rightarrow> ((string \<times> ptype) list \<Rightarrow> string \<Rightarrow> ptype \<Rightarrow> bool) \<Rightarrow> node \<Rightarrow> ptype list \<Rightarrow> ptype list outcome"
  and user_type_fields ::
    "(ptype list \<Rightarrow> ptype \<Rightarrow> bool) \<Rightarrow> ((string \<times> ptype) list \<Rightarrow> string \<Rightarrow> ptype \<Rightarrow> bool) \<Rightarrow> node \<Rightarrow> (string \<times> ptype) list \<Rightarrow>
     (string \<times> ptype) list outcome"
where
  "php_driver_create_type tadd uadd NoNode = Ok PUndef"
| "php_driver_create_type tadd uadd (Node name first_child next) =
     (if is_wrapper name then php_driver_create_type tadd uadd first_child
      else case php_driver_lookup_type name of
          CASS_CUSTOM \<Rightarrow> Ok (PCustom (php_driver_node_dump_to (Node name first_child next)))
        | CASS_MAP \<Rightarrow>
            bind_outcome (php_driver_create_type tadd uadd first_child) (\<lambda>key_type.
            bind_outcome (php_driver_create_type tadd uadd (next_sibling first_child)) (\<lambda>value_type. Ok (PMap key_type value_type)))
        | CASS_LIST \<Rightarrow> bind_outcome (php_driver_create_type tadd uadd first_child) (\<lambda>value_type. Ok (PCollection value_type))
        | CASS_SET \<Rightarrow> bind_outcome (php_driver_create_type tadd uadd first_child) (\<lambda>value_type. Ok (PSet value_type))
        | CASS_TUPLE \<Rightarrow> bind_outcome (php_driver_tuple_from_node tadd uadd first_child []) (\<lambda>types. Ok (PTuple types))
        | CASS_UDT \<Rightarrow>
            (case first_child of
               NoNode \<Rightarrow> Ok (PUdt None None [])
             | Node keyspace _ NoNode \<Rightarrow> Ok (PUdt (Some keyspace) None [])
             | Node keyspace _ (Node type_name _ field_nodes) \<Rightarrow>
                 bind_outcome (user_type_fields tadd uadd field_nodes []) (\<lambda>types.
                   Ok (PUdt (Some keyspace) (map_option cstr (php_driver_from_hex type_name)) types)))
        | type \<Rightarrow> Ok (PScalar type))"
| "php_driver_tuple_from_node tadd uadd NoNode types = Ok types"
| "php_driver_tuple_from_node tadd uadd (Node name first_child next) types =
     bind_outcome (php_driver_create_type tadd uadd (Node name first_child next)) (\<lambda>sub_type.
       if sub_type = PUndef then UB
       else php_driver_tuple_from_node tadd uadd next (php_driver_type_tuple_add tadd types sub_type))"
| "user_type_fields tadd uadd (Node hex _ (Node name first_child next)) types =
     bind_outcome (php_driver_create_type tadd uadd (Node name first_child next)) (\<lambda>sub_type.
       case php_driver_from_hex hex of
         None \<Rightarrow> UB
       | Some field \<Rightarrow>
           if sub_type = PUndef then UB
           else user_type_fields tadd uadd next (fst (php_driver_type_user_type_add uadd types (cstr field) sub_type)))"
| "user_type_fields tadd uadd (Node _ _ NoNode) types = Ok types"
| "user_type_fields tadd uadd NoNode types = Ok types"
  by pat_completeness auto
termination
proof (relation "measure (\<lambda>x. case x of Inl (_, _, n) \<Rightarrow> 2 * size n | Inr (Inl (_, _, n, _)) \<Rightarrow> 2 * size n + 1 | Inr (Inr (_, _, n, _)) \<Rightarrow> 2 * size n + 1)")
qed auto

fun skip_wrappers :: "bool \<Rightarrow> bool \<Rightarrow> node \<Rightarrow> bool \<times> bool \<times> node" where
  "skip_wrappers reversed frozen NoNode = (reversed, frozen, NoNode)"
| "skip_wrappers reversed frozen (Node name first_child next) =
     (if same_class ''ReversedType'' name then skip_wrappers True frozen first_child
      else if same_class ''FrozenType'' name then skip_wrappers reversed True first_child
      else if same_class ''CompositeType'' name then skip_wrappers reversed frozen first_child
      else (reversed, frozen, Node name first_child next))"

text \<open>Whether the column is reversed, whether it is frozen, and its type.\<close>

definition php_driver_parse_column_type ::
    "(ptype list \<Rightarrow> ptype \<Rightarrow> bool) \<Rightarrow> ((string \<times> ptype) list \<Rightarrow> string \<Rightarrow> ptype \<Rightarrow> bool) \<Rightarrow> string \<Rightarrow>
     (bool \<times> bool \<times> ptype) outcome" where
  "php_driver_parse_column_type tadd uadd validator =
     bind_outcome (fst (php_driver_parse_class_name validator)) (\<lambda>nodes.
       case read_node (Suc (length nodes)) nodes (Some 0) of
         None \<Rightarrow> UB
       | Some root \<Rightarrow>
           (case skip_wrappers False False root of
              (reversed, frozen, node) \<Rightarrow>
                if node = NoNode then Throw InvalidArgumentException
                else bind_outcome (php_driver_create_type tadd uadd node) (\<lambda>type. Ok (reversed, frozen, type))))"

section \<open>The parser on well-formed texts\<close>

text \<open>
  Nodes with the separator before the next sibling, their text, and when the parser accepts it: a colon
  stands only after a name without arguments.
\<close>

datatype cnode = CNil | CNode string cnode bool cnode

fun ctext :: "cnode \<Rightarrow> string" where
  "ctext CNil = []"
| "ctext (CNode name first_child colon next) =
     name @ (if first_child = CNil then [] else ''('' @ ctext first_child @ '')'') @
     (if next = CNil then [] else (if colon then '':'' else '','') @ ctext next)"

definition name_ok :: "string \<Rightarrow> bool" where
  "name_ok name \<longleftrightarrow> name \<noteq> [] \<and> isalnum (hd name) \<and> (\<forall>c \<in> set name. isletter c)"

fun cnode_ok :: "cnode \<Rightarrow> bool" where
  "cnode_ok CNil = True"
| "cnode_ok (CNode name first_child colon next) =
     (name_ok name \<and> (colon \<longrightarrow> first_child = CNil) \<and> cnode_ok first_child \<and> cnode_ok next)"

fun plain :: "cnode \<Rightarrow> node" where
  "plain CNil = NoNode"
| "plain (CNode name first_child colon next) = Node name (plain first_child) (plain next)"

fun has_siblings :: "cnode \<Rightarrow> bool" where
  "has_siblings CNil = False"
| "has_siblings (CNode name first_child colon next) = (next \<noteq> CNil)"

text \<open>A pointer leads to these nodes, each of them later in the arena than the one before it.\<close>

fun leads_to :: "arena \<Rightarrow> nat \<Rightarrow> nat option \<Rightarrow> node \<Rightarrow> bool" where
  "leads_to nodes lo p NoNode = (p = None)"
| "leads_to nodes lo p (Node name first_child next) =
     (\<exists>i. p = Some i \<and> lo \<le> i \<and> i < length nodes \<and> nd_name (nodes ! i) = name \<and>
        leads_to nodes (Suc i) (nd_first_child (nodes ! i)) first_child \<and>
        leads_to nodes (Suc i) (nd_next_sibling (nodes ! i)) next)"

definition core :: "node_s \<Rightarrow> string \<times> nat option \<times> nat option \<times> nat option" where
  "core n = (nd_name n, nd_first_child n, nd_next_sibling n, nd_parent n)"

lemma leads_to_frame:
  assumes "leads_to nodes lo p n" and "length nodes \<le> length nodes'"
    and "\<And>i. lo \<le> i \<Longrightarrow> i < length nodes \<Longrightarrow> core (nodes' ! i) = core (nodes ! i)"
  shows "leads_to nodes' lo p n"
  using assms
proof (induction n arbitrary: lo p)
  case (Node name first_child sibling)
  then obtain i where i: "p = Some i" "lo \<le> i" "i < length nodes" "nd_name (nodes ! i) = name"
    "leads_to nodes (Suc i) (nd_first_child (nodes ! i)) first_child" "leads_to nodes (Suc i) (nd_next_sibling (nodes ! i)) sibling" by auto
  have "core (nodes' ! i) = core (nodes ! i)" using Node.prems(3) i by simp
  moreover have "leads_to nodes' (Suc i) (nd_first_child (nodes ! i)) first_child" "leads_to nodes' (Suc i) (nd_next_sibling (nodes ! i)) sibling"
    using Node.IH(1) [OF i(5)] Node.IH(2) [OF i(6)] Node.prems(2,3) i(2) by auto
  ultimately show ?case using i Node.prems(2) by (auto simp: core_def)
qed simp

lemma leads_to_later: "leads_to nodes lo p n \<Longrightarrow> lo' \<le> lo \<Longrightarrow> leads_to nodes lo' p n"
  by (cases n) auto

lemma leads_to_read: "leads_to nodes lo p n \<Longrightarrow> length nodes - lo < fuel \<Longrightarrow> read_node fuel nodes p = Some n"
proof (induction n arbitrary: lo p fuel)
  case (Node name first_child sibling)
  then obtain i where i: "p = Some i" "lo \<le> i" "i < length nodes" "nd_name (nodes ! i) = name"
    "leads_to nodes (Suc i) (nd_first_child (nodes ! i)) first_child" "leads_to nodes (Suc i) (nd_next_sibling (nodes ! i)) sibling" by auto
  obtain k where k: "fuel = Suc k" "length nodes - Suc i < k" using Node.prems(2) i(2,3) by (cases fuel) auto
  show ?case using Node.IH(1) [OF i(5) k(2)] Node.IH(2) [OF i(6) k(2)] i k by simp
qed simp

definition delimited :: "string \<Rightarrow> bool" where
  "delimited rest \<longleftrightarrow> (case rest of [] \<Rightarrow> True | c # _ \<Rightarrow> \<not> isletter c)"

lemma next_token_name:
  assumes "name_ok name" and "delimited rest"
  shows "class_next_token (name @ rest) = (TkName, name, rest)"
proof -
  obtain c cs where name: "name = c # cs" using assms(1) by (cases name) (auto simp: name_ok_def)
  have "takeWhile isletter (name @ rest) = name" "dropWhile isletter (name @ rest) = rest"
    using assms by (auto simp: name_ok_def delimited_def takeWhile_append dropWhile_append split: list.splits)
  then show ?thesis using assms(1) name by (simp add: name_ok_def del: takeWhile.simps dropWhile.simps)
qed

lemma punctuation:
  "class_next_token (CHR ''('' # s) = (TkParenOpen, ''('', s)" "class_next_token (CHR '')'' # s) = (TkParenClose, '')'', s)"
  "class_next_token (CHR '','' # s) = (TkComma, '','', s)" "class_next_token (CHR '':'' # s) = (TkColon, '':'', s)"
  "\<not> isletter (CHR ''('')" "\<not> isletter (CHR '')'')" "\<not> isletter (CHR '','')" "\<not> isletter (CHR '':'')"
  by (simp_all add: isletter_def isalnum_def isdigit_def isupper_def islower_def)

lemmas turn_defs = parse_turn_def in_class_def after_class_def after_parens_def sibling_turn_def

lemma parse_name:
  assumes "name_ok name" and "delimited rest"
  shows "parse_loop StClass nodes (Some n) (name @ rest) =
    parse_loop StAfterClass (at_node n (nd_name_update (\<lambda>_. name)) nodes) (Some n) rest"
  by (subst parse_loop.simps) (simp add: next_token_name [OF assms] turn_defs)

lemma parse_open:
  "parse_loop StAfterClass nodes (Some n) (CHR ''('' # s) = parse_loop StClass (fst (add_child nodes n)) (Some (length nodes)) s"
  by (subst parse_loop.simps) (simp add: punctuation turn_defs add_child_def Let_def del: class_next_token.simps)

lemma parse_close:
  assumes "state = StAfterClass \<or> state = StAfterParens" and "nd_parent (nodes ! m) = Some n"
  shows "parse_loop state nodes (Some m) (CHR '')'' # s) = parse_loop StAfterParens nodes (Some n) s"
  using assms by (subst parse_loop.simps) (auto simp: punctuation turn_defs simp del: class_next_token.simps)

lemma parse_separator:
  assumes "state = StAfterParens \<and> sep = CHR '','' \<or> state = StAfterClass \<and> (sep = CHR '','' \<or> sep = CHR '':'')"
    and "add_sibling nodes n = Some (nodes', child)"
  shows "parse_loop state nodes (Some n) (sep # s) = parse_loop StClass nodes' (Some child) s"
  using assms by (subst parse_loop.simps) (auto simp: punctuation turn_defs simp del: class_next_token.simps)

definition fresh_node :: "node_s \<Rightarrow> bool" where
  "fresh_node n \<longleftrightarrow> nd_first_child n = None \<and> nd_last_child n = None \<and> nd_next_sibling n = None"

lemma add_child_fresh:
  assumes "n < length nodes" and "nd_first_child (nodes ! n) = None" and "nd_last_child (nodes ! n) = None"
  shows "length (fst (add_child nodes n)) = Suc (length nodes)" and "fresh_node (fst (add_child nodes n) ! length nodes)"
    and "nd_parent (fst (add_child nodes n) ! length nodes) = Some n"
    and "nd_first_child (fst (add_child nodes n) ! n) = Some (length nodes)" and "nd_name (fst (add_child nodes n) ! n) = nd_name (nodes ! n)"
    and "nd_next_sibling (fst (add_child nodes n) ! n) = nd_next_sibling (nodes ! n)"
    and "nd_parent (fst (add_child nodes n) ! n) = nd_parent (nodes ! n)"
    and "i < length nodes \<Longrightarrow> i \<noteq> n \<Longrightarrow> fst (add_child nodes n) ! i = nodes ! i"
  using assms by (auto simp: add_child_def Let_def at_node_def nth_append nth_list_update fresh_node_def php_driver_parse_node_new_def)

lemma add_sibling_fresh:
  assumes "n < length nodes" and "nd_parent (nodes ! n) = Some p" and "p < length nodes" and "p \<noteq> n"
  obtains nodes' where "add_sibling nodes n = Some (nodes', length nodes)" and "length nodes' = Suc (length nodes)"
    and "fresh_node (nodes' ! length nodes)" and "nd_parent (nodes' ! length nodes) = Some p"
    and "nd_next_sibling (nodes' ! n) = Some (length nodes)" and "nd_name (nodes' ! n) = nd_name (nodes ! n)"
    and "nd_first_child (nodes' ! n) = nd_first_child (nodes ! n)" and "nd_parent (nodes' ! n) = Some p"
    and "\<And>i. i < length nodes \<Longrightarrow> i \<noteq> n \<Longrightarrow> core (nodes' ! i) = core (nodes ! i)"
proof -
  let ?nodes' = "fst (the (add_sibling nodes n))"
  show thesis
    by (rule that [of ?nodes'])
      (use assms in \<open>auto simp: add_sibling_def Let_def at_node_def nth_append nth_list_update fresh_node_def php_driver_parse_node_new_def core_def\<close>)
qed

lemma fresh_upd: "i < length nodes \<Longrightarrow> length (at_node i f nodes) = length nodes"
  "i < length nodes \<Longrightarrow> at_node i f nodes ! i = f (nodes ! i)" "j \<noteq> i \<Longrightarrow> at_node i f nodes ! j = nodes ! j"
  by (simp_all add: at_node_def)

text \<open>A list of siblings is parsed at a fresh node: the pointers of other nodes stay, but for the last child of the parent.\<close>

definition parsed_at :: "arena \<Rightarrow> nat \<Rightarrow> cnode \<Rightarrow> string \<Rightarrow> bool" where
  "parsed_at nodes n c rest \<longleftrightarrow>
     (\<exists>nodes' m state. parse_loop StClass nodes (Some n) (ctext c @ rest) = parse_loop state nodes' (Some m) rest \<and>
        (state = StAfterClass \<or> state = StAfterParens) \<and> m < length nodes' \<and> nd_parent (nodes' ! m) = nd_parent (nodes ! n) \<and>
        length nodes \<le> length nodes' \<and> nd_parent (nodes' ! n) = nd_parent (nodes ! n) \<and>
        (\<forall>i < length nodes. i \<noteq> n \<longrightarrow> core (nodes' ! i) = core (nodes ! i)) \<and> leads_to nodes' n (Some n) (plain c))"

text \<open>A name with its arguments.\<close>

lemma parse_arguments:
  assumes ok: "name_ok name" and n: "n < length nodes" "fresh_node (nodes ! n)" and rest: "delimited rest"
    and children: "first_child \<noteq> CNil \<Longrightarrow> (\<And>nodes k rest. k < length nodes \<Longrightarrow> fresh_node (nodes ! k) \<Longrightarrow> delimited rest \<Longrightarrow>
      (\<exists>p. nd_parent (nodes ! k) = Some p \<and> p < length nodes \<and> p \<noteq> k) \<Longrightarrow> parsed_at nodes k first_child rest)"
  shows "\<exists>nodes' state. parse_loop StClass nodes (Some n) (name @ (if first_child = CNil then [] else ''('' @ ctext first_child @ '')'') @ rest) =
      parse_loop state nodes' (Some n) rest \<and> state = (if first_child = CNil then StAfterClass else StAfterParens) \<and>
    length nodes \<le> length nodes' \<and> nd_parent (nodes' ! n) = nd_parent (nodes ! n) \<and> nd_name (nodes' ! n) = name \<and>
    nd_next_sibling (nodes' ! n) = None \<and> (\<forall>i < length nodes. i \<noteq> n \<longrightarrow> core (nodes' ! i) = core (nodes ! i)) \<and>
    leads_to nodes' (Suc n) (nd_first_child (nodes' ! n)) (plain first_child)"
proof (cases "first_child = CNil")
  case True
  let ?nodes1 = "at_node n (nd_name_update (\<lambda>_. name)) nodes"
  show ?thesis
    by (rule exI [of _ ?nodes1], rule exI [of _ StAfterClass])
      (use True n parse_name [OF ok rest] in \<open>simp add: fresh_upd fresh_node_def\<close>)
next
  case False
  let ?nodes1 = "at_node n (nd_name_update (\<lambda>_. name)) nodes"
  let ?nodes2 = "fst (add_child ?nodes1 n)"
  let ?k = "length nodes"
  have n1: "n < length ?nodes1" "nd_first_child (?nodes1 ! n) = None" "nd_last_child (?nodes1 ! n) = None"
    using n by (simp_all add: fresh_upd fresh_node_def)
  have len: "length ?nodes1 = ?k" using n by (simp add: fresh_upd)
  note c = add_child_fresh [OF n1, unfolded len]
  have "parsed_at ?nodes2 ?k first_child (CHR '')'' # rest)"
    by (rule children [OF False]) (use c(1-3) n in \<open>auto simp: delimited_def punctuation\<close>)
  then obtain nodes3 m state where run: "parse_loop StClass ?nodes2 (Some ?k) (ctext first_child @ CHR '')'' # rest) =
      parse_loop state nodes3 (Some m) (CHR '')'' # rest)"
    and state: "state = StAfterClass \<or> state = StAfterParens" and m: "nd_parent (nodes3 ! m) = Some n"
    and len3: "Suc ?k \<le> length nodes3" and frame: "\<forall>i < Suc ?k. i \<noteq> ?k \<longrightarrow> core (nodes3 ! i) = core (?nodes2 ! i)"
    and tree: "leads_to nodes3 ?k (Some ?k) (plain first_child)"
    using c(1,3) unfolding parsed_at_def by auto
  have at: "core (nodes3 ! n) = core (?nodes2 ! n)" using frame n by simp
  have "parse_loop StClass nodes (Some n) (name @ ''('' @ ctext first_child @ '')'' @ rest) = parse_loop StAfterParens nodes3 (Some n) rest"
    using parse_name [OF ok, of "CHR ''('' # ctext first_child @ CHR '')'' # rest" nodes n] run parse_close [OF state m, of rest]
    by (simp add: delimited_def punctuation parse_open len)
  moreover have "nd_parent (nodes3 ! n) = nd_parent (nodes ! n)" "nd_name (nodes3 ! n) = name" "nd_next_sibling (nodes3 ! n) = None"
    "nd_first_child (nodes3 ! n) = Some ?k"
    using at c(4-7) n by (simp_all add: core_def fresh_upd fresh_node_def)
  moreover have "core (nodes3 ! i) = core (nodes ! i)" if "i < ?k" "i \<noteq> n" for i
    using frame that c(8) [of i] by (simp add: fresh_upd)
  moreover have "leads_to nodes3 (Suc n) (Some ?k) (plain first_child)" by (rule leads_to_later [OF tree]) (use n in simp)
  ultimately show ?thesis using False len3 by (intro exI [of _ nodes3] exI [of _ StAfterParens]) simp
qed

lemma parse_ctext:
  assumes "cnode_ok c" and "c \<noteq> CNil" and "n < length nodes" and "fresh_node (nodes ! n)" and "delimited rest"
    and "has_siblings c \<Longrightarrow> \<exists>p. nd_parent (nodes ! n) = Some p \<and> p < length nodes \<and> p \<noteq> n"
  shows "parsed_at nodes n c rest"
  using assms
proof (induction c arbitrary: nodes n rest)
  case (CNode name first_child colon sibling)
  let ?tail = "(if sibling = CNil then [] else (if colon then '':'' else '','') @ ctext sibling) @ rest"
  have "delimited ?tail" using CNode.prems(5) by (auto simp: delimited_def punctuation)
  then obtain nodes1 state where run1: "parse_loop StClass nodes (Some n) (ctext (CNode name first_child colon sibling) @ rest) =
      parse_loop state nodes1 (Some n) ?tail" and state: "state = (if first_child = CNil then StAfterClass else StAfterParens)"
    and len1: "length nodes \<le> length nodes1" and p1: "nd_parent (nodes1 ! n) = nd_parent (nodes ! n)"
    and at1: "nd_name (nodes1 ! n) = name" "nd_next_sibling (nodes1 ! n) = None"
    and frame1: "\<forall>i < length nodes. i \<noteq> n \<longrightarrow> core (nodes1 ! i) = core (nodes ! i)"
    and tree1: "leads_to nodes1 (Suc n) (nd_first_child (nodes1 ! n)) (plain first_child)"
    using parse_arguments [of name n nodes ?tail first_child] CNode.prems(1,3,4) CNode.IH(1) by auto
  have n1: "n < length nodes1" using CNode.prems(3) len1 by simp
  show ?case
  proof (cases "sibling = CNil")
    case True
    have "leads_to nodes1 n (Some n) (plain (CNode name first_child colon sibling))" using True at1 tree1 n1 by simp
    then show ?thesis
      unfolding parsed_at_def using run1 True state p1 len1 frame1 n1
      by (intro exI [of _ nodes1] exI [of _ n] exI [of _ state]) simp
  next
    case False
    obtain p where p: "nd_parent (nodes ! n) = Some p" "p < length nodes" "p \<noteq> n" using CNode.prems(6) False by auto
    let ?k = "length nodes1"
    have pn1: "nd_parent (nodes1 ! n) = Some p" "p < length nodes1" "p \<noteq> n" using p p1 len1 by simp_all
    obtain nodes2 where add: "add_sibling nodes1 n = Some (nodes2, ?k)" and len2: "length nodes2 = Suc ?k"
      and fresh2: "fresh_node (nodes2 ! ?k)" "nd_parent (nodes2 ! ?k) = Some p"
      and at2: "nd_next_sibling (nodes2 ! n) = Some ?k" "nd_name (nodes2 ! n) = nd_name (nodes1 ! n)"
        "nd_first_child (nodes2 ! n) = nd_first_child (nodes1 ! n)" "nd_parent (nodes2 ! n) = Some p"
      and frame2: "\<And>i. i < ?k \<Longrightarrow> i \<noteq> n \<Longrightarrow> core (nodes2 ! i) = core (nodes1 ! i)"
      using add_sibling_fresh [OF n1 pn1] by blast
    have "parsed_at nodes2 ?k sibling rest"
      by (rule CNode.IH(2)) (use CNode.prems False len2 fresh2 p len1 in auto)
    then obtain nodes3 m state' where run3: "parse_loop StClass nodes2 (Some ?k) (ctext sibling @ rest) = parse_loop state' nodes3 (Some m) rest"
      and state': "state' = StAfterClass \<or> state' = StAfterParens" and m: "m < length nodes3" "nd_parent (nodes3 ! m) = Some p"
      and len3: "Suc ?k \<le> length nodes3" and frame3: "\<forall>i < Suc ?k. i \<noteq> ?k \<longrightarrow> core (nodes3 ! i) = core (nodes2 ! i)"
      and tree3: "leads_to nodes3 ?k (Some ?k) (plain sibling)"
      using len2 fresh2 unfolding parsed_at_def by auto
    have "parse_loop state nodes1 (Some n) ?tail = parse_loop StClass nodes2 (Some ?k) (ctext sibling @ rest)"
      using False CNode.prems(1) state parse_separator [OF _ add, of state] by auto
    then have run: "parse_loop StClass nodes (Some n) (ctext (CNode name first_child colon sibling) @ rest) = parse_loop state' nodes3 (Some m) rest"
      using run1 run3 by simp
    have at3: "core (nodes3 ! n) = core (nodes2 ! n)" using frame3 n1 by simp
    have "leads_to nodes3 (Suc n) (nd_first_child (nodes1 ! n)) (plain first_child)"
      by (rule leads_to_frame [OF tree1]) (use len3 frame3 frame2 in auto)
    moreover have "leads_to nodes3 (Suc n) (Some ?k) (plain sibling)" by (rule leads_to_later [OF tree3]) (use n1 in simp)
    ultimately have "leads_to nodes3 n (Some n) (plain (CNode name first_child colon sibling))"
      using at3 at2 at1 n1 len3 by (simp add: core_def)
    moreover have "core (nodes3 ! i) = core (nodes ! i)" if "i < length nodes" "i \<noteq> n" for i
      using that frame1 frame2 frame3 len1 by simp
    ultimately show ?thesis
      unfolding parsed_at_def using run state' m p at3 at2(4) len1 len3
      by (intro exI [of _ nodes3] exI [of _ m] exI [of _ state']) (simp add: core_def)
  qed
qed simp

lemma parse_class_name_text:
  assumes "cnode_ok c" and "c \<noteq> CNil" and "\<not> has_siblings c"
  shows "\<exists>nodes. php_driver_parse_class_name (ctext c) = (Ok nodes, 0) \<and> read_node (Suc (length nodes)) nodes (Some 0) = Some (plain c)"
proof -
  have "parsed_at [php_driver_parse_node_new] 0 c []"
    by (rule parse_ctext) (use assms in \<open>simp_all add: fresh_node_def php_driver_parse_node_new_def delimited_def\<close>)
  then obtain nodes m state where run: "php_driver_parse_class_name (ctext c) = parse_loop state nodes (Some m) []"
    and state: "state = StAfterClass \<or> state = StAfterParens" and tree: "leads_to nodes 0 (Some 0) (plain c)"
    unfolding parsed_at_def php_driver_parse_class_name_def by auto
  have "parse_loop state nodes (Some m) [] = (Ok nodes, 0)"
    using state by (subst parse_loop.simps) (auto simp: turn_defs)
  then show ?thesis using run leads_to_read [OF tree] by (simp del: read_node.simps)
qed

section \<open>Class names of types\<close>

text \<open>The type objects without missing parts.\<close>

fun of_type :: "php_driver_type \<Rightarrow> ptype" where
  "of_type (TScalar t) = PScalar t"
| "of_type (TCollection v) = PCollection (of_type v)"
| "of_type (TMap k v) = PMap (of_type k) (of_type v)"
| "of_type (TSet v) = PSet (of_type v)"
| "of_type (TCustom name) = PCustom name"
| "of_type (TUdt keyspace type_name fs) = PUdt keyspace type_name (map (\<lambda>(n, t). (n, of_type t)) fs)"
| "of_type (TTuple ts) = PTuple (map of_type ts)"

definition marshal :: "string \<Rightarrow> string" where
  "marshal class = ''org.apache.cassandra.db.marshal.'' @ class"

definition scalar_class :: "cass_value_type \<Rightarrow> string" where
  "scalar_class t = (case find (\<lambda>(_, t'). t' = t) marshal_classes of Some (class, _) \<Rightarrow> class | None \<Rightarrow> [])"

fun to_hex :: "string \<Rightarrow> string" where
  "to_hex [] = []"
| "to_hex (c # s) = digit_char (of_char c div 16) # digit_char (of_char c mod 16) # to_hex s"

definition applied :: "string \<Rightarrow> string \<Rightarrow> string" where
  "applied class args = marshal class @ (if args = [] then [] else ''('' @ args @ '')'')"

fun commas :: "string list \<Rightarrow> string" where
  "commas [] = []"
| "commas [s] = s"
| "commas (s # ss) = s @ '','' @ commas ss"

text \<open>
  The class name of a type; \<open>frozen\<close> says which of its parts are wrapped as frozen. Names in a user type are
  in hexadecimal.
\<close>

fun class_text :: "(php_driver_type \<Rightarrow> bool) \<Rightarrow> php_driver_type \<Rightarrow> string" where
  "class_text frozen t =
     (let text =
        (case t of
           TScalar t \<Rightarrow> marshal (scalar_class t)
         | TCollection v \<Rightarrow> applied ''ListType'' (class_text frozen v)
         | TMap k v \<Rightarrow> applied ''MapType'' (commas [class_text frozen k, class_text frozen v])
         | TSet v \<Rightarrow> applied ''SetType'' (class_text frozen v)
         | TCustom name \<Rightarrow> name
         | TUdt keyspace type_name fs \<Rightarrow>
             applied ''UserType'' (commas (the keyspace # to_hex (the type_name) # map (\<lambda>(n, t). to_hex n @ '':'' @ class_text frozen t) fs))
         | TTuple ts \<Rightarrow> applied ''TupleType'' (commas (map (class_text frozen) ts)))
      in if frozen t then applied ''FrozenType'' text else text)"

declare class_text.simps [simp del]

text \<open>
  The types that have such a name: no alias of another scalar type, no custom classes, and user types with a
  keyspace, a name and different names of their fields.
\<close>

definition text_ok :: "string \<Rightarrow> bool" where
  "text_ok s \<longleftrightarrow> s \<noteq> [] \<and> NUL \<notin> set s"

fun has_class :: "php_driver_type \<Rightarrow> bool" where
  "has_class (TScalar t) = (t \<in> snd ` set scalar_types \<and> t \<noteq> CASS_TEXT)"
| "has_class (TCollection v) = has_class v"
| "has_class (TMap k v) = (has_class k \<and> has_class v)"
| "has_class (TSet v) = has_class v"
| "has_class (TCustom name) = False"
| "has_class (TUdt keyspace type_name fs) =
     ((case keyspace of Some ks \<Rightarrow> name_ok ks | None \<Rightarrow> False) \<and> (case type_name of Some nm \<Rightarrow> text_ok nm | None \<Rightarrow> False) \<and>
      distinct (map fst fs) \<and> list_all (\<lambda>(n, t). text_ok n \<and> has_class t) fs)"
| "has_class (TTuple ts) = list_all has_class ts"

text \<open>The nodes of such a name, before the given siblings.\<close>

definition class_node :: "bool \<Rightarrow> string \<Rightarrow> cnode \<Rightarrow> cnode \<Rightarrow> cnode" where
  "class_node frozen name args next =
     (if frozen then CNode (marshal ''FrozenType'') (CNode name args False CNil) False next else CNode name args False next)"

fun type_node :: "(php_driver_type \<Rightarrow> bool) \<Rightarrow> php_driver_type \<Rightarrow> cnode \<Rightarrow> cnode"
  and tuple_nodes :: "(php_driver_type \<Rightarrow> bool) \<Rightarrow> php_driver_type list \<Rightarrow> cnode"
  and field_nodes :: "(php_driver_type \<Rightarrow> bool) \<Rightarrow> (string \<times> php_driver_type) list \<Rightarrow> cnode" where
  "type_node frozen (TScalar t) next = class_node (frozen (TScalar t)) (marshal (scalar_class t)) CNil next"
| "type_node frozen (TCollection v) next = class_node (frozen (TCollection v)) (marshal ''ListType'') (type_node frozen v CNil) next"
| "type_node frozen (TMap k v) next =
     class_node (frozen (TMap k v)) (marshal ''MapType'') (type_node frozen k (type_node frozen v CNil)) next"
| "type_node frozen (TSet v) next = class_node (frozen (TSet v)) (marshal ''SetType'') (type_node frozen v CNil) next"
| "type_node frozen (TCustom name) next = class_node (frozen (TCustom name)) name CNil next"
| "type_node frozen (TUdt keyspace type_name fs) next =
     class_node (frozen (TUdt keyspace type_name fs)) (marshal ''UserType'')
       (CNode (the keyspace) CNil False (CNode (to_hex (the type_name)) CNil False (field_nodes frozen fs))) next"
| "type_node frozen (TTuple ts) next = class_node (frozen (TTuple ts)) (marshal ''TupleType'') (tuple_nodes frozen ts) next"
| "tuple_nodes frozen [] = CNil"
| "tuple_nodes frozen (t # ts) = type_node frozen t (tuple_nodes frozen ts)"
| "field_nodes frozen [] = CNil"
| "field_nodes frozen ((n, t) # fs) = CNode (to_hex n) CNil True (type_node frozen t (field_nodes frozen fs))"

lemma class_node_text:
  "ctext (class_node frozen name args next) =
     (let text = name @ (if args = CNil then [] else ''('' @ ctext args @ '')'')
      in if frozen then marshal ''FrozenType'' @ ''('' @ text @ '')'' else text) @ (if next = CNil then [] else '','' @ ctext next)"
  by (simp add: class_node_def)

lemma class_node_not_nil [simp]: "class_node frozen name args next \<noteq> CNil"
  by (simp add: class_node_def)

lemma type_node_not_nil [simp]: "type_node frozen t next \<noteq> CNil"
  by (cases t) simp_all

lemma tuple_nodes_nil [simp]: "tuple_nodes frozen ts = CNil \<longleftrightarrow> ts = []"
  by (cases ts) simp_all

lemma field_nodes_nil [simp]: "field_nodes frozen fs = CNil \<longleftrightarrow> fs = []"
  by (cases fs) auto

lemma class_text_not_empty [simp]: "has_class t \<Longrightarrow> class_text frozen t \<noteq> []"
  by (subst class_text.simps, cases t) (simp_all add: Let_def applied_def marshal_def)

lemma commas_Cons: "commas (s # ss) = s @ (if ss = [] then [] else '','' @ commas ss)"
  by (cases ss) simp_all

lemma commas_empty [simp]: "(\<forall>s \<in> set ss. s \<noteq> []) \<Longrightarrow> commas ss = [] \<longleftrightarrow> ss = []"
  by (cases ss) (auto simp: commas_Cons)

lemma type_node_text:
  "has_class t \<Longrightarrow> ctext (type_node frozen t next) = class_text frozen t @ (if next = CNil then [] else '','' @ ctext next)"
  "list_all has_class ts \<Longrightarrow> ctext (tuple_nodes frozen ts) = commas (map (class_text frozen) ts)"
  "list_all (\<lambda>(n, t). text_ok n \<and> has_class t) fs \<Longrightarrow>
    ctext (field_nodes frozen fs) = commas (map (\<lambda>(n, t). to_hex n @ '':'' @ class_text frozen t) fs)"
proof (induction frozen t "next" and frozen ts and frozen fs rule: type_node_tuple_nodes_field_nodes.induct)
  case (6 frozen keyspace type_name fs "next")
  then show ?case by (simp add: class_node_text class_text.simps [of _ "TUdt _ _ _"] applied_def commas_Cons Let_def)
next
  case (7 frozen ts "next")
  then have "commas (map (class_text frozen) ts) = [] \<longleftrightarrow> ts = []" by (simp add: list_all_iff)
  then show ?case using 7 by (simp add: class_node_text class_text.simps [of _ "TTuple _"] applied_def Let_def marshal_def)
next
  case (9 frozen t ts)
  then show ?case by (simp add: commas_Cons)
next
  case (11 frozen n t fs)
  then show ?case by (simp add: commas_Cons)
qed (simp_all add: class_node_text class_text.simps [of _ "TScalar _"] class_text.simps [of _ "TCollection _"]
    class_text.simps [of _ "TMap _ _"] class_text.simps [of _ "TSet _"] applied_def commas_Cons Let_def marshal_def)

text \<open>Names.\<close>

lemma scalar_classes: "t \<in> snd ` set scalar_types \<Longrightarrow> t \<noteq> CASS_TEXT \<Longrightarrow>
    (scalar_class t, t) \<in> set marshal_classes \<and> scalar_class t \<noteq> ''DateType''"
  by (auto simp: scalar_types_def scalar_class_def marshal_classes_def)

lemma class_names_ok: "list_all (\<lambda>(class, _). name_ok (marshal class)) marshal_classes"
  by (simp add: marshal_classes_def marshal_def name_ok_def isletter_def ctype_defs)

lemma name_ok_class: "(class, t) \<in> set marshal_classes \<Longrightarrow> name_ok (marshal class)"
  using class_names_ok by (auto simp: list_all_iff)

lemma frozen_class_ok: "name_ok (marshal ''FrozenType'')" "name_ok (marshal ''ReversedType'')"
  by (simp_all add: marshal_def name_ok_def isletter_def ctype_defs)

lemma classes_looked_up:
  "list_all (\<lambda>(class, t). class \<noteq> ''DateType'' \<longrightarrow> php_driver_lookup_type (marshal class) = t \<and> \<not> is_wrapper (marshal class)) marshal_classes"
  by (simp add: marshal_classes_def php_driver_lookup_type_def is_wrapper_def same_class_def marshal_def)

lemma lookup_class: "(class, t) \<in> set marshal_classes \<Longrightarrow> class \<noteq> ''DateType'' \<Longrightarrow> php_driver_lookup_type (marshal class) = t"
  and class_no_wrapper: "(class, t) \<in> set marshal_classes \<Longrightarrow> class \<noteq> ''DateType'' \<Longrightarrow> \<not> is_wrapper (marshal class)"
  using classes_looked_up by (auto simp: list_all_iff)

lemma wrappers: "same_class ''FrozenType'' (marshal ''FrozenType'')" "same_class ''ReversedType'' (marshal ''ReversedType'')"
  "\<not> same_class ''ReversedType'' (marshal ''FrozenType'')" "is_wrapper (marshal ''FrozenType'')"
  by (simp_all add: is_wrapper_def same_class_def marshal_def)

lemma hex_digit: "d < 16 \<Longrightarrow> hex_value (digit_char d) = Some d" "d < 16 \<Longrightarrow> isalnum (digit_char d)"
  by (auto simp: hex_value_def digit_char_def ctype_defs Let_def)

lemma to_hex_name: "s \<noteq> [] \<Longrightarrow> name_ok (to_hex s)"
proof -
  have digit: "isalnum (digit_char (of_char c div 16))" "isalnum (digit_char (of_char c mod 16))" for c
    by (rule hex_digit(2), use nat_of_char_less_256 [of c] in \<open>simp add: div_less_iff_less_mult\<close>)+
  have "\<forall>c \<in> set (to_hex s). isletter c" for s by (induction s) (simp_all add: digit isletter_def)
  then show "s \<noteq> [] \<Longrightarrow> name_ok (to_hex s)" by (cases s) (simp_all add: name_ok_def digit isletter_def)
qed

lemma to_hex_even: "even (length (to_hex s))"
  by (induction s) simp_all

lemma from_to_hex: "php_driver_from_hex (to_hex s) = Some s"
proof -
  have "hex_pairs (to_hex s) = Some s"
  proof (induction s)
    case (Cons c s)
    have "hex_value (digit_char (of_char c div 16)) = Some (of_char c div 16)" "hex_value (digit_char (of_char c mod 16)) = Some (of_char c mod 16)"
      by (rule hex_digit(1), use nat_of_char_less_256 [of c] in \<open>simp add: div_less_iff_less_mult\<close>)+
    moreover have "char_of (16 * (of_char c div 16) + of_char c mod 16 :: nat) = c" by simp
    ultimately show ?case using Cons by simp
  qed simp
  then show ?thesis using to_hex_even by (simp add: php_driver_from_hex_def)
qed

lemma class_in: "(''ListType'', CASS_LIST) \<in> set marshal_classes" "(''MapType'', CASS_MAP) \<in> set marshal_classes"
  "(''SetType'', CASS_SET) \<in> set marshal_classes" "(''TupleType'', CASS_TUPLE) \<in> set marshal_classes"
  "(''UserType'', CASS_UDT) \<in> set marshal_classes"
  by (simp_all add: marshal_classes_def)

lemma class_node_ok: "cnode_ok (class_node frozen name args next) \<longleftrightarrow> name_ok name \<and> cnode_ok args \<and> cnode_ok next"
  by (auto simp: class_node_def frozen_class_ok)

lemma type_node_ok:
  "has_class t \<Longrightarrow> cnode_ok next \<Longrightarrow> cnode_ok (type_node frozen t next)"
  "list_all has_class ts \<Longrightarrow> cnode_ok (tuple_nodes frozen ts)"
  "list_all (\<lambda>(n, t). text_ok n \<and> has_class t) fs \<Longrightarrow> cnode_ok (field_nodes frozen fs)"
proof (induction frozen t "next" and frozen ts and frozen fs rule: type_node_tuple_nodes_field_nodes.induct)
  case (1 frozen t "next")
  then show ?case using scalar_classes [of t] by (auto simp: class_node_ok intro: name_ok_class)
next
  case (6 frozen keyspace type_name fs "next")
  then show ?case
    using name_ok_class [OF class_in(5)] to_hex_name by (auto simp: class_node_ok text_ok_def split: option.splits)
qed (auto simp: class_node_ok text_ok_def to_hex_name name_ok_class [OF class_in(1)] name_ok_class [OF class_in(2)]
    name_ok_class [OF class_in(3)] name_ok_class [OF class_in(4)])

text \<open>Types.\<close>

definition accepts_all :: "(ptype list \<Rightarrow> ptype \<Rightarrow> bool) \<Rightarrow> ((string \<times> ptype) list \<Rightarrow> string \<Rightarrow> ptype \<Rightarrow> bool) \<Rightarrow> bool" where
  "accepts_all tadd uadd \<longleftrightarrow> (\<forall>ts t. tadd ts t) \<and> (\<forall>fs n t. uadd fs n t)"

lemma accepted:
  assumes "accepts_all tadd uadd"
  shows "php_driver_type_tuple_add tadd ts t = ts @ [t]"
    and "n \<notin> fst ` set fs \<Longrightarrow> fst (php_driver_type_user_type_add uadd fs n t) = fs @ [(n, t)]"
  using assms by (simp_all add: accepts_all_def php_driver_type_tuple_add_def php_driver_type_user_type_add_def)

lemma create_class_node:
  "php_driver_create_type tadd uadd (plain (class_node frozen name args next)) =
     php_driver_create_type tadd uadd (Node name (plain args) (if frozen then NoNode else plain next))"
  by (simp add: class_node_def wrappers)

lemma of_type_defined [simp]: "of_type t \<noteq> PUndef" "PUndef \<noteq> of_type t"
  by (cases t; simp)+

lemma plain_type_node: "\<exists>name args. plain (type_node frozen t next) = Node name args (plain next)"
  by (cases t) (simp_all add: class_node_def)

lemma next_sibling_type_node [simp]: "next_sibling (plain (type_node frozen t next)) = plain next"
  using plain_type_node [of frozen t "next"] by auto

lemma create_type_node:
  assumes acc: "accepts_all tadd uadd"
  shows "has_class t \<Longrightarrow> php_driver_create_type tadd uadd (plain (type_node frozen t next)) = Ok (of_type t)"
    and "list_all has_class ts \<Longrightarrow> php_driver_tuple_from_node tadd uadd (plain (tuple_nodes frozen ts)) types = Ok (types @ map of_type ts)"
    and "list_all (\<lambda>(n, t). text_ok n \<and> has_class t) fs \<Longrightarrow> distinct (map fst fs) \<Longrightarrow> fst ` set fs \<inter> fst ` set fields0 = {} \<Longrightarrow>
      user_type_fields tadd uadd (plain (field_nodes frozen fs)) fields0 = Ok (fields0 @ map (\<lambda>(n, t). (n, of_type t)) fs)"
proof (induction frozen t "next" and frozen ts and frozen fs arbitrary: and types and fields0 rule: type_node_tuple_nodes_field_nodes.induct)
  case (1 frozen t "next")
  then have c: "(scalar_class t, t) \<in> set marshal_classes" "scalar_class t \<noteq> ''DateType''" using scalar_classes [of t] by auto
  have "php_driver_lookup_type (marshal (scalar_class t)) = t" "\<not> is_wrapper (marshal (scalar_class t))"
    using lookup_class [OF c] class_no_wrapper [OF c] by auto
  moreover have "t \<in> snd ` set scalar_types" using 1 by simp
  ultimately show ?case by (cases t) (simp_all add: create_class_node scalar_types_def)
next
  case (6 frozen keyspace type_name fs "next")
  obtain ks nm where names: "keyspace = Some ks" "type_name = Some nm" "text_ok nm" using 6(2) by (auto split: option.splits)
  have "user_type_fields tadd uadd (plain (field_nodes frozen fs)) [] = Ok (map (\<lambda>(n, t). (n, of_type t)) fs)"
    using 6 by simp
  moreover have "cstr nm = nm" using names(3) by (simp add: text_ok_def cstr_id)
  ultimately show ?case
    using names by (simp add: create_class_node lookup_class [OF class_in(5)] class_no_wrapper [OF class_in(5)] from_to_hex)
next
  case (9 frozen t ts)
  obtain name args rest where n: "plain (type_node frozen t (tuple_nodes frozen ts)) = Node name args rest" "rest = plain (tuple_nodes frozen ts)"
    using plain_type_node [of frozen t "tuple_nodes frozen ts"] by blast
  have "php_driver_create_type tadd uadd (Node name args rest) = Ok (of_type t)" using 9(2,3) n(1) by (simp del: php_driver_create_type.simps)
  moreover have "php_driver_tuple_from_node tadd uadd rest (types @ [of_type t]) = Ok (types @ of_type t # map of_type ts)"
    using 9(1) [of "types @ [of_type t]"] 9(3) n(2) by simp
  ultimately show ?case using n(1) by (simp add: accepted [OF acc] del: php_driver_create_type.simps)
next
  case (11 frozen n t fs)
  let ?next = "field_nodes frozen fs"
  obtain name args rest where nd: "plain (type_node frozen t ?next) = Node name args rest" "rest = plain ?next"
    using plain_type_node [of frozen t ?next] by blast
  have "php_driver_create_type tadd uadd (Node name args rest) = Ok (of_type t)" using 11(2,3) nd(1) by (simp del: php_driver_create_type.simps)
  moreover have "user_type_fields tadd uadd rest (fields0 @ [(n, of_type t)]) = Ok (fields0 @ (n, of_type t) # map (\<lambda>(n, t). (n, of_type t)) fs)"
    using 11(1) [of "fields0 @ [(n, of_type t)]"] 11(3-5) nd(2) by auto
  moreover have "n \<notin> fst ` set fields0" "cstr n = n" using 11(3,5) by (auto simp: text_ok_def cstr_id)
  ultimately show ?case
    using nd(1) by (simp add: from_to_hex accepted [OF acc] del: php_driver_create_type.simps)
qed (simp_all add: create_class_node lookup_class [OF class_in(1)] class_no_wrapper [OF class_in(1)] lookup_class [OF class_in(2)]
    class_no_wrapper [OF class_in(2)] lookup_class [OF class_in(3)] class_no_wrapper [OF class_in(3)] lookup_class [OF class_in(4)]
    class_no_wrapper [OF class_in(4)])

lemma no_wrapper: "\<not> is_wrapper name \<Longrightarrow> skip_wrappers r f (Node name args next) = (r, f, Node name args next)"
  by (simp add: is_wrapper_def)

text \<open>The wrappers of a type and the node within them.\<close>

lemma skip_type_node:
  assumes "has_class t"
  shows "\<exists>name args rest. \<not> is_wrapper name \<and>
    plain (type_node frozen t next) = (if frozen t then Node (marshal ''FrozenType'') (Node name args NoNode) (plain next) else Node name args rest)"
proof -
  have plain: "plain (class_node (frozen t) name args next) = (if frozen t
      then Node (marshal ''FrozenType'') (Node name (plain args) NoNode) (plain next) else Node name (plain args) (plain next))" for name args
    by (simp add: class_node_def)
  show ?thesis
  proof (cases t)
    case (TScalar s)
    then have c: "(scalar_class s, s) \<in> set marshal_classes" "scalar_class s \<noteq> ''DateType''" using assms scalar_classes [of s] by auto
    then show ?thesis using plain class_no_wrapper [OF c] TScalar by fastforce
  qed (use assms plain class_no_wrapper [OF class_in(1)] class_no_wrapper [OF class_in(2)] class_no_wrapper [OF class_in(3)]
      class_no_wrapper [OF class_in(4)] class_no_wrapper [OF class_in(5)] in fastforce)+
qed

text \<open>
  C31. The class name of a type, with any of its parts frozen and the whole possibly reversed, is parsed to
  that type with these flags; nothing stays allocated.
\<close>

theorem parse_column_type_text:
  assumes "accepts_all tadd uadd" and "has_class t"
  shows "php_driver_parse_column_type tadd uadd
      (if reversed then applied ''ReversedType'' (class_text frozen t) else class_text frozen t) = Ok (reversed, frozen t, of_type t) \<and>
    snd (php_driver_parse_class_name (if reversed then applied ''ReversedType'' (class_text frozen t) else class_text frozen t)) = 0"
proof -
  let ?text = "if reversed then applied ''ReversedType'' (class_text frozen t) else class_text frozen t"
  let ?c = "if reversed then CNode (marshal ''ReversedType'') (type_node frozen t CNil) False CNil else type_node frozen t CNil"
  have ok: "cnode_ok ?c" using type_node_ok(1) [OF assms(2), of CNil frozen] by (simp add: frozen_class_ok)
  have spelled: "ctext ?c = ?text" using type_node_text(1) [OF assms(2), of frozen CNil] assms(2) by (simp add: applied_def)
  have alone: "\<not> has_siblings ?c" by (cases t) (simp_all add: class_node_def)
  have "?c \<noteq> CNil" by simp
  from parse_class_name_text [OF ok this alone, unfolded spelled]
  obtain nodes where nodes: "php_driver_parse_class_name ?text = (Ok nodes, 0)"
      "read_node (Suc (length nodes)) nodes (Some 0) = Some (plain ?c)" by blast
  have created: "php_driver_create_type tadd uadd (plain (type_node frozen t CNil)) = Ok (of_type t)"
    by (rule create_type_node(1) [OF assms])
  obtain name args rest where inner: "\<not> is_wrapper name" and tree: "plain (type_node frozen t CNil) =
      (if frozen t then Node (marshal ''FrozenType'') (Node name args NoNode) NoNode else Node name args rest)"
    using skip_type_node [OF assms(2), of frozen CNil] unfolding plain.simps(1) by blast
  have "php_driver_create_type tadd uadd (Node (marshal ''FrozenType'') x y) = php_driver_create_type tadd uadd x" for x y
    by (simp add: wrappers)
  then have skipped: "\<exists>node. skip_wrappers r False (plain (type_node frozen t CNil)) = (r, frozen t, node) \<and> node \<noteq> NoNode \<and>
      php_driver_create_type tadd uadd node = Ok (of_type t)" for r
    using created tree inner [unfolded is_wrapper_def] by (cases "frozen t") (simp_all add: wrappers del: php_driver_create_type.simps)
  obtain node where "skip_wrappers False False (plain ?c) = (reversed, frozen t, node)" "node \<noteq> NoNode"
      "php_driver_create_type tadd uadd node = Ok (of_type t)"
    using skipped [of reversed] by (cases reversed) (auto simp: wrappers)
  then show ?thesis using nodes by (simp add: php_driver_parse_column_type_def del: read_node.simps)
qed

definition sample_type :: php_driver_type where
  "sample_type = TMap (TScalar CASS_VARCHAR) (TUdt (Some ''ks'') (Some ''addr'') [(''zip'', TScalar CASS_INT), (''tags'', TSet (TScalar CASS_UUID))])"

theorem parse_column_type_text_witness:
  "php_driver_parse_column_type (\<lambda>_ _. True) (\<lambda>_ _ _. True)
     (applied ''ReversedType'' (class_text (\<lambda>t. t = sample_type) sample_type)) = Ok (True, True, of_type sample_type)"
proof -
  have "has_class sample_type"
    by (simp add: sample_type_def scalar_types_def text_ok_def name_ok_def isletter_def ctype_defs)
  then show ?thesis
    using parse_column_type_text [of "\<lambda>_ _. True" "\<lambda>_ _ _. True" sample_type True "\<lambda>t. t = sample_type"] by (simp add: accepts_all_def)
qed

section \<open>Any input\<close>

text \<open>The pointers of the nodes stay within the arena and the path to the top gets shorter.\<close>

definition ptr_ok :: "arena \<Rightarrow> nat \<Rightarrow> bool" where
  "ptr_ok nodes i \<longleftrightarrow>
     (\<forall>j. nd_parent (nodes ! i) = Some j \<longrightarrow> j < i) \<and>
     (\<forall>j. nd_first_child (nodes ! i) = Some j \<longrightarrow> i < j \<and> j < length nodes) \<and>
     (\<forall>j. nd_next_sibling (nodes ! i) = Some j \<longrightarrow> i < j \<and> j < length nodes) \<and>
     (\<forall>j. nd_last_child (nodes ! i) = Some j \<longrightarrow> i < j \<and> j < length nodes)"

definition arena_ok :: "arena \<Rightarrow> bool" where
  "arena_ok nodes \<longleftrightarrow> nodes \<noteq> [] \<and> (\<forall>i < length nodes. ptr_ok nodes i)"

lemma arena_okD: "arena_ok nodes \<Longrightarrow> i < length nodes \<Longrightarrow> ptr_ok nodes i"
  by (simp add: arena_ok_def)

lemma arena_okI: "nodes \<noteq> [] \<Longrightarrow> (\<And>i. i < length nodes \<Longrightarrow> ptr_ok nodes i) \<Longrightarrow> arena_ok nodes"
  by (simp add: arena_ok_def)

text \<open>A node is changed so that a pointer leads to a later one, and a node is added.\<close>

definition points_later :: "arena \<Rightarrow> nat \<Rightarrow> nat option \<Rightarrow> nat option \<Rightarrow> bool" where
  "points_later nodes i old new \<longleftrightarrow> new = old \<or> (\<exists>k. new = Some k \<and> i < k \<and> k < length nodes)"

lemma arena_ok_at:
  assumes ok: "arena_ok nodes" and j: "j < length nodes" and parent: "nd_parent (f (nodes ! j)) = nd_parent (nodes ! j)"
    and ptrs: "points_later nodes j (nd_first_child (nodes ! j)) (nd_first_child (f (nodes ! j)))"
      "points_later nodes j (nd_next_sibling (nodes ! j)) (nd_next_sibling (f (nodes ! j)))"
      "points_later nodes j (nd_last_child (nodes ! j)) (nd_last_child (f (nodes ! j)))"
  shows "arena_ok (at_node j f nodes)"
proof (rule arena_okI)
  show "at_node j f nodes \<noteq> []" using j by (auto simp: at_node_def)
  fix m assume "m < length (at_node j f nodes)"
  then have m: "m < length nodes" by (simp add: at_node_def)
  note pm = arena_okD [OF ok m]
  show "ptr_ok (at_node j f nodes) m"
  proof (cases "m = j")
    case True
    then have at: "at_node j f nodes ! m = f (nodes ! j)" using m by (simp add: at_node_def)
    show ?thesis using pm parent ptrs True unfolding ptr_ok_def at points_later_def by (auto simp: at_node_def)
  next
    case False
    then show ?thesis using pm by (simp add: ptr_ok_def at_node_def)
  qed
qed

lemma arena_ok_append:
  assumes ok: "arena_ok nodes" and new: "nd_parent n = Some j" "j < length nodes" "fresh_node n"
  shows "arena_ok (nodes @ [n])"
proof (rule arena_okI)
  fix m assume m: "m < length (nodes @ [n])"
  show "ptr_ok (nodes @ [n]) m"
  proof (cases "m = length nodes")
    case True
    then show ?thesis using new by (simp add: ptr_ok_def fresh_node_def)
  next
    case False
    then have "m < length nodes" using m by simp
    note pm = arena_okD [OF ok this]
    have at: "(nodes @ [n]) ! m = nodes ! m" using \<open>m < length nodes\<close> by (simp add: nth_append)
    show ?thesis using pm unfolding ptr_ok_def at by auto
  qed
qed simp

lemma at_node_length [simp]: "length (at_node i f nodes) = length nodes"
  by (simp add: at_node_def)

lemma points_later_same [simp]: "points_later nodes i x x"
  by (simp add: points_later_def)

lemma points_later_Some: "i < k \<Longrightarrow> k < length nodes \<Longrightarrow> points_later nodes i x (Some k)"
  by (simp add: points_later_def)

lemma arena_ok_sibling:
  assumes ok: "arena_ok nodes" and i: "i < length nodes" and "add_sibling nodes i = Some (nodes', child)"
  shows "arena_ok nodes' \<and> child < length nodes'"
proof -
  obtain p where p: "nd_parent (nodes ! i) = Some p" using assms(3) by (auto simp: add_sibling_def split: option.splits)
  have "p < i" using arena_okD [OF ok i] p by (simp add: ptr_ok_def)
  let ?n = "php_driver_parse_node_new\<lparr>nd_parent := Some p, nd_prev_sibling := Some i\<rparr>"
  let ?n1 = "at_node i (nd_next_sibling_update (\<lambda>_. Some (length nodes))) (nodes @ [?n])"
  have eqs: "nodes' = at_node p (nd_last_child_update (\<lambda>_. Some (length nodes))) ?n1" "child = length nodes"
    using assms(3) p by (auto simp: add_sibling_def Let_def)
  have "arena_ok (nodes @ [?n])"
    by (rule arena_ok_append [OF ok, where j = p]) (use i \<open>p < i\<close> in \<open>simp_all add: fresh_node_def php_driver_parse_node_new_def\<close>)
  then have "arena_ok ?n1" by (rule arena_ok_at) (use i in \<open>simp_all add: points_later_Some\<close>)
  then have "arena_ok nodes'" unfolding eqs by (rule arena_ok_at) (use i \<open>p < i\<close> in \<open>simp_all add: points_later_Some\<close>)
  then show ?thesis by (simp add: eqs)
qed

lemma arena_ok_child:
  assumes ok: "arena_ok nodes" and i: "i < length nodes"
  shows "arena_ok (fst (add_child nodes i)) \<and> snd (add_child nodes i) < length (fst (add_child nodes i))"
proof -
  let ?k = "length nodes"
  let ?n0 = "nodes @ [php_driver_parse_node_new\<lparr>nd_parent := Some i\<rparr>]"
  define n1 where "n1 = (if nd_first_child (?n0 ! i) = None then at_node i (nd_first_child_update (\<lambda>_. Some ?k)) ?n0 else ?n0)"
  define n2 where "n2 = (case nd_last_child (nodes ! i) of Some l \<Rightarrow> at_node l (nd_next_sibling_update (\<lambda>_. Some ?k)) n1 | None \<Rightarrow> n1)"
  define n3 where "n3 = at_node ?k (nd_prev_sibling_update (\<lambda>_. nd_last_child (nodes ! i))) n2"
  have l: "l < ?k" if "nd_last_child (nodes ! i) = Some l" for l using arena_okD [OF ok i] that by (simp add: ptr_ok_def)
  have ok0: "arena_ok ?n0"
    by (rule arena_ok_append [OF ok, where j = i]) (use i in \<open>simp_all add: fresh_node_def php_driver_parse_node_new_def\<close>)
  have len1: "length n1 = Suc ?k" by (simp add: n1_def)
  have ok1: "arena_ok n1"
    unfolding n1_def using ok0 i by (auto intro!: arena_ok_at points_later_Some)
  have len2: "length n2 = Suc ?k" by (simp add: n2_def len1 split: option.split)
  have ok2: "arena_ok n2"
    unfolding n2_def using ok1 l len1 by (auto intro!: arena_ok_at points_later_Some less_SucI split: option.split)
  have ok3: "arena_ok n3" unfolding n3_def using ok2 len2 by (auto intro!: arena_ok_at)
  have "fst (add_child nodes i) = at_node i (nd_last_child_update (\<lambda>_. Some ?k)) n3 \<and> snd (add_child nodes i) = ?k"
    unfolding add_child_def Let_def n3_def n2_def n1_def by simp
  moreover have "arena_ok (at_node i (nd_last_child_update (\<lambda>_. Some ?k)) n3)"
    using ok3 i len2 by (auto intro!: arena_ok_at points_later_Some simp: n3_def)
  ultimately show ?thesis using len2 by (simp add: n3_def)
qed

text \<open>The current node is one of the arena, or null.\<close>

definition here :: "arena \<Rightarrow> nat option \<Rightarrow> bool" where
  "here nodes node \<longleftrightarrow> (\<forall>i. node = Some i \<longrightarrow> i < length nodes)"

lemma parse_turn_ok:
  assumes ok: "arena_ok nodes" and here: "here nodes node"
  shows "parse_turn state nodes node token token_str = Continue state' nodes' node' \<Longrightarrow> arena_ok nodes' \<and> here nodes' node'"
    and "parse_turn state nodes node token token_str = Finish nodes' \<Longrightarrow> arena_ok nodes'"
proof -
  have parent: "here nodes (nd_parent (nodes ! i))" if "node = Some i" for i
  proof -
    have "i < length nodes" using here that by (simp add: here_def)
    then show ?thesis using arena_okD [OF ok, of i] by (auto simp: here_def ptr_ok_def)
  qed
  have sib: "arena_ok n \<and> here n (Some c)" if "node = Some i" "add_sibling nodes i = Some (n, c)" for i n c
    using arena_ok_sibling [OF ok _ that(2)] here that(1) by (simp add: here_def)
  have kid: "arena_ok (fst (add_child nodes i)) \<and> here (fst (add_child nodes i)) (Some (snd (add_child nodes i)))" if "node = Some i" for i
    using arena_ok_child [OF ok, of i] here that by (simp add: here_def)
  have name: "arena_ok (at_node i (nd_name_update f) nodes)" if "node = Some i" for i f
    by (rule arena_ok_at [OF ok]) (use here that in \<open>simp_all add: here_def\<close>)
  show "parse_turn state nodes node token token_str = Continue state' nodes' node' \<Longrightarrow> arena_ok nodes' \<and> here nodes' node'"
    using ok here parent sib kid name
    by (auto simp: turn_defs here_def split: if_splits class_state.splits class_token.splits option.splits prod.splits)
  show "parse_turn state nodes node token token_str = Finish nodes' \<Longrightarrow> arena_ok nodes'"
    using ok by (auto simp: turn_defs split: if_splits class_state.splits class_token.splits option.splits prod.splits)
qed

lemma parse_loop_ok:
  "arena_ok nodes \<Longrightarrow> here nodes node \<Longrightarrow> parse_loop state nodes node s = (Ok nodes', k) \<Longrightarrow> arena_ok nodes' \<and> k = 0"
proof (induction state nodes node s rule: parse_loop.induct)
  case (1 state nodes node s)
  obtain token token_str rest where t: "class_next_token s = (token, token_str, rest)" by (cases "class_next_token s")
  show ?case
  proof (cases "parse_turn state nodes node token token_str")
    case (Continue state' nodes'' node')
    then show ?thesis
      using 1(1) [OF t [symmetric] refl Continue] 1(4) parse_turn_ok(1) [OF 1(2,3) Continue] parse_loop.simps [of state nodes node s] t by simp
  next
    case (Finish n)
    then show ?thesis using 1(4) parse_turn_ok(2) [OF 1(2,3) Finish] parse_loop.simps [of state nodes node s] t by simp
  qed (use 1(4) parse_loop.simps [of state nodes node s] t in simp_all)
qed

lemma arena_read: "arena_ok nodes \<Longrightarrow> here nodes p \<Longrightarrow> (\<forall>i. p = Some i \<longrightarrow> length nodes - i < fuel) \<Longrightarrow> read_node fuel nodes p \<noteq> None"
proof (induction fuel arbitrary: p)
  case (Suc fuel)
  show ?case
  proof (cases p)
    case (Some i)
    then have i: "i < length nodes" using Suc.prems(2) by (simp add: here_def)
    note ptr = arena_okD [OF Suc.prems(1) i]
    have "read_node fuel nodes q \<noteq> None" if q: "\<And>j. q = Some j \<Longrightarrow> i < j \<and> j < length nodes" for q
    proof (rule Suc.IH [OF Suc.prems(1)])
      show "here nodes q" using q by (auto simp: here_def)
      show "\<forall>j. q = Some j \<longrightarrow> length nodes - j < fuel" using q Suc.prems(3) Some by fastforce
    qed
    then have "read_node fuel nodes (nd_first_child (nodes ! i)) \<noteq> None" "read_node fuel nodes (nd_next_sibling (nodes ! i)) \<noteq> None"
      using ptr unfolding ptr_ok_def by blast+
    then show ?thesis using Some by auto
  qed simp
qed (auto simp: here_def split: option.splits)

text \<open>Separators stand only within parentheses, and no parenthesis is closed that was not opened.\<close>

fun inside :: "nat \<Rightarrow> string \<Rightarrow> bool" where
  "inside d [] = True"
| "inside d (c # s) =
     (if c = CHR ''('' then inside (Suc d) s
      else if c = CHR '')'' then 0 < d \<and> inside (d - 1) s
      else if c = CHR '','' \<or> c = CHR '':'' then 0 < d \<and> inside d s
      else inside d s)"

lemma inside_letters: "inside d (dropWhile isletter s) = inside d s"
  by (induction s) (auto simp: punctuation)

fun depth_after :: "nat \<Rightarrow> class_token \<Rightarrow> nat" where
  "depth_after d TkParenOpen = Suc d"
| "depth_after d TkParenClose = d - 1"
| "depth_after d _ = d"

lemma inside_token:
  assumes "inside d s" and "class_next_token s = (token, token_str, rest)"
  shows "token \<noteq> TkEnd \<Longrightarrow> token \<noteq> TkIllegal \<Longrightarrow> inside (depth_after d token) rest"
    and "token = TkParenClose \<or> token = TkComma \<or> token = TkColon \<Longrightarrow> 0 < d"
proof -
  obtain c cs where s: "s = [] \<or> s = c # cs" by (cases s) auto
  have "inside d (c # cs) \<Longrightarrow> inside d (dropWhile isletter (c # cs))" by (simp only: inside_letters)
  then show "token \<noteq> TkEnd \<Longrightarrow> token \<noteq> TkIllegal \<Longrightarrow> inside (depth_after d token) rest"
    using assms s by (auto simp del: dropWhile.simps split: if_splits)
  show "token = TkParenClose \<or> token = TkComma \<or> token = TkColon \<Longrightarrow> 0 < d"
    using assms s by (auto split: if_splits)
qed

fun depth_is :: "arena \<Rightarrow> nat \<Rightarrow> nat \<Rightarrow> bool" where
  "depth_is nodes 0 i = (nd_parent (nodes ! i) = None)"
| "depth_is nodes (Suc d) i = (\<exists>j. nd_parent (nodes ! i) = Some j \<and> j < i \<and> depth_is nodes d j)"

lemma depth_frame:
  assumes "depth_is nodes d i" and "i < length nodes" and "\<And>j. j < length nodes \<Longrightarrow> nd_parent (nodes' ! j) = nd_parent (nodes ! j)"
  shows "depth_is nodes' d i"
  using assms by (induction d arbitrary: i) fastforce+

lemma add_sibling_parents:
  assumes "add_sibling nodes i = Some (nodes', child)" and "i < length nodes" and "nd_parent (nodes ! i) = Some p" and "p < length nodes"
  shows "j < length nodes \<Longrightarrow> nd_parent (nodes' ! j) = nd_parent (nodes ! j)" and "child = length nodes" and "nd_parent (nodes' ! child) = Some p"
  using assms by (auto simp: add_sibling_def Let_def at_node_def nth_list_update nth_append php_driver_parse_node_new_def)

lemma at_node_parent: "(\<And>x. nd_parent (f x) = nd_parent x) \<Longrightarrow> nd_parent (at_node i f nodes ! j) = nd_parent (nodes ! j)"
  by (cases "i < length nodes"; cases "j = i") (simp_all add: at_node_def not_less list_update_beyond)

lemma add_child_parents:
  "j < length nodes \<Longrightarrow> nd_parent (fst (add_child nodes i) ! j) = nd_parent (nodes ! j)" "snd (add_child nodes i) = length nodes"
  "nd_parent (fst (add_child nodes i) ! length nodes) = Some i"
  by (auto simp: add_child_def Let_def at_node_parent nth_append split: option.split)

lemma parse_turn_depth:
  assumes ok: "arena_ok nodes" and i: "i < length nodes" and d: "depth_is nodes d i"
    and guard: "token = TkParenClose \<or> token = TkComma \<or> token = TkColon \<Longrightarrow> 0 < d"
  shows "parse_turn state nodes (Some i) token token_str \<noteq> Crash"
    and "parse_turn state nodes (Some i) token token_str = Continue state' nodes' node' \<Longrightarrow>
      \<exists>k. node' = Some k \<and> k < length nodes' \<and> depth_is nodes' (depth_after d token) k"
proof -
  have up: "\<exists>j. nd_parent (nodes ! i) = Some j \<and> j < i \<and> depth_is nodes (d - 1) j" if "0 < d"
    using d that by (cases d) auto
  have sib: "\<exists>n c. add_sibling nodes i = Some (n, c) \<and> c < length n \<and> depth_is n d c" if pos: "0 < d"
  proof -
    obtain j where j: "nd_parent (nodes ! i) = Some j" "j < i" "depth_is nodes (d - 1) j" using up [OF pos] by blast
    then obtain n c where nc: "add_sibling nodes i = Some (n, c)" by (simp add: add_sibling_def Let_def)
    have jl: "j < length nodes" using j(2) i by simp
    note par = add_sibling_parents [OF nc i j(1) jl]
    have "depth_is n (d - 1) j" by (rule depth_frame [OF j(3) jl]) (rule par(1))
    then have "depth_is n d c" using par(2,3) jl pos by (cases d) auto
    then show ?thesis using nc arena_ok_sibling [OF ok i nc] by blast
  qed
  show "parse_turn state nodes (Some i) token token_str \<noteq> Crash"
    using guard up sib by (auto simp: turn_defs split: class_state.split class_token.split option.split prod.split)
  have kid: "depth_is (fst (add_child nodes i)) (Suc d) (length nodes)" "length nodes < length (fst (add_child nodes i))"
  proof -
    have "depth_is (fst (add_child nodes i)) d i" by (rule depth_frame [OF d i]) (rule add_child_parents(1))
    then show "depth_is (fst (add_child nodes i)) (Suc d) (length nodes)" using add_child_parents(3) i by auto
    show "length nodes < length (fst (add_child nodes i))" using arena_ok_child [OF ok i] add_child_parents(2) by simp
  qed
  have named: "depth_is (at_node i (nd_name_update f) nodes) d i" for f by (rule depth_frame [OF d i]) (simp add: at_node_parent)
  assume cont: "parse_turn state nodes (Some i) token token_str = Continue state' nodes' node'"
  show "\<exists>k. node' = Some k \<and> k < length nodes' \<and> depth_is nodes' (depth_after d token) k"
  proof (cases "0 < d")
    case True
    obtain j where j: "nd_parent (nodes ! i) = Some j" "j < i" "depth_is nodes (d - Suc 0) j" using up [OF True] by auto
    obtain n c where nc: "add_sibling nodes i = Some (n, c)" "c < length n" "depth_is n d c" using sib [OF True] by blast
    show ?thesis
    proof (cases "token = TkParenClose")
      case close: True
      then have "nodes' = nodes \<and> node' = Some j" using cont j(1) by (cases state) (simp_all add: turn_defs)
      then show ?thesis using j i close by simp
    next
      case False
      then show ?thesis
        using cont nc kid named i add_child_parents(2) [of nodes i]
        by (auto simp: turn_defs split: if_splits class_state.splits class_token.splits prod.splits)
    qed
  next
    case False
    then have "token \<noteq> TkParenClose \<and> token \<noteq> TkComma \<and> token \<noteq> TkColon" using guard by blast
    then show ?thesis
      using cont kid named i add_child_parents(2) [of nodes i]
      by (auto simp: turn_defs split: if_splits class_state.splits class_token.splits prod.splits)
  qed
qed

lemma parse_loop_safe:
  "arena_ok nodes \<Longrightarrow> i < length nodes \<Longrightarrow> depth_is nodes d i \<Longrightarrow> inside d s \<Longrightarrow> fst (parse_loop state nodes (Some i) s) \<noteq> UB"
proof (induction "length s" arbitrary: state nodes i d s rule: less_induct)
  case less
  obtain token token_str rest where t: "class_next_token s = (token, token_str, rest)" by (cases "class_next_token s")
  note turn = parse_turn_depth [OF less.prems(1-3) inside_token(2) [OF less.prems(4) t], where state = state and token_str = token_str]
  show ?case
  proof (cases "parse_turn state nodes (Some i) token token_str")
    case (Continue state' nodes' node')
    then have tok: "token \<noteq> TkEnd" "token \<noteq> TkIllegal" using parse_turn_end by blast+
    obtain k where k: "node' = Some k" "k < length nodes'" "depth_is nodes' (depth_after d token) k" using turn(2) Continue by blast
    have "fst (parse_loop state' nodes' (Some k) rest) \<noteq> UB"
    proof (rule less.hyps)
      show "length rest < length s" by (rule next_token_shorter [OF t tok])
      show "arena_ok nodes'" using parse_turn_ok(1) [OF less.prems(1) _ Continue] less.prems(2) by (simp add: here_def)
      show "inside (depth_after d token) rest" by (rule inside_token(1) [OF less.prems(4) t tok])
    qed (use k in simp_all)
    then show ?thesis using Continue k t parse_loop.simps [of state nodes "Some i" s] by simp
  next
    case Crash
    then show ?thesis using turn(1) by blast
  qed (use t parse_loop.simps [of state nodes "Some i" s] in simp_all)
qed

lemma parse_loop_throws: "parse_loop state nodes node s = (Throw e, k) \<Longrightarrow> e = InvalidArgumentException"
proof (induction state nodes node s rule: parse_loop.induct)
  case (1 state nodes node s)
  obtain token token_str rest where t: "class_next_token s = (token, token_str, rest)" by (cases "class_next_token s")
  show ?case
    using 1(2) 1(1) [OF t [symmetric] refl] parse_loop.simps [of state nodes node s] t
    by (cases "parse_turn state nodes node token token_str") simp_all
qed

text \<open>
  C32. On every input the parser of class names ends. With a result it leaves nothing else allocated, and the
  nodes it returns are a finite tree that can be read; it reads through no null pointer when separators
  stand within parentheses and only open parentheses are closed. Otherwise it does: a comma after the first
  class, or anything after a second closing parenthesis, is enough.
\<close>

theorem parse_class_name_any:
  "(case php_driver_parse_class_name validator of
      (Ok nodes, left) \<Rightarrow> left = 0 \<and> (\<exists>root. read_node (Suc (length nodes)) nodes (Some 0) = Some root)
    | (Throw e, left) \<Rightarrow> e = InvalidArgumentException
    | (UB, left) \<Rightarrow> \<not> inside 0 validator) \<and>
   fst (php_driver_parse_class_name ''a,b'') = UB \<and> fst (php_driver_parse_class_name ''a(b)),'') = Throw InvalidArgumentException \<and>
   fst (php_driver_parse_class_name ''a))'') = UB"
proof (intro conjI)
  have start: "arena_ok [php_driver_parse_node_new]" "depth_is [php_driver_parse_node_new] 0 0"
    by (simp_all add: arena_ok_def ptr_ok_def php_driver_parse_node_new_def)
  have ok: "arena_ok nodes \<and> k = 0" if "php_driver_parse_class_name validator = (Ok nodes, k)" for nodes k
    using parse_loop_ok [OF start(1), of "Some 0" StClass validator nodes k] that by (simp add: php_driver_parse_class_name_def here_def)
  have safe: "inside 0 validator \<Longrightarrow> fst (php_driver_parse_class_name validator) \<noteq> UB"
    unfolding php_driver_parse_class_name_def by (rule parse_loop_safe [OF start(1) _ start(2)]) simp_all
  have read: "\<exists>root. read_node (Suc (length nodes)) nodes (Some 0) = Some root" if "arena_ok nodes" for nodes
    using arena_read [OF that, of "Some 0" "Suc (length nodes)"] that by (auto simp: here_def arena_ok_def simp del: read_node.simps)
  have throws: "e = InvalidArgumentException" if "php_driver_parse_class_name validator = (Throw e, k)" for e k
    using that parse_loop_throws unfolding php_driver_parse_class_name_def by blast
  show "case php_driver_parse_class_name validator of
      (Ok nodes, left) \<Rightarrow> left = 0 \<and> (\<exists>root. read_node (Suc (length nodes)) nodes (Some 0) = Some root)
    | (Throw e, left) \<Rightarrow> e = InvalidArgumentException
    | (UB, left) \<Rightarrow> \<not> inside 0 validator"
    using ok safe read throws by (auto simp del: read_node.simps split: prod.split outcome.split)
qed (simp_all add: php_driver_parse_class_name_def parse_loop.simps turn_defs isletter_def ctype_defs add_sibling_def add_child_def at_node_def
    php_driver_parse_node_new_def Let_def)

section \<open>Names that are not what they seem\<close>

text \<open>
  Any beginning of a class name is taken for the first class with it; the text of a custom class has the
  arguments after it as well; a wrapper without an argument in a tuple is no type to add.
\<close>

lemma prefix_is_ascii: "php_driver_lookup_type ''org'' = CASS_ASCII"
  by (simp add: php_driver_lookup_type_def marshal_classes_def same_class_def)

lemma custom_takes_siblings:
  "php_driver_create_type tadd uadd
     (Node (marshal ''MapType'') (Node ''a.B'' NoNode (Node (marshal ''Int32Type'') NoNode NoNode)) NoNode) =
   Ok (PMap (PCustom (''a.B, '' @ marshal ''Int32Type'')) (PScalar CASS_INT))"
  by (simp add: php_driver_lookup_type_def marshal_classes_def same_class_def is_wrapper_def marshal_def)

lemma empty_wrapper_in_tuple:
  "php_driver_create_type tadd uadd (Node (marshal ''TupleType'') (Node (marshal ''FrozenType'') NoNode NoNode) NoNode) = UB"
  by (simp add: php_driver_lookup_type_def marshal_classes_def same_class_def is_wrapper_def marshal_def)

end
