(* ===== verification/Value_Objects.thy ===== *)
theory Value_Objects
  imports Time_Values Inet Type_Parser
begin

text \<open>
  UUIDs, their generators, blobs and addresses: \<^verbatim>\<open>ext/src/Uuid.c\<close>, \<^verbatim>\<open>Timeuuid.c\<close>, \<^verbatim>\<open>Blob.c\<close>, \<^verbatim>\<open>Inet.c\<close>,
  \<^verbatim>\<open>ext/util/uuid_gen.c\<close> and \<^verbatim>\<open>bytes.c\<close>; and the handlers that compare and hash the objects of the value
  classes, with the tables into which a build for PHP 8.3 puts them: no class has both, so objects cannot be
  the keys of sets and maps as the contract of the theory \<open>Hashing\<close> asks.
\<close>

section \<open>Generators of UUIDs\<close>

text \<open>
  The globals of the extension and the generators that exist, each with the process that made it. A
  process that is forked has a copy of both under its own number.
\<close>

record uuid_world =
  uuid_gen :: "nat option"
  uuid_gen_pid :: int
  generators :: "nat \<Rightarrow> int option"
  next_generator :: nat

definition php_driver_ginit :: uuid_world where
  "php_driver_ginit = \<lparr>uuid_gen = None, uuid_gen_pid = 0, generators = (\<lambda>_. None), next_generator = 0\<rparr>"

definition generator_freed :: "nat \<Rightarrow> uuid_world \<Rightarrow> uuid_world outcome" where
  "generator_freed g w = (if generators w g = None then UB else Ok (w\<lparr>generators := (generators w)(g := None)\<rparr>))"

definition generator_made :: "int \<Rightarrow> uuid_world \<Rightarrow> nat \<times> uuid_world" where
  "generator_made pid w =
     (next_generator w, w\<lparr>generators := (generators w)(next_generator w \<mapsto> pid), next_generator := Suc (next_generator w)\<rparr>)"

definition get_uuid_gen :: "int \<Rightarrow> uuid_world \<Rightarrow> (nat option \<times> uuid_world) outcome" where
  "get_uuid_gen pid w =
     (if uuid_gen_pid w \<noteq> pid then
        bind_outcome (case uuid_gen w of Some g \<Rightarrow> generator_freed g w | None \<Rightarrow> Ok w) (\<lambda>w.
          case generator_made pid w of
            (g, w) \<Rightarrow> Ok (Some g, w\<lparr>uuid_gen := Some g, uuid_gen_pid := pid\<rparr>))
      else Ok (uuid_gen w, w))"

definition php_driver_gshutdown :: "uuid_world \<Rightarrow> uuid_world outcome" where
  "php_driver_gshutdown w = (case uuid_gen w of Some g \<Rightarrow> generator_freed g w | None \<Rightarrow> Ok w)"

section \<open>UUIDs\<close>

record cass_uuid =
  time_and_version :: "64 word"
  clock_seq_and_node :: "64 word"

text \<open>
  The functions of the C driver. Text that is no UUID leaves an unknown value in the out parameter; a
  generator makes its UUIDs one after the other, which the first argument counts.
\<close>

record uuid_lib =
  cass_uuid_from_string :: "string \<Rightarrow> cass_uuid \<Rightarrow> bool \<times> cass_uuid"
  cass_uuid_string :: "cass_uuid \<Rightarrow> string"
  cass_uuid_version :: "cass_uuid \<Rightarrow> nat"
  cass_uuid_timestamp :: "cass_uuid \<Rightarrow> 64 word"
  cass_uuid_gen_random :: "nat \<Rightarrow> nat \<Rightarrow> cass_uuid"
  cass_uuid_gen_time :: "nat \<Rightarrow> nat \<Rightarrow> cass_uuid"
  cass_uuid_gen_from_time :: "nat \<Rightarrow> 64 word \<Rightarrow> nat \<Rightarrow> cass_uuid"

locale uuids =
  fixes lib :: uuid_lib
  assumes from_text: "cass_uuid_from_string lib (cass_uuid_string lib u) u' = (True, u)"
    and no_nul: "NUL \<notin> set (cass_uuid_string lib u)"
    and time_version: "cass_uuid_version lib (cass_uuid_gen_time lib g n) = 1"
    and from_time_version: "cass_uuid_version lib (cass_uuid_gen_from_time lib g t n) = 1"

text \<open>Without a generator the value stays as it is. The result has the generator that was used.\<close>

definition generate :: "(nat \<Rightarrow> cass_uuid) \<Rightarrow> int \<Rightarrow> cass_uuid \<Rightarrow> uuid_world \<Rightarrow> (cass_uuid \<times> uuid_world) outcome" where
  "generate gen pid out w =
     bind_outcome (get_uuid_gen pid w) (\<lambda>(g, w). case g of None \<Rightarrow> Ok (out, w) | Some g \<Rightarrow> Ok (gen g, w))"

definition php_driver_uuid_generate_random :: "uuid_lib \<Rightarrow> nat \<Rightarrow> int \<Rightarrow> cass_uuid \<Rightarrow> uuid_world \<Rightarrow> (cass_uuid \<times> uuid_world) outcome" where
  "php_driver_uuid_generate_random lib n = generate (\<lambda>g. cass_uuid_gen_random lib g n)"

definition php_driver_uuid_generate_time :: "uuid_lib \<Rightarrow> nat \<Rightarrow> int \<Rightarrow> cass_uuid \<Rightarrow> uuid_world \<Rightarrow> (cass_uuid \<times> uuid_world) outcome" where
  "php_driver_uuid_generate_time lib n = generate (\<lambda>g. cass_uuid_gen_time lib g n)"

definition php_driver_uuid_generate_from_time ::
    "uuid_lib \<Rightarrow> nat \<Rightarrow> 64 word \<Rightarrow> int \<Rightarrow> cass_uuid \<Rightarrow> uuid_world \<Rightarrow> (cass_uuid \<times> uuid_world) outcome" where
  "php_driver_uuid_generate_from_time lib n timestamp = generate (\<lambda>g. cass_uuid_gen_from_time lib g timestamp n)"

text \<open>The object after the constructor, its outcome, and the generators.\<close>

type_synonym uuid_made = "cass_uuid \<times> unit outcome \<times> uuid_world"

definition generated :: "(cass_uuid \<times> uuid_world) outcome \<Rightarrow> cass_uuid \<Rightarrow> uuid_world \<Rightarrow> uuid_made" where
  "generated m self w = (case m of Ok (u, w) \<Rightarrow> (u, Ok (), w) | Throw e \<Rightarrow> (self, Throw e, w) | UB \<Rightarrow> (self, UB, w))"

definition php_driver_uuid_init :: "uuid_lib \<Rightarrow> nat \<Rightarrow> int \<Rightarrow> string option \<Rightarrow> cass_uuid \<Rightarrow> uuid_world \<Rightarrow> uuid_made" where
  "php_driver_uuid_init lib n pid arg self w =
     (case arg of
        None \<Rightarrow> generated (php_driver_uuid_generate_random lib n pid self w) self w
      | Some s \<Rightarrow>
          (case cass_uuid_from_string lib (cstr s) self of
             (ok, u) \<Rightarrow> (u, if ok then Ok () else Throw InvalidArgumentException, w)))"

definition php_driver_timeuuid_init :: "uuid_lib \<Rightarrow> nat \<Rightarrow> int \<Rightarrow> zval option \<Rightarrow> cass_uuid \<Rightarrow> uuid_world \<Rightarrow> uuid_made" where
  "php_driver_timeuuid_init lib n pid arg self w =
     (case arg of
        None \<Rightarrow> generated (php_driver_uuid_generate_time lib n pid self w) self w
      | Some (ZLong l) \<Rightarrow>
          if sint l < 0 then (self, Throw InvalidArgumentException, w)
          else generated (php_driver_uuid_generate_from_time lib n l pid self w) self w
      | Some (ZString s) \<Rightarrow>
          (case cass_uuid_from_string lib (cstr s) self of
             (ok, u) \<Rightarrow>
               if \<not> ok then (u, Throw InvalidArgumentException, w)
               else if cass_uuid_version lib u \<noteq> 1 then (u, Throw InvalidArgumentException, w)
               else (u, Ok (), w))
      | Some _ \<Rightarrow> (self, Throw InvalidArgumentException, w))"

definition timeuuid_time :: "uuid_lib \<Rightarrow> cass_uuid \<Rightarrow> 64 word" where
  "timeuuid_time lib self = cass_uuid_timestamp lib self div 1000"

definition timeuuid_to_date_time :: "uuid_lib \<Rightarrow> cass_uuid \<Rightarrow> string" where
  "timeuuid_to_date_time lib self = spprintf ''@%ld'' [sint (cass_uuid_timestamp lib self div 1000)]"

section \<open>Blobs and addresses\<close>

definition hex_str :: string where "hex_str = ''0123456789abcdef''"

text \<open>The length is an \<^verbatim>\<open>int\<close>, whose overflow is undefined; a negative length has no buffer.\<close>

definition php_driver_bytes_to_hex :: "byte list \<Rightarrow> int \<Rightarrow> string outcome" where
  "php_driver_bytes_to_hex bin len =
     (if len < 0 \<or> \<not> in_int 32 (len * 2 + 3) then UB
      else Ok (''0x'' @ concat (map (\<lambda>b. [hex_str ! (unat b div 16), hex_str ! (unat b mod 16)]) (take (nat len) bin))))"

text \<open>The data, and the number of buffers that are lost: the one of an object that is constructed again.\<close>

definition php_driver_blob_init :: "string \<Rightarrow> byte list option \<Rightarrow> byte list option \<times> nat" where
  "php_driver_blob_init s self = (Some (map of_char s), case self of None \<Rightarrow> 0 | Some _ \<Rightarrow> 1)"

definition blob_bytes :: "byte list \<Rightarrow> string outcome" where
  "blob_bytes self = php_driver_bytes_to_hex self (sint (word_of_nat (length self) :: 32 word))"

definition blob_to_binary_string :: "byte list \<Rightarrow> string" where
  "blob_to_binary_string self = map (\<lambda>b. char_of (unat b)) self"

definition php_driver_inet_init :: "string \<Rightarrow> byte list outcome" where
  "php_driver_inet_init s = php_driver_parse_ip_address s"

definition inet_address :: "byte list \<Rightarrow> string" where
  "inet_address self = php_driver_format_address self"

section \<open>Handlers\<close>

text \<open>
  The driver builds for PHP 8.3 and later only (\<^verbatim>\<open>php_driver.h\<close>). The handlers here are those that such a build
  puts into the handler tables of the value classes: the comparison of six classes and the hash of four.
\<close>

definition php_driver_time_compare :: "obj \<Rightarrow> obj \<Rightarrow> int" where
  "php_driver_time_compare obj1 obj2 =
     (if obj_class obj1 \<noteq> obj_class obj2 then 1
      else case (obj1, obj2) of (OTime t1, OTime t2) \<Rightarrow> cmp3 (sint t1) (sint t2) | _ \<Rightarrow> 1)"

definition php_driver_timestamp_compare :: "obj \<Rightarrow> obj \<Rightarrow> int" where
  "php_driver_timestamp_compare obj1 obj2 =
     (if obj_class obj1 \<noteq> obj_class obj2 then 1
      else case (obj1, obj2) of (OTimestamp t1, OTimestamp t2) \<Rightarrow> cmp3 (sint t1) (sint t2) | _ \<Rightarrow> 1)"

text \<open>The two words of the 16 bytes of a UUID in memory.\<close>

definition le64 :: "byte list \<Rightarrow> 64 word" where
  "le64 bs = word_of_int (horner_sum uint 256 bs)"

definition uuid_of :: "byte list \<Rightarrow> cass_uuid" where
  "uuid_of bs = \<lparr>time_and_version = le64 (take 8 bs), clock_seq_and_node = le64 (take 8 (drop 8 bs))\<rparr>"

definition uuid_order :: "cass_uuid \<Rightarrow> cass_uuid \<Rightarrow> int" where
  "uuid_order u1 u2 =
     (if time_and_version u1 \<noteq> time_and_version u2 then (if time_and_version u1 < time_and_version u2 then - 1 else 1)
      else if clock_seq_and_node u1 \<noteq> clock_seq_and_node u2 then (if clock_seq_and_node u1 < clock_seq_and_node u2 then - 1 else 1)
      else 0)"

definition php_driver_timeuuid_compare :: "obj \<Rightarrow> obj \<Rightarrow> int" where
  "php_driver_timeuuid_compare obj1 obj2 =
     (if obj_class obj1 \<noteq> obj_class obj2 then 1
      else case (obj1, obj2) of (OUuid _ bs1, OUuid _ bs2) \<Rightarrow> uuid_order (uuid_of bs1) (uuid_of bs2) | _ \<Rightarrow> 1)"

text \<open>Single-precision numbers by their bits.\<close>

definition flt_isnan :: "32 word \<Rightarrow> bool" where
  "flt_isnan f \<longleftrightarrow> (uint f div 2 ^ 23) mod 2 ^ 8 = 255 \<and> uint f mod 2 ^ 23 \<noteq> 0"

definition float_to_bits :: "32 word \<Rightarrow> 32 word" where
  "float_to_bits v = (if flt_isnan v then 0x7fc00000 else v)"

definition php_driver_decimal_hash_value :: "gmp \<Rightarrow> obj \<Rightarrow> 32 word" where
  "php_driver_decimal_hash_value g obj =
     (case obj of ONumeric (NDecimal v scale) \<Rightarrow> php_driver_mpz_hash g (word_of_int scale) v | _ \<Rightarrow> 0)"

definition php_driver_varint_hash_value :: "gmp \<Rightarrow> obj \<Rightarrow> 32 word" where
  "php_driver_varint_hash_value g obj =
     (case obj of ONumeric (NVarint v) \<Rightarrow> php_driver_mpz_hash g 0 v | _ \<Rightarrow> 0)"

definition php_driver_float_hash_value :: "obj \<Rightarrow> 32 word" where
  "php_driver_float_hash_value obj = (case obj of ONumeric (NFloat f) \<Rightarrow> float_to_bits f | _ \<Rightarrow> 0)"

definition php_driver_duration_hash_value :: "obj \<Rightarrow> 32 word" where
  "php_driver_duration_hash_value obj =
     (case obj of
        ODuration months days nanos \<Rightarrow>
          (let hashv = php_driver_combine_hash 0 months;
               hashv = php_driver_combine_hash hashv days
           in php_driver_combine_hash hashv (ucast nanos))
      | _ \<Rightarrow> 0)"

section \<open>Handler tables\<close>

text \<open>
  What the \<^verbatim>\<open>define\<close> function of a class puts into the table of its objects: the standard handlers, and its
  own where a build for PHP 8.3 has the assignment. The slot \<^verbatim>\<open>hash_value\<close> lies behind the standard ones; it
  is null in the static tables that have it, and beyond the end of the tables that do not.
\<close>

record value_handlers =
  hd_compare :: "(obj \<Rightarrow> obj \<Rightarrow> int) option"
  hd_hash :: "(obj \<Rightarrow> 32 word) option"

definition std_handlers :: value_handlers where
  "std_handlers = \<lparr>hd_compare = None, hd_hash = None\<rparr>"

definition php_driver_define_Tinyint :: value_handlers where
  "php_driver_define_Tinyint = std_handlers\<lparr>hd_compare := Some php_driver_tinyint_compare\<rparr>"

definition php_driver_define_Smallint :: value_handlers where
  "php_driver_define_Smallint = std_handlers\<lparr>hd_compare := Some php_driver_smallint_compare\<rparr>"

definition php_driver_define_Bigint :: value_handlers where
  "php_driver_define_Bigint = std_handlers\<lparr>hd_compare := Some php_driver_bigint_compare\<rparr>"

definition php_driver_define_Varint :: "gmp \<Rightarrow> value_handlers" where
  "php_driver_define_Varint g = std_handlers\<lparr>hd_hash := Some (php_driver_varint_hash_value g)\<rparr>"

definition php_driver_define_Decimal :: "gmp \<Rightarrow> value_handlers" where
  "php_driver_define_Decimal g = std_handlers\<lparr>hd_hash := Some (php_driver_decimal_hash_value g)\<rparr>"

definition php_driver_define_Float :: value_handlers where
  "php_driver_define_Float = std_handlers\<lparr>hd_hash := Some php_driver_float_hash_value\<rparr>"

definition php_driver_define_Timestamp :: value_handlers where
  "php_driver_define_Timestamp = std_handlers\<lparr>hd_compare := Some php_driver_timestamp_compare\<rparr>"

definition php_driver_define_Time :: value_handlers where
  "php_driver_define_Time = std_handlers\<lparr>hd_compare := Some php_driver_time_compare\<rparr>"

definition php_driver_define_Timeuuid :: value_handlers where
  "php_driver_define_Timeuuid = std_handlers\<lparr>hd_compare := Some php_driver_timeuuid_compare\<rparr>"

definition php_driver_define_Duration :: value_handlers where
  "php_driver_define_Duration = std_handlers\<lparr>hd_hash := Some php_driver_duration_hash_value\<rparr>"

definition php_driver_define_Date :: value_handlers where
  "php_driver_define_Date = std_handlers"

definition php_driver_define_Blob :: value_handlers where
  "php_driver_define_Blob = std_handlers"

definition php_driver_define_Inet :: value_handlers where
  "php_driver_define_Inet = std_handlers"

definition php_driver_define_Uuid :: value_handlers where
  "php_driver_define_Uuid = std_handlers"

definition php_driver_define_Map :: value_handlers where
  "php_driver_define_Map = std_handlers"

definition php_driver_define_Collection :: value_handlers where
  "php_driver_define_Collection = std_handlers"

text \<open>The comparison of sets, tuples and user type values looks at the containers of both objects, which a heap has.\<close>

definition php_driver_define_Set :: "(obj \<Rightarrow> obj \<Rightarrow> int) \<Rightarrow> value_handlers" where
  "php_driver_define_Set compare = std_handlers\<lparr>hd_compare := Some compare\<rparr>"

definition php_driver_define_Tuple :: "(obj \<Rightarrow> obj \<Rightarrow> int) \<Rightarrow> value_handlers" where
  "php_driver_define_Tuple compare = std_handlers\<lparr>hd_compare := Some compare\<rparr>"

definition php_driver_define_UserTypeValue :: "(obj \<Rightarrow> obj \<Rightarrow> int) \<Rightarrow> value_handlers" where
  "php_driver_define_UserTypeValue compare = std_handlers\<lparr>hd_compare := Some compare\<rparr>"

text \<open>
  The engine of a process that has loaded the extension: the handlers by the class of an object. The
  comparison of the Zend engine, of two containers and the handlers of other classes are arguments.
\<close>

definition class_handlers :: "gmp \<Rightarrow> (obj \<Rightarrow> obj \<Rightarrow> int) \<Rightarrow> (string \<times> value_handlers) list" where
  "class_handlers g containers_compare =
     [(''Tinyint'', php_driver_define_Tinyint), (''Smallint'', php_driver_define_Smallint), (''Bigint'', php_driver_define_Bigint),
      (''Varint'', php_driver_define_Varint g), (''Decimal'', php_driver_define_Decimal g), (''Float'', php_driver_define_Float),
      (''Timestamp'', php_driver_define_Timestamp), (''Date'', php_driver_define_Date), (''Time'', php_driver_define_Time),
      (''Duration'', php_driver_define_Duration), (''Blob'', php_driver_define_Blob), (''Inet'', php_driver_define_Inet),
      (''Uuid'', php_driver_define_Uuid), (''Timeuuid'', php_driver_define_Timeuuid), (''Map'', php_driver_define_Map),
      (''Collection'', php_driver_define_Collection), (''Set'', php_driver_define_Set containers_compare),
      (''Tuple'', php_driver_define_Tuple containers_compare), (''UserTypeValue'', php_driver_define_UserTypeValue containers_compare)]"

record zend_env =
  ze_hash :: "string \<Rightarrow> 64 word"
  ze_strcmp :: "string \<Rightarrow> string \<Rightarrow> int"
  ze_std_compare :: "obj \<Rightarrow> obj \<Rightarrow> int"
  ze_gmp :: gmp
  ze_containers_compare :: "obj \<Rightarrow> obj \<Rightarrow> int"
  ze_other :: "string \<Rightarrow> value_handlers"

definition handlers_of :: "zend_env \<Rightarrow> obj \<Rightarrow> value_handlers" where
  "handlers_of z obj =
     (case map_of (class_handlers (ze_gmp z) (ze_containers_compare z)) (obj_class obj) of
        Some h \<Rightarrow> h | None \<Rightarrow> ze_other z (obj_class obj))"

definition loaded_engine :: "zend_env \<Rightarrow> engine" where
  "loaded_engine z =
     \<lparr>zend_inline_hash_func = ze_hash z, zend_binary_strcmp = ze_strcmp z,
      obj_compare = (\<lambda>a b. (case hd_compare (handlers_of z a) of Some f \<Rightarrow> f | None \<Rightarrow> ze_std_compare z) a b),
      obj_hash_value = (\<lambda>a. map_option (\<lambda>f. f a) (hd_hash (handlers_of z a)))\<rparr>"

section \<open>The generator of a process\<close>

text \<open>Processes that use generators: the first, forked ones, and what a request for a UUID leaves.\<close>

inductive uuid_process :: "int \<Rightarrow> uuid_world \<Rightarrow> bool" where
  started: "0 < pid \<Longrightarrow> uuid_process pid php_driver_ginit"
| forked: "uuid_process pid w \<Longrightarrow> 0 < pid' \<Longrightarrow> uuid_process pid' w"
| used: "uuid_process pid w \<Longrightarrow> get_uuid_gen pid w = Ok (g, w') \<Longrightarrow> uuid_process pid w'"

definition one_generator :: "uuid_world \<Rightarrow> bool" where
  "one_generator w \<longleftrightarrow>
     (case uuid_gen w of
        None \<Rightarrow> uuid_gen_pid w = 0 \<and> generators w = Map.empty
      | Some g \<Rightarrow> generators w = [g \<mapsto> uuid_gen_pid w] \<and> g < next_generator w)"

lemma get_uuid_gen_ok:
  assumes "one_generator w" and "0 < pid"
  shows "\<exists>g w'. get_uuid_gen pid w = Ok (Some g, w') \<and> one_generator w' \<and> uuid_gen w' = Some g \<and> uuid_gen_pid w' = pid \<and>
    (if uuid_gen_pid w = pid then w' = w else g = next_generator w)"
  using assms
  by (auto simp: get_uuid_gen_def generator_freed_def generator_made_def one_generator_def split: option.splits)

lemma uuid_process_inv: "uuid_process pid w \<Longrightarrow> 0 < pid \<and> one_generator w"
proof (induction rule: uuid_process.induct)
  case (started pid)
  then show ?case by (simp add: one_generator_def php_driver_ginit_def)
next
  case (used pid w g w')
  then obtain g' w'' where "get_uuid_gen pid w = Ok (Some g', w'')" "one_generator w''" using get_uuid_gen_ok [of w pid] by blast
  with used show ?case by simp
qed simp

text \<open>
  C35. A process that asks for a UUID always gets the one generator that exists, and a process of this very
  number made it: after a fork a new one is made, never used before, and the copy of the old one is
  freed. Shutting down frees the generator, and no freed one is used or freed again.
\<close>

theorem generator_of_process:
  assumes "uuid_process pid w"
  shows "(\<exists>g w'. get_uuid_gen pid w = Ok (Some g, w') \<and> generators w' = [g \<mapsto> pid] \<and>
      (uuid_gen_pid w \<noteq> pid \<longrightarrow> generators w g = None \<and> (\<forall>g' \<in> dom (generators w). g' < g))) \<and>
    (\<exists>w'. php_driver_gshutdown w = Ok w' \<and> generators w' = Map.empty)"
proof -
  have inv: "0 < pid" "one_generator w" using uuid_process_inv [OF assms] by simp_all
  have down: "\<exists>w'. php_driver_gshutdown w = Ok w' \<and> generators w' = Map.empty"
    using inv(2) by (auto simp: php_driver_gshutdown_def one_generator_def generator_freed_def split: option.splits)
  obtain g w' where g: "get_uuid_gen pid w = Ok (Some g, w')" "one_generator w'" "uuid_gen w' = Some g" "uuid_gen_pid w' = pid"
    "if uuid_gen_pid w = pid then w' = w else g = next_generator w"
    using get_uuid_gen_ok [OF inv(2,1)] by blast
  then have "generators w' = [g \<mapsto> pid]" by (simp add: one_generator_def)
  moreover have "uuid_gen_pid w \<noteq> pid \<longrightarrow> generators w g = None \<and> (\<forall>g' \<in> dom (generators w). g' < g)"
    using g(5) inv(2) by (auto simp: one_generator_def split: option.splits if_splits)
  ultimately show ?thesis using g(1) down by blast
qed

theorem generator_of_process_witness:
  "\<exists>w g w'. uuid_process 7 w \<and> uuid_gen_pid w = 5 \<and> get_uuid_gen 7 w = Ok (Some g, w') \<and> generators w' = [g \<mapsto> 7]"
proof -
  have "uuid_process 5 php_driver_ginit" by (rule uuid_process.started) simp
  then have "uuid_process 5 \<lparr>uuid_gen = Some 0, uuid_gen_pid = 5, generators = [0 \<mapsto> 5], next_generator = 1\<rparr>"
    by (rule uuid_process.used [where g = "Some 0"]) (simp add: get_uuid_gen_def generator_made_def php_driver_ginit_def)
  then have p: "uuid_process 7 \<lparr>uuid_gen = Some 0, uuid_gen_pid = 5, generators = [0 \<mapsto> 5], next_generator = 1\<rparr>"
    by (rule uuid_process.forked) simp
  then show ?thesis using generator_of_process [OF p] by fastforce
qed

section \<open>UUIDs and their text\<close>

lemma generate_ok:
  assumes "uuid_process pid w"
  shows "\<exists>g w'. generate gen pid out w = Ok (gen g, w')"
  using get_uuid_gen_ok [of w pid] uuid_process_inv [OF assms] by (auto simp: generate_def)

text \<open>
  C36. A \<^verbatim>\<open>Timeuuid\<close> whose constructor returns is a UUID of version 1, and its text makes it again, as a
  \<^verbatim>\<open>Timeuuid\<close> and as a \<^verbatim>\<open>Uuid\<close>; a constructor without an argument or with a time that is not negative always
  returns. The text of a UUID of another version is refused, but the object has that UUID then.
\<close>

theorem timeuuid_version:
  assumes "uuids lib" and "uuid_process pid w"
  shows "(case php_driver_timeuuid_init lib n pid arg self w of
      (u, Ok _, w') \<Rightarrow> cass_uuid_version lib u = 1 \<and>
        php_driver_timeuuid_init lib n pid (Some (ZString (cass_uuid_string lib u))) self w = (u, Ok (), w) \<and>
        php_driver_uuid_init lib n pid (Some (cass_uuid_string lib u)) self w = (u, Ok (), w)
    | (u, Throw e, w') \<Rightarrow> e = InvalidArgumentException \<and> w' = w \<and> arg \<noteq> None \<and> (\<forall>l. arg = Some (ZLong l) \<longrightarrow> sint l < 0)
    | (u, UB, w') \<Rightarrow> False) \<and>
    (cass_uuid_version lib v \<noteq> 1 \<longrightarrow>
      php_driver_timeuuid_init lib n pid (Some (ZString (cass_uuid_string lib v))) self w = (v, Throw InvalidArgumentException, w))"
proof -
  note laws = uuids.from_text [OF assms(1)] uuids.no_nul [OF assms(1)] uuids.time_version [OF assms(1)] uuids.from_time_version [OF assms(1)]
  have again: "php_driver_uuid_init lib n pid (Some (cass_uuid_string lib u)) self w = (u, Ok (), w)" for u
    by (simp add: php_driver_uuid_init_def laws cstr_id)
  have time_again: "php_driver_timeuuid_init lib n pid (Some (ZString (cass_uuid_string lib u))) self w =
      (u, if cass_uuid_version lib u = 1 then Ok () else Throw InvalidArgumentException, w)" for u
    by (simp add: php_driver_timeuuid_init_def laws cstr_id)
  obtain g w1 where g: "php_driver_uuid_generate_time lib n pid self w = Ok (cass_uuid_gen_time lib g n, w1)"
    using generate_ok [OF assms(2)] unfolding php_driver_uuid_generate_time_def by blast
  have t: "\<exists>g w1. php_driver_uuid_generate_from_time lib n l pid self w = Ok (cass_uuid_gen_from_time lib g l n, w1)" for l
    using generate_ok [OF assms(2)] unfolding php_driver_uuid_generate_from_time_def by blast
  show ?thesis
  proof (intro conjI impI)
    show "case php_driver_timeuuid_init lib n pid arg self w of
      (u, Ok _, w') \<Rightarrow> cass_uuid_version lib u = 1 \<and>
        php_driver_timeuuid_init lib n pid (Some (ZString (cass_uuid_string lib u))) self w = (u, Ok (), w) \<and>
        php_driver_uuid_init lib n pid (Some (cass_uuid_string lib u)) self w = (u, Ok (), w)
    | (u, Throw e, w') \<Rightarrow> e = InvalidArgumentException \<and> w' = w \<and> arg \<noteq> None \<and> (\<forall>l. arg = Some (ZLong l) \<longrightarrow> sint l < 0)
    | (u, UB, w') \<Rightarrow> False"
    proof (cases arg)
      case None
      then show ?thesis using g by (simp add: time_again again php_driver_timeuuid_init_def [of _ _ _ None] generated_def laws)
    next
      case (Some z)
      show ?thesis
      proof (cases z)
        case (ZLong l)
        obtain g w1 where "php_driver_uuid_generate_from_time lib n l pid self w = Ok (cass_uuid_gen_from_time lib g l n, w1)" using t by blast
        then show ?thesis using Some ZLong
          by (simp add: time_again again php_driver_timeuuid_init_def [of _ _ _ "Some (ZLong l)"] generated_def laws)
      next
        case (ZString s)
        then show ?thesis using Some
          by (cases "cass_uuid_from_string lib (cstr s) self")
            (simp add: time_again again php_driver_timeuuid_init_def [of _ _ _ "Some (ZString s)"])
      qed (use Some in \<open>simp_all add: php_driver_timeuuid_init_def\<close>)
    qed
  qed (simp add: time_again)
qed

text \<open>UUIDs that print their number.\<close>

definition uuid_ref :: uuid_lib where
  "uuid_ref = \<lparr>
     cass_uuid_from_string = (\<lambda>s u.
       let n = fst (scan_digits 10 0 s)
       in (s \<noteq> [] \<and> snd (scan_digits 10 0 s) = [], \<lparr>time_and_version = word_of_nat (n div 2 ^ 64), clock_seq_and_node = word_of_nat n\<rparr>)),
     cass_uuid_string = (\<lambda>u. show_nat 10 (unat (time_and_version u) * 2 ^ 64 + unat (clock_seq_and_node u))),
     cass_uuid_version = (\<lambda>u. unat (drop_bit 60 (time_and_version u))),
     cass_uuid_timestamp = (\<lambda>u. take_bit 60 (time_and_version u) div 10000),
     cass_uuid_gen_random = (\<lambda>g n. \<lparr>time_and_version = push_bit 62 1, clock_seq_and_node = word_of_nat n\<rparr>),
     cass_uuid_gen_time = (\<lambda>g n. \<lparr>time_and_version = push_bit 60 1, clock_seq_and_node = word_of_nat n\<rparr>),
     cass_uuid_gen_from_time = (\<lambda>g t n. \<lparr>time_and_version = push_bit 60 1 OR take_bit 60 (t * 10000), clock_seq_and_node = word_of_nat n\<rparr>)\<rparr>"

lemma version_one: "unat (drop_bit 60 (push_bit 60 1 OR take_bit 60 t) :: 64 word) = 1"
proof -
  have "drop_bit 60 (push_bit 60 1 OR take_bit 60 t) = (1 :: 64 word)" by (rule bit_word_eqI) (auto simp: bit_simps)
  then show ?thesis by (simp only: unsigned_1)
qed

lemma word_zero: "(18446744073709551616 :: 64 word) = 0"
  by simp

interpretation uuid_ref: uuids uuid_ref
proof
  fix u u' :: cass_uuid and g n :: nat and t :: "64 word"
  let ?n = "unat (time_and_version u) * 2 ^ 64 + unat (clock_seq_and_node u)"
  have "unat (clock_seq_and_node u) < 2 ^ 64" using unsigned_less [of "clock_seq_and_node u"] by simp
  then have "?n div 2 ^ 64 = unat (time_and_version u)" by simp
  moreover have "(word_of_nat ?n :: 64 word) = clock_seq_and_node u"
    by (simp add: word_zero)
  ultimately show "cass_uuid_from_string uuid_ref (cass_uuid_string uuid_ref u) u' = (True, u)"
    using scan_digits_show_nat [of 10 "[]" ?n] by (simp add: uuid_ref_def num_end_def)
  show "NUL \<notin> set (cass_uuid_string uuid_ref u)"
    using show_nat_digits [of 10 ?n] by (auto simp: uuid_ref_def dest: digit_in_no_nul)
  show "cass_uuid_version uuid_ref (cass_uuid_gen_time uuid_ref g n) = 1"
    using version_one [of 0] by (simp add: uuid_ref_def)
  show "cass_uuid_version uuid_ref (cass_uuid_gen_from_time uuid_ref g t n) = 1"
    using version_one [of "t * 10000"] by (simp only: uuid_ref_def uuid_lib.simps cass_uuid.simps)
qed

theorem timeuuid_version_witness:
  "\<exists>u w'. php_driver_timeuuid_init uuid_ref 0 5 None u php_driver_ginit = (u, Ok (), w') \<and> cass_uuid_version uuid_ref u = 1"
proof -
  have p: "uuid_process 5 php_driver_ginit" by (rule uuid_process.started) simp
  let ?u = "\<lparr>time_and_version = push_bit 60 1, clock_seq_and_node = 0\<rparr>"
  have "\<exists>w'. php_driver_timeuuid_init uuid_ref 0 5 None ?u php_driver_ginit = (?u, Ok (), w')"
    by (simp add: php_driver_timeuuid_init_def generated_def php_driver_uuid_generate_time_def generate_def get_uuid_gen_def
        generator_made_def php_driver_ginit_def uuid_ref_def)
  then show ?thesis using timeuuid_version [OF uuid_ref.uuids_axioms p, where n = 0 and arg = None and self = ?u] by fastforce
qed

section \<open>Blobs and their text\<close>

lemma hex_char: "n < 16 \<Longrightarrow> hex_str ! n = digit_char n"
proof -
  assume "n < 16"
  moreover have "\<forall>n \<in> set [0..<16]. hex_str ! n = digit_char n" by code_simp
  ultimately show ?thesis by simp
qed

lemma hex_of_bytes:
  "concat (map (\<lambda>b. [hex_str ! (unat b div 16), hex_str ! (unat b mod 16)]) bs) = to_hex (map (\<lambda>b. char_of (unat b)) (bs :: byte list))"
proof (induction bs)
  case (Cons b bs)
  have "unat b < 256" using unsigned_less [of b] by simp
  with Cons show ?case by (simp add: hex_char div_less_iff_less_mult)
qed simp

lemma word_byte: "of_char (char_of (unat b)) = (b :: byte)"
proof -
  have "(of_char (char_of (unat b)) :: byte) = word_of_nat (of_char (char_of (unat b)))" by (simp only: of_nat_of_char)
  also have "(of_char (char_of (unat b)) :: nat) = unat b mod 256" by (simp only: of_char_of)
  also have "\<dots> = unat b" using unsigned_less [of b, where 'a = nat] by simp
  finally show ?thesis by simp
qed

text \<open>
  The text of a blob is \<^verbatim>\<open>0x\<close> and two hexadecimal digits for each byte, from which the bytes can be read;
  \<^verbatim>\<open>toBinaryString\<close> gives a string that makes the same blob. Longer blobs overflow the length of the text.
\<close>

theorem blob_text:
  assumes "length bs \<le> 1073741822"
  shows "\<exists>hex. blob_bytes bs = Ok (''0x'' @ hex) \<and> length hex = 2 * length bs \<and>
    php_driver_from_hex hex = Some (blob_to_binary_string bs) \<and>
    php_driver_blob_init (blob_to_binary_string bs) None = (Some bs, 0)"
proof -
  let ?hex = "to_hex (map (\<lambda>b. char_of (unat b)) bs)"
  have s: "sint (word_of_nat (length bs) :: 32 word) = int (length bs)"
    using assms sint_of_int_in [where 'a = 32, of "int (length bs)"] by (simp add: in_int_def)
  have "blob_bytes bs = Ok (''0x'' @ ?hex)"
    using assms by (simp add: blob_bytes_def php_driver_bytes_to_hex_def s in_int_def hex_of_bytes)
  moreover have "length (to_hex cs) = 2 * length cs" for cs by (induction cs) simp_all
  moreover have "php_driver_blob_init (blob_to_binary_string bs) None = (Some bs, 0)"
    by (simp add: php_driver_blob_init_def blob_to_binary_string_def comp_def word_byte)
  ultimately show ?thesis using from_to_hex by (simp add: blob_to_binary_string_def)
qed

theorem blob_text_witness:
  "\<exists>hex. blob_bytes [0, 171] = Ok (''0x'' @ hex) \<and> php_driver_from_hex hex = Some [CHR 0x00, CHR 0xAB]"
proof -
  have "char_of (0 :: nat) = CHR 0x00" "char_of (171 :: nat) = CHR 0xAB" by code_simp+
  then show ?thesis using blob_text [of "[0, 171]"] by (auto simp: blob_to_binary_string_def)
qed

section \<open>Values as keys\<close>

lemma uuid_order_0: "uuid_order u v = 0 \<longleftrightarrow> u = v"
  by (auto simp: uuid_order_def)

lemma uuid_order_sym: "uuid_order u v = - uuid_order v u"
  by (auto simp: uuid_order_def)

lemma sint_eq: "sint a = sint b \<longleftrightarrow> a = (b :: 'a::len word)"
  using signed_word_eqI by auto

text \<open>The classes with a comparison of their own, those with a hash, and what an object of one of the first is compared by.\<close>

definition compared_classes :: "string set" where
  "compared_classes = {''Tinyint'', ''Smallint'', ''Bigint'', ''Timestamp'', ''Time'', ''Timeuuid''}"

definition hashed_classes :: "string set" where
  "hashed_classes = {''Varint'', ''Decimal'', ''Float'', ''Duration''}"

definition driver_classes :: "string set" where
  "driver_classes = compared_classes \<union> hashed_classes \<union>
     {''Date'', ''Blob'', ''Inet'', ''Uuid'', ''Map'', ''Collection'', ''Set'', ''Tuple'', ''UserTypeValue''}"

fun key_of :: "obj \<Rightarrow> int list" where
  "key_of (ONumeric (NTinyint v)) = [sint v]"
| "key_of (ONumeric (NSmallint v)) = [sint v]"
| "key_of (ONumeric (NBigint v)) = [sint v]"
| "key_of (OTimestamp t) = [sint t]"
| "key_of (OTime t) = [sint t]"
| "key_of (OUuid c bs) = [uint (time_and_version (uuid_of bs)), uint (clock_seq_and_node (uuid_of bs))]"
| "key_of _ = []"

lemma uuid_eq: "u = (v :: cass_uuid) \<longleftrightarrow> uint (time_and_version u) = uint (time_and_version v) \<and> uint (clock_seq_and_node u) = uint (clock_seq_and_node v)"
  by (cases u; cases v) (simp add: word_uint_eq_iff)

text \<open>Objects of a class are represented by the constructor of the class.\<close>

definition proper :: "obj \<Rightarrow> bool" where
  "proper a \<longleftrightarrow>
     (case a of
        OUuid c _ \<Rightarrow> c \<in> {''Uuid'', ''Timeuuid''}
      | OTyped c _ _ \<Rightarrow> c \<in> {''Set'', ''Map'', ''Collection'', ''Tuple'', ''UserTypeValue''}
      | OOther c _ \<Rightarrow> c \<notin> driver_classes
      | _ \<Rightarrow> True)"

lemmas class_defs = compared_classes_def hashed_classes_def driver_classes_def

lemmas define_defs = php_driver_define_Tinyint_def php_driver_define_Smallint_def php_driver_define_Bigint_def
  php_driver_define_Varint_def php_driver_define_Decimal_def php_driver_define_Float_def php_driver_define_Timestamp_def
  php_driver_define_Date_def php_driver_define_Time_def php_driver_define_Duration_def php_driver_define_Blob_def
  php_driver_define_Inet_def php_driver_define_Uuid_def php_driver_define_Timeuuid_def php_driver_define_Map_def
  php_driver_define_Collection_def php_driver_define_Set_def php_driver_define_Tuple_def php_driver_define_UserTypeValue_def
  std_handlers_def

lemma hash_installed: "obj_class a \<in> driver_classes \<Longrightarrow> hd_hash (handlers_of z a) \<noteq> None \<longleftrightarrow> obj_class a \<in> hashed_classes"
  unfolding class_defs by (elim UnE insertE emptyE; simp add: handlers_of_def class_handlers_def define_defs)

lemma compare_installed:
  assumes "proper a" and "obj_class a \<in> compared_classes"
  shows "obj_compare (loaded_engine z) a b =
    (case a of
       ONumeric (NTinyint _) \<Rightarrow> php_driver_tinyint_compare a b
     | ONumeric (NSmallint _) \<Rightarrow> php_driver_smallint_compare a b
     | ONumeric (NBigint _) \<Rightarrow> php_driver_bigint_compare a b
     | OTimestamp _ \<Rightarrow> php_driver_timestamp_compare a b
     | OTime _ \<Rightarrow> php_driver_time_compare a b
     | _ \<Rightarrow> php_driver_timeuuid_compare a b)"
  using assms
  by (cases a rule: key_of.cases)
    (auto simp: proper_def class_defs loaded_engine_def handlers_of_def class_handlers_def define_defs split: if_splits)

lemmas compare_defs = php_driver_tinyint_compare_def php_driver_smallint_compare_def php_driver_bigint_compare_def
  php_driver_timestamp_compare_def php_driver_time_compare_def php_driver_timeuuid_compare_def

lemma compare_other_class:
  "proper a \<Longrightarrow> obj_class a \<in> compared_classes \<Longrightarrow> obj_class a \<noteq> obj_class b \<Longrightarrow> obj_compare (loaded_engine z) a b = 1"
  by (cases a rule: key_of.cases) (auto simp: compare_installed compare_defs)

lemma compared_shape:
  assumes "proper a" and "obj_class a \<in> compared_classes"
  obtains v where "a = ONumeric (NTinyint v)" | v where "a = ONumeric (NSmallint v)" | v where "a = ONumeric (NBigint v)"
  | t where "a = OTimestamp t" | t where "a = OTime t" | bs where "a = OUuid ''Timeuuid'' bs"
  using assms by (cases a rule: key_of.cases) (auto simp: proper_def class_defs split: if_splits)

lemma same_shape:
  assumes "proper a" and "proper b" and "obj_class a \<in> compared_classes" and "obj_class a = obj_class b"
  obtains v w where "a = ONumeric (NTinyint v)" "b = ONumeric (NTinyint w)"
  | v w where "a = ONumeric (NSmallint v)" "b = ONumeric (NSmallint w)"
  | v w where "a = ONumeric (NBigint v)" "b = ONumeric (NBigint w)"
  | t u where "a = OTimestamp t" "b = OTimestamp u" | t u where "a = OTime t" "b = OTime u"
  | bs cs where "a = OUuid ''Timeuuid'' bs" "b = OUuid ''Timeuuid'' cs"
proof -
  have b: "obj_class b \<in> compared_classes" using assms(3,4) by simp
  show thesis
    using compared_shape [OF assms(1,3)]
  proof cases
    case (1 v)
    then show thesis using that(1) assms(4) by (cases rule: compared_shape [OF assms(2) b]) auto
  next
    case (2 v)
    then show thesis using that(2) assms(4) by (cases rule: compared_shape [OF assms(2) b]) auto
  next
    case (3 v)
    then show thesis using that(3) assms(4) by (cases rule: compared_shape [OF assms(2) b]) auto
  next
    case (4 t)
    then show thesis using that(4) assms(4) by (cases rule: compared_shape [OF assms(2) b]) auto
  next
    case (5 t)
    then show thesis using that(5) assms(4) by (cases rule: compared_shape [OF assms(2) b]) auto
  next
    case (6 bs)
    then show thesis using that(6) assms(4) by (cases rule: compared_shape [OF assms(2) b]) auto
  qed
qed

lemma timeuuid_compare: "php_driver_timeuuid_compare (OUuid c bs) (OUuid c cs) = uuid_order (uuid_of bs) (uuid_of cs)"
  by (simp add: php_driver_timeuuid_compare_def)

lemma compare_same_class:
  assumes "proper a" and "proper b" and "obj_class a \<in> compared_classes" and "obj_class a = obj_class b"
  shows "obj_compare (loaded_engine z) a b = 0 \<longleftrightarrow> key_of a = key_of b"
    and "obj_compare (loaded_engine z) a b = - obj_compare (loaded_engine z) b a"
proof -
  have b: "obj_class b \<in> compared_classes" using assms(3,4) by simp
  note cmp = compare_installed [OF assms(1,3), of z b] compare_installed [OF assms(2) b, of z a]
  have "(obj_compare (loaded_engine z) a b = 0 \<longleftrightarrow> key_of a = key_of b) \<and>
      obj_compare (loaded_engine z) a b = - obj_compare (loaded_engine z) b a"
    using assms
  proof (cases rule: same_shape)
    case (6 bs cs)
    then show ?thesis using uuid_order_sym [of "uuid_of bs" "uuid_of cs"]
      unfolding cmp by (auto simp: timeuuid_compare uuid_order_0 uuid_eq)
  qed (unfold cmp, auto simp: php_driver_tinyint_compare_def php_driver_smallint_compare_def php_driver_bigint_compare_def
      php_driver_timestamp_compare_def php_driver_time_compare_def sint_eq cmp3_def)
  then show "obj_compare (loaded_engine z) a b = 0 \<longleftrightarrow> key_of a = key_of b"
    and "obj_compare (loaded_engine z) a b = - obj_compare (loaded_engine z) b a" by blast+
qed


definition zend_ref :: zend_env where
  "zend_ref = \<lparr>ze_hash = zend_hash_ref, ze_strcmp = strcmp_ref, ze_std_compare = (\<lambda>a b. if obj_class a = obj_class b then 0 else 1),
     ze_gmp = gmp_ref, ze_containers_compare = (\<lambda>_ _. 1), ze_other = (\<lambda>_. std_handlers)\<rparr>"


text \<open>
  What follows for sets of objects: no object of a class without a hash can be added to one, and in a set
  of decimals, with an engine that finds objects of one class equal that have no PHP properties, a number is
  taken for another one of the same bucket.
\<close>

lemma object_not_added:
  assumes "obj_class a \<in> driver_classes" and "obj_class a \<notin> hashed_classes"
    and "php_driver_validate_object (ZObject a) ty = Ok True"
  shows "php_driver_set_add (loaded_engine z) (php_driver_set_new ty) (ZObject a) = UB"
proof -
  have "obj_hash_value (loaded_engine z) a = None"
    using hash_installed [OF assms(1), of z] assms(2) by (simp add: loaded_engine_def)
  then show ?thesis
    using assms(3) by (simp add: php_driver_set_add_def php_driver_set_new_def set_find_def find_zval_def add_zval_def)
qed

lemma same_bucket:
  assumes "php_driver_value_hash e a = Ok h" and "php_driver_value_hash e b = Ok k" and "hash_to_bkt h 32 = hash_to_bkt k 32"
    and "php_driver_value_compare e a b = 0" and "z_type a \<noteq> 1" and "z_type b \<noteq> 1"
    and "php_driver_validate_object a ty = Ok True" and "php_driver_validate_object b ty = Ok True"
  shows "\<exists>s. php_driver_set_add e (php_driver_set_new ty) a = Ok (s, True) \<and> set_values s = [a] \<and> php_driver_set_add e s b = Ok (s, True)"
proof -
  let ?t = "hash_add (zval_hash e) None a 0"
  have hash: "zval_hash e a = h" "zval_hash e b = k" using assms(1,2) by (simp_all add: zval_hash_def)
  have bkt: "hash_to_bkt k 32 < 32" using hash_to_bkt_less [of k 5] by simp
  define t where "t = the ?t"
  have t: "?t = Some t" by (simp add: t_def hash_add_def Let_def)
  have "num_buckets t = 32" "hh_head (buckets t ! hash_to_bkt k 32) = [0]" "order t = [0]" "handles t = [0 \<mapsto> (a, h)]"
    using bkt by (simp_all add: t_def hash_add_def hash_make_table_def hash_add_to_bkt_def Let_def empty_bucket_def hash assms(3))
  then have "hash_find (zval_hash e) (php_driver_value_compare e) (Some t) b = Some 0" "ut_keys (Some t) = [a]"
    using assms(4) by (simp_all add: hash_find_def hash ut_keys_def hash_iter_def)
  then show ?thesis using assms
    by (simp add: php_driver_set_add_def php_driver_set_new_def set_find_def find_zval_def add_zval_def t set_values_def)
qed

lemma decimals_share_bucket:
  "\<exists>s. php_driver_set_add (loaded_engine zend_ref) (php_driver_set_new (TScalar CASS_DECIMAL)) (ZObject (ONumeric (NDecimal 1 0))) = Ok (s, True) \<and>
     set_values s = [ZObject (ONumeric (NDecimal 1 0))] \<and>
     php_driver_set_add (loaded_engine zend_ref) s (ZObject (ONumeric (NDecimal 33 0))) = Ok (s, True)"
proof (rule same_bucket)
  have hash: "php_driver_value_hash (loaded_engine zend_ref) (ZObject (ONumeric (NDecimal n 0))) =
      Ok (php_driver_mpz_hash gmp_ref 0 n)" for n
    by (simp add: loaded_engine_def handlers_of_def class_handlers_def define_defs zend_ref_def php_driver_decimal_hash_value_def)
  show "php_driver_value_hash (loaded_engine zend_ref) (ZObject (ONumeric (NDecimal 1 0))) = Ok (php_driver_mpz_hash gmp_ref 0 1)"
    "php_driver_value_hash (loaded_engine zend_ref) (ZObject (ONumeric (NDecimal 33 0))) = Ok (php_driver_mpz_hash gmp_ref 0 33)"
    by (rule hash)+
  show "hash_to_bkt (php_driver_mpz_hash gmp_ref 0 1) 32 = hash_to_bkt (php_driver_mpz_hash gmp_ref 0 33) 32"
    by (simp add: php_driver_mpz_hash_def gmp_ref_def limbs_ref.simps hash_to_bkt_def php_driver_combine_hash_def php_driver_bigint_hash_def)
  show "php_driver_value_compare (loaded_engine zend_ref) (ZObject (ONumeric (NDecimal 1 0))) (ZObject (ONumeric (NDecimal 33 0))) = 0"
    by (simp add: php_driver_value_compare_def loaded_engine_def handlers_of_def class_handlers_def define_defs zend_ref_def)
qed (simp_all add: php_driver_validate_object_def expecting_def instance_of_def)

end
