(* ===== verification/Spec2Isabelle.thy ===== *)
theory Spec2Isabelle
  imports Php_Map Php_Collection Php_Tuple Php_Udt Num_Decimal Varint Decimal Twos_Complement Inet
    Execution_Options Cluster_Builder Cass_Result Paging_Loop Value_Objects
begin

text \<open>
  The PHP driver for Apache Cassandra: header to be completed.
\<close>

end
